(* ===== verification/Prelude.thy ===== *)
theory Prelude
  imports Main "HOL-Library.Word"
begin

text \<open>
  Shared vocabulary of the development: the integer and pointer types of the State Threads
  sources, the \<open>errno\<close> values the library returns, the bit flags kept in the \<open>flags\<close> word of a
  thread, and the generic lemmas and lemma collections used by the component theories.
\<close>

unbundle bit_operations_syntax

section \<open>Types\<close>

text \<open>
  \<open>st_utime_t\<close> is an \<open>unsigned long long\<close> (st.h), so additions to a clock value wrap at 64 bits.
  Objects the C code addresses through pointers (threads, condition variables, mutexes, poll
  requests) are numbered; a nullable pointer to such an object is an \<open>option\<close>. Opaque \<open>void*\<close>
  values handed in by the application are numbers, with 0 for \<open>NULL\<close>.
\<close>

type_synonym utime = "64 word"
type_synonym tid = nat
type_synonym cid = nat
type_synonym mid = nat
type_synonym pqid = nat
type_synonym ptr = nat

definition ST_UTIME_NO_TIMEOUT :: utime where
  "ST_UTIME_NO_TIMEOUT = - 1"

text \<open>
  The \<open>errno\<close> values the library sets itself. A C function that sets \<open>errno\<close> and returns
  \<open>-1\<close> is modelled by a result \<open>Inl e\<close>, a successful return of \<open>v\<close> by \<open>Inr v\<close>.
\<close>

datatype errno = EINTR | EINVAL | EBUSY | EDEADLK | EPERM | ETIME | EAGAIN | EBADF
  | EISCONN | ENOSYS | EMSGSIZE | EACCES | EFAULT | EMFILE | ENOTSOCK | EDESTADDRREQ
  | EPROTOTYPE | ENOPROTOOPT | EOPNOTSUPP | EADDRINUSE | EADDRNOTAVAIL | ECONNABORTED
  | ECONNRESET | ENOTCONN | ETIMEDOUT | ECONNREFUSED | EHOSTUNREACH | ESYS int

section \<open>Lemma collections\<close>

named_theorems flag_simps \<open>reading a flag word after it was written\<close>
named_theorems clist_simps \<open>reading the link fields of a circular list after a write\<close>
named_theorems heap_simps \<open>reading the fields of the timeout heap after a write\<close>
named_theorems st_defs \<open>definitions of the scheduler operations\<close>

section \<open>Lists\<close>

lemma last_Cons_in: "last (a # xs) \<in> set (a # xs)"
  by (rule last_in_set) simp

lemma hd_snoc_in: "hd (xs @ [b]) \<in> set (xs @ [b])"
  by (cases xs) auto

lemma remove1_map_inj: "inj f \<Longrightarrow> remove1 (f x) (map f xs) = map f (remove1 x xs)"
  by (induction xs) (auto dest: injD)

lemma mod_once: "m \<le> a \<Longrightarrow> a < 2 * m \<Longrightarrow> a mod m = a - (m :: nat)"
  by (metis le_mod_geq mod_less mult_2 less_diff_conv2)

lemma utime_less: "unat (x :: utime) < 2 ^ 64"
  using unsigned_less [of x] by simp

section \<open>Flag words\<close>

text \<open>
  \<open>thread->flags\<close> is a C \<open>int\<close> used as a bit set. \<open>flag_on\<close>, \<open>flag_set\<close> and \<open>flag_clr\<close> are the
  three idioms of the sources: \<open>flags & m\<close>, \<open>flags |= m\<close> and \<open>flags &= ~m\<close>.
\<close>

type_synonym flagword = "32 word"

definition flag_on :: "flagword \<Rightarrow> flagword \<Rightarrow> bool" where
  "flag_on f m \<longleftrightarrow> f AND m \<noteq> 0"

definition flag_set :: "flagword \<Rightarrow> flagword \<Rightarrow> flagword" where
  "flag_set f m = f OR m"

definition flag_clr :: "flagword \<Rightarrow> flagword \<Rightarrow> flagword" where
  "flag_clr f m = f AND NOT m"

definition ST_FL_PRIMORDIAL :: flagword where "ST_FL_PRIMORDIAL = 0x01"
definition ST_FL_IDLE_THREAD :: flagword where "ST_FL_IDLE_THREAD = 0x02"
definition ST_FL_ON_SLEEPQ :: flagword where "ST_FL_ON_SLEEPQ = 0x04"
definition ST_FL_INTERRUPT :: flagword where "ST_FL_INTERRUPT = 0x08"
definition ST_FL_TIMEDOUT :: flagword where "ST_FL_TIMEDOUT = 0x10"

lemmas fl_defs = ST_FL_PRIMORDIAL_def ST_FL_IDLE_THREAD_def ST_FL_ON_SLEEPQ_def
  ST_FL_INTERRUPT_def ST_FL_TIMEDOUT_def

lemma flag_on_set: "flag_on (flag_set f m) m' \<longleftrightarrow> flag_on f m' \<or> flag_on m m'"
  by (auto simp: flag_on_def flag_set_def word_ao_dist or_eq_0_iff)

lemma flag_on_clr_self: "\<not> flag_on (flag_clr f m) m"
  by (simp add: flag_on_def flag_clr_def word_bw_assocs)

lemma flag_on_clr_other: "m AND m' = 0 \<Longrightarrow> flag_on (flag_clr f m) m' \<longleftrightarrow> flag_on f m'"
proof -
  assume d: "m AND m' = 0"
  have "m' AND NOT m = m'"
  proof (rule bit_eqI)
    fix n
    have "bit (m AND m') n = bit (0::32 word) n" by (simp only: d)
    then have "\<not> (bit m n \<and> bit m' n)" by (simp add: bit_and_iff)
    then show "bit (m' AND NOT m) n = bit m' n"
      by (auto simp: bit_and_iff bit_not_iff dest: bit_imp_le_length)
  qed
  then have "(f AND NOT m) AND m' = f AND m'"
    by (simp add: ac_simps)
  then show ?thesis by (simp add: flag_on_def flag_clr_def)
qed

lemma flag_on_zero [simp]: "\<not> flag_on 0 m"
  by (simp add: flag_on_def)

text \<open>The five flags are distinct bits, so an update of one is invisible to a test of another.\<close>

lemma flag_set_tests [flag_simps]:
  "flag_on (flag_set f ST_FL_ON_SLEEPQ) ST_FL_ON_SLEEPQ"
  "flag_on (flag_set f ST_FL_INTERRUPT) ST_FL_INTERRUPT"
  "flag_on (flag_set f ST_FL_TIMEDOUT) ST_FL_TIMEDOUT"
  "flag_on (flag_set f ST_FL_ON_SLEEPQ) ST_FL_INTERRUPT \<longleftrightarrow> flag_on f ST_FL_INTERRUPT"
  "flag_on (flag_set f ST_FL_ON_SLEEPQ) ST_FL_TIMEDOUT \<longleftrightarrow> flag_on f ST_FL_TIMEDOUT"
  "flag_on (flag_set f ST_FL_ON_SLEEPQ) ST_FL_IDLE_THREAD \<longleftrightarrow> flag_on f ST_FL_IDLE_THREAD"
  "flag_on (flag_set f ST_FL_INTERRUPT) ST_FL_ON_SLEEPQ \<longleftrightarrow> flag_on f ST_FL_ON_SLEEPQ"
  "flag_on (flag_set f ST_FL_INTERRUPT) ST_FL_TIMEDOUT \<longleftrightarrow> flag_on f ST_FL_TIMEDOUT"
  "flag_on (flag_set f ST_FL_INTERRUPT) ST_FL_IDLE_THREAD \<longleftrightarrow> flag_on f ST_FL_IDLE_THREAD"
  "flag_on (flag_set f ST_FL_TIMEDOUT) ST_FL_ON_SLEEPQ \<longleftrightarrow> flag_on f ST_FL_ON_SLEEPQ"
  "flag_on (flag_set f ST_FL_TIMEDOUT) ST_FL_INTERRUPT \<longleftrightarrow> flag_on f ST_FL_INTERRUPT"
  "flag_on (flag_set f ST_FL_TIMEDOUT) ST_FL_IDLE_THREAD \<longleftrightarrow> flag_on f ST_FL_IDLE_THREAD"
  by (simp_all add: flag_on_set) (simp_all add: flag_on_def fl_defs)

lemma flag_clr_tests [flag_simps]:
  "\<not> flag_on (flag_clr f m) m"
  "flag_on (flag_clr f ST_FL_ON_SLEEPQ) ST_FL_INTERRUPT \<longleftrightarrow> flag_on f ST_FL_INTERRUPT"
  "flag_on (flag_clr f ST_FL_ON_SLEEPQ) ST_FL_TIMEDOUT \<longleftrightarrow> flag_on f ST_FL_TIMEDOUT"
  "flag_on (flag_clr f ST_FL_ON_SLEEPQ) ST_FL_IDLE_THREAD \<longleftrightarrow> flag_on f ST_FL_IDLE_THREAD"
  "flag_on (flag_clr f ST_FL_INTERRUPT) ST_FL_ON_SLEEPQ \<longleftrightarrow> flag_on f ST_FL_ON_SLEEPQ"
  "flag_on (flag_clr f ST_FL_INTERRUPT) ST_FL_TIMEDOUT \<longleftrightarrow> flag_on f ST_FL_TIMEDOUT"
  "flag_on (flag_clr f ST_FL_INTERRUPT) ST_FL_IDLE_THREAD \<longleftrightarrow> flag_on f ST_FL_IDLE_THREAD"
  "flag_on (flag_clr f ST_FL_TIMEDOUT) ST_FL_ON_SLEEPQ \<longleftrightarrow> flag_on f ST_FL_ON_SLEEPQ"
  "flag_on (flag_clr f ST_FL_TIMEDOUT) ST_FL_INTERRUPT \<longleftrightarrow> flag_on f ST_FL_INTERRUPT"
  "flag_on (flag_clr f ST_FL_TIMEDOUT) ST_FL_IDLE_THREAD \<longleftrightarrow> flag_on f ST_FL_IDLE_THREAD"
  by (simp_all add: flag_on_clr_self flag_on_clr_other fl_defs)

end
