(* ===== verification/Clist.thy ===== *)
theory Clist
  imports Prelude
begin

text \<open>
  The intrusive circular lists of common.h (\<open>_st_clist_t\<close> and the \<open>ST_*\<close> macros) and of
  extensions/common.h (\<open>stx_clist_t\<close> and the \<open>STX_CLIST_*\<close> macros). A list node is an address of
  an arbitrary type \<open>'n\<close>; the memory is the pair of link fields of all nodes, so stale links,
  unlinked nodes and several lists in one memory are all representable. The macros are translated
  assignment by assignment; \<open>is_clist\<close> relates a memory to the list of nodes it represents, and
  the lemmas show that the macros are the expected list operations on it.
\<close>

section \<open>Link memory and the list macros\<close>

record 'n links =
  lnext :: "'n \<Rightarrow> 'n option"
  lprev :: "'n \<Rightarrow> 'n option"

definition set_next :: "'n \<Rightarrow> 'n option \<Rightarrow> 'n links \<Rightarrow> 'n links" where
  "set_next a v h = h\<lparr>lnext := (lnext h)(a := v)\<rparr>"

definition set_prev :: "'n \<Rightarrow> 'n option \<Rightarrow> 'n links \<Rightarrow> 'n links" where
  "set_prev a v h = h\<lparr>lprev := (lprev h)(a := v)\<rparr>"

definition ST_INSERT_BEFORE :: "'n \<Rightarrow> 'n \<Rightarrow> 'n links \<Rightarrow> 'n links" where
  "ST_INSERT_BEFORE e l h =
    (let h = set_next e (Some l) h;
         h = set_prev e (lprev h l) h;
         h = (case lprev h l of None \<Rightarrow> h | Some p \<Rightarrow> set_next p (Some e) h)
     in set_prev l (Some e) h)"

definition ST_INSERT_AFTER :: "'n \<Rightarrow> 'n \<Rightarrow> 'n links \<Rightarrow> 'n links" where
  "ST_INSERT_AFTER e l h =
    (let h = set_next e (lnext h l) h;
         h = set_prev e (Some l) h;
         h = (case lnext h l of None \<Rightarrow> h | Some n \<Rightarrow> set_prev n (Some e) h)
     in set_next l (Some e) h)"

definition ST_APPEND_LINK :: "'n \<Rightarrow> 'n \<Rightarrow> 'n links \<Rightarrow> 'n links" where
  "ST_APPEND_LINK e l h = ST_INSERT_BEFORE e l h"

definition ST_INSERT_LINK :: "'n \<Rightarrow> 'n \<Rightarrow> 'n links \<Rightarrow> 'n links" where
  "ST_INSERT_LINK e l h = ST_INSERT_AFTER e l h"

definition ST_LIST_HEAD :: "'n \<Rightarrow> 'n links \<Rightarrow> 'n option" where
  "ST_LIST_HEAD l h = lnext h l"

definition ST_LIST_TAIL :: "'n \<Rightarrow> 'n links \<Rightarrow> 'n option" where
  "ST_LIST_TAIL l h = lprev h l"

definition ST_REMOVE_LINK :: "'n \<Rightarrow> 'n links \<Rightarrow> 'n links" where
  "ST_REMOVE_LINK e h =
    (let h = (case lprev h e of None \<Rightarrow> h | Some p \<Rightarrow> set_next p (lnext h e) h)
     in (case lnext h e of None \<Rightarrow> h | Some n \<Rightarrow> set_prev n (lprev h e) h))"

definition ST_CLIST_IS_EMPTY :: "'n \<Rightarrow> 'n links \<Rightarrow> bool" where
  "ST_CLIST_IS_EMPTY l h \<longleftrightarrow> lnext h l = Some l"

definition ST_INIT_CLIST :: "'n \<Rightarrow> 'n links \<Rightarrow> 'n links" where
  "ST_INIT_CLIST l h = set_prev l (Some l) (set_next l (Some l) h)"

text \<open>
  The extension's macros have no \<open>NULL\<close> tests: following a \<open>NULL\<close> link is undefined behaviour,
  the result \<open>None\<close>.
\<close>

definition STX_CLIST_INSERT_BEFORE :: "'n \<Rightarrow> 'n \<Rightarrow> 'n links \<Rightarrow> 'n links option" where
  "STX_CLIST_INSERT_BEFORE e l h =
    (let h = set_next e (Some l) h;
         h = set_prev e (lprev h l) h
     in (case lprev h l of None \<Rightarrow> None
         | Some p \<Rightarrow> Some (set_prev l (Some e) (set_next p (Some e) h))))"

definition STX_CLIST_INSERT_AFTER :: "'n \<Rightarrow> 'n \<Rightarrow> 'n links \<Rightarrow> 'n links option" where
  "STX_CLIST_INSERT_AFTER e l h =
    (let h = set_next e (lnext h l) h;
         h = set_prev e (Some l) h
     in (case lnext h l of None \<Rightarrow> None
         | Some n \<Rightarrow> Some (set_next l (Some e) (set_prev n (Some e) h))))"

definition STX_CLIST_APPEND_LINK :: "'n \<Rightarrow> 'n \<Rightarrow> 'n links \<Rightarrow> 'n links option" where
  "STX_CLIST_APPEND_LINK e l h = STX_CLIST_INSERT_BEFORE e l h"

definition STX_CLIST_HEAD :: "'n \<Rightarrow> 'n links \<Rightarrow> 'n option" where
  "STX_CLIST_HEAD l h = lnext h l"

definition STX_CLIST_TAIL :: "'n \<Rightarrow> 'n links \<Rightarrow> 'n option" where
  "STX_CLIST_TAIL l h = lprev h l"

definition STX_CLIST_REMOVE_LINK :: "'n \<Rightarrow> 'n links \<Rightarrow> 'n links option" where
  "STX_CLIST_REMOVE_LINK e h =
    (case lprev h e of None \<Rightarrow> None
     | Some p \<Rightarrow>
        (let h = set_next p (lnext h e) h
         in (case lnext h e of None \<Rightarrow> None | Some n \<Rightarrow> Some (set_prev n (lprev h e) h))))"

definition STX_CLIST_IS_EMPTY :: "'n \<Rightarrow> 'n links \<Rightarrow> bool" where
  "STX_CLIST_IS_EMPTY l h \<longleftrightarrow> lnext h l = Some l"

definition STX_CLIST_INIT_CLIST :: "'n \<Rightarrow> 'n links \<Rightarrow> 'n links" where
  "STX_CLIST_INIT_CLIST l h = set_prev l (Some l) (set_next l (Some l) h)"

section \<open>The list a memory represents\<close>

fun linked :: "'n links \<Rightarrow> 'n \<Rightarrow> 'n list \<Rightarrow> 'n \<Rightarrow> bool" where
  "linked h a [] b \<longleftrightarrow> lnext h a = Some b \<and> lprev h b = Some a"
| "linked h a (x # xs) b \<longleftrightarrow> lnext h a = Some x \<and> lprev h x = Some a \<and> linked h x xs b"

definition is_clist :: "'n links \<Rightarrow> 'n \<Rightarrow> 'n list \<Rightarrow> bool" where
  "is_clist h q xs \<longleftrightarrow> linked h q xs q \<and> distinct (q # xs)"

lemma link_reads [simp, clist_simps]:
  "lnext (set_next a v h) = (lnext h)(a := v)"
  "lprev (set_next a v h) = lprev h"
  "lprev (set_prev a v h) = (lprev h)(a := v)"
  "lnext (set_prev a v h) = lnext h"
  by (simp_all add: set_next_def set_prev_def)

lemma linked_append:
  "linked h a (xs @ y # ys) b \<longleftrightarrow> linked h a xs y \<and> linked h y ys b"
  by (induction xs arbitrary: a) auto

lemma linked_cong:
  assumes "\<And>y. y \<in> set (a # xs) \<Longrightarrow> lnext h' y = lnext h y"
    and "\<And>y. y \<in> set (xs @ [b]) \<Longrightarrow> lprev h' y = lprev h y"
  shows "linked h' a xs b \<longleftrightarrow> linked h a xs b"
  using assms by (induction xs arbitrary: a) auto

lemma linked_next_in: "linked h a xs b \<Longrightarrow> y \<in> set (a # xs) \<Longrightarrow> \<exists>z \<in> set (xs @ [b]). lnext h y = Some z"
  by (induction xs arbitrary: a) auto

lemma linked_prev_in: "linked h a xs b \<Longrightarrow> y \<in> set (xs @ [b]) \<Longrightarrow> \<exists>z \<in> set (a # xs). lprev h y = Some z"
  by (induction xs arbitrary: a) auto

lemma linked_last: "linked h a xs b \<Longrightarrow> lprev h b = Some (last (a # xs))"
  by (induction xs arbitrary: a) auto

lemma linked_first: "linked h a xs b \<Longrightarrow> lnext h a = Some (hd (xs @ [b]))"
  by (cases xs) auto

text \<open>A circular list is symmetric: every element is linked both ways to its neighbours.\<close>

lemma is_clist_split:
  "is_clist h q (xs @ e # ys) \<longleftrightarrow>
     linked h q xs e \<and> linked h e ys q \<and> distinct (q # xs @ e # ys)"
  by (auto simp: is_clist_def linked_append)

lemma is_clist_cong:
  assumes "\<And>y. y \<in> set (q # xs) \<Longrightarrow> lnext h' y = lnext h y \<and> lprev h' y = lprev h y"
  shows "is_clist h' q xs \<longleftrightarrow> is_clist h q xs"
  using linked_cong [of q xs h' h q] assms by (auto simp: is_clist_def)

lemma is_clist_empty [simp]: "is_clist h q [] \<longleftrightarrow> lnext h q = Some q \<and> lprev h q = Some q"
  by (simp add: is_clist_def)

lemma is_clist_head: "is_clist h q xs \<Longrightarrow> lnext h q = Some (case xs of [] \<Rightarrow> q | x # _ \<Rightarrow> x)"
  by (cases xs) (auto simp: is_clist_def)

lemma is_clist_tail: "is_clist h q xs \<Longrightarrow> lprev h q = Some (last (q # xs))"
  by (auto simp: is_clist_def dest: linked_last)

lemma is_clist_next: "is_clist h q (xs @ e # ys) \<Longrightarrow> lnext h e = Some (hd (ys @ [q]))"
  by (auto simp: is_clist_split dest: linked_first)

lemma is_clist_prev: "is_clist h q (xs @ e # ys) \<Longrightarrow> lprev h e = Some (last (q # xs))"
  by (auto simp: is_clist_split dest: linked_last)

lemma linked_det: "linked h a xs b \<Longrightarrow> linked h a ys b \<Longrightarrow> b \<notin> set xs \<Longrightarrow> b \<notin> set ys \<Longrightarrow> xs = ys"
proof (induction xs arbitrary: a ys)
  case Nil
  then show ?case by (cases ys) auto
next
  case (Cons x xs)
  then show ?case by (cases ys) auto
qed

lemma is_clist_det: "is_clist h q xs \<Longrightarrow> is_clist h q ys \<Longrightarrow> xs = ys"
  by (auto simp: is_clist_def intro: linked_det)

text \<open>Two lists in one memory whose heads are not elements of the other have no node in common.\<close>

lemma linked_same_end:
  "linked h e zs q \<Longrightarrow> linked h e zs' r \<Longrightarrow> q \<notin> set zs' \<Longrightarrow> r \<notin> set zs \<Longrightarrow> q = r"
proof (induction zs arbitrary: e zs')
  case Nil
  then show ?case by (cases zs') auto
next
  case (Cons z zs)
  then show ?case by (cases zs') auto
qed

lemma is_clist_disjoint:
  assumes "is_clist h q xs" and "is_clist h r ys" and "q \<noteq> r" and "q \<notin> set ys" and "r \<notin> set xs"
  shows "set (q # xs) \<inter> set (r # ys) = {}"
proof -
  have "e \<notin> set ys" if xs: "e \<in> set xs" for e
  proof
    assume ys: "e \<in> set ys"
    obtain us vs where "xs = us @ e # vs" using split_list [OF xs] by blast
    moreover obtain us' vs' where "ys = us' @ e # vs'" using split_list [OF ys] by blast
    ultimately show False
      using assms linked_same_end [of h e vs q vs' r] by (auto simp: is_clist_split)
  qed
  then show ?thesis using assms by auto
qed

section \<open>The macros on represented lists\<close>

lemma insert_before_linked:
  assumes "linked h a xs l" and "e \<noteq> l" and "e \<notin> set (a # xs)" and "distinct (a # xs)" and "l \<notin> set xs"
  shows "linked (ST_INSERT_BEFORE e l h) a (xs @ [e]) l"
proof -
  have p: "lprev h l = Some (last (a # xs))"
    using assms(1) by (rule linked_last)
  have ne: "last (a # xs) \<noteq> e" using assms(3) last_Cons_in by metis
  show ?thesis
  proof (cases xs rule: rev_cases)
    case Nil
    with assms p show ?thesis by (simp add: ST_INSERT_BEFORE_def)
  next
    case (snoc ys y)
    have ll: "linked h a ys y" and lh: "lnext h y = Some l"
      using assms(1) snoc by (auto simp: linked_append)
    have "linked (ST_INSERT_BEFORE e l h) a ys y"
    proof (rule linked_cong [THEN iffD2, OF _ _ ll])
      fix z assume "z \<in> set (a # ys)"
      then show "lnext (ST_INSERT_BEFORE e l h) z = lnext h z"
        using assms snoc p by (auto simp: ST_INSERT_BEFORE_def)
    next
      fix z assume "z \<in> set (ys @ [y])"
      then show "lprev (ST_INSERT_BEFORE e l h) z = lprev h z"
        using assms snoc p by (auto simp: ST_INSERT_BEFORE_def)
    qed
    then show ?thesis
      using assms snoc p by (auto simp: linked_append ST_INSERT_BEFORE_def)
  qed
qed

text \<open>Inserting before any node of the ring (the head included) puts \<open>e\<close> right in front of it.\<close>

lemma insert_before_frame:
  assumes "lprev h l = Some p" and "y \<noteq> e"
  shows "y \<noteq> p \<Longrightarrow> lnext (ST_INSERT_BEFORE e l h) y = lnext h y"
    and "y \<noteq> l \<Longrightarrow> lprev (ST_INSERT_BEFORE e l h) y = lprev h y"
  using assms by (auto simp: ST_INSERT_BEFORE_def split: option.splits)

lemma append_link_clist:
  assumes "is_clist h q xs" and "e \<notin> set (q # xs)"
  shows "is_clist (ST_APPEND_LINK e q h) q (xs @ [e])"
  using assms insert_before_linked [of h q xs q e]
  by (auto simp: is_clist_def ST_APPEND_LINK_def)

lemma insert_before_clist:
  assumes "is_clist h q (xs @ l # ys)" and "e \<notin> set (q # xs @ l # ys)"
  shows "is_clist (ST_INSERT_BEFORE e l h) q (xs @ e # l # ys)"
proof -
  have l1: "linked h q xs l" and l2: "linked h l ys q" and d: "distinct (q # xs @ l # ys)"
    using assms(1) by (auto simp: is_clist_split)
  have p: "lprev h l = Some (last (q # xs))" using l1 by (rule linked_last)
  have pin: "last (q # xs) \<in> set (q # xs)" by (rule last_Cons_in)
  have "linked (ST_INSERT_BEFORE e l h) q (xs @ [e]) l"
    by (rule insert_before_linked [OF l1]) (use assms(2) d in auto)
  moreover have "linked (ST_INSERT_BEFORE e l h) l ys q"
  proof (rule linked_cong [THEN iffD2, OF _ _ l2])
    fix z assume z: "z \<in> set (l # ys)"
    then have "z \<noteq> e" and "z \<noteq> last (q # xs)" using assms(2) d pin by auto
    then show "lnext (ST_INSERT_BEFORE e l h) z = lnext h z"
      by (rule insert_before_frame(1) [OF p])
  next
    fix z assume z: "z \<in> set (ys @ [q])"
    then have "z \<noteq> e" and "z \<noteq> l" using assms(2) d by auto
    then show "lprev (ST_INSERT_BEFORE e l h) z = lprev h z"
      by (rule insert_before_frame(2) [OF p])
  qed
  ultimately show ?thesis
    using assms(2) d by (auto simp: is_clist_def linked_append)
qed

lemma insert_link_clist:
  assumes "is_clist h q xs" and "e \<notin> set (q # xs)"
  shows "is_clist (ST_INSERT_LINK e q h) q (e # xs)"
proof (cases xs)
  case Nil
  then show ?thesis using assms by (auto simp: ST_INSERT_LINK_def ST_INSERT_AFTER_def is_clist_def)
next
  case (Cons y ys)
  have yl: "linked h y ys q" and n: "lnext h q = Some y" and d: "distinct (q # y # ys)"
    using assms(1) Cons by (auto simp: is_clist_def)
  have "linked (ST_INSERT_LINK e q h) y ys q"
    by (rule linked_cong [THEN iffD2, OF _ _ yl])
      (use assms(2) Cons n d in \<open>auto simp: ST_INSERT_LINK_def ST_INSERT_AFTER_def\<close>)
  then show ?thesis
    using assms(2) Cons n d by (auto simp: is_clist_def ST_INSERT_LINK_def ST_INSERT_AFTER_def)
qed

lemma remove_link_linked:
  assumes "linked h a xs e" and "linked h e ys b" and "distinct (a # xs)" and "distinct (ys @ [b])"
    and "e \<notin> set (a # xs @ ys @ [b])" and "set xs \<inter> set (ys @ [b]) = {}" and "a \<notin> set ys"
  shows "linked (ST_REMOVE_LINK e h) a (xs @ ys) b"
proof -
  define h' where "h' = ST_REMOVE_LINK e h"
  have p: "lprev h e = Some (last (a # xs))" using assms(1) by (rule linked_last)
  have n: "lnext h e = Some (hd (ys @ [b]))" using assms(2) by (rule linked_first)
  have e: "last (a # xs) \<noteq> e" "hd (ys @ [b]) \<noteq> e"
    using assms(5) last_Cons_in [of a xs] hd_snoc_in [of ys b] by auto
  have h': "lnext h' = (lnext h)(last (a # xs) := Some (hd (ys @ [b])))"
    "lprev h' = (lprev h)(hd (ys @ [b]) := Some (last (a # xs)))"
    using p n e by (auto simp: h'_def ST_REMOVE_LINK_def fun_eq_iff)
  have mid: "linked h' a xs (hd (ys @ [b])) "
    using assms(1) h' assms(3,5,6)
  proof (induction xs arbitrary: a rule: rev_induct)
    case Nil
    then show ?case by simp
  next
    case (snoc x xs)
    have "linked h' a xs x"
      by (rule linked_cong [THEN iffD2, of _ _ _ h])
        (use snoc.prems in \<open>auto simp: linked_append hd_append split: if_splits\<close>)
    then show ?case using snoc.prems by (auto simp: linked_append)
  qed
  show ?thesis
  proof (cases ys)
    case Nil
    with mid show ?thesis by (simp add: h'_def)
  next
    case (Cons y zs)
    have nin: "last (a # xs) \<notin> set ys" using assms(6,7) last_Cons_in [of a xs] by auto
    have yl: "linked h y zs b" using assms(2) Cons by simp
    have "linked h' y zs b"
    proof (rule linked_cong [THEN iffD2, OF _ _ yl])
      fix z assume "z \<in> set (y # zs)"
      with nin Cons have "z \<noteq> last (a # xs)" by metis
      then show "lnext h' z = lnext h z" unfolding h' by (rule fun_upd_other)
    next
      fix z assume "z \<in> set (zs @ [b])"
      with assms(4) Cons have "z \<noteq> hd (ys @ [b])" by auto
      then show "lprev h' z = lprev h z" unfolding h' by (rule fun_upd_other)
    qed
    with mid Cons show ?thesis by (simp add: linked_append h'_def)
  qed
qed

lemma remove_link_clist:
  assumes "is_clist h q xs" and "e \<in> set xs"
  shows "is_clist (ST_REMOVE_LINK e h) q (remove1 e xs)"
proof -
  obtain ys zs where xs: "xs = ys @ e # zs" and e: "e \<notin> set ys"
    using split_list_first [OF assms(2)] by blast
  have d: "distinct (q # ys @ e # zs)" and l: "linked h q ys e" "linked h e zs q"
    using assms(1) by (auto simp: xs is_clist_split)
  have "linked (ST_REMOVE_LINK e h) q (ys @ zs) q"
    by (rule remove_link_linked [OF l]) (use d in auto)
  then show ?thesis
    using d e by (simp add: xs is_clist_def remove1_append)
qed

lemma init_clist: "is_clist (ST_INIT_CLIST q h) q []"
  by (simp add: ST_INIT_CLIST_def)

lemma is_empty_clist: "is_clist h q xs \<Longrightarrow> ST_CLIST_IS_EMPTY q h \<longleftrightarrow> xs = []"
  by (cases xs) (auto simp: is_clist_def ST_CLIST_IS_EMPTY_def)

lemma append_link_other:
  assumes "is_clist h q xs" and "is_clist h r ys" and "set (q # xs) \<inter> set (r # ys) = {}"
    and "e \<notin> set (r # ys)"
  shows "is_clist (ST_APPEND_LINK e q h) r ys"
proof (rule is_clist_cong [THEN iffD2, OF _ assms(2)])
  fix y assume y: "y \<in> set (r # ys)"
  have p: "lprev h q = Some (last (q # xs))" using assms(1) by (rule is_clist_tail)
  have "last (q # xs) \<in> set (q # xs)" by (rule last_Cons_in)
  with y assms(3,4) have "y \<noteq> e" "y \<noteq> last (q # xs)" "y \<noteq> q" by auto
  then show "lnext (ST_APPEND_LINK e q h) y = lnext h y \<and> lprev (ST_APPEND_LINK e q h) y = lprev h y"
    using insert_before_frame [OF p, of y e] by (simp add: ST_APPEND_LINK_def)
qed

lemma remove_link_other:
  assumes "is_clist h q xs" and "e \<in> set xs" and "is_clist h r ys" and "set (q # xs) \<inter> set (r # ys) = {}"
  shows "is_clist (ST_REMOVE_LINK e h) r ys"
proof (rule is_clist_cong [THEN iffD2, OF _ assms(3)])
  fix y assume y: "y \<in> set (r # ys)"
  obtain us vs where xs: "xs = us @ e # vs" using split_list [OF assms(2)] by blast
  have l: "is_clist h q (us @ e # vs)" using assms(1) xs by simp
  define p n where "p = last (q # us)" and "n = hd (vs @ [q])"
  have p: "lprev h e = Some p" "p \<in> set (q # us)"
    unfolding p_def using is_clist_prev [OF l] last_Cons_in by metis+
  have n: "lnext h e = Some n" "n \<in> set (vs @ [q])"
    unfolding n_def using is_clist_next [OF l] hd_snoc_in by metis+
  from p n have "y \<noteq> p" "y \<noteq> n" using y assms(4) xs by auto
  then show "lnext (ST_REMOVE_LINK e h) y = lnext h y \<and> lprev (ST_REMOVE_LINK e h) y = lprev h y"
    using p(1) n(1) by (auto simp: ST_REMOVE_LINK_def)
qed

text \<open>
  On a well-formed list the extension's macros never follow a \<open>NULL\<close> link and do what the library's macros do.
\<close>

lemma stx_append_link:
  assumes "is_clist h q xs" and "e \<notin> set (q # xs)"
  shows "STX_CLIST_APPEND_LINK e q h = Some (ST_APPEND_LINK e q h)"
  using is_clist_tail [OF assms(1)] assms(2)
  by (auto simp: STX_CLIST_APPEND_LINK_def STX_CLIST_INSERT_BEFORE_def ST_APPEND_LINK_def ST_INSERT_BEFORE_def Let_def)

lemma stx_insert_after:
  assumes "is_clist h q xs" and "e \<notin> set (q # xs)"
  shows "STX_CLIST_INSERT_AFTER e q h = Some (ST_INSERT_LINK e q h)"
  using is_clist_head [OF assms(1)] assms(2)
  by (auto simp: STX_CLIST_INSERT_AFTER_def ST_INSERT_LINK_def ST_INSERT_AFTER_def Let_def)

lemma stx_remove_link:
  assumes "is_clist h q xs" and "e \<in> set xs"
  shows "STX_CLIST_REMOVE_LINK e h = Some (ST_REMOVE_LINK e h)"
proof -
  obtain ys zs where xs: "xs = ys @ e # zs" using assms(2) by (auto simp: in_set_conv_decomp)
  have n: "lnext h e = Some (hd (zs @ [q]))" and p: "lprev h e = Some (last (q # ys))"
    using is_clist_next is_clist_prev assms(1) unfolding xs by fast+
  have "distinct (q # ys @ e # zs)" using assms(1) by (simp add: is_clist_def xs)
  then have "last (q # ys) \<noteq> e" by auto
  then show ?thesis using n p by (auto simp: STX_CLIST_REMOVE_LINK_def ST_REMOVE_LINK_def Let_def)
qed

section \<open>Queues of linked nodes as an interface\<close>

text \<open>
  What the scheduler, the condition variables and the I/O queue rely on: elements are appended at
  the end and removed from anywhere, and an operation on one queue leaves every other queue of the
  same memory alone. \<open>holds h q xs\<close> says that the queue with head \<open>q\<close> contains exactly \<open>xs\<close>, in order.
\<close>

locale link_queue =
  fixes append :: "'n \<Rightarrow> 'n \<Rightarrow> 'h \<Rightarrow> 'h"
    and remove :: "'n \<Rightarrow> 'h \<Rightarrow> 'h"
    and holds :: "'h \<Rightarrow> 'n \<Rightarrow> 'n list \<Rightarrow> bool"
  assumes holds_distinct: "holds h q xs \<Longrightarrow> distinct (q # xs)"
    and holds_append: "holds h q xs \<Longrightarrow> e \<notin> set (q # xs) \<Longrightarrow> holds (append e q h) q (xs @ [e])"
    and holds_remove: "holds h q xs \<Longrightarrow> e \<in> set xs \<Longrightarrow> holds (remove e h) q (remove1 e xs)"
    and append_frame: "holds h q xs \<Longrightarrow> holds h r ys \<Longrightarrow> set (q # xs) \<inter> set (r # ys) = {} \<Longrightarrow>
      e \<notin> set (r # ys) \<Longrightarrow> holds (append e q h) r ys"
    and remove_frame: "holds h q xs \<Longrightarrow> e \<in> set xs \<Longrightarrow> holds h r ys \<Longrightarrow>
      set (q # xs) \<inter> set (r # ys) = {} \<Longrightarrow> holds (remove e h) r ys"
begin

lemma move_between:
  assumes "holds h q xs" and "holds h r ys" and "set (q # xs) \<inter> set (r # ys) = {}" and "e \<in> set xs"
  shows "holds (append e r (remove e h)) q (remove1 e xs)"
    and "holds (append e r (remove e h)) r (ys @ [e])"
proof -
  have q: "holds (remove e h) q (remove1 e xs)" and r: "holds (remove e h) r ys"
    using assms holds_remove remove_frame by blast+
  have sub: "set (remove1 e xs) \<subseteq> set xs" by (rule set_remove1_subset)
  have d: "distinct (q # xs)" using assms(1) by (rule holds_distinct)
  have e: "e \<notin> set (r # ys)" using assms(3,4) by auto
  have e': "e \<notin> set (q # remove1 e xs)" using d assms(4) by (auto simp: set_remove1_eq)
  show "holds (append e r (remove e h)) r (ys @ [e])" using r e by (rule holds_append)
  show "holds (append e r (remove e h)) q (remove1 e xs)"
    using append_frame [OF r q _ e'] assms(3) sub by auto
qed

lemma rotate_first:
  assumes "holds h q (x # xs)"
  shows "holds (append x q (remove x h)) q (xs @ [x])"
proof -
  have "holds (remove x h) q xs" using holds_remove [OF assms, of x] by simp
  moreover have "x \<notin> set (q # xs)" using holds_distinct [OF assms] by auto
  ultimately show ?thesis by (rule holds_append)
qed

end

interpretation stq: link_queue ST_APPEND_LINK ST_REMOVE_LINK is_clist
proof unfold_locales
  show "distinct (q # xs)" if "is_clist h q xs" for h :: "'a links" and q xs
    using that by (simp add: is_clist_def)
qed (fact append_link_clist remove_link_clist append_link_other remove_link_other)+

end
