(* ===== verification/Timeout_Heap.thy ===== *)
theory Timeout_Heap
  imports Prelude "HOL-Library.Tree" "HOL-Library.Multiset"
begin

text \<open>
  The timeout heap of sched.c: sleeping threads form a binary heap ordered by wake-up time, linked
  through the \<open>left\<close> and \<open>right\<close> pointers of the thread objects and addressed by a binary index
  (\<open>heap_index\<close>: the root is 1, the children of \<open>i\<close> are \<open>2i\<close> and \<open>2i+1\<close>). The memory is modelled
  field by field, a pointer to a pointer (\<open>_st_thread_t **\<close>) by a \<open>slot\<close>. \<open>heap_insert\<close>,
  \<open>heap_delete\<close>, \<open>_st_add_sleep_q\<close> and \<open>_st_del_sleep_q\<close> follow the C statements; a result
  \<open>None\<close> is a null dereference or a loop that never ends. The lemmas show that the operations are
  safe on a well-formed heap, keep it well formed, and insert and delete exactly one thread.
\<close>

section \<open>State and operations\<close>

record theap =
  due :: "tid \<Rightarrow> utime"
  left :: "tid \<Rightarrow> tid option"
  right :: "tid \<Rightarrow> tid option"
  heap_index :: "tid \<Rightarrow> nat"
  sleep_q :: "tid option"
  sleepq_size :: nat

datatype slot = Root | LeftOf tid | RightOf tid

fun slot_get :: "theap \<Rightarrow> slot \<Rightarrow> tid option" where
  "slot_get h Root = sleep_q h"
| "slot_get h (LeftOf t) = left h t"
| "slot_get h (RightOf t) = right h t"

fun slot_set :: "slot \<Rightarrow> tid option \<Rightarrow> theap \<Rightarrow> theap" where
  "slot_set Root v h = h\<lparr>sleep_q := v\<rparr>"
| "slot_set (LeftOf t) v h = h\<lparr>left := (left h)(t := v)\<rparr>"
| "slot_set (RightOf t) v h = h\<lparr>right := (right h)(t := v)\<rparr>"

definition set_index :: "tid \<Rightarrow> nat \<Rightarrow> theap \<Rightarrow> theap" where
  "set_index t i h = h\<lparr>heap_index := (heap_index h)(t := i)\<rparr>"

text \<open>\<open>while (s) { s >>= 1; bits++; }\<close>\<close>

fun bit_count :: "nat \<Rightarrow> nat" where
  "bit_count s = (if s = 0 then 0 else Suc (bit_count (s div 2)))"

declare bit_count.simps [simp del]

text \<open>The \<open>for\<close> loop of \<open>heap_insert\<close>; the first argument is \<open>bit + 1\<close>.\<close>

fun heap_insert_loop :: "nat \<Rightarrow> nat \<Rightarrow> tid \<Rightarrow> slot \<Rightarrow> nat \<Rightarrow> theap \<Rightarrow> (tid \<times> slot \<times> nat \<times> theap) option" where
  "heap_insert_loop 0 target thread p index h = Some (thread, p, index, h)"
| "heap_insert_loop (Suc b) target thread p index h =
    (case slot_get h p of None \<Rightarrow> None
     | Some t \<Rightarrow>
        (let (thread, h, top) =
               (if due h thread < due h t
                then (t, set_index thread index
                           (slot_set p (Some thread)
                              (slot_set (RightOf thread) (right h t)
                                 (slot_set (LeftOf thread) (left h t) h))), thread)
                else (thread, h, t));
             index = push_bit 1 index;
             (p, index) = (if bit target b then (RightOf top, index OR 1) else (LeftOf top, index))
         in if slot_get h p = None then Some (thread, p, index, h)
            else heap_insert_loop b target thread p index h))"

definition heap_insert :: "tid option \<Rightarrow> theap \<Rightarrow> (slot option \<times> theap) option" where
  "heap_insert thr h =
    (case thr of None \<Rightarrow> Some (None, h)
     | Some thread \<Rightarrow>
        (case (if sleep_q h \<noteq> None
               then (let target = heap_index h thread; bits = bit_count target
                     in map_option (\<lambda>(thread, p, index, h). (thread, p, set_index thread index h))
                          (heap_insert_loop (bits - 1) target thread Root 1 h))
               else Some (thread, Root, h)) of
           None \<Rightarrow> None
         | Some (thread, p, h) \<Rightarrow>
             Some (Some p,
               slot_set (LeftOf thread) None (slot_set (RightOf thread) None (slot_set p (Some thread) h)))))"

text \<open>The loop of \<open>heap_delete\<close> that walks to the last element.\<close>

fun heap_last_loop :: "nat \<Rightarrow> slot \<Rightarrow> theap \<Rightarrow> slot option" where
  "heap_last_loop 0 p h = Some p"
| "heap_last_loop (Suc b) p h =
    (case slot_get h p of None \<Rightarrow> None
     | Some n \<Rightarrow>
        (if bit (sleepq_size h) b
         then (if right h n = None then Some p else heap_last_loop b (RightOf n) h)
         else (if left h n = None then Some p else heap_last_loop b (LeftOf n) h)))"

text \<open>The \<open>for (;;)\<close> loop of \<open>heap_delete\<close> that moves \<open>t\<close> down below its younger children.\<close>

partial_function (option) heap_sift :: "slot \<Rightarrow> tid \<Rightarrow> theap \<Rightarrow> theap option" where
  "heap_sift p t h =
    (case left h t of None \<Rightarrow> Some h
     | Some l \<Rightarrow>
        (let y = (case right h t of None \<Rightarrow> l | Some r \<Rightarrow> if due h l < due h r then l else r)
         in if due h t > due h y
            then (let tl = left h y; tr = right h y;
                      h = slot_set p (Some y) h;
                      (h, p) =
                        (if Some y = left h t
                         then (let h = slot_set (LeftOf y) (Some t) h;
                                   h = slot_set (RightOf y) (right h t) h
                               in (h, LeftOf y))
                         else (let h = slot_set (LeftOf y) (left h t) h;
                                   h = slot_set (RightOf y) (Some t) h
                               in (h, RightOf y)));
                      h = slot_set (LeftOf t) tl h;
                      h = slot_set (RightOf t) tr h;
                      index_tmp = heap_index h t;
                      h = set_index t (heap_index h y) h;
                      h = set_index y index_tmp h
                  in heap_sift p t h)
            else Some h))"

definition heap_delete :: "tid \<Rightarrow> theap \<Rightarrow> theap option" where
  "heap_delete thread h =
    (case heap_last_loop (bit_count (sleepq_size h) - 1) Root h of None \<Rightarrow> None
     | Some p \<Rightarrow>
        (let t = slot_get h p;
             h = slot_set p None h;
             h = h\<lparr>sleepq_size := sleepq_size h - 1\<rparr>;
             finish = (\<lambda>h. slot_set (LeftOf thread) None (slot_set (RightOf thread) None h))
         in if t = Some thread then Some (finish h)
            else
              (let h = (case t of None \<Rightarrow> h | Some t \<Rightarrow> set_index t (heap_index h thread) h)
               in (case heap_insert t h of None \<Rightarrow> None
                   | Some (None, h) \<Rightarrow> Some h
                   | Some (Some p, h) \<Rightarrow>
                      (case slot_get h p of None \<Rightarrow> Some h
                       | Some t \<Rightarrow>
                          map_option finish
                            (heap_sift p t
                              (slot_set (RightOf t) (right h thread)
                                (slot_set (LeftOf t) (left h thread) h))))))))"

text \<open>
  The heap part of \<open>_st_add_sleep_q\<close>: \<open>thread->due\<close> is written, \<open>thread->heap_index = ++_ST_SLEEPQ_SIZE\<close>,
  then \<open>heap_insert(thread)\<close>.
\<close>

definition sleepq_add :: "tid \<Rightarrow> utime \<Rightarrow> theap \<Rightarrow> theap option" where
  "sleepq_add thread d h =
    (let h = h\<lparr>due := (due h)(thread := d)\<rparr>;
         h = h\<lparr>sleepq_size := Suc (sleepq_size h)\<rparr>;
         h = h\<lparr>heap_index := (heap_index h)(thread := sleepq_size h)\<rparr>
     in map_option snd (heap_insert (Some thread) h))"

section \<open>Trees in the heap memory\<close>

fun tree_at :: "theap \<Rightarrow> tid option \<Rightarrow> tid tree \<Rightarrow> bool" where
  "tree_at h p Leaf \<longleftrightarrow> p = None"
| "tree_at h p (Node l x r) \<longleftrightarrow> p = Some x \<and> tree_at h (left h x) l \<and> tree_at h (right h x) r"

definition child :: "bool \<Rightarrow> tid \<Rightarrow> slot" where
  "child b y = (if b then RightOf y else LeftOf y)"

text \<open>
  A context is a tree with a hole: from the root, the direction taken, the node passed and the
  subtree on the other side. \<open>path_at h p cs q\<close> says that following \<open>cs\<close> from slot \<open>p\<close> leads to slot
  \<open>q\<close>.
\<close>

type_synonym ctx = "(bool \<times> tid \<times> tid tree) list"

fun path_at :: "theap \<Rightarrow> slot \<Rightarrow> ctx \<Rightarrow> slot \<Rightarrow> bool" where
  "path_at h p [] q \<longleftrightarrow> p = q"
| "path_at h p ((b, y, s) # cs) q \<longleftrightarrow>
     slot_get h p = Some y \<and> tree_at h (slot_get h (child (\<not> b) y)) s \<and> path_at h (child b y) cs q"

fun plug :: "ctx \<Rightarrow> tid tree \<Rightarrow> tid tree" where
  "plug [] t = t"
| "plug ((b, y, s) # cs) t = (if b then Node s y (plug cs t) else Node (plug cs t) y s)"

fun ctx_list :: "ctx \<Rightarrow> tid list" where
  "ctx_list [] = []"
| "ctx_list ((b, y, s) # cs) = y # inorder s @ ctx_list cs"

definition dirs :: "ctx \<Rightarrow> bool list" where
  "dirs cs = map fst cs"

text \<open>Order, positions and indices.\<close>

fun heap_ord :: "(tid \<Rightarrow> utime) \<Rightarrow> tid tree \<Rightarrow> bool" where
  "heap_ord d Leaf \<longleftrightarrow> True"
| "heap_ord d (Node l x r) \<longleftrightarrow> (\<forall>y \<in> set_tree l \<union> set_tree r. d x \<le> d y) \<and> heap_ord d l \<and> heap_ord d r"

fun ctx_ord :: "(tid \<Rightarrow> utime) \<Rightarrow> ctx \<Rightarrow> tid set \<Rightarrow> bool" where
  "ctx_ord d [] N \<longleftrightarrow> True"
| "ctx_ord d ((b, y, s) # cs) N \<longleftrightarrow>
     heap_ord d s \<and> (\<forall>z \<in> set_tree s \<union> set (ctx_list cs) \<union> N. d y \<le> d z) \<and> ctx_ord d cs N"

fun paths :: "tid tree \<Rightarrow> bool list set" where
  "paths Leaf = {}"
| "paths (Node l x r) = {[]} \<union> Cons False ` paths l \<union> Cons True ` paths r"

definition go :: "nat \<Rightarrow> bool \<Rightarrow> nat" where
  "go i b = 2 * i + of_bool b"

abbreviation num :: "bool list \<Rightarrow> nat" where
  "num \<equiv> foldl go 1"

fun indexed :: "(tid \<Rightarrow> nat) \<Rightarrow> nat \<Rightarrow> tid tree \<Rightarrow> bool" where
  "indexed f i Leaf \<longleftrightarrow> True"
| "indexed f i (Node l x r) \<longleftrightarrow> f x = i \<and> indexed f (go i False) l \<and> indexed f (go i True) r"

fun ctx_indexed :: "(tid \<Rightarrow> nat) \<Rightarrow> nat \<Rightarrow> ctx \<Rightarrow> bool" where
  "ctx_indexed f i [] \<longleftrightarrow> True"
| "ctx_indexed f i ((b, y, s) # cs) \<longleftrightarrow>
     f y = i \<and> indexed f (go i (\<not> b)) s \<and> ctx_indexed f (go i b) cs"

text \<open>
  A well-formed timeout heap: the memory holds a tree of distinct threads, in heap order, every
  thread carries its own index, and the occupied positions are exactly \<open>1 \<dots> sleepq_size\<close>.
\<close>

definition heap_ok :: "theap \<Rightarrow> tid tree \<Rightarrow> bool" where
  "heap_ok h t \<longleftrightarrow> tree_at h (sleep_q h) t \<and> distinct (inorder t) \<and> heap_ord (due h) t \<and>
     indexed (heap_index h) 1 t \<and> paths t = {ps. num ps \<le> sleepq_size h} \<and> size t = sleepq_size h"

subsection \<open>Reading the memory after a write\<close>

lemma slot_get_set [simp, heap_simps]:
  "slot_get (slot_set p v h) q = (if p = q then v else slot_get h q)"
  by (cases p; cases q) auto

lemma slot_get_child [simp, heap_simps]:
  "slot_get h (child b y) = (if b then right h y else left h y)"
  by (simp add: child_def)

lemma slot_set_fields [simp, heap_simps]:
  "due (slot_set p v h) = due h"
  "heap_index (slot_set p v h) = heap_index h"
  "sleepq_size (slot_set p v h) = sleepq_size h"
  "left (slot_set p v h) y = (if p = LeftOf y then v else left h y)"
  "right (slot_set p v h) y = (if p = RightOf y then v else right h y)"
  "sleep_q (slot_set p v h) = (if p = Root then v else sleep_q h)"
  by (cases p; auto)+

declare slot_set.simps [simp del]

lemma set_index_fields [simp, heap_simps]:
  "due (set_index t i h) = due h"
  "heap_index (set_index t i h) = (heap_index h)(t := i)"
  "sleepq_size (set_index t i h) = sleepq_size h"
  "left (set_index t i h) = left h"
  "right (set_index t i h) = right h"
  "sleep_q (set_index t i h) = sleep_q h"
  "slot_get (set_index t i h) p = slot_get h p"
  by (simp_all add: set_index_def) (cases p; simp)

lemma size_update_fields [simp, heap_simps]:
  "slot_get (h\<lparr>sleepq_size := n\<rparr>) p = slot_get h p"
  by (cases p) auto

lemma child_eq [simp]: "child b y = child c z \<longleftrightarrow> b = c \<and> y = z"
  by (auto simp: child_def split: if_splits)

lemma child_neq [simp]:
  "child b y \<noteq> Root" "Root \<noteq> child b y"
  "child b y = LeftOf z \<longleftrightarrow> \<not> b \<and> y = z" "LeftOf z = child b y \<longleftrightarrow> \<not> b \<and> y = z"
  "child b y = RightOf z \<longleftrightarrow> b \<and> y = z" "RightOf z = child b y \<longleftrightarrow> b \<and> y = z"
  by (auto simp: child_def)

subsection \<open>Trees and contexts\<close>

lemma tree_at_cong:
  assumes "\<And>y. y \<in> set_tree t \<Longrightarrow> left h' y = left h y \<and> right h' y = right h y"
  shows "tree_at h' p t \<longleftrightarrow> tree_at h p t"
  using assms by (induction t arbitrary: p) auto

lemma tree_at_leaf_iff: "tree_at h p t \<Longrightarrow> p = None \<longleftrightarrow> t = Leaf"
  by (cases t) auto

lemma tree_at_det: "tree_at h p t \<Longrightarrow> tree_at h p t' \<Longrightarrow> t = t'"
proof (induction t arbitrary: p t')
  case Leaf
  then show ?case by (cases t') auto
next
  case (Node l x r)
  then show ?case by (cases t') auto
qed

lemma path_at_plug:
  "path_at h p cs q \<Longrightarrow> tree_at h (slot_get h p) (plug cs t) \<longleftrightarrow> tree_at h (slot_get h q) t"
proof (induction cs arbitrary: p)
  case (Cons c cs)
  obtain b y s where c: "c = (b, y, s)" by (cases c) auto
  show ?case using Cons.IH [of "child b y"] Cons.prems c by (cases b) auto
qed simp

lemma path_at_snoc:
  "path_at h p (cs @ [(b, y, s)]) q' \<longleftrightarrow>
     (\<exists>q. path_at h p cs q \<and> slot_get h q = Some y \<and>
        tree_at h (slot_get h (child (\<not> b) y)) s \<and> q' = child b y)"
  by (induction cs arbitrary: p) auto

lemma plug_append: "plug (cs @ ds) t = plug cs (plug ds t)"
  by (induction cs) auto

lemma dirs_snoc [simp]: "dirs (cs @ [c]) = dirs cs @ [fst c]"
  by (simp add: dirs_def)

lemma dirs_simps [simp]: "dirs [] = []" "dirs (c # cs) = fst c # dirs cs"
  by (simp_all add: dirs_def)

lemma ctx_list_append [simp]: "ctx_list (cs @ ds) = ctx_list cs @ ctx_list ds"
  by (induction cs rule: ctx_list.induct) auto

lemma mset_plug: "mset (inorder (plug cs t)) = mset (ctx_list cs) + mset (inorder t)"
  by (induction cs t rule: plug.induct) auto

lemma set_plug: "set_tree (plug cs t) = set (ctx_list cs) \<union> set_tree t"
  using arg_cong [OF mset_plug, of set_mset cs t] by simp

lemma distinct_plug: "distinct (inorder (plug cs t)) \<longleftrightarrow> distinct (ctx_list cs @ inorder t)"
proof -
  have "mset (inorder (plug cs t)) = mset (ctx_list cs @ inorder t)" by (simp add: mset_plug)
  then show ?thesis by (rule mset_eq_imp_distinct_iff)
qed

lemma size_plug: "size (plug cs t) = length (ctx_list cs) + size t"
proof -
  have "size (mset (inorder (plug cs t))) = length (ctx_list cs) + length (inorder t)"
    by (simp add: mset_plug)
  then show ?thesis by simp
qed

lemma ctx_ord_mono: "ctx_ord d cs M \<Longrightarrow> N \<subseteq> M \<Longrightarrow> ctx_ord d cs N"
  by (induction cs rule: ctx_list.induct) auto

lemma heap_ord_plug: "heap_ord d (plug cs t) \<longleftrightarrow> ctx_ord d cs (set_tree t) \<and> heap_ord d t"
  by (induction cs rule: ctx_list.induct) (auto simp: set_plug)

lemma ctx_ord_snoc:
  "ctx_ord d (cs @ [(b, y, s)]) N \<longleftrightarrow>
     ctx_ord d cs (insert y (set_tree s \<union> N)) \<and> heap_ord d s \<and> (\<forall>z \<in> set_tree s \<union> N. d y \<le> d z)"
  by (induction cs rule: ctx_list.induct) auto

lemma indexed_plug:
  "indexed f i (plug cs t) \<longleftrightarrow> ctx_indexed f i cs \<and> indexed f (foldl go i (dirs cs)) t"
  by (induction f i cs rule: ctx_indexed.induct) auto

lemma ctx_indexed_snoc:
  "ctx_indexed f i (cs @ [(b, y, s)]) \<longleftrightarrow>
     ctx_indexed f i cs \<and> f y = foldl go i (dirs cs) \<and> indexed f (go (foldl go i (dirs cs)) (\<not> b)) s"
  by (induction f i cs rule: ctx_indexed.induct) auto

lemma indexed_cong:
  "(\<And>y. y \<in> set_tree t \<Longrightarrow> g y = f y) \<Longrightarrow> indexed g i t \<longleftrightarrow> indexed f i t"
  by (induction t arbitrary: i) auto

lemma ctx_indexed_cong:
  "(\<And>y. y \<in> set (ctx_list cs) \<Longrightarrow> g y = f y) \<Longrightarrow> ctx_indexed g i cs \<longleftrightarrow> ctx_indexed f i cs"
  by (induction f i cs rule: ctx_indexed.induct) (auto cong: indexed_cong)

lemma paths_plug: "dirs cs @ ps \<in> paths (plug cs t) \<longleftrightarrow> ps \<in> paths t"
  by (induction cs rule: ctx_list.induct) auto

lemma paths_plug_other:
  "\<nexists>ps. qs = dirs cs @ ps \<Longrightarrow> qs \<in> paths (plug cs t) \<longleftrightarrow> qs \<in> paths (plug cs u)"
proof (induction cs arbitrary: qs)
  case (Cons c cs)
  obtain b y s where c: "c = (b, y, s)" by (cases c) auto
  show ?case
  proof (cases qs)
    case (Cons a as)
    with Cons.prems c have "a = b \<Longrightarrow> \<nexists>ps. as = dirs cs @ ps" by auto
    then have "a = b \<Longrightarrow> as \<in> paths (plug cs t) \<longleftrightarrow> as \<in> paths (plug cs u)" using Cons.IH by blast
    then show ?thesis using c Cons by (cases a; cases b) auto
  qed (use c in simp)
qed simp

lemma paths_plug_cong: "paths t = paths u \<Longrightarrow> paths (plug cs t) = paths (plug cs u)"
  by (induction cs rule: ctx_list.induct) auto

lemma paths_Nil: "[] \<in> paths t \<longleftrightarrow> t \<noteq> Leaf"
  by (cases t) auto

lemma path_at_end:
  assumes "path_at h p cs q"
  obtains "cs = []" and "q = p" | b y s ds where "cs = ds @ [(b, y, s)]" and "q = child b y"
  using assms by (cases cs rule: rev_cases) (auto simp: path_at_snoc)

text \<open>
  A path survives any write that leaves its nodes alone, including a write through the slot it
  ends in.
\<close>

lemma path_at_frame:
  assumes "path_at h p cs q" and "distinct (ctx_list cs)"
    and "cs \<noteq> [] \<Longrightarrow> slot_get h' p = slot_get h p"
    and "\<And>y b. y \<in> set (ctx_list cs) \<Longrightarrow> child b y \<noteq> q \<Longrightarrow> slot_get h' (child b y) = slot_get h (child b y)"
  shows "path_at h' p cs q"
  using assms
proof (induction cs arbitrary: p)
  case Nil
  then show ?case by simp
next
  case (Cons c cs)
  obtain b y s where c: "c = (b, y, s)" by (cases c) auto
  from Cons.prems(1) c have path: "path_at h (child b y) cs q" and y: "slot_get h p = Some y"
    and s: "tree_at h (slot_get h (child (\<not> b) y)) s" by simp_all
  have q: "q = child b y \<or> (\<exists>b' y'. q = child b' y' \<and> y' \<in> set (ctx_list cs))"
    using path by (rule path_at_end) auto
  have d: "distinct (ctx_list cs)" "y \<notin> set (ctx_list cs)" "y \<notin> set_tree s"
    "set_tree s \<inter> set (ctx_list cs) = {}"
    using Cons.prems(2) c by auto
  have fr: "\<And>z c. z \<in> set_tree s \<Longrightarrow> child c z \<noteq> q" "child (\<not> b) y \<noteq> q"
    using q d by auto
  have eq: "slot_get h' (child (\<not> b) y) = slot_get h (child (\<not> b) y)"
    using Cons.prems(4) [of y "\<not> b"] fr(2) c by simp
  have "tree_at h' (slot_get h (child (\<not> b) y)) s"
  proof (rule tree_at_cong [THEN iffD2, OF _ s])
    fix z assume z: "z \<in> set_tree s"
    then have "z \<in> set (ctx_list (c # cs))" using c by simp
    then show "left h' z = left h z \<and> right h' z = right h z"
      using Cons.prems(4) [of z False] Cons.prems(4) [of z True] fr(1) [OF z] by simp
  qed
  moreover have "path_at h' (child b y) cs q"
  proof (rule Cons.IH [OF path d(1)])
    assume ne: "cs \<noteq> []"
    then have "child b y \<noteq> q" using path_at_end [OF path] d(2) by (metis child_eq ctx_list_append
          in_set_conv_decomp ctx_list.simps(2) append_Cons)
    then show "slot_get h' (child b y) = slot_get h (child b y)"
      using Cons.prems(4) [of y b] c by simp
  next
    fix z b' assume "z \<in> set (ctx_list cs)" "child b' z \<noteq> q"
    then show "slot_get h' (child b' z) = slot_get h (child b' z)"
      using Cons.prems(4) [of z b'] c by simp
  qed
  ultimately show ?case using c y Cons.prems(3) eq by simp
qed

subsection \<open>The path of an index\<close>

definition rbits :: "nat \<Rightarrow> nat \<Rightarrow> bool list" where
  "rbits k n = map (bit n) (rev [0..<k])"

definition tpath :: "nat \<Rightarrow> bool list" where
  "tpath n = rbits (bit_count n - 1) n"

lemma rbits_simps [simp]: "rbits 0 n = []" "rbits (Suc b) n = bit n b # rbits b n"
  by (simp_all add: rbits_def)

lemma foldl_go_rbits: "foldl go i (rbits k n) = i * 2 ^ k + n mod 2 ^ k"
proof (induction k arbitrary: i)
  case (Suc k)
  have "n mod 2 ^ Suc k = of_bool (bit n k) * 2 ^ k + n mod 2 ^ k"
    using take_bit_Suc_from_most [of k n] by (simp add: take_bit_eq_mod algebra_simps)
  with Suc show ?case by (simp add: go_def algebra_simps)
qed simp

lemma bit_count_bounds: "0 < n \<Longrightarrow> 0 < bit_count n \<and> 2 ^ (bit_count n - 1) \<le> n \<and> n < 2 ^ bit_count n"
proof (induction n rule: bit_count.induct)
  case (1 n)
  show ?case
  proof (cases "n div 2 = 0")
    case True
    with "1.prems" have "n = 1" by simp
    then show ?thesis by (simp add: bit_count.simps [of "Suc 0"] bit_count.simps [of 0])
  next
    case False
    then have "0 < bit_count (n div 2)" "2 ^ (bit_count (n div 2) - 1) \<le> n div 2"
      "n div 2 < 2 ^ bit_count (n div 2)"
      using "1.IH" "1.prems" by auto
    then obtain k where k: "bit_count (n div 2) = Suc k" "2 ^ k \<le> n div 2" "n div 2 < 2 ^ Suc k"
      by (cases "bit_count (n div 2)") auto
    then have "bit_count n = Suc (Suc k)" using "1.prems" by (simp add: bit_count.simps [of n])
    with k(2,3) show ?thesis by (simp; linarith)
  qed
qed

lemma num_tpath: "0 < n \<Longrightarrow> num (tpath n) = n"
proof -
  assume "0 < n"
  then obtain k where k: "bit_count n = Suc k" "2 ^ k \<le> n" "n < 2 ^ Suc k"
    using bit_count_bounds [of n] by (cases "bit_count n") auto
  have "n mod 2 ^ k = n - 2 ^ k"
    using k by (metis mod_if mod_less le_mod_geq less_diff_conv2 mult_2 not_le power_Suc)
  with k show ?thesis by (simp add: tpath_def foldl_go_rbits)
qed

lemma num_append: "num (ps @ qs) = foldl go (num ps) qs"
  by simp

lemma go_ge: "i \<le> go i b" "0 < i \<Longrightarrow> i < go i b"
  by (simp_all add: go_def)

lemma foldl_go_ge: "i \<le> foldl go i qs"
proof (induction qs arbitrary: i)
  case (Cons b qs)
  show ?case using go_ge(1) [of i b] Cons [of "go i b"] by simp
qed simp

lemma foldl_go_gt: "0 < i \<Longrightarrow> qs \<noteq> [] \<Longrightarrow> i < foldl go i qs"
proof -
  assume "0 < i" "qs \<noteq> []"
  then obtain b qs' where "qs = b # qs'" by (cases qs) auto
  then show ?thesis using foldl_go_ge [of "go i b" qs'] \<open>0 < i\<close> by (simp add: go_def)
qed

lemma num_pos: "0 < num ps"
  using foldl_go_ge [of 1 ps] by simp

lemma num_inj: "num ps = num qs \<longleftrightarrow> ps = qs"
proof (induction ps arbitrary: qs rule: rev_induct)
  case Nil
  show ?case using foldl_go_gt [of 1 qs] by (cases qs) auto
next
  case (snoc b ps)
  show ?case
  proof (cases qs rule: rev_cases)
    case Nil
    then show ?thesis using num_pos [of ps] go_ge(2) [of "num ps" b] by simp
  next
    case (snoc qs' c)
    have "go (num ps) b = go (num qs') c \<longleftrightarrow> num ps = num qs' \<and> b = c"
      unfolding go_def by (cases b; cases c; simp; presburger)
    then show ?thesis using snoc snoc.IH by simp
  qed
qed

lemma tpath_num: "tpath (num ps) = ps"
  using num_tpath [OF num_pos] num_inj by metis

lemma num_prefix_less: "tpath n = ps @ qs \<Longrightarrow> qs \<noteq> [] \<Longrightarrow> 0 < n \<Longrightarrow> num ps < n"
  using num_tpath [of n] foldl_go_gt [OF num_pos [of ps], of qs] by simp

subsection \<open>Insertion\<close>

fun subtree :: "tid tree \<Rightarrow> bool list \<Rightarrow> tid tree" where
  "subtree t [] = t"
| "subtree Leaf (b # bs) = Leaf"
| "subtree (Node l x r) (b # bs) = subtree (if b then r else l) bs"

text \<open>
  The loop invariant of \<open>heap_insert\<close>: \<open>x\<close> is still to be placed, slot \<open>p\<close> holds the subtree \<open>s\<close>,
  \<open>cs\<close> is the rest of the heap, and every thread passed on the way is due no later than \<open>x\<close>
  and everything in \<open>s\<close>.
\<close>

definition zipped :: "theap \<Rightarrow> ctx \<Rightarrow> slot \<Rightarrow> tid tree \<Rightarrow> tid \<Rightarrow> bool" where
  "zipped h cs p s x \<longleftrightarrow> path_at h Root cs p \<and> tree_at h (slot_get h p) s \<and>
     distinct (x # ctx_list cs @ inorder s) \<and> heap_ord (due h) s \<and>
     ctx_ord (due h) cs (insert x (set_tree s)) \<and>
     ctx_indexed (heap_index h) 1 cs \<and> indexed (heap_index h) (num (dirs cs)) s"

lemma zipped_descend:
  assumes "zipped h cs p (Node l y r) x" and "due h y \<le> due h x"
  shows "zipped h (cs @ [(b, y, if b then l else r)]) (child b y) (if b then r else l) x"
  using assms
  by (cases b) (auto simp: zipped_def path_at_snoc ctx_ord_snoc ctx_indexed_snoc
      insert_commute Un_commute elim!: ctx_ord_mono)

lemma zipped_swap:
  assumes z: "zipped h cs p (Node l y r) x" and lt: "due h x < due h y" and i: "i = num (dirs cs)"
    and h': "h' = set_index x i (slot_set p (Some x)
               (slot_set (RightOf x) (right h y) (slot_set (LeftOf x) (left h y) h)))"
  shows "zipped h' cs p (Node l x r) y"
proof -
  have d: "distinct (x # ctx_list cs @ inorder l @ y # inorder r)"
    and path: "path_at h Root cs p" and t: "slot_get h p = Some y"
    "tree_at h (left h y) l" "tree_at h (right h y) r"
    using z by (auto simp: zipped_def)
  have p: "(cs = [] \<and> p = Root) \<or> (\<exists>b w. p = child b w \<and> w \<in> set (ctx_list cs))"
    using path by (rule path_at_end) auto
  have px: "p \<noteq> LeftOf w" "p \<noteq> RightOf w" if "w \<notin> set (ctx_list cs)" for w
    using p that by auto
  have xs: "x \<notin> set (ctx_list cs)" using d by simp
  have "path_at h' Root cs p"
  proof (rule path_at_frame [OF path])
    show "distinct (ctx_list cs)" using d by simp
    show "slot_get h' Root = slot_get h Root" if "cs \<noteq> []"
      using p that by (auto simp: h')
    show "slot_get h' (child b w) = slot_get h (child b w)"
      if "w \<in> set (ctx_list cs)" "child b w \<noteq> p" for w b
      using that xs by (auto simp: h')
  qed
  moreover have "tree_at h' (slot_get h' p) (Node l x r)"
  proof -
    have fr: "left h' w = left h w \<and> right h' w = right h w"
      if "w \<in> set_tree l \<union> set_tree r" for w
    proof -
      have "w \<notin> set (ctx_list cs)" "w \<noteq> x" using that d by auto
      then show ?thesis using px by (simp add: h')
    qed
    have "tree_at h' (left h y) l"
      by (rule tree_at_cong [THEN iffD2, OF _ t(2)]) (use fr in simp)
    moreover have "tree_at h' (right h y) r"
      by (rule tree_at_cong [THEN iffD2, OF _ t(3)]) (use fr in simp)
    ultimately show ?thesis using px [OF xs] by (simp add: h')
  qed
  moreover have "due h' = due h" by (simp add: h')
  moreover have "ctx_indexed (heap_index h') 1 cs"
  proof -
    have "ctx_indexed (heap_index h) 1 cs" using z by (simp add: zipped_def)
    then show ?thesis by (rule ctx_indexed_cong [THEN iffD2, rotated]) (use xs in \<open>auto simp: h'\<close>)
  qed
  moreover have "indexed (heap_index h') (num (dirs cs)) (Node l x r)"
  proof -
    have "indexed (heap_index h) (go i False) l" "indexed (heap_index h) (go i True) r"
      using z i by (auto simp: zipped_def)
    then have "indexed (heap_index h') (go i False) l" "indexed (heap_index h') (go i True) r"
      using d by (auto simp: h' elim!: indexed_cong [THEN iffD2, rotated])
    then show ?thesis by (simp add: h' i)
  qed
  moreover have "ctx_ord (due h) cs (insert y (set_tree (Node l x r)))"
    using z by (simp add: zipped_def insert_commute)
  moreover have "heap_ord (due h) (Node l x r)"
  proof -
    have "\<forall>w \<in> set_tree l \<union> set_tree r. due h y \<le> due h w" "heap_ord (due h) l" "heap_ord (due h) r"
      using z by (auto simp: zipped_def)
    with lt show ?thesis by (meson heap_ord.simps(2) less_imp_le order_trans)
  qed
  ultimately show ?thesis using d by (auto simp: zipped_def)
qed

lemma push_bit_index: "push_bit 1 i = go i False" "go i False OR 1 = go i True" for i :: nat
  by (simp_all add: go_def push_bit_eq_mult or_Suc_0_eq)

lemma heap_insert_loop_ok:
  assumes "zipped h cs p s x" and "s \<noteq> Leaf"
    and "\<And>ps qs. rbits b target = ps @ qs \<Longrightarrow> qs \<noteq> [] \<Longrightarrow> ps \<in> paths s"
  shows "\<exists>x' p' h' cs'. heap_insert_loop b target x p (num (dirs cs)) h = Some (x', p', num (dirs cs'), h') \<and>
    zipped h' cs' p' (subtree s (rbits b target)) x' \<and> dirs cs' = dirs cs @ rbits b target \<and>
    add_mset x' (mset (ctx_list cs')) + mset (inorder (subtree s (rbits b target))) =
      add_mset x (mset (ctx_list cs)) + mset (inorder s) \<and>
    paths (plug cs' (subtree s (rbits b target))) = paths (plug cs s) \<and>
    due h' = due h \<and> sleepq_size h' = sleepq_size h"
  using assms
proof (induction b arbitrary: h cs p s x)
  case 0
  then show ?case by auto
next
  case (Suc b)
  obtain l y r where s: "s = Node l y r" using Suc.prems(2) by (cases s) auto
  have py: "slot_get h p = Some y" using Suc.prems(1) s by (simp add: zipped_def)
  define c where "c = bit target b"
  let ?swap = "due h x < due h y"
  define h1 where "h1 = (if ?swap then set_index x (num (dirs cs)) (slot_set p (Some x)
               (slot_set (RightOf x) (right h y) (slot_set (LeftOf x) (left h y) h))) else h)"
  define x1 where "x1 = (if ?swap then y else x)"
  define top where "top = (if ?swap then x else y)"
  define cs1 where "cs1 = cs @ [(c, top, if c then l else r)]"
  define s1 where "s1 = (if c then r else l)"
  have z0: "zipped h1 cs p (Node l top r) x1"
    using Suc.prems(1) zipped_swap [OF Suc.prems(1) [unfolded s]] s
    by (simp add: h1_def x1_def top_def)
  have le: "due h1 top \<le> due h1 x1"
    by (auto simp: h1_def x1_def top_def not_less)
  have z1: "zipped h1 cs1 (child c top) s1 x1"
    unfolding cs1_def s1_def by (rule zipped_descend [OF z0 le])
  have due1: "due h1 = due h" "sleepq_size h1 = sleepq_size h" by (simp_all add: h1_def)
  have dirs1: "dirs cs1 = dirs cs @ [c]" by (simp add: cs1_def)
  have idx: "num (dirs cs1) = go (num (dirs cs)) c" by (simp add: dirs1)
  have msets: "add_mset x1 (mset (ctx_list cs1)) + mset (inorder s1) =
      add_mset x (mset (ctx_list cs)) + mset (inorder s)"
    by (simp add: x1_def cs1_def s1_def s top_def)
  have shape: "paths (plug cs1 s1) = paths (plug cs s)"
    by (simp add: cs1_def s1_def s plug_append paths_plug_cong [of "Node l top r" "Node l y r"])
  have sub: "subtree s (rbits (Suc b) target) = subtree s1 (rbits b target)"
    by (simp add: s s1_def c_def)
  have unfold: "heap_insert_loop (Suc b) target x p (num (dirs cs)) h =
      (if slot_get h1 (child c top) = None then Some (x1, child c top, num (dirs cs1), h1)
       else heap_insert_loop b target x1 (child c top) (num (dirs cs1)) h1)"
    unfolding idx heap_insert_loop.simps py c_def [symmetric] Let_def push_bit_index
    by (simp add: h1_def x1_def top_def child_def)
  show ?case
  proof (cases "s1 = Leaf")
    case True
    have "tree_at h1 (slot_get h1 (child c top)) s1" using z1 by (simp add: zipped_def)
    with True have none: "slot_get h1 (child c top) = None" by simp
    have "rbits b target = []"
    proof (rule ccontr)
      assume "rbits b target \<noteq> []"
      then have "[c] \<in> paths s" using Suc.prems(3) [of "[c]" "rbits b target"] by (simp add: c_def)
      with True show False by (auto simp: s s1_def split: if_splits)
    qed
    then have rb: "rbits (Suc b) target = [c]" "subtree s1 (rbits b target) = s1" by (simp_all add: c_def)
    show ?thesis
      unfolding unfold sub rb(2)
      by (intro exI [of _ x1] exI [of _ "child c top"] exI [of _ h1] exI [of _ cs1])
        (use none z1 msets due1 dirs1 rb shape in simp)
  next
    case False
    have "tree_at h1 (slot_get h1 (child c top)) s1" using z1 by (simp add: zipped_def)
    with False have some: "slot_get h1 (child c top) \<noteq> None" using tree_at_leaf_iff by blast
    have "ps \<in> paths s1" if "rbits b target = ps @ qs" "qs \<noteq> []" for ps qs
      using Suc.prems(3) [of "c # ps" qs] that by (auto simp: s s1_def c_def split: if_splits)
    then obtain x' p' h' cs' where rec:
      "heap_insert_loop b target x1 (child c top) (num (dirs cs1)) h1 = Some (x', p', num (dirs cs'), h')"
      "zipped h' cs' p' (subtree s1 (rbits b target)) x'" "dirs cs' = dirs cs1 @ rbits b target"
      "add_mset x' (mset (ctx_list cs')) + mset (inorder (subtree s1 (rbits b target))) =
         add_mset x1 (mset (ctx_list cs1)) + mset (inorder s1)"
      "paths (plug cs' (subtree s1 (rbits b target))) = paths (plug cs1 s1)"
      "due h' = due h1" "sleepq_size h' = sleepq_size h1"
      using Suc.IH [OF z1 False] by blast
    show ?thesis
      unfolding unfold sub if_not_P [OF some]
      by (intro exI [of _ x'] exI [of _ p'] exI [of _ h'] exI [of _ cs'])
        (use rec msets due1 dirs1 shape in \<open>simp add: c_def\<close>)
  qed
qed

text \<open>
  After \<open>heap_insert\<close> some thread \<open>x'\<close> sits, without children, at the position given by the index of
  the inserted thread. If that position was occupied, its old subtree is untouched in memory but no
  longer linked; \<open>placed\<close> describes this state.
\<close>

definition placed :: "theap \<Rightarrow> ctx \<Rightarrow> slot \<Rightarrow> tid tree \<Rightarrow> tid \<Rightarrow> bool" where
  "placed h cs p s x \<longleftrightarrow> path_at h Root cs p \<and> slot_get h p = Some x \<and> left h x = None \<and> right h x = None \<and>
     (\<exists>q. tree_at h q s) \<and> distinct (x # ctx_list cs @ inorder s) \<and> heap_ord (due h) s \<and>
     ctx_ord (due h) cs (insert x (set_tree s)) \<and> ctx_indexed (heap_index h) 1 cs \<and>
     heap_index h x = num (dirs cs) \<and> indexed (heap_index h) (num (dirs cs)) s"

lemma zipped_place:
  assumes z: "zipped h cs p s x"
    and h': "h' = slot_set (LeftOf x) None (slot_set (RightOf x) None
               (slot_set p (Some x) (set_index x (num (dirs cs)) h)))"
  shows "placed h' cs p s x"
proof -
  have d: "distinct (x # ctx_list cs @ inorder s)" and path: "path_at h Root cs p"
    and t: "tree_at h (slot_get h p) s"
    using z by (auto simp: zipped_def)
  have p: "(cs = [] \<and> p = Root) \<or> (\<exists>b w. p = child b w \<and> w \<in> set (ctx_list cs))"
    using path by (rule path_at_end) auto
  have px: "p \<noteq> LeftOf w" "p \<noteq> RightOf w" if "w \<notin> set (ctx_list cs)" for w
    using p that by auto
  have xs: "x \<notin> set (ctx_list cs)" "x \<notin> set_tree s" using d by auto
  have "path_at h' Root cs p"
  proof (rule path_at_frame [OF path])
    show "distinct (ctx_list cs)" using d by simp
    show "slot_get h' Root = slot_get h Root" if "cs \<noteq> []"
      using p that by (auto simp: h')
    show "slot_get h' (child b w) = slot_get h (child b w)"
      if "w \<in> set (ctx_list cs)" "child b w \<noteq> p" for w b
      using that xs by (auto simp: h')
  qed
  moreover have "tree_at h' (slot_get h p) s"
  proof (rule tree_at_cong [THEN iffD2, OF _ t])
    fix w assume "w \<in> set_tree s"
    then have "w \<notin> set (ctx_list cs)" "w \<noteq> x" using d by auto
    then show "left h' w = left h w \<and> right h' w = right h w" using px by (simp add: h')
  qed
  moreover have "ctx_indexed (heap_index h') 1 cs"
  proof -
    have "ctx_indexed (heap_index h) 1 cs" using z by (simp add: zipped_def)
    then show ?thesis by (rule ctx_indexed_cong [THEN iffD2, rotated]) (use xs in \<open>auto simp: h'\<close>)
  qed
  moreover have "indexed (heap_index h') (num (dirs cs)) s"
  proof -
    have "indexed (heap_index h) (num (dirs cs)) s" using z by (simp add: zipped_def)
    then show ?thesis by (rule indexed_cong [THEN iffD2, rotated]) (use xs in \<open>auto simp: h'\<close>)
  qed
  ultimately show ?thesis
    using z px [OF xs(1)] by (auto simp: placed_def zipped_def h')
qed

lemma heap_insert_ok:
  assumes t: "tree_at h (sleep_q h) t" "distinct (x # inorder t)" "heap_ord (due h) t"
    "indexed (heap_index h) 1 t"
    and target: "0 < heap_index h x"
    and reach: "\<forall>ps qs. tpath (heap_index h x) = ps @ qs \<longrightarrow> qs \<noteq> [] \<longrightarrow> ps \<in> paths t"
  obtains x' p h' cs where "heap_insert (Some x) h = Some (Some p, h')"
    and "placed h' cs p (subtree t (tpath (heap_index h x))) x'"
    and "dirs cs = tpath (heap_index h x)"
    and "add_mset x' (mset (ctx_list cs)) + mset (inorder (subtree t (tpath (heap_index h x)))) =
       add_mset x (mset (inorder t))"
    and "paths (plug cs (subtree t (tpath (heap_index h x)))) = paths t"
    and "due h' = due h" and "sleepq_size h' = sleepq_size h"
proof -
  let ?i = "heap_index h x"
  have z: "zipped h [] Root t x" using t by (simp add: zipped_def)
  show thesis
  proof (cases "t = Leaf")
    case True
    then have "tpath ?i = []" using reach by force
    then have i1: "?i = 1" using num_tpath [OF target] by simp
    define h' where "h' = slot_set (LeftOf x) None (slot_set (RightOf x) None
        (slot_set Root (Some x) (set_index x (num (dirs [])) h)))"
    have eq: "set_index x 1 h = h" using i1 by (simp add: set_index_def fun_upd_idem)
    have "placed h' [] Root t x" by (rule zipped_place [OF z]) (simp add: h'_def)
    moreover have "heap_insert (Some x) h = Some (Some Root, h')"
      using t(1) True eq by (simp add: heap_insert_def h'_def)
    ultimately show thesis
      using that [of Root h' "[]" x] True \<open>tpath ?i = []\<close> t by (simp add: h'_def)
  next
    case False
    then have sq: "sleep_q h \<noteq> None" using t(1) tree_at_leaf_iff by blast
    obtain x' p' h1 cs' where loop:
      "heap_insert_loop (bit_count ?i - 1) ?i x Root 1 h = Some (x', p', num (dirs cs'), h1)"
      "zipped h1 cs' p' (subtree t (tpath ?i)) x'" "dirs cs' = tpath ?i"
      "add_mset x' (mset (ctx_list cs')) + mset (inorder (subtree t (tpath ?i))) = add_mset x (mset (inorder t))"
      "paths (plug cs' (subtree t (tpath ?i))) = paths t"
      "due h1 = due h" "sleepq_size h1 = sleepq_size h"
      using heap_insert_loop_ok [OF z False, of "bit_count ?i - 1" ?i] reach
      by (auto simp: tpath_def)
    define h' where "h' = slot_set (LeftOf x') None (slot_set (RightOf x') None
        (slot_set p' (Some x') (set_index x' (num (dirs cs')) h1)))"
    have "placed h' cs' p' (subtree t (tpath ?i)) x'" by (rule zipped_place [OF loop(2)]) (simp add: h'_def)
    moreover have "heap_insert (Some x) h = Some (Some p', h')"
      using sq loop(1) by (auto simp: heap_insert_def h'_def)
    ultimately show thesis
      using that [of p' h' cs' x'] loop by (simp add: h'_def)
  qed
qed

lemma heap_ord_cong:
  "(\<And>y. y \<in> set_tree t \<Longrightarrow> e y = d y) \<Longrightarrow> heap_ord e t \<longleftrightarrow> heap_ord d t"
  by (induction t) auto

text \<open>
  Adding a thread, as \<open>_st_add_sleep_q\<close> does after computing the wake-up time: the size is counted
  up, the thread gets the new last position as its index and is inserted from there.
\<close>

lemma heap_add_ok:
  assumes ok: "heap_ok h t" and x: "x \<notin> set_tree t"
    and h1: "h1 = h\<lparr>due := (due h)(x := d), sleepq_size := Suc (sleepq_size h),
                heap_index := (heap_index h)(x := Suc (sleepq_size h))\<rparr>"
  obtains p h' t' where "heap_insert (Some x) h1 = Some (Some p, h')" and "heap_ok h' t'"
    and "mset (inorder t') = add_mset x (mset (inorder t))" and "due h' = (due h)(x := d)"
proof -
  let ?n = "sleepq_size h" and ?ps = "tpath (Suc (sleepq_size h))"
  have t: "tree_at h1 (sleep_q h1) t" "distinct (x # inorder t)"
    using ok x tree_at_cong [of t h1 h] by (auto simp: heap_ok_def h1)
  have "heap_ord (due h) t" "indexed (heap_index h) 1 t"
    using ok by (simp_all add: heap_ok_def)
  then have o: "heap_ord (due h1) t" and i: "indexed (heap_index h1) 1 t"
    using x by (auto simp: h1 elim!: heap_ord_cong [THEN iffD2, rotated] indexed_cong [THEN iffD2, rotated])
  have pt: "paths t = {ps. num ps \<le> ?n}" using ok by (simp add: heap_ok_def)
  have hi: "heap_index h1 x = Suc ?n" by (simp add: h1)
  have npath: "num ?ps = Suc ?n" by (rule num_tpath) simp
  have reach: "\<forall>ps qs. tpath (heap_index h1 x) = ps @ qs \<longrightarrow> qs \<noteq> [] \<longrightarrow> ps \<in> paths t"
    using num_prefix_less [of "Suc ?n"] pt hi by (auto simp: less_Suc_eq_le)
  obtain x' p h' cs where ins: "heap_insert (Some x) h1 = Some (Some p, h')"
    "placed h' cs p (subtree t ?ps) x'" "dirs cs = ?ps"
    "add_mset x' (mset (ctx_list cs)) + mset (inorder (subtree t ?ps)) = add_mset x (mset (inorder t))"
    "paths (plug cs (subtree t ?ps)) = paths t"
    "due h' = due h1" "sleepq_size h' = sleepq_size h1"
    using heap_insert_ok [OF t o i _ reach] unfolding hi by (metis zero_less_Suc)
  have notin: "?ps \<notin> paths t" using pt npath by simp
  have leaf: "subtree t ?ps = Leaf"
    using notin ins(5) paths_plug [of cs "[]" "subtree t ?ps"] paths_Nil ins(3) by auto
  define u where "u = plug cs (Node Leaf x' Leaf)"
  have m: "mset (inorder u) = add_mset x (mset (inorder t))"
    using ins(4) leaf by (simp add: u_def mset_plug)
  have "tree_at h' (sleep_q h') u"
    using ins(2) path_at_plug [of h' Root cs p "Node Leaf x' Leaf"] by (simp add: placed_def u_def)
  moreover have "distinct (inorder u)"
    using ins(2) leaf by (auto simp: u_def distinct_plug placed_def)
  moreover have "heap_ord (due h') u"
    using ins(2) leaf by (simp add: u_def heap_ord_plug placed_def)
  moreover have "indexed (heap_index h') 1 u"
    using ins(2) by (simp add: u_def indexed_plug placed_def)
  moreover have "paths u = {ps. num ps \<le> sleepq_size h'}"
  proof (rule set_eqI)
    fix qs
    show "qs \<in> paths u \<longleftrightarrow> qs \<in> {ps. num ps \<le> sleepq_size h'}"
    proof (cases "\<exists>ps. qs = ?ps @ ps")
      case True
      then obtain ps where qs: "qs = dirs cs @ ps" using ins(3) by auto
      have "num qs = foldl go (Suc ?n) ps" using npath qs ins(3) by simp
      then have "num qs \<le> Suc ?n \<longleftrightarrow> ps = []" using foldl_go_gt [of "Suc ?n" ps] by (cases ps) auto
      then show ?thesis using qs ins(7) by (auto simp: u_def paths_plug h1)
    next
      case False
      then have "num qs \<noteq> Suc ?n" using num_inj [of qs ?ps] npath by auto
      moreover have "qs \<in> paths u \<longleftrightarrow> qs \<in> paths t"
        using paths_plug_other [of qs cs "Node Leaf x' Leaf" "subtree t ?ps"] False ins(3,5)
        by (simp add: u_def)
      moreover have "qs \<in> paths t \<longleftrightarrow> num qs \<le> ?n" by (simp add: pt)
      ultimately show ?thesis by (simp add: ins(7) h1 le_Suc_eq)
    qed
  qed
  moreover have "size u = sleepq_size h'"
  proof -
    have "size (mset (inorder u)) = Suc (size (mset (inorder t)))" using m by simp
    then show ?thesis using ok ins(7) by (simp add: heap_ok_def h1)
  qed
  ultimately have "heap_ok h' u" by (simp add: heap_ok_def)
  then show thesis using that ins(1,6) m by (simp add: h1)
qed

lemma sleepq_add_ok:
  assumes "heap_ok h t" and "x \<notin> set_tree t"
  obtains h' t' where "sleepq_add x d h = Some h'" and "heap_ok h' t'"
    and "mset (inorder t') = add_mset x (mset (inorder t))" and "due h' = (due h)(x := d)"
proof (rule heap_add_ok [OF assms refl, of d])
  fix p h' t'
  assume "heap_insert (Some x) (h\<lparr>due := (due h)(x := d), sleepq_size := Suc (sleepq_size h),
      heap_index := (heap_index h)(x := Suc (sleepq_size h))\<rparr>) = Some (Some p, h')"
    and "heap_ok h' t'" "mset (inorder t') = add_mset x (mset (inorder t))" "due h' = (due h)(x := d)"
  then show thesis by (intro that [of h' t']) (simp_all add: sleepq_add_def)
qed

subsection \<open>Deletion\<close>

lemma heap_last_loop_ok:
  assumes "path_at h Root cs p" and "tree_at h (slot_get h p) s" and "rbits b (sleepq_size h) \<in> paths s"
  shows "\<exists>cs' p'. heap_last_loop b p h = Some p' \<and> path_at h Root cs' p' \<and>
    tree_at h (slot_get h p') (subtree s (rbits b (sleepq_size h))) \<and>
    dirs cs' = dirs cs @ rbits b (sleepq_size h) \<and>
    plug cs' (subtree s (rbits b (sleepq_size h))) = plug cs s"
  using assms
proof (induction b arbitrary: cs p s)
  case 0
  then show ?case by auto
next
  case (Suc b)
  obtain l y r where s: "s = Node l y r" using Suc.prems(3) by (cases s) auto
  define c where "c = bit (sleepq_size h) b"
  define s1 where "s1 = (if c then r else l)"
  have y: "slot_get h p = Some y" "tree_at h (left h y) l" "tree_at h (right h y) r"
    using Suc.prems(2) s by auto
  have path: "path_at h Root (cs @ [(c, y, if c then l else r)]) (child c y)"
    using Suc.prems(1) y by (auto simp: path_at_snoc)
  have t1: "tree_at h (slot_get h (child c y)) s1" using y by (simp add: s1_def)
  have in1: "rbits b (sleepq_size h) \<in> paths s1"
    using Suc.prems(3) s by (auto simp: c_def s1_def)
  then have "s1 \<noteq> Leaf" by auto
  then have "slot_get h (child c y) \<noteq> None" using t1 tree_at_leaf_iff by blast
  then have "heap_last_loop (Suc b) p h = heap_last_loop b (child c y) h"
    using y by (auto simp: c_def child_def)
  moreover have "plug (cs @ [(c, y, if c then l else r)]) s1 = plug cs s"
    by (simp add: plug_append s s1_def)
  moreover have "subtree s (rbits (Suc b) (sleepq_size h)) = subtree s1 (rbits b (sleepq_size h))"
    by (simp add: s s1_def c_def)
  ultimately show ?case using Suc.IH [OF path t1 in1] by (simp add: c_def)
qed

text \<open>The state in which \<open>heap_delete\<close> sifts \<open>x\<close> down: its two subtrees are heaps, and everything on
  the way to it is due no later than anything below.\<close>

definition hung :: "theap \<Rightarrow> ctx \<Rightarrow> slot \<Rightarrow> tid tree \<Rightarrow> tid \<Rightarrow> tid tree \<Rightarrow> bool" where
  "hung h cs p l x r \<longleftrightarrow> path_at h Root cs p \<and> tree_at h (slot_get h p) (Node l x r) \<and>
     distinct (ctx_list cs @ inorder (Node l x r)) \<and> heap_ord (due h) l \<and> heap_ord (due h) r \<and>
     ctx_ord (due h) cs (set_tree (Node l x r)) \<and> ctx_indexed (heap_index h) 1 cs \<and>
     indexed (heap_index h) (num (dirs cs)) (Node l x r)"

text \<open>One iteration: the younger child \<open>y\<close>, on side \<open>b\<close>, changes places with \<open>x\<close>.\<close>

definition sift_swap :: "slot \<Rightarrow> tid \<Rightarrow> tid \<Rightarrow> bool \<Rightarrow> theap \<Rightarrow> theap" where
  "sift_swap p x y b h =
     set_index y (heap_index h x) (set_index x (heap_index h y)
       (slot_set (RightOf x) (right h y) (slot_set (LeftOf x) (left h y)
         (slot_set (RightOf y) (if b then Some x else right h x)
           (slot_set (LeftOf y) (if b then left h x else Some x) (slot_set p (Some y) h))))))"

lemma hung_step:
  assumes z: "hung h cs p l x r" and y: "(if b then r else l) = Node yl y yr"
    and lt: "due h y < due h x" and ley: "\<forall>w \<in> set_tree l \<union> set_tree r. due h y \<le> due h w"
    and h': "h' = sift_swap p x y b h"
  shows "hung h' (cs @ [(b, y, if b then l else r)]) (child b y) yl x yr"
proof -
  define o' where "o' = (if b then l else r)"
  have d: "distinct (ctx_list cs @ x # y # inorder o' @ inorder yl @ inorder yr)"
    using z y by (cases b) (auto simp: hung_def o'_def)
  have path: "path_at h Root cs p" and px: "slot_get h p = Some x"
    using z by (auto simp: hung_def)
  have ch: "left h x = (if b then slot_get h (LeftOf x) else Some y)"
    "right h x = (if b then Some y else slot_get h (RightOf x))"
    "tree_at h (slot_get h (child (\<not> b) x)) o'" "tree_at h (left h y) yl" "tree_at h (right h y) yr"
    using z y by (cases b; auto simp: hung_def o'_def)+
  have p: "(cs = [] \<and> p = Root) \<or> (\<exists>b w. p = child b w \<and> w \<in> set (ctx_list cs))"
    using path by (rule path_at_end) auto
  have np: "p \<noteq> LeftOf w" "p \<noteq> RightOf w" if "w \<notin> set (ctx_list cs)" for w
    using p that by auto
  have fr: "left h' w = left h w \<and> right h' w = right h w"
    if "w \<notin> set (ctx_list cs)" "w \<noteq> x" "w \<noteq> y" for w
    using that np by (simp add: h' sift_swap_def)
  have xy: "x \<notin> set (ctx_list cs)" "y \<notin> set (ctx_list cs)" "x \<noteq> y" using d by auto
  have "path_at h' Root cs p"
  proof (rule path_at_frame [OF path])
    show "distinct (ctx_list cs)" using d by simp
    show "slot_get h' Root = slot_get h Root" if "cs \<noteq> []"
      using p that by (auto simp: h' sift_swap_def)
    show "slot_get h' (child c w) = slot_get h (child c w)"
      if "w \<in> set (ctx_list cs)" "child c w \<noteq> p" for w c
      using that xy by (auto simp: h' sift_swap_def)
  qed
  moreover have py: "slot_get h' p = Some y"
    using np [OF xy(1)] np [OF xy(2)] by (simp add: h' sift_swap_def)
  moreover have cy: "left h' y = (if b then left h x else Some x)" "right h' y = (if b then Some x else right h x)"
    "left h' x = left h y" "right h' x = right h y"
    using xy by (auto simp: h' sift_swap_def)
  moreover have "tree_at h' (slot_get h (child (\<not> b) x)) o'"
    by (rule tree_at_cong [THEN iffD2, OF _ ch(3)]) (use fr d in auto)
  moreover have "tree_at h' (left h y) yl"
    by (rule tree_at_cong [THEN iffD2, OF _ ch(4)]) (use fr d in auto)
  moreover have "tree_at h' (right h y) yr"
    by (rule tree_at_cong [THEN iffD2, OF _ ch(5)]) (use fr d in auto)
  ultimately have shape: "path_at h' Root (cs @ [(b, y, o')]) (child b y)"
    "tree_at h' (slot_get h' (child b y)) (Node yl x yr)"
    by (auto simp: path_at_snoc)
  have due: "due h' = due h" by (simp add: h' sift_swap_def)
  have ix: "ctx_indexed (heap_index h) 1 cs" "heap_index h x = num (dirs cs)"
    "heap_index h y = go (num (dirs cs)) b" "indexed (heap_index h) (go (num (dirs cs)) (\<not> b)) o'"
    "indexed (heap_index h) (go (go (num (dirs cs)) b) False) yl"
    "indexed (heap_index h) (go (go (num (dirs cs)) b) True) yr"
    using z y by (cases b; auto simp: hung_def o'_def)+
  have hx: "heap_index h' = (heap_index h)(x := go (num (dirs cs)) b, y := num (dirs cs))"
    using ix xy by (simp add: h' sift_swap_def)
  have "ctx_indexed (heap_index h') 1 cs"
    by (rule ctx_indexed_cong [THEN iffD2, OF _ ix(1)]) (use xy hx in auto)
  moreover have "indexed (heap_index h') (go (num (dirs cs)) (\<not> b)) o'"
    by (rule indexed_cong [THEN iffD2, OF _ ix(4)]) (use d hx in auto)
  moreover have "indexed (heap_index h') (go (go (num (dirs cs)) b) False) yl"
    by (rule indexed_cong [THEN iffD2, OF _ ix(5)]) (use d hx in auto)
  moreover have "indexed (heap_index h') (go (go (num (dirs cs)) b) True) yr"
    by (rule indexed_cong [THEN iffD2, OF _ ix(6)]) (use d hx in auto)
  ultimately have "ctx_indexed (heap_index h') 1 (cs @ [(b, y, o')])"
    "indexed (heap_index h') (num (dirs (cs @ [(b, y, o')]))) (Node yl x yr)"
    using hx xy by (auto simp: ctx_indexed_snoc)
  moreover have "ctx_ord (due h) cs (set_tree (Node l x r))" "heap_ord (due h) o'"
    "heap_ord (due h) yl" "heap_ord (due h) yr"
    using z y by (cases b; auto simp: hung_def o'_def)+
  moreover have "set_tree (Node l x r) = insert y (set_tree o' \<union> set_tree (Node yl x yr))"
    using y by (cases b) (auto simp: o'_def)
  moreover have "\<forall>w \<in> set_tree o' \<union> set_tree (Node yl x yr). due h y \<le> due h w"
  proof -
    have "set_tree o' \<union> set_tree (Node yl x yr) \<subseteq> insert x (set_tree l \<union> set_tree r)"
      using y by (cases b) (auto simp: o'_def)
    moreover have "\<forall>w \<in> insert x (set_tree l \<union> set_tree r). due h y \<le> due h w"
      using ley lt by (simp add: less_imp_le)
    ultimately show ?thesis by blast
  qed
  ultimately have "hung h' (cs @ [(b, y, o')]) (child b y) yl x yr"
    using shape due d by (auto simp: hung_def ctx_ord_snoc)
  then show ?thesis by (simp add: o'_def)
qed

lemma heap_sift_unfold:
  assumes z: "hung h cs p l x r" and l: "l = Node ll ly lr"
  obtains b yl y yr where "(if b then r else l) = Node yl y yr"
    and "\<forall>w \<in> set_tree l \<union> set_tree r. due h y \<le> due h w"
    and "heap_sift p x h = (if due h y < due h x then heap_sift (child b y) x (sift_swap p x y b h) else Some h)"
proof -
  have lx: "left h x = Some ly" and ol: "heap_ord (due h) l" "heap_ord (due h) r"
    and d: "distinct (ctx_list cs @ inorder (Node l x r))" and path: "path_at h Root cs p"
    using z l by (auto simp: hung_def)
  have p: "p \<noteq> LeftOf x" "p \<noteq> RightOf x" "p \<noteq> LeftOf w \<or> w \<noteq> x" for w
    using path_at_end [OF path] d by (fastforce)+
  have leaf_or: "(r = Leaf \<and> right h x = None) \<or> (\<exists>rl ry rr. r = Node rl ry rr \<and> right h x = Some ry)"
    using z by (cases r) (auto simp: hung_def)
  have lmin: "\<forall>w \<in> set_tree l. due h ly \<le> due h w" using ol l by auto
  show thesis
  proof (cases "r \<noteq> Leaf \<and> \<not> due h ly < due h (case r of Node rl ry rr \<Rightarrow> ry)")
    case True
    then obtain rl ry rr where r: "r = Node rl ry rr" "right h x = Some ry" "\<not> due h ly < due h ry"
      using leaf_or by auto
    have ne: "ly \<noteq> ry" using d l r by auto
    have "\<forall>w \<in> set_tree r. due h ry \<le> due h w" using ol r by auto
    with lmin r(3) have "\<forall>w \<in> set_tree l \<union> set_tree r. due h ry \<le> due h w"
      by (auto simp: not_less intro: order_trans)
    moreover have "heap_sift p x h = (if due h ry < due h x then heap_sift (child True ry) x (sift_swap p x ry True h) else Some h)"
      using lx r ne p by (subst heap_sift.simps) (simp add: Let_def sift_swap_def child_def)
    ultimately show thesis using that [of True rl ry rr] r by simp
  next
    case False
    have "\<forall>w \<in> set_tree r. due h ly \<le> due h w"
    proof (cases r)
      case (Node rl ry rr)
      then have "due h ly < due h ry" "\<forall>w \<in> set_tree r. due h ry \<le> due h w" using False ol by auto
      then show ?thesis by (meson less_imp_le order_trans)
    qed simp
    with lmin have "\<forall>w \<in> set_tree l \<union> set_tree r. due h ly \<le> due h w" by blast
    moreover have "heap_sift p x h = (if due h ly < due h x then heap_sift (child False ly) x (sift_swap p x ly False h) else Some h)"
      using lx False leaf_or p by (subst heap_sift.simps) (auto simp: Let_def sift_swap_def child_def)
    ultimately show thesis using that [of False ll ly lr] l by simp
  qed
qed

lemma heap_sift_ok:
  assumes "hung h cs p l x r" and "paths (plug cs (Node l x r)) = {ps. num ps \<le> n}"
  shows "\<exists>h' u. heap_sift p x h = Some h' \<and> tree_at h' (sleep_q h') u \<and> heap_ord (due h') u \<and>
    indexed (heap_index h') 1 u \<and> mset (inorder u) = mset (ctx_list cs) + mset (inorder (Node l x r)) \<and>
    paths u = {ps. num ps \<le> n} \<and> due h' = due h \<and> sleepq_size h' = sleepq_size h"
  using assms
proof (induction "size l + size r" arbitrary: h cs p l r rule: less_induct)
  case less
  note z = less.prems(1)
  define u where "u = plug cs (Node l x r)"
  have whole: ?case if "heap_sift p x h = Some h" "heap_ord (due h) (Node l x r)"
  proof (intro exI [of _ h] exI [of _ u] conjI)
    show "tree_at h (sleep_q h) u"
      using z path_at_plug [of h Root cs p "Node l x r"] by (simp add: hung_def u_def)
    show "heap_ord (due h) u" "indexed (heap_index h) 1 u"
      using z that by (auto simp: hung_def u_def heap_ord_plug indexed_plug)
  qed (use that less.prems(2) in \<open>auto simp: u_def mset_plug\<close>)
  show ?case
  proof (cases l)
    case Leaf
    have "dirs cs @ [True] \<notin> paths u"
    proof
      assume "dirs cs @ [True] \<in> paths u"
      then have "dirs cs @ [False] \<in> paths u" using less.prems(2) by (auto simp: u_def go_def)
      then show False using Leaf by (auto simp: u_def paths_plug)
    qed
    then have "r = Leaf" by (auto simp: u_def paths_plug paths_Nil)
    moreover have "left h x = None" using z Leaf by (simp add: hung_def)
    then have "heap_sift p x h = Some h" by (subst heap_sift.simps) simp
    ultimately show ?thesis using whole Leaf by simp
  next
    case (Node ll ly lr)
    then obtain b yl y yr where y: "(if b then r else l) = Node yl y yr"
      and ley: "\<forall>w \<in> set_tree l \<union> set_tree r. due h y \<le> due h w"
      and step: "heap_sift p x h = (if due h y < due h x then heap_sift (child b y) x (sift_swap p x y b h) else Some h)"
      using heap_sift_unfold [OF z] by metis
    show ?thesis
    proof (cases "due h y < due h x")
      case False
      then have "\<forall>w \<in> set_tree l \<union> set_tree r. due h x \<le> due h w"
        using ley by (meson not_less order_trans)
      then have "heap_ord (due h) (Node l x r)" using z by (simp add: hung_def)
      with False step whole show ?thesis by simp
    next
      case True
      let ?cs = "cs @ [(b, y, if b then l else r)]" and ?h = "sift_swap p x y b h"
      have h1: "hung ?h ?cs (child b y) yl x yr" by (rule hung_step [OF z y True ley refl])
      have lt: "size yl + size yr < size l + size r" using y by (cases b) auto
      have "plug ?cs (Node yl x yr) = plug cs (if b then Node l y (Node yl x yr) else Node (Node yl x yr) y r)"
        by (simp add: plug_append)
      also have "paths \<dots> = paths u"
        unfolding u_def using y by (intro paths_plug_cong) (cases b; simp)
      finally have pp: "paths (plug ?cs (Node yl x yr)) = {ps. num ps \<le> n}" using less.prems(2) by (simp add: u_def)
      have m: "mset (ctx_list ?cs) + mset (inorder (Node yl x yr)) = mset (ctx_list cs) + mset (inorder (Node l x r))"
        using y by (cases b) auto
      have eqs: "due ?h = due h" "sleepq_size ?h = sleepq_size h" by (simp_all add: sift_swap_def)
      show ?thesis
        unfolding step if_P [OF True] using less.hyps [OF lt h1 pp] unfolding m eqs .
    qed
  qed
qed

lemma paths_prefix: "ps @ qs \<in> paths t \<Longrightarrow> ps \<in> paths t"
proof (induction t arbitrary: ps)
  case (Node l x r)
  then show ?case by (cases ps) auto
qed simp

lemma subtree_of_index:
  "x \<in> set_tree t \<Longrightarrow> indexed f i t \<Longrightarrow> \<exists>ps l r. subtree t ps = Node l x r \<and> foldl go i ps = f x \<and> ps \<in> paths t"
proof (induction t arbitrary: i)
  case (Node l y r)
  consider "x = y" | "x \<in> set_tree l" | "x \<in> set_tree r" using Node.prems by auto
  then show ?case
  proof cases
    case 1
    then show ?thesis using Node.prems by (intro exI [of _ "[]"]) auto
  next
    case 2
    then obtain ps l' r' where "subtree l ps = Node l' x r'" "foldl go (go i False) ps = f x" "ps \<in> paths l"
      using Node.IH(1) [of "go i False"] Node.prems by auto
    then show ?thesis by (intro exI [of _ "False # ps"]) auto
  next
    case 3
    then obtain ps l' r' where "subtree r ps = Node l' x r'" "foldl go (go i True) ps = f x" "ps \<in> paths r"
      using Node.IH(2) [of "go i True"] Node.prems by auto
    then show ?thesis by (intro exI [of _ "True # ps"]) auto
  qed
qed simp

lemma heap_find_last:
  assumes ok: "heap_ok h t" and ne: "t \<noteq> Leaf"
  obtains p cs z where "heap_last_loop (bit_count (sleepq_size h) - 1) Root h = Some p"
    and "path_at h Root cs p" and "slot_get h p = Some z" and "t = plug cs (Node Leaf z Leaf)"
    and "dirs cs = tpath (sleepq_size h)"
proof -
  let ?n = "sleepq_size h"
  have n: "0 < ?n" using ok ne by (cases t) (auto simp: heap_ok_def)
  have pt: "paths t = {ps. num ps \<le> ?n}" and ta: "tree_at h (slot_get h Root) t"
    using ok by (simp_all add: heap_ok_def)
  have inp: "rbits (bit_count ?n - 1) ?n \<in> paths t"
    using num_tpath [OF n] pt by (simp add: tpath_def)
  obtain cs p where last: "heap_last_loop (bit_count ?n - 1) Root h = Some p" "path_at h Root cs p"
    "tree_at h (slot_get h p) (subtree t (tpath ?n))" "dirs cs = tpath ?n" "plug cs (subtree t (tpath ?n)) = t"
    using heap_last_loop_ok [of h "[]" Root t "bit_count ?n - 1"] ta inp by (auto simp: tpath_def)
  let ?s = "subtree t (tpath ?n)"
  have "?s \<noteq> Leaf" using inp paths_plug [of cs "[]" ?s] last(4,5) paths_Nil by (simp add: tpath_def)
  then obtain l z r where s: "?s = Node l z r" by (cases ?s) auto
  have "[b] \<notin> paths ?s" for b
  proof
    assume "[b] \<in> paths ?s"
    then have "dirs cs @ [b] \<in> paths t" using paths_plug [of cs "[b]" ?s] last(5) by simp
    then have "go ?n b \<le> ?n" using pt last(4) num_tpath [OF n] by simp
    then show False using go_ge(2) [OF n, of b] by simp
  qed
  from this [of False] this [of True] have "l = Leaf" "r = Leaf" using s paths_Nil by auto
  then show thesis using that [of p cs z] last s by simp
qed

lemma heap_unlink_last:
  assumes ok: "heap_ok h (plug cs (Node Leaf z Leaf))" and path: "path_at h Root cs p"
    and dn: "dirs cs = tpath (sleepq_size h)"
    and h1: "h1 = (slot_set p None h)\<lparr>sleepq_size := sleepq_size h - 1\<rparr>"
  shows "heap_ok h1 (plug cs Leaf)"
proof -
  let ?n = "sleepq_size h"
  have d: "distinct (ctx_list cs @ [z])" using ok by (simp add: heap_ok_def distinct_plug)
  have n: "0 < ?n" "size (plug cs Leaf) = ?n - 1" using ok by (auto simp: heap_ok_def size_plug)
  have p: "(cs = [] \<and> p = Root) \<or> (\<exists>b w. p = child b w \<and> w \<in> set (ctx_list cs))"
    using path by (rule path_at_end) auto
  have "path_at h1 Root cs p"
    by (rule path_at_frame [OF path]) (use d p in \<open>auto simp: h1\<close>)
  then have "tree_at h1 (sleep_q h1) (plug cs Leaf)"
    using path_at_plug [of h1 Root cs p Leaf] by (simp add: h1)
  moreover have "paths (plug cs Leaf) = {ps. num ps \<le> ?n - 1}"
  proof (rule set_eqI)
    fix qs
    have pt: "qs \<in> paths (plug cs (Node Leaf z Leaf)) \<longleftrightarrow> num qs \<le> ?n"
      using ok by (simp add: heap_ok_def)
    show "qs \<in> paths (plug cs Leaf) \<longleftrightarrow> qs \<in> {ps. num ps \<le> ?n - 1}"
    proof (cases "\<exists>ps. qs = dirs cs @ ps")
      case True
      then obtain ps where qs: "qs = dirs cs @ ps" by auto
      have "?n \<le> num qs" using foldl_go_ge [of ?n ps] qs dn num_tpath [OF n(1)] by simp
      then show ?thesis using n(1) qs by (auto simp: paths_plug)
    next
      case False
      have "num qs \<noteq> ?n" using False num_inj [of qs "dirs cs"] num_tpath [OF n(1)] dn by auto
      then show ?thesis using paths_plug_other [OF False] pt n(1) by auto
    qed
  qed
  ultimately show ?thesis
    using ok n by (auto simp: heap_ok_def h1 distinct_plug heap_ord_plug indexed_plug elim: ctx_ord_mono)
qed

lemma placed_hang:
  assumes z: "placed h cs p (Node l x r) y"
    and h': "h' = slot_set (RightOf y) (right h x) (slot_set (LeftOf y) (left h x) h)"
  shows "hung h' cs p l y r"
proof -
  have d: "distinct (y # ctx_list cs @ inorder l @ x # inorder r)" and path: "path_at h Root cs p"
    and py: "slot_get h p = Some y" and t: "tree_at h (left h x) l" "tree_at h (right h x) r"
    using z by (auto simp: placed_def)
  have p: "(cs = [] \<and> p = Root) \<or> (\<exists>b w. p = child b w \<and> w \<in> set (ctx_list cs))"
    using path by (rule path_at_end) auto
  have np: "p \<noteq> LeftOf y" "p \<noteq> RightOf y" using p d by auto
  have "path_at h' Root cs p"
    by (rule path_at_frame [OF path]) (use d in \<open>auto simp: h'\<close>)
  moreover have "tree_at h' (left h x) l" "tree_at h' (right h x) r"
    using t d by (auto simp: h' elim!: tree_at_cong [THEN iffD2, rotated])
  ultimately show ?thesis
    using z np d by (auto simp: hung_def placed_def h' elim: ctx_ord_mono)
qed

text \<open>The last thread \<open>z\<close> takes the place of \<open>x\<close> and is sifted down.\<close>

lemma heap_replace_ok:
  assumes ok: "heap_ok h t" and x: "x \<in> set_tree t" and z: "z \<notin> set_tree t"
    and h2: "h2 = set_index z (heap_index h x) h"
  obtains p y h3 h4 u where "heap_insert (Some z) h2 = Some (Some p, h3)" and "slot_get h3 p = Some y"
    and "heap_sift p y (slot_set (RightOf y) (right h3 x) (slot_set (LeftOf y) (left h3 x) h3)) = Some h4"
    and "heap_ok h4 u" and "add_mset x (mset (inorder u)) = add_mset z (mset (inorder t))"
    and "due h4 = due h"
proof -
  have ot: "heap_ord (due h) t" and it: "indexed (heap_index h) 1 t"
    and pt: "paths t = {ps. num ps \<le> sleepq_size h}" and szt: "size t = sleepq_size h"
    using ok by (simp_all add: heap_ok_def)
  obtain ps l r where sub: "subtree t ps = Node l x r" "num ps = heap_index h x" "ps \<in> paths t"
    using subtree_of_index [OF x it] by auto
  have tp: "tpath (heap_index h2 z) = ps" using sub(2) tpath_num [of ps] by (simp add: h2)
  have t: "tree_at h2 (sleep_q h2) t" "distinct (z # inorder t)"
    using ok z tree_at_cong [of t h2 h] by (auto simp: heap_ok_def h2)
  have i: "indexed (heap_index h2) 1 t"
    by (rule indexed_cong [THEN iffD2, OF _ it]) (use z in \<open>auto simp: h2\<close>)
  have o2: "heap_ord (due h2) t" using ot by (simp add: h2)
  have pos: "0 < heap_index h2 z" using sub(2) num_pos [of ps] by (simp add: h2)
  have reach: "\<forall>qs rs. tpath (heap_index h2 z) = qs @ rs \<longrightarrow> rs \<noteq> [] \<longrightarrow> qs \<in> paths t"
    using sub(3) paths_prefix unfolding tp by blast
  obtain y p h3 cs where ins: "heap_insert (Some z) h2 = Some (Some p, h3)" "placed h3 cs p (Node l x r) y"
    "add_mset y (mset (ctx_list cs)) + mset (inorder (Node l x r)) = add_mset z (mset (inorder t))"
    "paths (plug cs (Node l x r)) = paths t" "due h3 = due h2" "sleepq_size h3 = sleepq_size h2"
    using heap_insert_ok [OF t o2 i pos reach] unfolding tp sub(1) by metis
  let ?h = "slot_set (RightOf y) (right h3 x) (slot_set (LeftOf y) (left h3 x) h3)"
  have "hung ?h cs p l y r" by (rule placed_hang [OF ins(2) refl])
  moreover have "paths (plug cs (Node l y r)) = {ps. num ps \<le> sleepq_size h}"
    using paths_plug_cong [of "Node l y r" "Node l x r"] ins(4) pt by simp
  ultimately obtain h4 u where u: "heap_sift p y ?h = Some h4" "tree_at h4 (sleep_q h4) u" "heap_ord (due h4) u"
    "indexed (heap_index h4) 1 u" "mset (inorder u) = mset (ctx_list cs) + mset (inorder (Node l y r))"
    "paths u = {ps. num ps \<le> sleepq_size h}" "due h4 = due ?h" "sleepq_size h4 = sleepq_size ?h"
    using heap_sift_ok by blast
  have m: "add_mset x (mset (inorder u)) = add_mset z (mset (inorder t))"
    using ins(3) u(5) by (simp add: ac_simps)
  have "distinct (inorder u)"
    using ins(2) u(5) mset_eq_imp_distinct_iff [of "inorder u" "ctx_list cs @ inorder (Node l y r)"]
    by (auto simp: placed_def)
  moreover have "size u = sleepq_size h4"
  proof -
    have "size (add_mset x (mset (inorder u))) = size (add_mset z (mset (inorder t)))" using m by simp
    then show ?thesis using szt u(8) ins(6) by (simp add: h2)
  qed
  ultimately have "heap_ok h4 u" using u ins(6) by (simp add: heap_ok_def h2)
  then show thesis
    using that [of p h3 y h4 u] ins(1,2,5) u(1,7) m by (simp add: placed_def h2)
qed

lemma heap_ok_detached:
  assumes "heap_ok h t" and "x \<notin> set_tree t"
  shows "heap_ok (slot_set (LeftOf x) None (slot_set (RightOf x) None h)) t"
proof -
  have "tree_at h (sleep_q h) t" using assms(1) by (simp add: heap_ok_def)
  then have "tree_at (slot_set (LeftOf x) None (slot_set (RightOf x) None h)) (sleep_q h) t"
    by (rule tree_at_cong [THEN iffD2, rotated]) (use assms(2) in auto)
  then show ?thesis using assms(1) by (simp add: heap_ok_def)
qed

lemma heap_delete_ok:
  assumes ok: "heap_ok h t" and x: "x \<in> set_tree t"
  obtains h' t' where "heap_delete x h = Some h'" and "heap_ok h' t'"
    and "mset (inorder t) = add_mset x (mset (inorder t'))" and "due h' = due h"
proof -
  have "t \<noteq> Leaf" using x by auto
  then obtain p cs z where last: "heap_last_loop (bit_count (sleepq_size h) - 1) Root h = Some p"
    "path_at h Root cs p" "slot_get h p = Some z" "t = plug cs (Node Leaf z Leaf)" "dirs cs = tpath (sleepq_size h)"
    using heap_find_last [OF ok] by blast
  define h1 where "h1 = (slot_set p None h)\<lparr>sleepq_size := sleepq_size h - 1\<rparr>"
  have ok1: "heap_ok h1 (plug cs Leaf)"
    by (rule heap_unlink_last [OF _ last(2,5)]) (use ok last(4) h1_def in auto)
  have mt: "mset (inorder t) = add_mset z (mset (inorder (plug cs Leaf)))"
    using last(4) by (simp add: mset_plug)
  have z: "z \<notin> set_tree (plug cs Leaf)"
    using ok last(4) by (auto simp: heap_ok_def distinct_plug set_plug)
  show thesis
  proof (cases "z = x")
    case True
    let ?h = "slot_set (LeftOf x) None (slot_set (RightOf x) None h1)"
    have "heap_delete x h = Some ?h"
      using last(1,3) True by (simp add: heap_delete_def h1_def)
    moreover have "heap_ok ?h (plug cs Leaf)" using ok1 z True by (auto intro: heap_ok_detached)
    ultimately show thesis using that mt True by (simp add: h1_def)
  next
    case False
    have xin: "x \<in> set_tree (plug cs Leaf)" using x False last(4) by (simp add: set_plug)
    obtain p' y h3 h4 u where rep: "heap_insert (Some z) (set_index z (heap_index h1 x) h1) = Some (Some p', h3)"
      "slot_get h3 p' = Some y"
      "heap_sift p' y (slot_set (RightOf y) (right h3 x) (slot_set (LeftOf y) (left h3 x) h3)) = Some h4"
      "heap_ok h4 u" "add_mset x (mset (inorder u)) = add_mset z (mset (inorder (plug cs Leaf)))" "due h4 = due h1"
      by (rule heap_replace_ok [OF ok1 xin z refl])
    let ?h = "slot_set (LeftOf x) None (slot_set (RightOf x) None h4)"
    have "heap_delete x h = Some ?h"
      using last(1,3) False rep(1-3) by (simp add: heap_delete_def h1_def)
    moreover have "x \<notin> set_tree u"
    proof -
      have "mset (x # inorder u) = mset (inorder t)" using rep(5) mt by simp
      then have "distinct (x # inorder u)" using ok mset_eq_imp_distinct_iff unfolding heap_ok_def by metis
      then show ?thesis by simp
    qed
    then have "heap_ok ?h u" using rep(4) by (rule heap_ok_detached [rotated])
    ultimately show thesis using that rep(5,6) mt by (simp add: h1_def)
  qed
qed

text \<open>The root is due first.\<close>

lemma heap_ok_min:
  "heap_ok h t \<Longrightarrow> sleep_q h = Some x \<Longrightarrow> x \<in> set_tree t \<and> (\<forall>y \<in> set_tree t. due h x \<le> due h y)"
  by (cases t) (auto simp: heap_ok_def)

lemma heap_ok_empty_iff: "heap_ok h t \<Longrightarrow> sleep_q h = None \<longleftrightarrow> t = Leaf"
  using tree_at_leaf_iff by (auto simp: heap_ok_def)

lemma heap_ok_det: "heap_ok h t \<Longrightarrow> heap_ok h t' \<Longrightarrow> t = t'"
  using tree_at_det by (auto simp: heap_ok_def)

section \<open>Timer queues as an interface\<close>

text \<open>
  What the scheduler relies on: a set of timers with a key each; the top is a timer with the least
  key; adding and deleting never fail and change exactly one timer.
\<close>

locale timer_queue =
  fixes ok :: "'h \<Rightarrow> bool"
    and members :: "'h \<Rightarrow> 'a set"
    and key :: "'h \<Rightarrow> 'a \<Rightarrow> 'k :: linorder"
    and top :: "'h \<Rightarrow> 'a option"
    and add :: "'a \<Rightarrow> 'k \<Rightarrow> 'h \<Rightarrow> 'h option"
    and del :: "'a \<Rightarrow> 'h \<Rightarrow> 'h option"
  assumes finite_members: "ok h \<Longrightarrow> finite (members h)"
    and top_None: "ok h \<Longrightarrow> top h = None \<longleftrightarrow> members h = {}"
    and top_Some: "ok h \<Longrightarrow> top h = Some x \<Longrightarrow> x \<in> members h \<and> (\<forall>y \<in> members h. key h x \<le> key h y)"
    and add_ok: "ok h \<Longrightarrow> x \<notin> members h \<Longrightarrow>
      \<exists>h'. add x d h = Some h' \<and> ok h' \<and> members h' = insert x (members h) \<and> key h' = (key h)(x := d)"
    and del_ok: "ok h \<Longrightarrow> x \<in> members h \<Longrightarrow>
      \<exists>h'. del x h = Some h' \<and> ok h' \<and> members h' = members h - {x} \<and> key h' = key h"
begin

definition expired :: "'k \<Rightarrow> 'h \<Rightarrow> 'a set" where
  "expired now h = {x \<in> members h. key h x \<le> now}"

lemma finite_expired: "ok h \<Longrightarrow> finite (expired now h)"
  by (simp add: expired_def finite_members)

lemma none_expired:
  assumes "ok h"
  shows "expired now h = {} \<longleftrightarrow> (case top h of None \<Rightarrow> True | Some x \<Rightarrow> now < key h x)"
proof (cases "top h")
  case None
  then show ?thesis using top_None [OF assms] by (simp add: expired_def)
next
  case (Some x)
  then show ?thesis using top_Some [OF assms Some] by (auto simp: expired_def not_le)
qed

lemma pop_expired:
  assumes "ok h" and "top h = Some x" and "key h x \<le> now"
  shows "\<exists>h'. del x h = Some h' \<and> ok h' \<and> members h' = members h - {x} \<and> key h' = key h \<and>
    x \<in> expired now h \<and> expired now h' = expired now h - {x} \<and> (\<forall>y \<in> expired now h. key h x \<le> key h y)"
proof -
  have x: "x \<in> members h" "\<forall>y \<in> members h. key h x \<le> key h y" using top_Some [OF assms(1,2)] by auto
  then obtain h' where "del x h = Some h'" "ok h'" "members h' = members h - {x}" "key h' = key h"
    using del_ok [OF assms(1)] by blast
  then show ?thesis using x assms(3) by (auto simp: expired_def)
qed

lemma add_then_del:
  assumes "ok h" and "x \<notin> members h"
  shows "\<exists>h1 h2. add x d h = Some h1 \<and> del x h1 = Some h2 \<and> ok h2 \<and> members h2 = members h"
proof -
  obtain h1 where h1: "add x d h = Some h1" "ok h1" "members h1 = insert x (members h)"
    using add_ok [OF assms] by blast
  then obtain h2 where "del x h1 = Some h2" "ok h2" "members h2 = members h1 - {x}"
    using del_ok [of h1 x] by auto
  then show ?thesis using h1 assms(2) by auto
qed

end

text \<open>The pointer heap provides this interface.\<close>

definition wf_heap :: "theap \<Rightarrow> bool" where
  "wf_heap h \<longleftrightarrow> (\<exists>t. heap_ok h t)"

definition sleepers :: "theap \<Rightarrow> tid set" where
  "sleepers h = {x. \<exists>t. heap_ok h t \<and> x \<in> set_tree t}"

lemma sleepers_eq: "heap_ok h t \<Longrightarrow> sleepers h = set_tree t"
  using heap_ok_det by (auto simp: sleepers_def)

lemma set_tree_of_mset: "mset (inorder t) = add_mset x (mset (inorder u)) \<Longrightarrow> set_tree t = insert x (set_tree u)"
  by (metis set_inorder set_mset_add_mset_insert set_mset_mset)

interpretation tq: timer_queue wf_heap sleepers due sleep_q sleepq_add heap_delete
proof unfold_locales
  fix h assume "wf_heap h"
  then obtain t where t: "heap_ok h t" by (auto simp: wf_heap_def)
  note s = sleepers_eq [OF t]
  show "finite (sleepers h)" by (simp add: s)
  show "(sleep_q h = None) = (sleepers h = {})" using heap_ok_empty_iff [OF t] by (simp add: s)
  show "x \<in> sleepers h \<and> (\<forall>y \<in> sleepers h. due h x \<le> due h y)" if "sleep_q h = Some x" for x
    using heap_ok_min [OF t that] by (simp add: s)
  show "\<exists>h'. sleepq_add x d h = Some h' \<and> wf_heap h' \<and> sleepers h' = insert x (sleepers h) \<and> due h' = (due h)(x := d)"
    if "x \<notin> sleepers h" for x d
  proof -
    have x: "x \<notin> set_tree t" using that s by simp
    obtain h' u where "sleepq_add x d h = Some h'" "heap_ok h' u"
      "mset (inorder u) = add_mset x (mset (inorder t))" "due h' = (due h)(x := d)"
      by (rule sleepq_add_ok [OF t x])
    then show ?thesis using s sleepers_eq [of h' u] set_tree_of_mset [of u x t] by (auto simp: wf_heap_def)
  qed
  show "\<exists>h'. heap_delete x h = Some h' \<and> wf_heap h' \<and> sleepers h' = sleepers h - {x} \<and> due h' = due h"
    if x: "x \<in> sleepers h" for x
  proof -
    obtain h' u where h': "heap_delete x h = Some h'" "heap_ok h' u"
      "mset (inorder t) = add_mset x (mset (inorder u))" "due h' = due h"
      using heap_delete_ok [OF t, of x] x s by auto
    have "x \<notin> set_tree u"
    proof -
      have "mset (x # inorder u) = mset (inorder t)" using h'(3) by simp
      then have "distinct (x # inorder u)" using t mset_eq_imp_distinct_iff unfolding heap_ok_def by metis
      then show ?thesis by simp
    qed
    then show ?thesis
      using h' s sleepers_eq [OF h'(2)] set_tree_of_mset [OF h'(3)] by (auto simp: wf_heap_def)
  qed
qed

section \<open>Properties\<close>

text \<open>
  A heap with three sleeping threads, used as a concrete instance: thread 2 is due at 10 and sits
  at the root, threads 1 and 3 are due at 30 and 20.
\<close>

definition demo_heap :: theap where
  "demo_heap = \<lparr>due = (\<lambda>_. 0)(1 := 30, 2 := 10, 3 := 20), left = (\<lambda>_. None)(2 := Some 1),
     right = (\<lambda>_. None)(2 := Some 3), heap_index = (\<lambda>_. 0)(1 := 2, 2 := 1, 3 := 3),
     sleep_q = Some 2, sleepq_size = 3\<rparr>"

definition demo_tree :: "tid tree" where
  "demo_tree = Node (Node Leaf 1 Leaf) 2 (Node Leaf 3 Leaf)"

lemma num_le_3: "{ps. num ps \<le> 3} = {[], [False], [True]}"
proof -
  have "ps \<in> {[], [False], [True]}" if "num ps \<le> 3" for ps
  proof (cases ps)
    case (Cons b qs)
    show ?thesis
    proof (cases qs)
      case (Cons c rs)
      then have "go (go 1 b) c \<le> num ps" using foldl_go_ge [of "go (go 1 b) c" rs] \<open>ps = b # qs\<close> by simp
      then show ?thesis using that by (simp add: go_def)
    qed (use \<open>ps = b # qs\<close> in auto)
  qed simp
  then show ?thesis by (auto simp: go_def)
qed

lemma demo_heap_ok: "heap_ok demo_heap demo_tree"
  unfolding heap_ok_def
proof (intro conjI)
  have "paths demo_tree = {[], [False], [True]}" by (auto simp: demo_tree_def)
  then show "paths demo_tree = {ps. num ps \<le> sleepq_size demo_heap}"
    using num_le_3 by (simp add: demo_heap_def)
qed (simp_all add: demo_heap_def demo_tree_def go_def)

text \<open>
  C1: On a well-formed timeout heap \<open>_st_add_sleep_q\<close>'s heap part (set \<open>due\<close>, take the next index,
  \<open>heap_insert\<close>) terminates and yields a well-formed heap with exactly one more thread, whose due
  time is the requested one; the due times of the others are unchanged, and the root is the thread
  with the least due time.
\<close>

theorem sleepq_add_correct:
  assumes "heap_ok h t" and "x \<notin> set_tree t"
  shows "\<exists>h' t'. sleepq_add x d h = Some h' \<and> heap_ok h' t' \<and> sleepq_size h' = Suc (sleepq_size h) \<and>
    mset (inorder t') = add_mset x (mset (inorder t)) \<and> due h' = (due h)(x := d) \<and>
    (\<forall>y \<in> set_tree t'. \<exists>r. sleep_q h' = Some r \<and> due h' r \<le> due h' y)"
proof (rule sleepq_add_ok [OF assms, of d])
  fix h' t'
  assume a: "sleepq_add x d h = Some h'" "heap_ok h' t'"
    "mset (inorder t') = add_mset x (mset (inorder t))" "due h' = (due h)(x := d)"
  then have "length (inorder t') = Suc (length (inorder t))"
    by (metis size_mset size_add_mset)
  then have "sleepq_size h' = Suc (sleepq_size h)" using assms(1) a(2) by (simp add: heap_ok_def)
  moreover have "sleep_q h' \<noteq> None" using heap_ok_empty_iff [OF a(2)] a(3) by auto
  ultimately show ?thesis using a heap_ok_min [OF a(2)] by blast
qed

theorem sleepq_add_correct_witness:
  "heap_ok demo_heap demo_tree \<and> 9 \<notin> set_tree demo_tree \<and>
   (\<exists>h' t'. sleepq_add 9 5 demo_heap = Some h' \<and> heap_ok h' t' \<and> sleepq_size h' = 4 \<and>
     mset (inorder t') = add_mset 9 (mset (inorder demo_tree)))"
  using sleepq_add_correct [OF demo_heap_ok, of 9 5] demo_heap_ok
  by (auto simp: demo_tree_def demo_heap_def)

text \<open>
  C2: \<open>heap_delete\<close> of any thread of a well-formed timeout heap, the last, the root or an inner one,
  terminates (also its sift-down loop), removes exactly that thread, restores heap order, indices
  and shape, and changes no due time.
\<close>

theorem heap_delete_correct:
  assumes "heap_ok h t" and "x \<in> set_tree t"
  shows "\<exists>h' t'. heap_delete x h = Some h' \<and> heap_ok h' t' \<and> Suc (sleepq_size h') = sleepq_size h \<and>
    mset (inorder t) = add_mset x (mset (inorder t')) \<and> due h' = due h"
proof (rule heap_delete_ok [OF assms])
  fix h' t'
  assume a: "heap_delete x h = Some h'" "heap_ok h' t'"
    "mset (inorder t) = add_mset x (mset (inorder t'))" "due h' = due h"
  then have "length (inorder t) = Suc (length (inorder t'))"
    by (metis size_mset size_add_mset)
  then have "Suc (sleepq_size h') = sleepq_size h" using assms(1) a(2) by (simp add: heap_ok_def)
  then show ?thesis using a by blast
qed

theorem heap_delete_correct_witness:
  "heap_ok demo_heap demo_tree \<and> 2 \<in> set_tree demo_tree \<and>
   (\<exists>h' t'. heap_delete 2 demo_heap = Some h' \<and> heap_ok h' t' \<and> sleepq_size h' = 2 \<and>
     mset (inorder demo_tree) = add_mset 2 (mset (inorder t')))"
  using heap_delete_correct [OF demo_heap_ok, of 2] demo_heap_ok
  by (auto simp: demo_tree_def demo_heap_def)

text \<open>
  Adding a thread to the timeout heap and deleting it again succeeds and gives back a
  well-formed heap with the same sleeping threads.
\<close>

theorem sleepq_add_delete:
  assumes "heap_ok h t" and "x \<notin> set_tree t"
  shows "\<exists>h1 h2 t2. sleepq_add x d h = Some h1 \<and> heap_delete x h1 = Some h2 \<and> heap_ok h2 t2 \<and>
    set_tree t2 = set_tree t \<and> sleepq_size h2 = sleepq_size h"
proof -
  have w: "wf_heap h" "x \<notin> sleepers h" using assms sleepers_eq by (auto simp: wf_heap_def)
  obtain h1 h2 where h: "sleepq_add x d h = Some h1" "heap_delete x h1 = Some h2" "wf_heap h2"
    "sleepers h2 = sleepers h" using tq.add_then_del [OF w] by blast
  then obtain t2 where t2: "heap_ok h2 t2" by (auto simp: wf_heap_def)
  have s: "set_tree t2 = set_tree t" using h(4) sleepers_eq [OF t2] sleepers_eq [OF assms(1)] by simp
  have "sleepq_size h' = card (set_tree u)" if "heap_ok h' u" for h' u
    using that distinct_card [of "inorder u"] by (simp add: heap_ok_def)
  then show ?thesis using h t2 s assms(1) by metis
qed

theorem sleepq_add_delete_witness:
  "heap_ok demo_heap demo_tree \<and> 9 \<notin> set_tree demo_tree \<and>
   (\<exists>h1 h2 t2. sleepq_add 9 15 demo_heap = Some h1 \<and> heap_delete 9 h1 = Some h2 \<and> heap_ok h2 t2 \<and>
     set_tree t2 = {1, 2, 3})"
proof -
  have n: "9 \<notin> set_tree demo_tree" "set_tree demo_tree = {1, 2, 3}" by (auto simp: demo_tree_def)
  show ?thesis using sleepq_add_delete [OF demo_heap_ok n(1), of 15] demo_heap_ok n by auto
qed

end
