(* ===== verification/Sched_State.thy ===== *)
theory Sched_State
  imports Clist Timeout_Heap
begin

text \<open>
  The state of one virtual processor: the thread objects (\<open>struct _st_thread\<close>), the queues of
  \<open>struct _st_vp\<close>, the globals of sched.c, and the fiber that is executing (fiber/context.h). The
  run, I/O and zombie queues and the wait queues of condition variables and mutexes live in one link
  memory whose nodes are the \<open>_st_clist_t\<close> members of the C structures; the timeout heap is the
  \<open>theap\<close> of \<open>Timeout_Heap\<close>.
\<close>

section \<open>Threads, nodes and the global state\<close>

datatype tstate = ST_ST_RUNNING | ST_ST_RUNNABLE | ST_ST_IO_WAIT | ST_ST_LOCK_WAIT
  | ST_ST_COND_WAIT | ST_ST_SLEEPING | ST_ST_ZOMBIE | ST_ST_SUSPENDED

text \<open>
  The list nodes: the queue heads of the VP, the \<open>links\<close> and \<open>wait_links\<close> members of a thread, the
  \<open>wait_q\<close> heads of a condition variable and of a mutex, and the \<open>links\<close> member of a poll request.
  The pointer conversions \<open>_ST_THREAD_PTR\<close>, \<open>_ST_THREAD_WAITQ_PTR\<close> and \<open>_ST_POLLQUEUE_PTR\<close> are the
  projections of the constructors.
\<close>

datatype node = RunQ | IoQ | ZombieQ | Links tid | WaitLinks tid | CondQ cid | MutexQ mid | PqLinks pqid

fun ST_THREAD_PTR :: "node \<Rightarrow> tid option" where
  "ST_THREAD_PTR (Links t) = Some t"
| "ST_THREAD_PTR _ = None"

fun ST_THREAD_WAITQ_PTR :: "node \<Rightarrow> tid option" where
  "ST_THREAD_WAITQ_PTR (WaitLinks t) = Some t"
| "ST_THREAD_WAITQ_PTR _ = None"

fun ST_POLLQUEUE_PTR :: "node \<Rightarrow> pqid option" where
  "ST_POLLQUEUE_PTR (PqLinks q) = Some q"
| "ST_POLLQUEUE_PTR _ = None"

text \<open>
  A thread object. \<open>due\<close>, \<open>left\<close>, \<open>right\<close> and \<open>heap_index\<close> are fields of the timeout heap, \<open>links\<close> and
  \<open>wait_links\<close> nodes of the link memory. \<open>has_context\<close> says that \<open>context\<close> is not \<open>NULL\<close>.
\<close>

record thread =
  state :: tstate
  flags :: flagword
  start :: ptr
  arg :: ptr
  retval :: ptr
  private_data :: "ptr list"
  term_cv :: "cid option"
  has_context :: bool

text \<open>
  \<open>running\<close> is the fiber the CPU executes: \<open>None\<close> for the native fiber of the process, \<open>Some t\<close> for the
  fiber of thread \<open>t\<close>; \<open>cur_context\<close> is \<open>FiberSG::CurrentContext()\<close> and \<open>fiber_native\<close> says that the
  process thread has been converted to a fiber (a \<open>FiberScopedGuard\<close> is alive).
\<close>

record st =
  links :: "node links"
  heap :: theap
  thr :: "tid \<Rightarrow> thread"
  idle_thread :: "tid option"
  last_clock :: utime
  pagesize :: int
  this_thread :: "tid option"
  active_count :: int
  curr_time :: int
  last_tset :: utime
  mutex_owner :: "mid \<Rightarrow> tid option"
  fiber_native :: bool
  cur_context :: "tid option"
  running :: "tid option"

definition upd_thr :: "tid \<Rightarrow> (thread \<Rightarrow> thread) \<Rightarrow> st \<Rightarrow> st" where
  "upd_thr t f s = s\<lparr>thr := (thr s)(t := f (thr s t))\<rparr>"

definition set_state :: "tid \<Rightarrow> tstate \<Rightarrow> st \<Rightarrow> st" where
  "set_state t v s = upd_thr t (\<lambda>x. x\<lparr>state := v\<rparr>) s"

definition or_flags :: "tid \<Rightarrow> flagword \<Rightarrow> st \<Rightarrow> st" where
  "or_flags t m s = upd_thr t (\<lambda>x. x\<lparr>flags := flag_set (flags x) m\<rparr>) s"

definition clr_flags :: "tid \<Rightarrow> flagword \<Rightarrow> st \<Rightarrow> st" where
  "clr_flags t m s = upd_thr t (\<lambda>x. x\<lparr>flags := flag_clr (flags x) m\<rparr>) s"

definition has_flag :: "st \<Rightarrow> tid \<Rightarrow> flagword \<Rightarrow> bool" where
  "has_flag s t m \<longleftrightarrow> flag_on (flags (thr s t)) m"

section \<open>Queue macros and fibers\<close>

definition ST_ADD_RUNQ :: "tid \<Rightarrow> st \<Rightarrow> st" where
  "ST_ADD_RUNQ t s = s\<lparr>links := ST_APPEND_LINK (Links t) RunQ (links s)\<rparr>"

definition ST_DEL_RUNQ :: "tid \<Rightarrow> st \<Rightarrow> st" where
  "ST_DEL_RUNQ t s = s\<lparr>links := ST_REMOVE_LINK (Links t) (links s)\<rparr>"

definition ST_ADD_ZOMBIEQ :: "tid \<Rightarrow> st \<Rightarrow> st" where
  "ST_ADD_ZOMBIEQ t s = s\<lparr>links := ST_APPEND_LINK (Links t) ZombieQ (links s)\<rparr>"

definition ST_DEL_ZOMBIEQ :: "tid \<Rightarrow> st \<Rightarrow> st" where
  "ST_DEL_ZOMBIEQ t s = s\<lparr>links := ST_REMOVE_LINK (Links t) (links s)\<rparr>"

definition ST_ADD_IOQ :: "pqid \<Rightarrow> st \<Rightarrow> st" where
  "ST_ADD_IOQ q s = s\<lparr>links := ST_APPEND_LINK (PqLinks q) IoQ (links s)\<rparr>"

definition ST_DEL_IOQ :: "pqid \<Rightarrow> st \<Rightarrow> st" where
  "ST_DEL_IOQ q s = s\<lparr>links := ST_REMOVE_LINK (PqLinks q) (links s)\<rparr>"

text \<open>
  \<open>Context::SwapIn\<close>, reached through \<open>swapFiber\<close>: the context becomes current and, if the process
  thread is a fiber, control goes to it. \<open>Context::SwapOut\<close> gives control back to the native fiber.
\<close>

definition swapFiber :: "tid \<Rightarrow> st \<Rightarrow> st" where
  "swapFiber t s =
    (let s = s\<lparr>cur_context := Some t\<rparr>
     in if fiber_native s then s\<lparr>running := Some t\<rparr> else s)"

definition swapOutFiber :: "st \<Rightarrow> st" where
  "swapOutFiber s =
    (if cur_context s \<noteq> None
     then (let s = s\<lparr>cur_context := None\<rparr>
           in if fiber_native s then s\<lparr>running := None\<rparr> else s)
     else s)"

definition ST_SWITCH_CONTEXT :: "tid \<Rightarrow> st \<Rightarrow> st" where
  "ST_SWITCH_CONTEXT t s = (if has_context (thr s t) then swapFiber t s else s)"

section \<open>Abstract view of the queues\<close>

definition runq :: "st \<Rightarrow> tid list \<Rightarrow> bool" where
  "runq s xs \<longleftrightarrow> is_clist (links s) RunQ (map Links xs)"

definition zombieq :: "st \<Rightarrow> tid list \<Rightarrow> bool" where
  "zombieq s xs \<longleftrightarrow> is_clist (links s) ZombieQ (map Links xs)"

definition ioq :: "st \<Rightarrow> pqid list \<Rightarrow> bool" where
  "ioq s xs \<longleftrightarrow> is_clist (links s) IoQ (map PqLinks xs)"

definition condq :: "st \<Rightarrow> cid \<Rightarrow> tid list \<Rightarrow> bool" where
  "condq s c xs \<longleftrightarrow> is_clist (links s) (CondQ c) (map WaitLinks xs)"

definition mutexq :: "st \<Rightarrow> mid \<Rightarrow> tid list \<Rightarrow> bool" where
  "mutexq s m xs \<longleftrightarrow> is_clist (links s) (MutexQ m) (map WaitLinks xs)"

lemma inj_nodes [simp]: "inj Links" "inj WaitLinks" "inj PqLinks"
  by (simp_all add: inj_def)

lemma in_nodes [simp]:
  "Links t \<in> Links ` A \<longleftrightarrow> t \<in> A" "WaitLinks t \<in> WaitLinks ` A \<longleftrightarrow> t \<in> A" "PqLinks q \<in> PqLinks ` B \<longleftrightarrow> q \<in> B"
  by auto

lemma upd_thr_fields [simp]:
  "links (upd_thr t f s) = links s" "heap (upd_thr t f s) = heap s"
  "thr (upd_thr t f s) = (thr s)(t := f (thr s t))"
  "idle_thread (upd_thr t f s) = idle_thread s" "last_clock (upd_thr t f s) = last_clock s"
  "pagesize (upd_thr t f s) = pagesize s" "this_thread (upd_thr t f s) = this_thread s"
  "active_count (upd_thr t f s) = active_count s" "curr_time (upd_thr t f s) = curr_time s"
  "last_tset (upd_thr t f s) = last_tset s" "mutex_owner (upd_thr t f s) = mutex_owner s"
  "fiber_native (upd_thr t f s) = fiber_native s" "cur_context (upd_thr t f s) = cur_context s"
  "running (upd_thr t f s) = running s"
  by (simp_all add: upd_thr_def)

lemmas thr_upd_defs = set_state_def or_flags_def clr_flags_def has_flag_def

lemmas runq_macro_defs = ST_ADD_RUNQ_def ST_DEL_RUNQ_def ST_ADD_ZOMBIEQ_def ST_DEL_ZOMBIEQ_def
  ST_ADD_IOQ_def ST_DEL_IOQ_def

lemmas q_defs = runq_def zombieq_def ioq_def condq_def mutexq_def

text \<open>The queues see the link memory only.\<close>

lemma queues_cong:
  assumes "links s' = links s"
  shows "runq s' xs = runq s xs" "zombieq s' xs = zombieq s xs" "ioq s' ys = ioq s ys"
    "condq s' c xs = condq s c xs" "mutexq s' m xs = mutexq s m xs"
  by (simp_all add: q_defs assms)

lemma queues_upd [simp]:
  "runq (upd_thr t f s) = runq s" "zombieq (upd_thr t f s) = zombieq s" "ioq (upd_thr t f s) = ioq s"
  "condq (upd_thr t f s) = condq s" "mutexq (upd_thr t f s) = mutexq s"
  "runq (s\<lparr>heap := h\<rparr>) = runq s" "zombieq (s\<lparr>heap := h\<rparr>) = zombieq s" "ioq (s\<lparr>heap := h\<rparr>) = ioq s"
  "condq (s\<lparr>heap := h\<rparr>) = condq s" "mutexq (s\<lparr>heap := h\<rparr>) = mutexq s"
  by (auto simp: q_defs fun_eq_iff)

lemma runq_distinct: "runq s xs \<Longrightarrow> distinct xs"
  by (auto simp: runq_def is_clist_def distinct_map)

lemma condq_distinct: "condq s c xs \<Longrightarrow> distinct xs"
  by (auto simp: condq_def is_clist_def distinct_map)

lemma mutexq_distinct: "mutexq s c xs \<Longrightarrow> distinct xs"
  by (auto simp: mutexq_def is_clist_def distinct_map)

lemma runq_add: "runq s xs \<Longrightarrow> t \<notin> set xs \<Longrightarrow> runq (ST_ADD_RUNQ t s) (xs @ [t])"
  using stq.holds_append [of "links s" RunQ "map Links xs" "Links t"]
  by (auto simp: runq_def ST_ADD_RUNQ_def)

lemma runq_del: "runq s xs \<Longrightarrow> t \<in> set xs \<Longrightarrow> runq (ST_DEL_RUNQ t s) (remove1 t xs)"
  using stq.holds_remove [of "links s" RunQ "map Links xs" "Links t"]
  by (auto simp: runq_def ST_DEL_RUNQ_def remove1_map_inj)

text \<open>Run-queue operations leave the wait queues and the I/O queue alone: their nodes are different
  members of the C structures.\<close>

lemma runq_add_frame:
  assumes "runq s xs"
  shows "condq s c ws \<Longrightarrow> condq (ST_ADD_RUNQ t s) c ws"
    and "mutexq s m ws \<Longrightarrow> mutexq (ST_ADD_RUNQ t s) m ws"
    and "ioq s qs \<Longrightarrow> ioq (ST_ADD_RUNQ t s) qs"
  using assms
  by (auto simp: q_defs ST_ADD_RUNQ_def intro!: stq.append_frame [of "links s" RunQ "map Links xs"])

lemma runq_del_frame:
  assumes "runq s xs" and "t \<in> set xs"
  shows "condq s c ws \<Longrightarrow> condq (ST_DEL_RUNQ t s) c ws"
    and "mutexq s m ws \<Longrightarrow> mutexq (ST_DEL_RUNQ t s) m ws"
    and "ioq s qs \<Longrightarrow> ioq (ST_DEL_RUNQ t s) qs"
  using assms
  by (auto simp: q_defs ST_DEL_RUNQ_def intro!: stq.remove_frame [of "links s" RunQ "map Links xs"])

end
