(* ===== verification/Sched.thy ===== *)
theory Sched
  imports Sched_State
begin

text \<open>
  The scheduler core of sched.c: the sleep queue, \<open>_st_vp_check_clock\<close>, \<open>_st_vp_schedule\<close> and
  \<open>st_thread_interrupt\<close>. The scheduler invariant \<open>sched_inv\<close> ties the run queue, the timeout heap and the
  state and flag words of the threads together; every operation is shown to return on a state that
  satisfies it and to keep it.
\<close>

section \<open>Operations\<close>

definition st_add_sleep_q :: "tid \<Rightarrow> utime \<Rightarrow> st \<Rightarrow> st option" where
  "st_add_sleep_q thread timeout s =
    (let d = last_clock s + timeout;
         s = or_flags thread ST_FL_ON_SLEEPQ s
     in map_option (\<lambda>h. s\<lparr>heap := h\<rparr>) (sleepq_add thread d (heap s)))"

definition st_del_sleep_q :: "tid \<Rightarrow> st \<Rightarrow> st option" where
  "st_del_sleep_q thread s =
    map_option (\<lambda>h. clr_flags thread ST_FL_ON_SLEEPQ (s\<lparr>heap := h\<rparr>)) (heap_delete thread (heap s))"

text \<open>\<open>thread->state = _ST_ST_RUNNABLE; _ST_ADD_RUNQ(thread);\<close>\<close>

definition make_runnable :: "tid \<Rightarrow> st \<Rightarrow> st" where
  "make_runnable thread s = ST_ADD_RUNQ thread (set_state thread ST_ST_RUNNABLE s)"

text \<open>The loop of \<open>_st_vp_check_clock\<close>; a failed \<open>ST_ASSERT\<close> is the result \<open>None\<close>.\<close>

partial_function (option) check_clock_loop :: "utime \<Rightarrow> st \<Rightarrow> st option" where
  "check_clock_loop now s =
    (case sleep_q (heap s) of None \<Rightarrow> Some s
     | Some thread \<Rightarrow>
        (if \<not> has_flag s thread ST_FL_ON_SLEEPQ then None
         else if due (heap s) thread > now then Some s
         else (case st_del_sleep_q thread s of None \<Rightarrow> None
               | Some s \<Rightarrow>
                  (let s = (if state (thr s thread) = ST_ST_COND_WAIT
                            then or_flags thread ST_FL_TIMEDOUT s else s)
                   in if has_flag s thread ST_FL_IDLE_THREAD then None
                      else check_clock_loop now (make_runnable thread s)))))"

text \<open>\<open>now\<close> is the value of \<open>st_utime()\<close>, \<open>wall\<close> the value of \<open>time(NULL)\<close>.\<close>

definition st_vp_check_clock :: "utime \<Rightarrow> int \<Rightarrow> st \<Rightarrow> st option" where
  "st_vp_check_clock now wall s =
    (let s = s\<lparr>last_clock := now\<rparr>;
         s = (if curr_time s \<noteq> 0 \<and> now - last_tset s > 999000
              then s\<lparr>curr_time := wall, last_tset := now\<rparr> else s)
     in check_clock_loop now s)"

definition st_vp_schedule :: "st \<Rightarrow> st option" where
  "st_vp_schedule s =
    (case lnext (links s) RunQ of None \<Rightarrow> None
     | Some q \<Rightarrow>
        (case (if q \<noteq> RunQ
               then (case ST_THREAD_PTR q of None \<Rightarrow> None | Some t \<Rightarrow> Some (Some t, ST_DEL_RUNQ t s))
               else Some (None, s)) of
           None \<Rightarrow> None
         | Some (thread, s) \<Rightarrow>
            (let thread = (case thread of None \<Rightarrow> idle_thread s
                           | Some t \<Rightarrow> if state (thr s t) \<noteq> ST_ST_RUNNABLE then idle_thread s else Some t);
                 me = this_thread s;
                 (thread, s) = (if me = thread \<and> thread \<noteq> idle_thread s
                                then (idle_thread s, (case thread of None \<Rightarrow> s | Some t \<Rightarrow> ST_ADD_RUNQ t s))
                                else (thread, s))
             in (case thread of None \<Rightarrow> Some s
                 | Some t \<Rightarrow>
                    (let s = set_state t ST_ST_RUNNING s;
                         s = s\<lparr>this_thread := Some t\<rparr>
                     in Some (ST_SWITCH_CONTEXT t s))))))"

text \<open>
  \<open>if (thread->flags & _ST_FL_ON_SLEEPQ) _ST_DEL_SLEEPQ(thread);\<close> followed by making the thread
  runnable, as in \<open>st_thread_interrupt\<close> and \<open>_st_cond_signal\<close>.
\<close>

definition wake_thread :: "tid \<Rightarrow> st \<Rightarrow> st option" where
  "wake_thread thread s =
    map_option (make_runnable thread)
      (if has_flag s thread ST_FL_ON_SLEEPQ then st_del_sleep_q thread s else Some s)"

definition st_thread_interrupt :: "tid \<Rightarrow> st \<Rightarrow> st option" where
  "st_thread_interrupt thread s =
    (if state (thr s thread) = ST_ST_ZOMBIE then Some s
     else
       (let s = or_flags thread ST_FL_INTERRUPT s
        in if state (thr s thread) = ST_ST_RUNNING \<or> state (thr s thread) = ST_ST_RUNNABLE then Some s
           else wake_thread thread s))"

definition st_thread_self :: "st \<Rightarrow> tid option" where
  "st_thread_self s = this_thread s"

definition st_active_count :: "st \<Rightarrow> int" where
  "st_active_count s = active_count s"

section \<open>The scheduler invariant\<close>

definition wait_states :: "tstate set" where
  "wait_states = {ST_ST_IO_WAIT, ST_ST_COND_WAIT, ST_ST_SLEEPING}"

definition idle_states :: "tstate set" where
  "idle_states = {ST_ST_RUNNING, ST_ST_RUNNABLE, ST_ST_ZOMBIE}"

text \<open>
  \<open>rq\<close> is the run queue. A thread is on the timeout heap exactly if its \<open>ON_SLEEPQ\<close> flag is set, and
  then it waits for I/O, for a condition or for time to pass; a thread is on the run queue exactly if
  it is runnable, the idle thread excepted, which is on neither, never
  waits, and alone has the idle flag.
\<close>

definition sched_inv :: "st \<Rightarrow> tid list \<Rightarrow> bool" where
  "sched_inv s rq \<longleftrightarrow> runq s rq \<and> wf_heap (heap s) \<and>
     (\<forall>t. t \<in> sleepers (heap s) \<longleftrightarrow> has_flag s t ST_FL_ON_SLEEPQ) \<and>
     (\<forall>t \<in> sleepers (heap s). state (thr s t) \<in> wait_states) \<and>
     (\<forall>t \<in> set rq. state (thr s t) = ST_ST_RUNNABLE) \<and>
     (\<forall>t. state (thr s t) = ST_ST_RUNNABLE \<longrightarrow> t \<in> set rq \<or> idle_thread s = Some t) \<and>
     (\<forall>t. idle_thread s = Some t \<longrightarrow> t \<notin> set rq \<and> t \<notin> sleepers (heap s) \<and>
        state (thr s t) \<in> idle_states) \<and>
     (\<forall>t. has_flag s t ST_FL_IDLE_THREAD \<longrightarrow> idle_thread s = Some t)"

text \<open>What the sleep queue and the wake-ups leave alone.\<close>

definition same_globals :: "st \<Rightarrow> st \<Rightarrow> bool" where
  "same_globals s s' \<longleftrightarrow> idle_thread s' = idle_thread s \<and> this_thread s' = this_thread s \<and>
     active_count s' = active_count s \<and> mutex_owner s' = mutex_owner s \<and> pagesize s' = pagesize s \<and>
     last_clock s' = last_clock s \<and> curr_time s' = curr_time s \<and> last_tset s' = last_tset s \<and>
     fiber_native s' = fiber_native s \<and> cur_context s' = cur_context s \<and> running s' = running s"

definition same_waitqs :: "st \<Rightarrow> st \<Rightarrow> bool" where
  "same_waitqs s s' \<longleftrightarrow> (\<forall>c ws. condq s c ws \<longrightarrow> condq s' c ws) \<and> (\<forall>m ws. mutexq s m ws \<longrightarrow> mutexq s' m ws) \<and>
     (\<forall>qs. ioq s qs \<longrightarrow> ioq s' qs)"

lemma same_trans:
  "same_globals s s1 \<Longrightarrow> same_globals s1 s2 \<Longrightarrow> same_globals s s2"
  "same_waitqs s s1 \<Longrightarrow> same_waitqs s1 s2 \<Longrightarrow> same_waitqs s s2"
  by (simp_all add: same_globals_def same_waitqs_def)

lemma same_refl [simp]: "same_globals s s" "same_waitqs s s"
  by (simp_all add: same_globals_def same_waitqs_def)

lemma sched_invD:
  assumes "sched_inv s rq"
  shows "runq s rq" "wf_heap (heap s)" "distinct rq"
    "t \<in> sleepers (heap s) \<longleftrightarrow> has_flag s t ST_FL_ON_SLEEPQ"
    "t \<in> sleepers (heap s) \<Longrightarrow> state (thr s t) \<in> wait_states"
    "t \<in> set rq \<Longrightarrow> state (thr s t) = ST_ST_RUNNABLE"
    "state (thr s t) = ST_ST_RUNNABLE \<Longrightarrow> t \<in> set rq \<or> idle_thread s = Some t"
    "idle_thread s = Some t \<Longrightarrow> t \<notin> set rq \<and> t \<notin> sleepers (heap s) \<and> state (thr s t) \<in> idle_states"
    "has_flag s t ST_FL_IDLE_THREAD \<Longrightarrow> idle_thread s = Some t"
  using assms runq_distinct by (auto simp: sched_inv_def)

lemma sched_invI:
  assumes "runq s rq" "wf_heap (heap s)"
    "\<And>t. t \<in> sleepers (heap s) \<longleftrightarrow> has_flag s t ST_FL_ON_SLEEPQ"
    "\<And>t. t \<in> sleepers (heap s) \<Longrightarrow> state (thr s t) \<in> wait_states"
    "\<And>t. t \<in> set rq \<Longrightarrow> state (thr s t) = ST_ST_RUNNABLE"
    "\<And>t. state (thr s t) = ST_ST_RUNNABLE \<Longrightarrow> t \<in> set rq \<or> idle_thread s = Some t"
    "\<And>t. idle_thread s = Some t \<Longrightarrow> t \<notin> set rq \<and> t \<notin> sleepers (heap s) \<and> state (thr s t) \<in> idle_states"
    "\<And>t. has_flag s t ST_FL_IDLE_THREAD \<Longrightarrow> idle_thread s = Some t"
  shows "sched_inv s rq"
  using assms unfolding sched_inv_def by blast

lemma not_waiting [simp]:
  "ST_ST_RUNNING \<notin> wait_states" "ST_ST_RUNNABLE \<notin> wait_states" "ST_ST_ZOMBIE \<notin> wait_states"
  "ST_ST_LOCK_WAIT \<notin> wait_states" "ST_ST_SUSPENDED \<notin> wait_states"
  "ST_ST_COND_WAIT \<in> wait_states" "ST_ST_SLEEPING \<in> wait_states" "ST_ST_IO_WAIT \<in> wait_states"
  by (simp_all add: wait_states_def)

lemma idle_states_iff [simp]:
  "ST_ST_RUNNING \<in> idle_states" "ST_ST_RUNNABLE \<in> idle_states" "ST_ST_ZOMBIE \<in> idle_states"
  "ST_ST_LOCK_WAIT \<notin> idle_states" "ST_ST_SUSPENDED \<notin> idle_states"
  "ST_ST_COND_WAIT \<notin> idle_states" "ST_ST_SLEEPING \<notin> idle_states" "ST_ST_IO_WAIT \<notin> idle_states"
  by (simp_all add: idle_states_def)

text \<open>The invariant does not look at the \<open>INTERRUPT\<close> and \<open>TIMEDOUT\<close> bits.\<close>

lemma sched_inv_cong:
  assumes "sched_inv s rq" and "links s' = links s" and "heap s' = heap s"
    and "idle_thread s' = idle_thread s" and "\<forall>t. state (thr s' t) = state (thr s t)"
    and "\<forall>t. has_flag s' t ST_FL_ON_SLEEPQ = has_flag s t ST_FL_ON_SLEEPQ"
    and "\<forall>t. has_flag s' t ST_FL_IDLE_THREAD = has_flag s t ST_FL_IDLE_THREAD"
  shows "sched_inv s' rq"
  using assms(1) unfolding sched_inv_def assms(3,4) queues_cong [OF assms(2)]
    assms(5-7) [rule_format] .

lemma sched_inv_or_flags:
  assumes "sched_inv s rq"
  shows "sched_inv (or_flags t ST_FL_INTERRUPT s) rq" "sched_inv (or_flags t ST_FL_TIMEDOUT s) rq"
    and "sched_inv (clr_flags t ST_FL_INTERRUPT s) rq" "sched_inv (clr_flags t ST_FL_TIMEDOUT s) rq"
  by (rule sched_inv_cong [OF assms]; auto simp: thr_upd_defs flag_simps)+

section \<open>Sleep queue and wake-up\<close>

lemma del_sleep_q_ok:
  assumes inv: "sched_inv s rq" and t: "t \<in> sleepers (heap s)"
  obtains h' where "st_del_sleep_q t s = Some (clr_flags t ST_FL_ON_SLEEPQ (s\<lparr>heap := h'\<rparr>))"
    and "sched_inv (clr_flags t ST_FL_ON_SLEEPQ (s\<lparr>heap := h'\<rparr>)) rq"
    and "wf_heap h'" and "sleepers h' = sleepers (heap s) - {t}" and "due h' = due (heap s)"
proof -
  obtain h' where h': "heap_delete t (heap s) = Some h'" "wf_heap h'"
    "sleepers h' = sleepers (heap s) - {t}" "due h' = due (heap s)"
    using tq.del_ok [OF sched_invD(2) [OF inv] t] by blast
  let ?s = "clr_flags t ST_FL_ON_SLEEPQ (s\<lparr>heap := h'\<rparr>)"
  have hp: "heap ?s = h'" "idle_thread ?s = idle_thread s" "links ?s = links s"
    "\<And>u. state (thr ?s u) = state (thr s u)"
    "\<And>u. has_flag ?s u ST_FL_ON_SLEEPQ \<longleftrightarrow> u \<noteq> t \<and> has_flag s u ST_FL_ON_SLEEPQ"
    "\<And>u. has_flag ?s u ST_FL_IDLE_THREAD \<longleftrightarrow> has_flag s u ST_FL_IDLE_THREAD"
    by (auto simp: thr_upd_defs flag_simps)
  have "sched_inv ?s rq"
  proof (rule sched_invI, goal_cases)
    case 1
    show ?case using sched_invD(1) [OF inv] queues_cong(1) [OF hp(3)] by simp
  next
    case (3 u)
    show ?case using sched_invD(4) [OF inv, of u] h'(3) hp by auto
  next
    case (6 u)
    then show ?case using sched_invD(7) [OF inv, of u] hp by simp
  next
    case (7 u)
    then show ?case using sched_invD(8) [OF inv, of u] h'(3) hp by simp
  next
    case (8 u)
    then show ?case using sched_invD(9) [OF inv, of u] hp by simp
  qed (use h' hp sched_invD(5,6) [OF inv] in auto)
  then show thesis using that h' by (simp add: st_del_sleep_q_def)
qed

lemma make_runnable_ok:
  assumes inv: "sched_inv s rq" and t: "t \<notin> sleepers (heap s)" "state (thr s t) \<noteq> ST_ST_RUNNABLE"
    "idle_thread s \<noteq> Some t"
  shows "sched_inv (make_runnable t s) (rq @ [t])"
proof -
  have "t \<notin> set rq" using sched_invD(6) [OF inv] t(2) by blast
  then have "runq (make_runnable t s) (rq @ [t])"
    using runq_add [of "set_state t ST_ST_RUNNABLE s" rq t] sched_invD(1) [OF inv]
    by (simp add: make_runnable_def set_state_def)
  moreover have hp: "heap (make_runnable t s) = heap s" "idle_thread (make_runnable t s) = idle_thread s"
    "\<And>u. state (thr (make_runnable t s) u) = (if u = t then ST_ST_RUNNABLE else state (thr s u))"
    "\<And>u m. has_flag (make_runnable t s) u m \<longleftrightarrow> has_flag s u m"
    by (auto simp: make_runnable_def ST_ADD_RUNQ_def thr_upd_defs)
  ultimately show ?thesis
  proof (intro sched_invI, goal_cases)
    case (6 u)
    then show ?case using sched_invD(7) [OF inv, of u] by (auto split: if_splits)
  next
    case (7 u)
    then show ?case using sched_invD(8) [OF inv, of u] t by auto
  next
    case (4 u)
    then show ?case using sched_invD(5) [OF inv, of u] t by auto
  qed (use t sched_invD(2,4,6,9) [OF inv] in \<open>auto split: if_splits\<close>)
qed

lemma make_runnable_frame:
  assumes "sched_inv s rq"
  shows "same_globals s (make_runnable t s)" "same_waitqs s (make_runnable t s)"
proof -
  have r: "runq (set_state t ST_ST_RUNNABLE s) rq" using sched_invD(1) [OF assms]
    by (simp add: set_state_def)
  have c: "condq (set_state t ST_ST_RUNNABLE s) = condq s" "mutexq (set_state t ST_ST_RUNNABLE s) = mutexq s"
    "ioq (set_state t ST_ST_RUNNABLE s) = ioq s"
    by (simp_all add: set_state_def)
  show "same_waitqs s (make_runnable t s)"
    using runq_add_frame [OF r] unfolding c by (auto simp: same_waitqs_def make_runnable_def)
  show "same_globals s (make_runnable t s)"
    by (simp add: same_globals_def make_runnable_def ST_ADD_RUNQ_def set_state_def)
qed

lemma make_runnable_fields [simp]:
  "heap (make_runnable t s) = heap s"
  "thr (make_runnable t s) = (thr s)(t := (thr s t)\<lparr>state := ST_ST_RUNNABLE\<rparr>)"
  by (simp_all add: make_runnable_def ST_ADD_RUNQ_def set_state_def)

lemma add_sleep_q_ok:
  assumes wf: "wf_heap (heap s)" and t: "t \<notin> sleepers (heap s)"
  obtains h' where "st_add_sleep_q t timeout s = Some ((or_flags t ST_FL_ON_SLEEPQ s)\<lparr>heap := h'\<rparr>)"
    and "wf_heap h'" and "sleepers h' = insert t (sleepers (heap s))"
    and "due h' = (due (heap s))(t := last_clock s + timeout)"
proof -
  obtain h' where "sleepq_add t (last_clock s + timeout) (heap s) = Some h'" "wf_heap h'"
    "sleepers h' = insert t (sleepers (heap s))" "due h' = (due (heap s))(t := last_clock s + timeout)"
    using tq.add_ok [OF wf t] by blast
  then show thesis using that by (simp add: st_add_sleep_q_def or_flags_def)
qed

section \<open>Checking the clock\<close>

text \<open>The state of a thread that was woken by the clock, compared with its state before.\<close>

definition woken_by_clock :: "thread \<Rightarrow> thread \<Rightarrow> bool" where
  "woken_by_clock x y \<longleftrightarrow> state y = ST_ST_RUNNABLE \<and> \<not> flag_on (flags y) ST_FL_ON_SLEEPQ \<and>
     (flag_on (flags y) ST_FL_TIMEDOUT \<longleftrightarrow> flag_on (flags x) ST_FL_TIMEDOUT \<or> state x = ST_ST_COND_WAIT) \<and>
     (flag_on (flags y) ST_FL_INTERRUPT \<longleftrightarrow> flag_on (flags x) ST_FL_INTERRUPT)"

lemma clock_wake:
  assumes inv: "sched_inv s rq" and top: "sleep_q (heap s) = Some t" and le: "due (heap s) t \<le> now"
  obtains s1 where "check_clock_loop now s = check_clock_loop now s1" and "sched_inv s1 (rq @ [t])"
    and "tq.expired now (heap s1) = tq.expired now (heap s) - {t}" and "t \<in> tq.expired now (heap s)"
    and "\<forall>u \<in> tq.expired now (heap s). due (heap s) t \<le> due (heap s) u"
    and "sleepers (heap s1) = sleepers (heap s) - {t}" and "due (heap s1) = due (heap s)"
    and "\<forall>u. u \<noteq> t \<longrightarrow> thr s1 u = thr s u" and "woken_by_clock (thr s t) (thr s1 t)"
    and "same_globals s s1" and "same_waitqs s s1"
proof -
  have t: "t \<in> sleepers (heap s)" using tq.top_Some [OF sched_invD(2) [OF inv] top] by simp
  have x: "t \<in> tq.expired now (heap s)" "\<forall>u \<in> tq.expired now (heap s). due (heap s) t \<le> due (heap s) u"
    using tq.pop_expired [OF sched_invD(2) [OF inv] top le] by auto
  obtain h' where d: "st_del_sleep_q t s = Some (clr_flags t ST_FL_ON_SLEEPQ (s\<lparr>heap := h'\<rparr>))"
    "sched_inv (clr_flags t ST_FL_ON_SLEEPQ (s\<lparr>heap := h'\<rparr>)) rq"
    "wf_heap h'" "sleepers h' = sleepers (heap s) - {t}" "due h' = due (heap s)"
    by (rule del_sleep_q_ok [OF inv t])
  define s0 where "s0 = clr_flags t ST_FL_ON_SLEEPQ (s\<lparr>heap := h'\<rparr>)"
  define s2 where "s2 = (if state (thr s0 t) = ST_ST_COND_WAIT then or_flags t ST_FL_TIMEDOUT s0 else s0)"
  have w: "state (thr s t) \<in> wait_states" using sched_invD(5) [OF inv t] .
  have i2: "sched_inv s2 rq"
    using d(2) sched_inv_or_flags(2) [of s0 rq t] by (simp add: s2_def s0_def)
  have f2: "heap s2 = h'" "state (thr s2 t) = state (thr s t)" "\<forall>u. u \<noteq> t \<longrightarrow> thr s2 u = thr s u"
    "idle_thread s2 = idle_thread s" "same_globals s s2" "same_waitqs s s2"
    by (auto simp: s2_def s0_def thr_upd_defs same_globals_def same_waitqs_def)
  have n: "t \<notin> sleepers (heap s2)" "state (thr s2 t) \<noteq> ST_ST_RUNNABLE" "idle_thread s2 \<noteq> Some t"
    using f2 d(4) w sched_invD(8) [OF inv, of t] t by auto
  have fl: "has_flag s t ST_FL_ON_SLEEPQ" "\<not> has_flag s2 t ST_FL_IDLE_THREAD"
    using sched_invD(4) [OF inv, of t] t sched_invD(9) [OF i2, of t] n(3) by auto
  have step: "check_clock_loop now s = check_clock_loop now (make_runnable t s2)"
    using top leD [OF le] d(1) fl
    by (subst check_clock_loop.simps) (simp add: Let_def s2_def [symmetric] s0_def [symmetric])
  have "tq.expired now (heap (make_runnable t s2)) = tq.expired now (heap s) - {t}"
    using d(4,5) f2 by (auto simp: tq.expired_def)
  moreover have "woken_by_clock (thr s t) (thr (make_runnable t s2) t)"
    by (auto simp: woken_by_clock_def s2_def s0_def thr_upd_defs flag_simps)
  ultimately show thesis
    using that [OF step make_runnable_ok [OF i2 n]] x f2 d(4,5) same_trans make_runnable_frame [OF i2, of t]
    by (simp; blast)
qed

lemma check_clock_loop_ok:
  assumes "sched_inv s rq"
  shows "\<exists>s' ws. check_clock_loop now s = Some s' \<and> sched_inv s' (rq @ ws) \<and>
    set ws = tq.expired now (heap s) \<and> distinct ws \<and> sorted (map (due (heap s)) ws) \<and>
    sleepers (heap s') = sleepers (heap s) - set ws \<and> due (heap s') = due (heap s) \<and>
    (\<forall>u. u \<notin> set ws \<longrightarrow> thr s' u = thr s u) \<and> (\<forall>u \<in> set ws. woken_by_clock (thr s u) (thr s' u)) \<and>
    same_globals s s' \<and> same_waitqs s s'"
  using assms
proof (induction "card (tq.expired now (heap s))" arbitrary: s rq rule: less_induct)
  case less
  note inv = less.prems
  have fin: "finite (tq.expired now (heap s))" using tq.finite_expired sched_invD(2) [OF inv] by blast
  show ?case
  proof (cases "tq.expired now (heap s) = {}")
    case True
    then have "check_clock_loop now s = Some s"
      using tq.none_expired [OF sched_invD(2) [OF inv], of now] tq.top_Some [OF sched_invD(2) [OF inv]]
        sched_invD(4) [OF inv]
      by (subst check_clock_loop.simps) (auto split: option.splits)
    then show ?thesis using inv True by (intro exI [of _ s] exI [of _ "[]"]) simp
  next
    case False
    then obtain t where top: "sleep_q (heap s) = Some t" "due (heap s) t \<le> now"
      using tq.none_expired [OF sched_invD(2) [OF inv], of now] by (auto split: option.splits simp: not_less)
    obtain s1 where s1: "check_clock_loop now s = check_clock_loop now s1" "sched_inv s1 (rq @ [t])"
      "tq.expired now (heap s1) = tq.expired now (heap s) - {t}" "t \<in> tq.expired now (heap s)"
      "\<forall>u \<in> tq.expired now (heap s). due (heap s) t \<le> due (heap s) u"
      "sleepers (heap s1) = sleepers (heap s) - {t}" "due (heap s1) = due (heap s)"
      "\<forall>u. u \<noteq> t \<longrightarrow> thr s1 u = thr s u" "woken_by_clock (thr s t) (thr s1 t)"
      "same_globals s s1" "same_waitqs s s1"
      by (rule clock_wake [OF inv top])
    have "card (tq.expired now (heap s1)) < card (tq.expired now (heap s))"
      using card_Diff1_less [OF fin s1(4)] by (simp only: s1(3))
    from less.hyps [OF this s1(2)] obtain s' ws where r: "check_clock_loop now s1 = Some s'"
      "sched_inv s' ((rq @ [t]) @ ws)" "set ws = tq.expired now (heap s1)" "distinct ws"
      "sorted (map (due (heap s1)) ws)" "sleepers (heap s') = sleepers (heap s1) - set ws"
      "due (heap s') = due (heap s1)" "\<forall>u. u \<notin> set ws \<longrightarrow> thr s' u = thr s1 u"
      "\<forall>u \<in> set ws. woken_by_clock (thr s1 u) (thr s' u)" "same_globals s1 s'" "same_waitqs s1 s'"
      by auto
    have tw: "t \<notin> set ws" using r(3) s1(3) by simp
    have sw: "set (t # ws) = tq.expired now (heap s)" using r(3) s1(3,4) by auto
    have "sorted (map (due (heap s)) (t # ws))" using r(3,5) s1(3,5,7) by auto
    moreover have "\<forall>u \<in> set (t # ws). woken_by_clock (thr s u) (thr s' u)"
    proof
      fix u
      assume u: "u \<in> set (t # ws)"
      show "woken_by_clock (thr s u) (thr s' u)"
      proof (cases "u = t")
        case True
        then show ?thesis using r(8) [rule_format, OF tw] s1(9) by simp
      next
        case False
        then show ?thesis using r(9) s1(8) u by auto
      qed
    qed
    moreover have "\<forall>u. u \<notin> set (t # ws) \<longrightarrow> thr s' u = thr s u" using r(8) s1(8) by simp
    moreover have "sleepers (heap s') = sleepers (heap s) - set (t # ws)" using r(6) s1(6) by auto
    ultimately show ?thesis
      using r s1 sw tw same_trans [of s s1 s'] by (intro exI [of _ s'] exI [of _ "t # ws"]) (simp, metis)
  qed
qed

section \<open>Dispatching\<close>

text \<open>
  The dispatcher as a function on the run queue: the head is taken, unless it is the caller itself,
  which goes to the back and gives way to the idle thread; with an empty queue the idle thread runs.
\<close>

fun sched_pick :: "tid option \<Rightarrow> tid option \<Rightarrow> tid list \<Rightarrow> tid option \<times> tid list" where
  "sched_pick me idle [] = (idle, [])"
| "sched_pick me idle (t # ts) = (if me = Some t then (idle, ts @ [t]) else (Some t, ts))"

text \<open>The effect of \<open>thread->state = RUNNING\<close>, \<open>_ST_SET_CURRENT_THREAD\<close> and \<open>swapFiber\<close>.\<close>

definition dispatch_to :: "tid \<Rightarrow> st \<Rightarrow> st" where
  "dispatch_to t s = ST_SWITCH_CONTEXT t ((set_state t ST_ST_RUNNING s)\<lparr>this_thread := Some t\<rparr>)"

lemma dispatch_to_fields [simp]:
  "links (dispatch_to t s) = links s" "heap (dispatch_to t s) = heap s"
  "idle_thread (dispatch_to t s) = idle_thread s" "this_thread (dispatch_to t s) = Some t"
  "thr (dispatch_to t s) = (thr s)(t := (thr s t)\<lparr>state := ST_ST_RUNNING\<rparr>)"
  "fiber_native (dispatch_to t s) = fiber_native s" "mutex_owner (dispatch_to t s) = mutex_owner s"
  "active_count (dispatch_to t s) = active_count s" "last_clock (dispatch_to t s) = last_clock s"
  "running (dispatch_to t s) = (if has_context (thr s t) \<and> fiber_native s then Some t else running s)"
  by (auto simp: dispatch_to_def ST_SWITCH_CONTEXT_def swapFiber_def set_state_def Let_def)

lemma dispatch_inv:
  assumes "sched_inv s rq" and "t \<notin> set rq" and "t \<notin> sleepers (heap s)"
  shows "sched_inv (dispatch_to t s) rq"
proof (rule sched_invI, goal_cases)
  case 1
  then show ?case using sched_invD(1) [OF assms(1)] by (simp add: runq_def)
next
  case (3 u)
  then show ?case using sched_invD(4) [OF assms(1), of u] by (simp add: has_flag_def)
next
  case (6 u)
  then show ?case using sched_invD(7) [OF assms(1), of u] by (auto split: if_splits)
next
  case (7 u)
  then show ?case using sched_invD(8) [OF assms(1), of u] by auto
next
  case (8 u)
  then show ?case using sched_invD(9) [OF assms(1), of u] by (auto simp: has_flag_def split: if_splits)
qed (use assms(2,3) sched_invD(2,5,6) [OF assms(1)] in auto)

lemma schedule_empty:
  assumes "sched_inv s []"
  shows "st_vp_schedule s = Some (case idle_thread s of None \<Rightarrow> s | Some i \<Rightarrow> dispatch_to i s)"
proof -
  have "lnext (links s) RunQ = Some RunQ" using sched_invD(1) [OF assms] by (simp add: runq_def)
  then show ?thesis
    by (auto simp: st_vp_schedule_def dispatch_to_def Let_def split: option.splits)
qed

lemma schedule_head:
  assumes inv: "sched_inv s (t # ts)"
  shows "st_vp_schedule s = Some
    (if this_thread s = Some t
     then (case idle_thread s of None \<Rightarrow> ST_ADD_RUNQ t (ST_DEL_RUNQ t s)
           | Some i \<Rightarrow> dispatch_to i (ST_ADD_RUNQ t (ST_DEL_RUNQ t s)))
     else dispatch_to t (ST_DEL_RUNQ t s))"
proof -
  have n: "lnext (links s) RunQ = Some (Links t)"
    using sched_invD(1) [OF inv] is_clist_head unfolding runq_def by fastforce
  have f: "state (thr s t) = ST_ST_RUNNABLE" "idle_thread s \<noteq> Some t"
    using sched_invD(6,8) [OF inv, of t] by auto
  have d: "thr (ST_DEL_RUNQ t s) = thr s" "idle_thread (ST_DEL_RUNQ t s) = idle_thread s"
    "this_thread (ST_DEL_RUNQ t s) = this_thread s" by (simp_all add: ST_DEL_RUNQ_def)
  show ?thesis
    using f by (auto simp: st_vp_schedule_def n d Let_def dispatch_to_def split: option.splits)
qed

lemma take_head_inv:
  assumes inv: "sched_inv s (t # ts)"
  shows "sched_inv (dispatch_to t (ST_DEL_RUNQ t s)) ts"
    and "sched_inv (ST_ADD_RUNQ t (ST_DEL_RUNQ t s)) (ts @ [t])"
    and "same_waitqs s (ST_DEL_RUNQ t s)" and "same_waitqs s (ST_ADD_RUNQ t (ST_DEL_RUNQ t s))"
proof -
  note q = sched_invD(1) [OF inv]
  have d: "distinct (t # ts)" using sched_invD(3) [OF inv] .
  have q1: "runq (ST_DEL_RUNQ t s) ts" using runq_del [OF q, of t] by simp
  then have q2: "runq (ST_ADD_RUNQ t (ST_DEL_RUNQ t s)) (ts @ [t])" using runq_add d by simp
  have t: "state (thr s t) = ST_ST_RUNNABLE" "t \<notin> sleepers (heap s)" "idle_thread s \<noteq> Some t"
    using sched_invD(6) [OF inv, of t] sched_invD(5) [OF inv, of t] sched_invD(8) [OF inv, of t] by auto
  have f: "heap (ST_DEL_RUNQ t s) = heap s" "thr (ST_DEL_RUNQ t s) = thr s"
    "idle_thread (ST_DEL_RUNQ t s) = idle_thread s" by (simp_all add: ST_DEL_RUNQ_def)
  show "sched_inv (dispatch_to t (ST_DEL_RUNQ t s)) ts"
  proof (rule sched_invI, goal_cases)
    case 1
    then show ?case using q1 by (simp add: runq_def)
  next
    case (3 u)
    then show ?case using sched_invD(4) [OF inv, of u] by (simp add: has_flag_def f)
  next
    case (6 u)
    then show ?case using sched_invD(7) [OF inv, of u] by (auto simp: f split: if_splits)
  next
    case (7 u)
    then show ?case using sched_invD(8) [OF inv, of u] by (auto simp: f)
  next
    case (8 u)
    then show ?case using sched_invD(9) [OF inv, of u] by (auto simp: f has_flag_def split: if_splits)
  qed (use d t sched_invD(2,5,6) [OF inv] in \<open>auto simp: f\<close>)
  have g: "heap (ST_ADD_RUNQ t (ST_DEL_RUNQ t s)) = heap s" "thr (ST_ADD_RUNQ t (ST_DEL_RUNQ t s)) = thr s"
    "idle_thread (ST_ADD_RUNQ t (ST_DEL_RUNQ t s)) = idle_thread s" by (simp_all add: ST_ADD_RUNQ_def f)
  have s: "set (ts @ [t]) = set (t # ts)" by auto
  show "sched_inv (ST_ADD_RUNQ t (ST_DEL_RUNQ t s)) (ts @ [t])"
    using inv q2 unfolding sched_inv_def g s has_flag_def by blast
  show w: "same_waitqs s (ST_DEL_RUNQ t s)"
    using runq_del_frame [OF q, of t] by (auto simp: same_waitqs_def)
  show "same_waitqs s (ST_ADD_RUNQ t (ST_DEL_RUNQ t s))"
    using w runq_add_frame [OF q1] unfolding same_waitqs_def by blast
qed

lemma same_waitqs_links: "links s' = links s \<Longrightarrow> same_waitqs s0 s \<Longrightarrow> same_waitqs s0 s'"
  by (simp add: same_waitqs_def q_defs)

text \<open>What \<open>_st_vp_schedule\<close> does to a thread it does or does not resume.\<close>

definition resumed :: "tid option \<Rightarrow> st \<Rightarrow> st \<Rightarrow> bool" where
  "resumed next s s' \<longleftrightarrow>
    (case next of None \<Rightarrow> thr s' = thr s \<and> this_thread s' = this_thread s \<and> running s' = running s
     | Some t \<Rightarrow> this_thread s' = Some t \<and> thr s' = (thr s)(t := (thr s t)\<lparr>state := ST_ST_RUNNING\<rparr>) \<and>
         running s' = (if has_context (thr s t) \<and> fiber_native s then Some t else running s))"

lemma st_vp_schedule_ok:
  assumes inv: "sched_inv s rq" and pick: "sched_pick (this_thread s) (idle_thread s) rq = (next, rq')"
  shows "\<exists>s'. st_vp_schedule s = Some s' \<and> sched_inv s' rq' \<and> resumed next s s' \<and> heap s' = heap s \<and>
    idle_thread s' = idle_thread s \<and> mutex_owner s' = mutex_owner s \<and> last_clock s' = last_clock s \<and>
    active_count s' = active_count s \<and> fiber_native s' = fiber_native s \<and> same_waitqs s s'"
proof (cases rq)
  case Nil
  have n: "next = idle_thread s" "rq' = []" using pick Nil by auto
  show ?thesis
  proof (cases "idle_thread s")
    case None
    then show ?thesis using schedule_empty inv Nil n by (auto simp: resumed_def)
  next
    case (Some i)
    then have "sched_inv (dispatch_to i s) []" using dispatch_inv inv Nil sched_invD(8) [OF inv, of i] by simp
    then show ?thesis using schedule_empty inv Nil n Some
      by (auto simp: resumed_def intro: same_waitqs_links)
  qed
next
  case (Cons t ts)
  note h = schedule_head [OF inv [unfolded Cons]] and i = take_head_inv [OF inv [unfolded Cons]]
  have f: "thr (ST_DEL_RUNQ t s) = thr s" "idle_thread (ST_DEL_RUNQ t s) = idle_thread s"
    "heap (ST_DEL_RUNQ t s) = heap s" "mutex_owner (ST_DEL_RUNQ t s) = mutex_owner s"
    "last_clock (ST_DEL_RUNQ t s) = last_clock s" "active_count (ST_DEL_RUNQ t s) = active_count s"
    "fiber_native (ST_DEL_RUNQ t s) = fiber_native s" "running (ST_DEL_RUNQ t s) = running s"
    "this_thread (ST_DEL_RUNQ t s) = this_thread s"
    by (simp_all add: ST_DEL_RUNQ_def)
  define s2 where "s2 = ST_ADD_RUNQ t (ST_DEL_RUNQ t s)"
  have g: "thr s2 = thr s" "idle_thread s2 = idle_thread s" "heap s2 = heap s"
    "mutex_owner s2 = mutex_owner s" "last_clock s2 = last_clock s" "active_count s2 = active_count s"
    "fiber_native s2 = fiber_native s" "running s2 = running s" "this_thread s2 = this_thread s"
    by (simp_all add: s2_def ST_ADD_RUNQ_def f)
  show ?thesis
  proof (cases "this_thread s = Some t")
    case False
    then have n: "next = Some t" "rq' = ts" using pick Cons by auto
    show ?thesis using h i(1) same_waitqs_links [OF _ i(3)] False n by (simp add: resumed_def f)
  next
    case True
    then have n: "next = idle_thread s" "rq' = ts @ [t]" using pick Cons by auto
    show ?thesis
    proof (cases "idle_thread s")
      case None
      then show ?thesis using h i(2,4) True n g by (simp add: resumed_def s2_def)
    next
      case (Some j)
      then have "j \<notin> set (ts @ [t])" "j \<notin> sleepers (heap s2)"
        using sched_invD(8) [OF inv, of j] Cons g by auto
      then have "sched_inv (dispatch_to j s2) (ts @ [t])" using dispatch_inv i(2) s2_def by simp
      then show ?thesis using h i(4) True n Some g same_waitqs_links [of "dispatch_to j s2" s2 s]
        by (simp add: resumed_def s2_def)
    qed
  qed
qed

section \<open>Going to sleep and being interrupted\<close>

lemma set_state_inv:
  assumes inv: "sched_inv s rq" and me: "state (thr s me) = ST_ST_RUNNING" and w: "w \<noteq> ST_ST_RUNNABLE"
    and i: "idle_thread s \<noteq> Some me \<or> w = ST_ST_ZOMBIE"
  shows "sched_inv (set_state me w s) rq"
proof -
  have n: "me \<notin> sleepers (heap s)" "me \<notin> set rq"
    using sched_invD(5) [OF inv, of me] sched_invD(6) [OF inv, of me] me by auto
  show ?thesis
  proof (rule sched_invI, goal_cases)
    case (3 u)
    then show ?case using sched_invD(4) [OF inv, of u] by (simp add: thr_upd_defs)
  next
    case (6 u)
    then show ?case using sched_invD(7) [OF inv, of u] w by (auto simp: set_state_def split: if_splits)
  next
    case (7 u)
    then show ?case using sched_invD(8) [OF inv, of u] i by (auto simp: set_state_def)
  next
    case (8 u)
    then show ?case using sched_invD(9) [OF inv, of u]
      by (auto simp: set_state_def has_flag_def split: if_splits)
  qed (use n sched_invD(1,2,5,6) [OF inv] in \<open>auto simp: set_state_def\<close>)
qed

lemma begin_sleep:
  assumes inv: "sched_inv s rq" and me: "state (thr s me) = ST_ST_RUNNING" "idle_thread s \<noteq> Some me"
    and w: "w \<in> wait_states"
  obtains s' where "st_add_sleep_q me timeout (set_state me w s) = Some s'" and "sched_inv s' rq"
    and "sleepers (heap s') = insert me (sleepers (heap s))"
    and "due (heap s') = (due (heap s))(me := last_clock s + timeout)"
    and "thr s' = (thr s)(me := (thr s me)\<lparr>state := w, flags := flag_set (flags (thr s me)) ST_FL_ON_SLEEPQ\<rparr>)"
    and "links s' = links s" and "same_globals s s'"
proof -
  have n: "me \<notin> sleepers (heap s)" "me \<notin> set rq"
    using sched_invD(5) [OF inv, of me] sched_invD(6) [OF inv, of me] me by auto
  let ?s1 = "set_state me w s"
  have f: "heap ?s1 = heap s" "last_clock ?s1 = last_clock s" by (simp_all add: set_state_def)
  obtain h' where h: "st_add_sleep_q me timeout ?s1 = Some ((or_flags me ST_FL_ON_SLEEPQ ?s1)\<lparr>heap := h'\<rparr>)"
    "wf_heap h'" "sleepers h' = insert me (sleepers (heap s))"
    "due h' = (due (heap s))(me := last_clock s + timeout)"
    using add_sleep_q_ok [of ?s1 me timeout] sched_invD(2) [OF inv] n(1) unfolding f by metis
  define s' where "s' = (or_flags me ST_FL_ON_SLEEPQ ?s1)\<lparr>heap := h'\<rparr>"
  have g: "heap s' = h'" "links s' = links s" "idle_thread s' = idle_thread s"
    "thr s' = (thr s)(me := (thr s me)\<lparr>state := w, flags := flag_set (flags (thr s me)) ST_FL_ON_SLEEPQ\<rparr>)"
    by (simp_all add: s'_def or_flags_def set_state_def)
  have "sched_inv s' rq"
  proof (rule sched_invI, goal_cases)
    case 1
    then show ?case using sched_invD(1) [OF inv] by (simp add: runq_def g)
  next
    case (3 u)
    then show ?case using sched_invD(4) [OF inv, of u] by (auto simp: g h has_flag_def flag_simps)
  next
    case (4 u)
    then show ?case using sched_invD(5) [OF inv, of u] w by (auto simp: g h)
  next
    case (6 u)
    then show ?case using sched_invD(7) [OF inv, of u] w by (auto simp: g split: if_splits)
  next
    case (7 u)
    then show ?case using sched_invD(8) [OF inv, of u] me by (auto simp: g h)
  next
    case (8 u)
    then show ?case using sched_invD(9) [OF inv, of u] by (auto simp: g has_flag_def flag_simps split: if_splits)
  qed (use n h(2) sched_invD(6) [OF inv] in \<open>auto simp: g\<close>)
  moreover have "same_globals s s'" by (simp add: same_globals_def s'_def or_flags_def set_state_def)
  ultimately show thesis using that [of s'] h g unfolding s'_def [symmetric] by simp
qed

text \<open>Waking a thread that waits, with or without a timeout.\<close>

lemma wake_thread_links: "wake_thread t s = Some s' \<Longrightarrow> links s' = ST_APPEND_LINK (Links t) RunQ (links s)"
  by (auto simp: wake_thread_def st_del_sleep_q_def make_runnable_def ST_ADD_RUNQ_def set_state_def clr_flags_def
      split: if_splits)

lemma wake_thread_ok:
  assumes inv: "sched_inv s rq" and t: "state (thr s t) \<notin> {ST_ST_ZOMBIE, ST_ST_RUNNING, ST_ST_RUNNABLE}"
  obtains s' where "wake_thread t s = Some s'" and "sched_inv s' (rq @ [t])"
    and "sleepers (heap s') = sleepers (heap s) - {t}" and "due (heap s') = due (heap s)"
    and "thr s' = (thr s)(t := (thr s t)\<lparr>
        flags := (if t \<in> sleepers (heap s) then flag_clr (flags (thr s t)) ST_FL_ON_SLEEPQ else flags (thr s t)),
        state := ST_ST_RUNNABLE\<rparr>)"
    and "same_globals s s'" and "same_waitqs s s'"
proof -
  have idle: "idle_thread s \<noteq> Some t" using sched_invD(8) [OF inv, of t] t by (auto simp: idle_states_def)
  obtain s2 where s2: "(if has_flag s t ST_FL_ON_SLEEPQ then st_del_sleep_q t s else Some s) = Some s2"
    "sched_inv s2 rq" "sleepers (heap s2) = sleepers (heap s) - {t}" "due (heap s2) = due (heap s)"
    "thr s2 = (thr s)(t := (thr s t)\<lparr>
        flags := (if t \<in> sleepers (heap s) then flag_clr (flags (thr s t)) ST_FL_ON_SLEEPQ else flags (thr s t))\<rparr>)"
    "idle_thread s2 = idle_thread s" "same_globals s s2" "links s2 = links s"
  proof (cases "t \<in> sleepers (heap s)")
    case True
    then obtain h' where h: "st_del_sleep_q t s = Some (clr_flags t ST_FL_ON_SLEEPQ (s\<lparr>heap := h'\<rparr>))"
      "sched_inv (clr_flags t ST_FL_ON_SLEEPQ (s\<lparr>heap := h'\<rparr>)) rq"
      "sleepers h' = sleepers (heap s) - {t}" "due h' = due (heap s)"
      using del_sleep_q_ok [OF inv] by metis
    show ?thesis
      by (rule that [of "clr_flags t ST_FL_ON_SLEEPQ (s\<lparr>heap := h'\<rparr>)"])
        (use True h sched_invD(4) [OF inv, of t] in \<open>simp_all add: thr_upd_defs same_globals_def\<close>)
  next
    case False
    show ?thesis
      by (rule that [of s]) (use False inv sched_invD(4) [OF inv, of t] in simp_all)
  qed
  have "t \<notin> sleepers (heap s2)" "state (thr s2 t) \<noteq> ST_ST_RUNNABLE" "idle_thread s2 \<noteq> Some t"
    using s2 t idle by auto
  then have m: "sched_inv (make_runnable t s2) (rq @ [t])" by (rule make_runnable_ok [OF s2(2)])
  have e: "wake_thread t s = Some (make_runnable t s2)"
    using s2(1) by (simp add: wake_thread_def)
  have w: "same_waitqs s (make_runnable t s2)" "same_globals s (make_runnable t s2)"
    using make_runnable_frame [OF s2(2), of t] same_waitqs_links [OF s2(8), of s] s2(7)
    by (auto intro: same_trans)
  show thesis
    by (rule that [OF e m]) (use s2 w in \<open>simp_all\<close>)
qed

lemma interrupt_waiting:
  assumes inv: "sched_inv s rq" and t: "state (thr s t) \<notin> {ST_ST_ZOMBIE, ST_ST_RUNNING, ST_ST_RUNNABLE}"
  obtains s' where "st_thread_interrupt t s = Some s'" and "sched_inv s' (rq @ [t])"
    and "sleepers (heap s') = sleepers (heap s) - {t}" and "due (heap s') = due (heap s)"
    and "\<forall>u. u \<noteq> t \<longrightarrow> thr s' u = thr s u" and "state (thr s' t) = ST_ST_RUNNABLE"
    and "has_flag s' t ST_FL_INTERRUPT" and "\<not> has_flag s' t ST_FL_ON_SLEEPQ"
    and "same_globals s s'" and "same_waitqs s s'"
proof -
  define s1 where "s1 = or_flags t ST_FL_INTERRUPT s"
  have i1: "sched_inv s1 rq" unfolding s1_def by (rule sched_inv_or_flags(1) [OF inv])
  have f1: "heap s1 = heap s" "\<forall>u. u \<noteq> t \<longrightarrow> thr s1 u = thr s u" "state (thr s1 t) = state (thr s t)"
    "flag_on (flags (thr s1 t)) ST_FL_INTERRUPT" "same_globals s s1" "links s1 = links s"
    by (simp_all add: s1_def thr_upd_defs flag_simps same_globals_def)
  obtain s' where s': "wake_thread t s1 = Some s'" "sched_inv s' (rq @ [t])"
    "sleepers (heap s') = sleepers (heap s1) - {t}" "due (heap s') = due (heap s1)"
    "thr s' = (thr s1)(t := (thr s1 t)\<lparr>
        flags := (if t \<in> sleepers (heap s1) then flag_clr (flags (thr s1 t)) ST_FL_ON_SLEEPQ else flags (thr s1 t)),
        state := ST_ST_RUNNABLE\<rparr>)"
    "same_globals s1 s'" "same_waitqs s1 s'"
    by (rule wake_thread_ok [OF i1, of t]) (use t f1(3) in simp_all)
  have w: "same_waitqs s s'" "same_globals s s'"
    using s'(6,7) f1(5) same_waitqs_links [OF f1(6), of s] by (auto intro: same_trans)
  have e: "st_thread_interrupt t s = Some s'"
    using t f1(3) by (simp add: st_thread_interrupt_def s1_def [symmetric] Let_def s'(1))
  have fl: "has_flag s' t ST_FL_INTERRUPT" "\<not> has_flag s' t ST_FL_ON_SLEEPQ"
    using f1(4) sched_invD(4) [OF i1, of t] s'(5) by (auto simp: has_flag_def flag_simps)
  show thesis
    by (rule that [OF e s'(2)]) (use s' f1 w fl in simp_all)
qed

section \<open>A concrete state\<close>

text \<open>
  Thread 0 is the idle thread and 5 the current one. Threads 1, 2 and 3 are on the timeout heap, 1 on
  condition variable 0, 2 asleep and 3 waiting for I/O; 4 is runnable; 6 waits on condition variable
  0 without a timeout; 7 waits for mutex 0, which 5 owns; 4 owns mutex 2.
\<close>

definition demo_thr :: "tid \<Rightarrow> thread" where
  "demo_thr t = \<lparr>state = (if t \<in> {1, 6} then ST_ST_COND_WAIT else if t = 2 then ST_ST_SLEEPING
      else if t = 3 then ST_ST_IO_WAIT else if t = 4 \<or> t = 0 then ST_ST_RUNNABLE
      else if t = 7 then ST_ST_LOCK_WAIT else ST_ST_RUNNING),
    flags = (if t \<in> {1, 2, 3} then ST_FL_ON_SLEEPQ else if t = 0 then ST_FL_IDLE_THREAD else 0),
    start = 0, arg = 0, retval = 0, private_data = replicate 16 0, term_cv = None, has_context = True\<rparr>"

definition demo_links :: "node links" where
  "demo_links = ST_APPEND_LINK (WaitLinks 7) (MutexQ 0)
     (ST_APPEND_LINK (WaitLinks 6) (CondQ 0) (ST_APPEND_LINK (WaitLinks 1) (CondQ 0)
     (ST_APPEND_LINK (Links 4) RunQ
     (ST_INIT_CLIST (MutexQ 0) (ST_INIT_CLIST (MutexQ 2) (ST_INIT_CLIST (CondQ 0)
     (ST_INIT_CLIST ZombieQ (ST_INIT_CLIST IoQ (ST_INIT_CLIST RunQ
       \<lparr>lnext = \<lambda>_. None, lprev = \<lambda>_. None\<rparr>)))))))))"

definition demo_vp :: st where
  "demo_vp = \<lparr>links = demo_links, heap = demo_heap, thr = demo_thr, idle_thread = Some 0, last_clock = 5,
     pagesize = 4096, this_thread = Some 5, active_count = 7, curr_time = 0, last_tset = 0,
     mutex_owner = (\<lambda>m. if m = 0 then Some 5 else if m = 2 then Some 4 else None), fiber_native = True, cur_context = Some 5,
     running = Some 5\<rparr>"

lemma demo_sleepers: "sleepers demo_heap = {1, 2, 3}"
  using sleepers_eq [OF demo_heap_ok] by (auto simp: demo_tree_def)

lemma demo_queues:
  "runq demo_vp [4]" "condq demo_vp 0 [1, 6]" "mutexq demo_vp 0 [7]" "ioq demo_vp []" "zombieq demo_vp []"
  "mutexq demo_vp 2 []"
  by (simp_all add: q_defs demo_vp_def demo_links_def is_clist_def ST_APPEND_LINK_def ST_INSERT_BEFORE_def
      ST_INIT_CLIST_def Let_def)

lemma demo_fields:
  "heap demo_vp = demo_heap" "thr demo_vp = demo_thr" "idle_thread demo_vp = Some 0" "last_clock demo_vp = 5"
  "this_thread demo_vp = Some 5" "mutex_owner demo_vp 0 = Some 5" "mutex_owner demo_vp 2 = Some 4" "fiber_native demo_vp" "running demo_vp = Some 5"
  "due demo_heap 1 = 30" "due demo_heap 2 = 10" "due demo_heap 3 = 20"
  by (simp_all add: demo_vp_def demo_heap_def)

lemma demo_inv: "sched_inv demo_vp [4]"
proof (rule sched_invI, goal_cases)
  case 1
  then show ?case by (rule demo_queues)
next
  case 2
  then show ?case using demo_heap_ok by (auto simp: wf_heap_def demo_fields)
qed (auto simp: demo_fields demo_sleepers has_flag_def demo_thr_def fl_defs flag_on_def wait_states_def
      idle_states_def split: if_splits)

section \<open>Properties\<close>

lemma st_vp_check_clock_ok:
  assumes inv: "sched_inv s rq"
  shows "\<exists>s' ws. st_vp_check_clock now wall s = Some s' \<and> sched_inv s' (rq @ ws) \<and>
    set ws = {t \<in> sleepers (heap s). due (heap s) t \<le> now} \<and> distinct ws \<and>
    sorted (map (due (heap s)) ws) \<and> sleepers (heap s') = {t \<in> sleepers (heap s). now < due (heap s) t} \<and>
    due (heap s') = due (heap s) \<and> (\<forall>u. u \<notin> set ws \<longrightarrow> thr s' u = thr s u) \<and>
    (\<forall>u \<in> set ws. woken_by_clock (thr s u) (thr s' u)) \<and>
    last_clock s' = now \<and> this_thread s' = this_thread s \<and> same_waitqs s s' \<and>
    idle_thread s' = idle_thread s \<and> mutex_owner s' = mutex_owner s"
proof -
  define s1 where "s1 = (let s = s\<lparr>last_clock := now\<rparr> in
    if curr_time s \<noteq> 0 \<and> now - last_tset s > 999000 then s\<lparr>curr_time := wall, last_tset := now\<rparr> else s)"
  have f: "links s1 = links s" "heap s1 = heap s" "thr s1 = thr s" "idle_thread s1 = idle_thread s"
    "last_clock s1 = now" "this_thread s1 = this_thread s" "mutex_owner s1 = mutex_owner s"
    by (simp_all add: s1_def Let_def)
  have i1: "sched_inv s1 rq" by (rule sched_inv_cong [OF inv]) (simp_all add: f has_flag_def)
  have e: "st_vp_check_clock now wall s = check_clock_loop now s1"
    by (simp add: st_vp_check_clock_def s1_def Let_def)
  have "sleepers (heap s) - tq.expired now (heap s) = {t \<in> sleepers (heap s). now < due (heap s) t}"
    by (auto simp: tq.expired_def)
  moreover have "same_waitqs s s1" by (rule same_waitqs_links [OF f(1)]) simp
  moreover obtain s' ws where r: "check_clock_loop now s1 = Some s'" "sched_inv s' (rq @ ws)"
    "set ws = tq.expired now (heap s)" "distinct ws" "sorted (map (due (heap s)) ws)"
    "sleepers (heap s') = sleepers (heap s) - set ws" "due (heap s') = due (heap s)"
    "\<forall>u. u \<notin> set ws \<longrightarrow> thr s' u = thr s u" "\<forall>u \<in> set ws. woken_by_clock (thr s u) (thr s' u)"
    "same_globals s1 s'" "same_waitqs s1 s'"
    using check_clock_loop_ok [OF i1, of now] unfolding f by blast
  ultimately have "sleepers (heap s') = {t \<in> sleepers (heap s). now < due (heap s) t}" "same_waitqs s s'"
    using same_trans(2) by simp_all
  then show ?thesis using r f(4-7) unfolding e same_globals_def
    by (intro exI [of _ s'] exI [of _ ws]) (simp add: tq.expired_def)
qed

text \<open>
  C3: \<open>_st_vp_check_clock\<close> terminates and wakes exactly the threads of the sleep queue whose due time
  has passed: they leave the heap and are appended to the run queue in the order of their due times,
  become runnable, and get the timed-out flag exactly if they were waiting on a condition variable;
  every other thread and wait queue is left alone and the scheduler invariant is kept.
\<close>

theorem st_vp_check_clock_wakes:
  assumes "sched_inv s rq"
  shows "\<exists>s' ws. st_vp_check_clock now wall s = Some s' \<and> sched_inv s' (rq @ ws) \<and>
    set ws = {t \<in> sleepers (heap s). due (heap s) t \<le> now} \<and> distinct ws \<and>
    sorted (map (due (heap s)) ws) \<and> sleepers (heap s') = {t \<in> sleepers (heap s). now < due (heap s) t} \<and>
    (\<forall>u. u \<notin> set ws \<longrightarrow> thr s' u = thr s u) \<and>
    (\<forall>u \<in> set ws. state (thr s' u) = ST_ST_RUNNABLE \<and> \<not> has_flag s' u ST_FL_ON_SLEEPQ \<and>
       (has_flag s' u ST_FL_TIMEDOUT \<longleftrightarrow> has_flag s u ST_FL_TIMEDOUT \<or> state (thr s u) = ST_ST_COND_WAIT)) \<and>
    last_clock s' = now \<and> this_thread s' = this_thread s \<and> same_waitqs s s'"
proof -
  obtain s' ws where r: "st_vp_check_clock now wall s = Some s'" "sched_inv s' (rq @ ws)"
    "set ws = {t \<in> sleepers (heap s). due (heap s) t \<le> now}" "distinct ws" "sorted (map (due (heap s)) ws)"
    "sleepers (heap s') = {t \<in> sleepers (heap s). now < due (heap s) t}"
    "\<forall>u. u \<notin> set ws \<longrightarrow> thr s' u = thr s u" "\<forall>u \<in> set ws. woken_by_clock (thr s u) (thr s' u)"
    "last_clock s' = now" "this_thread s' = this_thread s" "same_waitqs s s'"
    using st_vp_check_clock_ok [OF assms, of now wall] by blast
  then show ?thesis
    by (intro exI [of _ s'] exI [of _ ws]) (simp add: woken_by_clock_def has_flag_def)
qed

theorem st_vp_check_clock_wakes_witness:
  "sched_inv demo_vp [4] \<and> (\<exists>s' ws. st_vp_check_clock 25 0 demo_vp = Some s' \<and> sched_inv s' ([4] @ ws) \<and>
    set ws = {2, 3} \<and> sorted (map (due demo_heap) ws) \<and> sleepers (heap s') = {1})"
proof -
  have "{t \<in> sleepers demo_heap. due demo_heap t \<le> 25} = {2, 3}"
    "{t \<in> sleepers demo_heap. 25 < due demo_heap t} = {1}"
    unfolding demo_sleepers by (auto simp: demo_heap_def)
  then show ?thesis using st_vp_check_clock_wakes [OF demo_inv, of 25 0] demo_inv unfolding demo_fields by auto
qed

text \<open>
  C4: \<open>_st_vp_schedule\<close> implements the FIFO dispatcher \<open>sched_pick\<close>: it always returns, resumes the
  head of the run queue (the idle thread if the queue is empty, or if the caller itself is at the
  head, which then moves to the back), makes it the current thread in state running, hands its fiber
  the CPU if it has one, and changes no other thread, no timer and no wait queue.
\<close>

theorem st_vp_schedule_refines_pick:
  assumes "sched_inv s rq" and "sched_pick (this_thread s) (idle_thread s) rq = (next, rq')"
  shows "\<exists>s'. st_vp_schedule s = Some s' \<and> sched_inv s' rq' \<and> resumed next s s' \<and> heap s' = heap s \<and>
    same_waitqs s s'"
  using st_vp_schedule_ok [OF assms] by blast

theorem st_vp_schedule_refines_pick_witness:
  "sched_inv demo_vp [4] \<and> sched_pick (Some 5) (Some 0) [4] = (Some 4, []) \<and>
   (\<exists>s'. st_vp_schedule demo_vp = Some s' \<and> sched_inv s' [] \<and> resumed (Some 4) demo_vp s')"
  using st_vp_schedule_refines_pick [OF demo_inv, of "Some 4" "[]"] demo_inv by (auto simp: demo_fields)

fun schedule_n :: "nat \<Rightarrow> st \<Rightarrow> st option" where
  "schedule_n 0 s = Some s"
| "schedule_n (Suc n) s = (case st_vp_schedule s of None \<Rightarrow> None | Some s' \<Rightarrow> schedule_n n s')"

lemma schedule_n_ok:
  assumes "sched_inv s (xs @ t # ys)" and "\<forall>u \<in> set (xs @ t # ys). this_thread s \<noteq> Some u"
  shows "\<exists>s'. schedule_n (Suc (length xs)) s = Some s' \<and> this_thread s' = Some t \<and>
    state (thr s' t) = ST_ST_RUNNING \<and> sched_inv s' ys"
  using assms
proof (induction xs arbitrary: s)
  case Nil
  then have "sched_pick (this_thread s) (idle_thread s) (t # ys) = (Some t, ys)" by simp
  then show ?case using st_vp_schedule_ok [of s "t # ys"] Nil by (auto simp: resumed_def)
next
  case (Cons x xs)
  have "sched_pick (this_thread s) (idle_thread s) (x # xs @ t # ys) = (Some x, xs @ t # ys)"
    using Cons.prems(2) by simp
  then obtain s1 where s1: "st_vp_schedule s = Some s1" "sched_inv s1 (xs @ t # ys)" "this_thread s1 = Some x"
    using st_vp_schedule_ok [of s "x # xs @ t # ys"] Cons.prems(1) by (auto simp: resumed_def)
  have "x \<notin> set (xs @ t # ys)" using sched_invD(3) [OF Cons.prems(1)] by simp
  then have "\<forall>u \<in> set (xs @ t # ys). this_thread s1 \<noteq> Some u" using s1(3) by auto
  then show ?case using Cons.IH [OF s1(2)] s1(1) by simp
qed



text \<open>
  \<open>st_thread_interrupt\<close> always returns. A zombie is left alone; a running
  or runnable thread only gets its interrupt flag; any other thread also leaves the sleep queue if it
  is on it, becomes runnable and goes to the back of the run queue. No other thread changes and the
  scheduler invariant is kept.
\<close>

theorem st_thread_interrupt_correct:
  assumes "sched_inv s rq"
  shows "\<exists>s'. st_thread_interrupt t s = Some s' \<and> (\<forall>u. u \<noteq> t \<longrightarrow> thr s' u = thr s u) \<and> same_waitqs s s' \<and>
    (if state (thr s t) = ST_ST_ZOMBIE then s' = s
     else has_flag s' t ST_FL_INTERRUPT \<and>
       (if state (thr s t) \<in> {ST_ST_RUNNING, ST_ST_RUNNABLE}
        then sched_inv s' rq \<and> state (thr s' t) = state (thr s t) \<and> heap s' = heap s
        else sched_inv s' (rq @ [t]) \<and> state (thr s' t) = ST_ST_RUNNABLE \<and>
          \<not> has_flag s' t ST_FL_ON_SLEEPQ \<and> sleepers (heap s') = sleepers (heap s) - {t}))"
proof (cases "state (thr s t) \<in> {ST_ST_ZOMBIE, ST_ST_RUNNING, ST_ST_RUNNABLE}")
  case False
  then obtain s' where "st_thread_interrupt t s = Some s'" "sched_inv s' (rq @ [t])"
    "sleepers (heap s') = sleepers (heap s) - {t}" "\<forall>u. u \<noteq> t \<longrightarrow> thr s' u = thr s u"
    "state (thr s' t) = ST_ST_RUNNABLE" "has_flag s' t ST_FL_INTERRUPT" "\<not> has_flag s' t ST_FL_ON_SLEEPQ"
    "same_waitqs s s'"
    by (rule interrupt_waiting [OF assms]) blast
  then show ?thesis using False by (intro exI [of _ s']) simp
next
  case True
  have "same_waitqs s (or_flags t ST_FL_INTERRUPT s)"
    by (rule same_waitqs_links [of _ s]) (simp_all add: or_flags_def)
  then show ?thesis
    using True sched_inv_or_flags(1) [OF assms, of t]
    by (auto simp: st_thread_interrupt_def Let_def thr_upd_defs flag_simps)
qed

theorem st_thread_interrupt_correct_witness:
  "sched_inv demo_vp [4] \<and>
   (\<exists>s'. st_thread_interrupt 3 demo_vp = Some s' \<and> sched_inv s' [4, 3] \<and> has_flag s' 3 ST_FL_INTERRUPT \<and>
     sleepers (heap s') = {1, 2})"
proof -
  have "{1, 2, 3} - {3} = {1, 2 :: nat}" by auto
  then show ?thesis using st_thread_interrupt_correct [OF demo_inv, of 3] demo_inv
    by (auto simp: demo_fields demo_sleepers demo_thr_def)
qed

text \<open>What the clock check does to one thread that has just gone to sleep.\<close>

lemma sleep_then_check:
  assumes inv: "sched_inv s rq" and me: "state (thr s me) = ST_ST_RUNNING" "idle_thread s \<noteq> Some me"
    and w: "w \<in> wait_states"
  shows "\<exists>s1. st_add_sleep_q me timeout (set_state me w s) = Some s1 \<and>
    (\<forall>now wall. \<exists>s2. st_vp_check_clock now wall s1 = Some s2 \<and>
       state (thr s2 me) = (if last_clock s + timeout \<le> now then ST_ST_RUNNABLE else w))"
proof (rule begin_sleep [OF inv me w, of timeout])
  fix s1
  assume s1: "st_add_sleep_q me timeout (set_state me w s) = Some s1" "sched_inv s1 rq"
    "sleepers (heap s1) = insert me (sleepers (heap s))"
    "due (heap s1) = (due (heap s))(me := last_clock s + timeout)"
    "thr s1 = (thr s)(me := (thr s me)\<lparr>state := w, flags := flag_set (flags (thr s me)) ST_FL_ON_SLEEPQ\<rparr>)"
  have "\<exists>s2. st_vp_check_clock now wall s1 = Some s2 \<and>
     state (thr s2 me) = (if last_clock s + timeout \<le> now then ST_ST_RUNNABLE else w)" for now wall
  proof -
    obtain s2 ws where r: "st_vp_check_clock now wall s1 = Some s2"
      "set ws = {t \<in> sleepers (heap s1). due (heap s1) t \<le> now}"
      "\<forall>u. u \<notin> set ws \<longrightarrow> thr s2 u = thr s1 u" "\<forall>u \<in> set ws. woken_by_clock (thr s1 u) (thr s2 u)"
      using st_vp_check_clock_ok [OF s1(2), of now wall] by blast
    have "me \<in> set ws \<longleftrightarrow> last_clock s + timeout \<le> now" by (simp add: r(2) s1(3,4))
    then show ?thesis using r(1,3,4) by (auto simp: s1(5) woken_by_clock_def)
  qed
  then show ?thesis using s1(1) by blast
qed

text \<open>
  Sleep time. If the deadline \<open>last_clock + timeout\<close> fits 64 bits, a thread that goes on the sleep
  queue is woken by a later clock check exactly when the clock has reached the deadline, neither
  earlier nor later.
\<close>

theorem sleep_until_deadline:
  assumes "sched_inv s rq" and "state (thr s me) = ST_ST_RUNNING" and "idle_thread s \<noteq> Some me"
    and "w \<in> wait_states" and "unat (last_clock s) + unat timeout < 2 ^ 64"
  shows "\<exists>s1. st_add_sleep_q me timeout (set_state me w s) = Some s1 \<and>
    (\<forall>now wall. \<exists>s2. st_vp_check_clock now wall s1 = Some s2 \<and>
       state (thr s2 me) = (if unat (last_clock s) + unat timeout \<le> unat now then ST_ST_RUNNABLE else w))"
proof -
  have "unat (last_clock s + timeout) = unat (last_clock s) + unat timeout"
    using assms(5) by (simp add: unat_word_ariths)
  then show ?thesis using sleep_then_check [OF assms(1-4), of timeout] by (simp add: word_le_nat_alt)
qed

theorem sleep_until_deadline_witness:
  "sched_inv demo_vp [4] \<and>
   (\<exists>s1. st_add_sleep_q 5 100 (set_state 5 ST_ST_SLEEPING demo_vp) = Some s1 \<and>
     (\<exists>s2. st_vp_check_clock 104 0 s1 = Some s2 \<and> state (thr s2 5) = ST_ST_SLEEPING) \<and>
     (\<exists>s2. st_vp_check_clock 105 0 s1 = Some s2 \<and> state (thr s2 5) = ST_ST_RUNNABLE))"
proof -
  have "state (thr demo_vp 5) = ST_ST_RUNNING" by (simp add: demo_fields demo_thr_def)
  then obtain s1 where s1: "st_add_sleep_q 5 100 (set_state 5 ST_ST_SLEEPING demo_vp) = Some s1"
    "\<forall>now wall. \<exists>s2. st_vp_check_clock now wall s1 = Some s2 \<and>
       state (thr s2 5) = (if 105 \<le> unat now then ST_ST_RUNNABLE else ST_ST_SLEEPING)"
    using sleep_until_deadline [OF demo_inv, of 5 ST_ST_SLEEPING 100] by (auto simp: demo_fields)
  show ?thesis
    using s1(1) s1(2) [rule_format, of 104 0] s1(2) [rule_format, of 105 0] demo_inv by simp
qed

text \<open>
  When the deadline does not fit 64 bits it wraps around, and the thread is woken by the first
  clock check that does not go back in time, however long the requested sleep.
\<close>

theorem sleep_deadline_wraps:
  assumes "sched_inv s rq" and "state (thr s me) = ST_ST_RUNNING" and "idle_thread s \<noteq> Some me"
    and "w \<in> wait_states" and "2 ^ 64 \<le> unat (last_clock s) + unat timeout" and "last_clock s \<le> now"
  shows "\<exists>s1 s2. st_add_sleep_q me timeout (set_state me w s) = Some s1 \<and>
    st_vp_check_clock now wall s1 = Some s2 \<and> state (thr s2 me) = ST_ST_RUNNABLE"
proof -
  have b: "unat (last_clock s) < 2 ^ 64" "unat timeout < 2 ^ 64"
    by (rule utime_less)+
  have "unat (last_clock s + timeout) = (unat (last_clock s) + unat timeout) mod 2 ^ 64"
    by (simp add: unat_word_ariths)
  also have "\<dots> = unat (last_clock s) + unat timeout - 2 ^ 64"
    using b by (intro mod_once assms(5)) simp
  also have "\<dots> < unat (last_clock s)" using b assms(5) by auto
  finally have le: "last_clock s + timeout \<le> now" using assms(6) by (simp add: word_le_nat_alt)
  obtain s1 where s1: "st_add_sleep_q me timeout (set_state me w s) = Some s1"
    "\<forall>now wall. \<exists>s2. st_vp_check_clock now wall s1 = Some s2 \<and>
       state (thr s2 me) = (if last_clock s + timeout \<le> now then ST_ST_RUNNABLE else w)"
    using sleep_then_check [OF assms(1-4), of timeout] by blast
  show ?thesis using s1(1) s1(2) [rule_format, of now wall] le by auto
qed

theorem sleep_deadline_wraps_witness:
  "sched_inv demo_vp [4] \<and> (\<exists>s1 s2. st_add_sleep_q 5 (- 2) (set_state 5 ST_ST_SLEEPING demo_vp) = Some s1 \<and>
    st_vp_check_clock 6 0 s1 = Some s2 \<and> state (thr s2 5) = ST_ST_RUNNABLE)"
proof -
  have "unat (- 2 :: utime) = 2 ^ 64 - 2" by simp
  then have "2 ^ 64 \<le> unat (last_clock demo_vp) + unat (- 2 :: utime)" by (simp add: demo_fields)
  moreover have "state (thr demo_vp 5) = ST_ST_RUNNING" by (simp add: demo_fields demo_thr_def)
  ultimately show ?thesis
    using sleep_deadline_wraps [OF demo_inv, of 5 ST_ST_SLEEPING "- 2" 6 0] demo_inv by (auto simp: demo_fields)
qed

end
