(* ===== verification/Sync.thy ===== *)
theory Sync
  imports Sched
begin

text \<open>
  sync.c: the time functions, \<open>st_usleep\<close>, condition variables and mutexes.

  A call that gives up the CPU calls \<open>_st_vp_schedule\<close> in the middle. What the other threads do until
  this call returns is the argument \<open>others\<close> of the model: any function from the state in which the
  next thread was resumed to the state in which the caller runs again, or \<open>None\<close> if it never does.
\<close>

section \<open>Time\<close>

text \<open>
  \<open>MD_GET_UTIME\<close> (md.h) computes the clock from the seconds and milliseconds \<open>_ftime\<close> returns; a
  function installed by the application replaces it. The installed function is modelled by the value
  it returns, \<open>None\<close> if there is none.
\<close>

definition MD_GET_UTIME :: "64 word \<Rightarrow> 16 word \<Rightarrow> utime" where
  "MD_GET_UTIME tb_time millitm = tb_time * 1000000 + ucast millitm * 1000"

definition st_utime :: "utime option \<Rightarrow> 64 word \<Rightarrow> 16 word \<Rightarrow> utime" where
  "st_utime func tb_time millitm =
    (case func of None \<Rightarrow> MD_GET_UTIME tb_time millitm | Some v \<Rightarrow> v)"

definition st_set_utime_function :: "utime option \<Rightarrow> st \<Rightarrow> utime option \<Rightarrow> (errno + unit) \<times> utime option" where
  "st_set_utime_function func s cur =
    (if active_count s \<noteq> 0 then (Inl EINVAL, cur) else (Inr (), func))"

definition st_utime_last_clock :: "st \<Rightarrow> utime" where
  "st_utime_last_clock s = last_clock s"

text \<open>\<open>wall\<close> is the value of \<open>time(NULL)\<close>, \<open>now\<close> the value of \<open>st_utime()\<close>.\<close>

definition st_timecache_set :: "bool \<Rightarrow> int \<Rightarrow> utime \<Rightarrow> st \<Rightarrow> bool \<times> st" where
  "st_timecache_set on wall now s =
    (curr_time s \<noteq> 0,
     if on then s\<lparr>curr_time := wall, last_tset := now\<rparr> else s\<lparr>curr_time := 0\<rparr>)"

definition st_time :: "int \<Rightarrow> st \<Rightarrow> int" where
  "st_time wall s = (if curr_time s \<noteq> 0 then curr_time s else wall)"

section \<open>Sleeping\<close>

type_synonym others = "st \<Rightarrow> st option"

definition switch_away :: "others \<Rightarrow> st \<Rightarrow> st option" where
  "switch_away others s = (case st_vp_schedule s of None \<Rightarrow> None | Some s1 \<Rightarrow> others s1)"

definition st_usleep :: "utime \<Rightarrow> others \<Rightarrow> st \<Rightarrow> ((errno + unit) \<times> st) option" where
  "st_usleep usecs others s =
    (let sched = (\<lambda>s. map_option (Pair (Inr ())) (switch_away others s))
     in case this_thread s of None \<Rightarrow> sched s
        | Some me \<Rightarrow>
            (if state (thr s me) \<noteq> ST_ST_ZOMBIE
             then (if has_flag s me ST_FL_INTERRUPT
                   then Some (Inl EINTR, clr_flags me ST_FL_INTERRUPT s)
                   else if usecs \<noteq> ST_UTIME_NO_TIMEOUT
                   then (if state (thr s me) \<noteq> ST_ST_SLEEPING
                         then Option.bind (st_add_sleep_q me usecs (set_state me ST_ST_SLEEPING s)) sched
                         else sched s)
                   else (if state (thr s me) \<noteq> ST_ST_SUSPENDED
                         then sched (set_state me ST_ST_SUSPENDED s)
                         else sched s))
             else sched s))"

text \<open>\<open>secs\<close> is a C \<open>int\<close>; the product is computed in \<open>st_utime_t\<close>.\<close>

definition sleep_usecs :: "int \<Rightarrow> utime" where
  "sleep_usecs secs = (if secs \<ge> 0 then of_int secs * 1000000 else ST_UTIME_NO_TIMEOUT)"

definition st_sleep :: "int \<Rightarrow> others \<Rightarrow> st \<Rightarrow> ((errno + unit) \<times> st) option" where
  "st_sleep secs others s = st_usleep (sleep_usecs secs) others s"

section \<open>Condition variables\<close>

text \<open>\<open>calloc\<close> returns \<open>None\<close> or an unused object.\<close>

definition st_cond_new :: "cid option \<Rightarrow> st \<Rightarrow> cid option \<times> st" where
  "st_cond_new alloc s =
    (case alloc of None \<Rightarrow> (None, s)
     | Some cvar \<Rightarrow> (Some cvar, s\<lparr>links := ST_INIT_CLIST (CondQ cvar) (links s)\<rparr>))"

text \<open>\<open>free\<close> has no effect on the modelled state.\<close>

definition st_cond_destroy :: "cid \<Rightarrow> st \<Rightarrow> errno + unit" where
  "st_cond_destroy cvar s = (if lnext (links s) (CondQ cvar) \<noteq> Some (CondQ cvar) then Inl EBUSY else Inr ())"

text \<open>The part of \<open>st_cond_timedwait\<close> before and the part after \<open>_st_vp_schedule\<close>.\<close>

definition cond_enter :: "cid \<Rightarrow> utime \<Rightarrow> tid \<Rightarrow> st \<Rightarrow> st option" where
  "cond_enter cvar timeout me s =
    (let s = set_state me ST_ST_COND_WAIT s;
         s = s\<lparr>links := ST_APPEND_LINK (WaitLinks me) (CondQ cvar) (links s)\<rparr>
     in if timeout \<noteq> ST_UTIME_NO_TIMEOUT then st_add_sleep_q me timeout s else Some s)"

definition cond_leave :: "tid \<Rightarrow> st \<Rightarrow> (errno + unit) \<times> st" where
  "cond_leave me s =
    (let s = s\<lparr>links := ST_REMOVE_LINK (WaitLinks me) (links s)\<rparr>;
         (rv, s) = (if has_flag s me ST_FL_TIMEDOUT
                    then (Inl ETIME, clr_flags me ST_FL_TIMEDOUT s) else (Inr (), s))
     in if has_flag s me ST_FL_INTERRUPT
        then (Inl EINTR, clr_flags me ST_FL_INTERRUPT s) else (rv, s))"

definition st_cond_timedwait :: "cid \<Rightarrow> utime \<Rightarrow> others \<Rightarrow> st \<Rightarrow> ((errno + unit) \<times> st) option" where
  "st_cond_timedwait cvar timeout others s =
    (case this_thread s of None \<Rightarrow> Some (Inr (), s)
     | Some me \<Rightarrow>
        (if has_flag s me ST_FL_INTERRUPT then Some (Inl EINTR, clr_flags me ST_FL_INTERRUPT s)
         else (case cond_enter cvar timeout me s of None \<Rightarrow> None
               | Some s \<Rightarrow> map_option (cond_leave me) (switch_away others s))))"

definition st_cond_wait :: "cid \<Rightarrow> others \<Rightarrow> st \<Rightarrow> ((errno + unit) \<times> st) option" where
  "st_cond_wait cvar others s = st_cond_timedwait cvar ST_UTIME_NO_TIMEOUT others s"

text \<open>The loop of \<open>_st_cond_signal\<close> from the list node \<open>q\<close> on.\<close>

partial_function (option) cond_signal_loop :: "cid \<Rightarrow> bool \<Rightarrow> node \<Rightarrow> st \<Rightarrow> st option" where
  "cond_signal_loop cvar broadcast q s =
    (if q = CondQ cvar then Some s
     else (case ST_THREAD_WAITQ_PTR q of None \<Rightarrow> None
           | Some thread \<Rightarrow>
              (if state (thr s thread) = ST_ST_COND_WAIT
               then (case wake_thread thread s of None \<Rightarrow> None
                     | Some s \<Rightarrow>
                        (if \<not> broadcast then Some s
                         else (case lnext (links s) q of None \<Rightarrow> None
                               | Some q \<Rightarrow> cond_signal_loop cvar broadcast q s)))
               else (case lnext (links s) q of None \<Rightarrow> None
                     | Some q \<Rightarrow> cond_signal_loop cvar broadcast q s))))"

definition st_cond_signal_impl :: "cid \<Rightarrow> bool \<Rightarrow> st \<Rightarrow> st option" where
  "st_cond_signal_impl cvar broadcast s =
    (case lnext (links s) (CondQ cvar) of None \<Rightarrow> None | Some q \<Rightarrow> cond_signal_loop cvar broadcast q s)"

definition st_cond_signal :: "cid \<Rightarrow> st \<Rightarrow> st option" where
  "st_cond_signal cvar s = st_cond_signal_impl cvar False s"

definition st_cond_broadcast :: "cid \<Rightarrow> st \<Rightarrow> st option" where
  "st_cond_broadcast cvar s = st_cond_signal_impl cvar True s"

section \<open>Mutexes\<close>

definition st_mutex_new :: "mid option \<Rightarrow> st \<Rightarrow> mid option \<times> st" where
  "st_mutex_new alloc s =
    (case alloc of None \<Rightarrow> (None, s)
     | Some lock \<Rightarrow>
        (Some lock, s\<lparr>links := ST_INIT_CLIST (MutexQ lock) (links s),
                      mutex_owner := (mutex_owner s)(lock := None)\<rparr>))"

definition st_mutex_destroy :: "mid \<Rightarrow> st \<Rightarrow> errno + unit" where
  "st_mutex_destroy lock s =
    (if mutex_owner s lock \<noteq> None \<or> lnext (links s) (MutexQ lock) \<noteq> Some (MutexQ lock)
     then Inl EBUSY else Inr ())"

definition mutex_enter :: "mid \<Rightarrow> tid \<Rightarrow> st \<Rightarrow> st" where
  "mutex_enter lock me s =
    (let s = set_state me ST_ST_LOCK_WAIT s
     in s\<lparr>links := ST_APPEND_LINK (WaitLinks me) (MutexQ lock) (links s)\<rparr>)"

definition mutex_leave :: "mid \<Rightarrow> tid \<Rightarrow> st \<Rightarrow> (errno + unit) \<times> st" where
  "mutex_leave lock me s =
    (let s = s\<lparr>links := ST_REMOVE_LINK (WaitLinks me) (links s)\<rparr>
     in if has_flag s me ST_FL_INTERRUPT \<and> mutex_owner s lock \<noteq> Some me
        then (Inl EINTR, clr_flags me ST_FL_INTERRUPT s) else (Inr (), s))"

definition st_mutex_lock :: "mid \<Rightarrow> others \<Rightarrow> st \<Rightarrow> ((errno + unit) \<times> st) option" where
  "st_mutex_lock lock others s =
    (case this_thread s of None \<Rightarrow> Some (Inr (), s)
     | Some me \<Rightarrow>
        (if has_flag s me ST_FL_INTERRUPT then Some (Inl EINTR, clr_flags me ST_FL_INTERRUPT s)
         else if mutex_owner s lock = None
         then Some (Inr (), s\<lparr>mutex_owner := (mutex_owner s)(lock := Some me)\<rparr>)
         else if mutex_owner s lock = Some me then Some (Inl EDEADLK, s)
         else map_option (mutex_leave lock me) (switch_away others (mutex_enter lock me s))))"

partial_function (option) mutex_unlock_loop :: "mid \<Rightarrow> node \<Rightarrow> st \<Rightarrow> st option" where
  "mutex_unlock_loop lock q s =
    (if q = MutexQ lock then Some (s\<lparr>mutex_owner := (mutex_owner s)(lock := None)\<rparr>)
     else (case ST_THREAD_WAITQ_PTR q of None \<Rightarrow> None
           | Some thread \<Rightarrow>
              (if state (thr s thread) = ST_ST_LOCK_WAIT
               then (let s = s\<lparr>mutex_owner := (mutex_owner s)(lock := Some thread)\<rparr>
                     in Some (make_runnable thread s))
               else (case lnext (links s) q of None \<Rightarrow> None | Some q \<Rightarrow> mutex_unlock_loop lock q s))))"

definition st_mutex_unlock :: "mid \<Rightarrow> st \<Rightarrow> ((errno + unit) \<times> st) option" where
  "st_mutex_unlock lock s =
    (if mutex_owner s lock \<noteq> this_thread s then Some (Inl EPERM, s)
     else (case lnext (links s) (MutexQ lock) of None \<Rightarrow> None
           | Some q \<Rightarrow> map_option (Pair (Inr ())) (mutex_unlock_loop lock q s)))"

definition st_mutex_trylock :: "mid \<Rightarrow> st \<Rightarrow> (errno + unit) \<times> st" where
  "st_mutex_trylock lock s =
    (if mutex_owner s lock \<noteq> None then (Inl EBUSY, s)
     else (Inr (), s\<lparr>mutex_owner := (mutex_owner s)(lock := this_thread s)\<rparr>))"

section \<open>Wait queues\<close>

fun is_wait_head :: "node \<Rightarrow> bool" where
  "is_wait_head (CondQ c) \<longleftrightarrow> True"
| "is_wait_head (MutexQ m) \<longleftrightarrow> True"
| "is_wait_head _ \<longleftrightarrow> False"

definition waitq :: "st \<Rightarrow> node \<Rightarrow> tid list \<Rightarrow> bool" where
  "waitq s q ws \<longleftrightarrow> is_clist (links s) q (map WaitLinks ws)"

lemma is_wait_head_neq: "is_wait_head q \<Longrightarrow> WaitLinks t \<noteq> q"
  by auto

lemma waitq_simps: "waitq s (CondQ c) = condq s c" "waitq s (MutexQ m) = mutexq s m"
  by (auto simp: waitq_def q_defs fun_eq_iff)

lemma waitq_det: "waitq s q ws \<Longrightarrow> waitq s q vs \<Longrightarrow> ws = vs"
  using is_clist_det inj_nodes(2) by (metis inj_map_eq_map waitq_def)

lemma waitq_disjoint: "waitq s q ws \<Longrightarrow> waitq s r vs \<Longrightarrow> is_wait_head q \<Longrightarrow> is_wait_head r \<Longrightarrow> q \<noteq> r \<Longrightarrow>
    set (q # map WaitLinks ws) \<inter> set (r # map WaitLinks vs) = {}"
  unfolding waitq_def by (rule is_clist_disjoint) auto

lemma waitq_add:
  assumes "waitq s q ws" and "is_wait_head q" and "t \<notin> set ws"
    and "s' = s\<lparr>links := ST_APPEND_LINK (WaitLinks t) q (links s)\<rparr>"
  shows "waitq s' q (ws @ [t])" and "runq s rq \<Longrightarrow> runq s' rq" and "ioq s qs \<Longrightarrow> ioq s' qs"
    and "zombieq s zs \<Longrightarrow> zombieq s' zs"
    and "waitq s r vs \<Longrightarrow> is_wait_head r \<Longrightarrow> r \<noteq> q \<Longrightarrow> t \<notin> set vs \<Longrightarrow> waitq s' r vs"
proof -
  note l = assms(1) [unfolded waitq_def]
  have tq: "WaitLinks t \<noteq> q" using assms(2) by auto
  show "waitq s' q (ws @ [t])"
    using stq.holds_append [OF l, of "WaitLinks t"] tq assms(3) by (auto simp: waitq_def assms(4))
  show "runq s rq \<Longrightarrow> runq s' rq" "ioq s qs \<Longrightarrow> ioq s' qs" "zombieq s zs \<Longrightarrow> zombieq s' zs"
    using assms(2) by (auto simp: q_defs assms(4) intro!: stq.append_frame [OF l])
  show "waitq s' r vs" if v: "waitq s r vs" "is_wait_head r" "r \<noteq> q" "t \<notin> set vs"
    using stq.append_frame [OF l v(1) [unfolded waitq_def] waitq_disjoint [OF assms(1) v(1) assms(2) v(2)], of "WaitLinks t"] v(1,3,4) is_wait_head_neq [OF v(2)]
    by (auto simp: waitq_def assms(4))
qed

lemma waitq_del:
  assumes "waitq s q ws" and "is_wait_head q" and "t \<in> set ws"
    and "s' = s\<lparr>links := ST_REMOVE_LINK (WaitLinks t) (links s)\<rparr>"
  shows "waitq s' q (remove1 t ws)" and "runq s rq \<Longrightarrow> runq s' rq" and "ioq s qs \<Longrightarrow> ioq s' qs"
    and "zombieq s zs \<Longrightarrow> zombieq s' zs"
    and "waitq s r vs \<Longrightarrow> is_wait_head r \<Longrightarrow> r \<noteq> q \<Longrightarrow> waitq s' r vs"
proof -
  note l = assms(1) [unfolded waitq_def]
  have t: "WaitLinks t \<in> set (map WaitLinks ws)" using assms(3) by simp
  show "waitq s' q (remove1 t ws)"
    using stq.holds_remove [OF l t] by (simp add: waitq_def assms(4) remove1_map_inj)
  show "runq s rq \<Longrightarrow> runq s' rq" "ioq s qs \<Longrightarrow> ioq s' qs" "zombieq s zs \<Longrightarrow> zombieq s' zs"
    using assms(2) by (auto simp: q_defs assms(4) intro!: stq.remove_frame [OF l t])
  show "waitq s' r vs" if v: "waitq s r vs" "is_wait_head r" "r \<noteq> q"
    using stq.remove_frame [OF l t v(1) [unfolded waitq_def] waitq_disjoint [OF assms(1) v(1) assms(2) v(2)]] v
    by (auto simp: waitq_def assms(4))
qed

lemma waitq_next: "waitq s q (us @ t # ws) \<Longrightarrow> lnext (links s) (WaitLinks t) = Some (hd (map WaitLinks ws @ [q]))"
  using is_clist_next [of "links s" q "map WaitLinks us" "WaitLinks t" "map WaitLinks ws"] by (simp add: waitq_def)

lemma waitq_first: "waitq s q ws \<Longrightarrow> lnext (links s) q = Some (hd (map WaitLinks ws @ [q]))"
  using is_clist_head [of "links s" q "map WaitLinks ws"] by (auto simp: waitq_def split: list.splits)

lemma same_waitqs_waitq: "same_waitqs s s' \<Longrightarrow> is_wait_head q \<Longrightarrow> waitq s q ws \<Longrightarrow> waitq s' q ws"
  by (cases q) (auto simp: same_waitqs_def waitq_simps)

section \<open>Signalling\<close>

text \<open>The thread objects after the threads in \<open>W\<close> were woken.\<close>

definition wake_all :: "tid set \<Rightarrow> st \<Rightarrow> tid \<Rightarrow> thread" where
  "wake_all W s u = (if u \<in> W
     then (thr s u)\<lparr>flags := (if u \<in> sleepers (heap s) then flag_clr (flags (thr s u)) ST_FL_ON_SLEEPQ
                              else flags (thr s u)), state := ST_ST_RUNNABLE\<rparr>
     else thr s u)"

definition cond_waiters :: "st \<Rightarrow> tid list \<Rightarrow> tid list" where
  "cond_waiters s ws = filter (\<lambda>t. state (thr s t) = ST_ST_COND_WAIT) ws"

definition to_wake :: "bool \<Rightarrow> tid list \<Rightarrow> tid list" where
  "to_wake broadcast ws = (if broadcast then ws else take 1 ws)"

lemma signal_loop_ok:
  assumes "sched_inv s rq" and "condq s c (us @ ws)"
  shows "\<exists>s'. cond_signal_loop c b (hd (map WaitLinks ws @ [CondQ c])) s = Some s' \<and>
    sched_inv s' (rq @ to_wake b (cond_waiters s ws)) \<and>
    sleepers (heap s') = sleepers (heap s) - set (to_wake b (cond_waiters s ws)) \<and>
    due (heap s') = due (heap s) \<and> thr s' = wake_all (set (to_wake b (cond_waiters s ws))) s \<and>
    same_globals s s' \<and> same_waitqs s s'"
  using assms
proof (induction ws arbitrary: s rq us)
  case Nil
  have "cond_signal_loop c b (CondQ c) s = Some s" by (subst cond_signal_loop.simps) simp
  then show ?case using Nil by (simp add: to_wake_def cond_waiters_def wake_all_def fun_eq_iff)
next
  case (Cons t ws)
  have nx: "lnext (links x) (WaitLinks t) = Some (hd (map WaitLinks ws @ [CondQ c]))"
    if "condq x c (us @ t # ws)" for x using waitq_next that by (metis waitq_simps(1))
  have tws: "t \<notin> set ws" using condq_distinct [OF Cons.prems(2)] by simp
  show ?case
  proof (cases "state (thr s t) = ST_ST_COND_WAIT")
    case False
    have "cond_signal_loop c b (WaitLinks t) s = cond_signal_loop c b (hd (map WaitLinks ws @ [CondQ c])) s"
      using nx [OF Cons.prems(2)] False by (subst cond_signal_loop.simps) simp
    moreover have "cond_waiters s (t # ws) = cond_waiters s ws" using False by (simp add: cond_waiters_def)
    ultimately show ?thesis using Cons.IH [of s rq "us @ [t]"] Cons.prems by simp
  next
    case True
    obtain s1 where s1: "wake_thread t s = Some s1" "sched_inv s1 (rq @ [t])"
      "sleepers (heap s1) = sleepers (heap s) - {t}" "due (heap s1) = due (heap s)"
      "thr s1 = (thr s)(t := (thr s t)\<lparr>
        flags := (if t \<in> sleepers (heap s) then flag_clr (flags (thr s t)) ST_FL_ON_SLEEPQ else flags (thr s t)),
        state := ST_ST_RUNNABLE\<rparr>)" "same_globals s s1" "same_waitqs s s1"
      by (rule wake_thread_ok [OF Cons.prems(1), of t]) (use True in simp_all)
    have w1: "thr s1 = wake_all {t} s" by (simp add: s1(5) wake_all_def fun_eq_iff)
    have c1: "condq s1 c (us @ t # ws)" using s1(7) Cons.prems(2) by (auto simp: same_waitqs_def)
    show ?thesis
    proof (cases b)
      case False
      then have "cond_signal_loop c b (WaitLinks t) s = Some s1"
        using True s1(1) by (subst cond_signal_loop.simps) simp
      moreover have "to_wake b (cond_waiters s (t # ws)) = [t]"
        using True False by (simp add: to_wake_def cond_waiters_def)
      ultimately show ?thesis using s1(2-4,6,7) w1 by (simp add: s1(3))
    next
      case b: True
      have e: "cond_signal_loop c b (WaitLinks t) s = cond_signal_loop c b (hd (map WaitLinks ws @ [CondQ c])) s1"
        using True b s1(1) nx [OF c1] by (subst cond_signal_loop.simps) simp
      have "\<forall>u \<in> set ws. thr s1 u = thr s u" using tws by (auto simp: s1(5))
      then have f: "cond_waiters s1 ws = cond_waiters s ws"
        unfolding cond_waiters_def by (intro filter_cong) auto
      define W where "W = cond_waiters s ws"
      have t: "to_wake b (cond_waiters s (t # ws)) = t # W" "to_wake b (cond_waiters s1 ws) = W"
        using True b by (simp_all add: to_wake_def f W_def) (simp add: cond_waiters_def)
      have "t \<notin> set W" using tws by (simp add: W_def cond_waiters_def)
      then have wa: "wake_all (set W) s1 = wake_all (set (t # W)) s"
        by (auto simp: wake_all_def fun_eq_iff s1(3,5))
      obtain s' where s': "cond_signal_loop c b (hd (map WaitLinks ws @ [CondQ c])) s1 = Some s'"
        "sched_inv s' ((rq @ [t]) @ W)" "sleepers (heap s') = sleepers (heap s1) - set W"
        "due (heap s') = due (heap s1)" "thr s' = wake_all (set W) s1" "same_globals s1 s'" "same_waitqs s1 s'"
        using Cons.IH [of s1 "rq @ [t]" "us @ [t]"] s1(2) c1 unfolding t by auto
      have "sleepers (heap s') = sleepers (heap s) - set (t # W)" using s'(3) s1(3) by auto
      then show ?thesis
        unfolding t using e s' s1(4) wa same_trans(1) [OF s1(6) s'(6)] same_trans(2) [OF s1(7) s'(7)]
        by (intro exI [of _ s']) simp
    qed
  qed
qed

lemma st_cond_signal_impl_ok:
  assumes "sched_inv s rq" and "condq s c ws"
  shows "\<exists>s'. st_cond_signal_impl c b s = Some s' \<and>
    sched_inv s' (rq @ to_wake b (cond_waiters s ws)) \<and>
    sleepers (heap s') = sleepers (heap s) - set (to_wake b (cond_waiters s ws)) \<and>
    due (heap s') = due (heap s) \<and> thr s' = wake_all (set (to_wake b (cond_waiters s ws))) s \<and>
    same_globals s s' \<and> same_waitqs s s'"
  using signal_loop_ok [OF assms(1), of c "[]" ws b] assms(2) waitq_first [of s "CondQ c" ws]
  by (simp add: st_cond_signal_impl_def waitq_simps)

section \<open>Entering and leaving a wait queue\<close>

lemma sched_inv_links:
  assumes "sched_inv s rq" and "runq (s\<lparr>links := L\<rparr>) rq"
  shows "sched_inv (s\<lparr>links := L\<rparr>) rq"
proof -
  have f: "heap (s\<lparr>links := L\<rparr>) = heap s" "thr (s\<lparr>links := L\<rparr>) = thr s"
    "idle_thread (s\<lparr>links := L\<rparr>) = idle_thread s" by simp_all
  show ?thesis using assms unfolding sched_inv_def has_flag_def f by blast
qed

lemma set_state_links: "(set_state t w s)\<lparr>links := L\<rparr> = set_state t w (s\<lparr>links := L\<rparr>)"
  by (simp add: set_state_def upd_thr_def)

text \<open>The wait queues other than \<open>q\<close> that do not hold \<open>t\<close>.\<close>

definition same_other_waitqs :: "node \<Rightarrow> tid \<Rightarrow> st \<Rightarrow> st \<Rightarrow> bool" where
  "same_other_waitqs q t s s' \<longleftrightarrow>
     (\<forall>r vs. is_wait_head r \<longrightarrow> r \<noteq> q \<longrightarrow> t \<notin> set vs \<longrightarrow> waitq s r vs \<longrightarrow> waitq s' r vs) \<and>
     (\<forall>qs. ioq s qs \<longrightarrow> ioq s' qs) \<and> (\<forall>zs. zombieq s zs \<longrightarrow> zombieq s' zs)"

lemma cond_enter_ok:
  assumes inv: "sched_inv s rq" and me: "state (thr s me) = ST_ST_RUNNING" "idle_thread s \<noteq> Some me"
    and q: "condq s c ws" "me \<notin> set ws"
  obtains s' where "cond_enter c timeout me s = Some s'" and "sched_inv s' rq" and "condq s' c (ws @ [me])"
    and "same_other_waitqs (CondQ c) me s s'" and "same_globals s s'"
    and "sleepers (heap s') = (if timeout = ST_UTIME_NO_TIMEOUT then sleepers (heap s) else insert me (sleepers (heap s)))"
    and "timeout \<noteq> ST_UTIME_NO_TIMEOUT \<longrightarrow> due (heap s') = (due (heap s))(me := last_clock s + timeout)"
    and "\<forall>u. u \<noteq> me \<longrightarrow> thr s' u = thr s u" and "state (thr s' me) = ST_ST_COND_WAIT"
    and "\<forall>f. f = ST_FL_TIMEDOUT \<or> f = ST_FL_INTERRUPT \<longrightarrow> has_flag s' me f = has_flag s me f"
proof -
  define s0 where "s0 = s\<lparr>links := ST_APPEND_LINK (WaitLinks me) (CondQ c) (links s)\<rparr>"
  have qs: "waitq s (CondQ c) ws" "is_wait_head (CondQ c)" using q(1) by (simp_all add: waitq_simps)
  note w = waitq_add [OF qs q(2) s0_def, unfolded waitq_simps]
  have i0: "sched_inv s0 rq" unfolding s0_def
    by (rule sched_inv_links [OF inv]) (use w(2) sched_invD(1) [OF inv] s0_def in simp)
  have f0: "heap s0 = heap s" "thr s0 = thr s" "idle_thread s0 = idle_thread s" "last_clock s0 = last_clock s"
    "same_globals s s0" by (simp_all add: s0_def same_globals_def)
  have o0: "same_other_waitqs (CondQ c) me s s0" using w(3-5) by (auto simp: same_other_waitqs_def)
  have e: "cond_enter c timeout me s = (if timeout \<noteq> ST_UTIME_NO_TIMEOUT
      then st_add_sleep_q me timeout (set_state me ST_ST_COND_WAIT s0) else Some (set_state me ST_ST_COND_WAIT s0))"
    by (simp add: cond_enter_def s0_def Let_def set_state_links) (simp add: set_state_def)
  show thesis
  proof (cases "timeout = ST_UTIME_NO_TIMEOUT")
    case True
    have i: "sched_inv (set_state me ST_ST_COND_WAIT s0) rq"
      by (rule set_state_inv [OF i0]) (use me f0 in simp_all)
    show thesis
      by (rule that [of "set_state me ST_ST_COND_WAIT s0", OF _ i])
        (use True e w(1) f0 o0 in \<open>simp_all add: thr_upd_defs same_globals_def same_other_waitqs_def waitq_def q_defs\<close>)
  next
    case False
    obtain s' where s': "st_add_sleep_q me timeout (set_state me ST_ST_COND_WAIT s0) = Some s'" "sched_inv s' rq"
      "sleepers (heap s') = insert me (sleepers (heap s0))"
      "due (heap s') = (due (heap s0))(me := last_clock s0 + timeout)"
      "thr s' = (thr s0)(me := (thr s0 me)\<lparr>state := ST_ST_COND_WAIT, flags := flag_set (flags (thr s0 me)) ST_FL_ON_SLEEPQ\<rparr>)"
      "links s' = links s0" "same_globals s0 s'"
      by (rule begin_sleep [OF i0, of me ST_ST_COND_WAIT timeout]) (use me f0 in simp_all)
    have k: "same_other_waitqs (CondQ c) me s s'" "condq s' c (ws @ [me])"
      using o0 w(1) by (simp_all add: same_other_waitqs_def waitq_def q_defs s'(6))
    show thesis
      by (rule that [of s', OF _ s'(2) k(2,1)])
        (use False e s' f0 in \<open>auto simp: same_trans(1) [OF f0(5) s'(7)] has_flag_def flag_simps\<close>)
  qed
qed

lemma mutex_enter_ok:
  assumes inv: "sched_inv s rq" and me: "state (thr s me) = ST_ST_RUNNING" "idle_thread s \<noteq> Some me"
    and q: "mutexq s m ws" "me \<notin> set ws"
  shows "sched_inv (mutex_enter m me s) rq" and "mutexq (mutex_enter m me s) m (ws @ [me])"
    and "same_other_waitqs (MutexQ m) me s (mutex_enter m me s)" and "same_globals s (mutex_enter m me s)"
    and "heap (mutex_enter m me s) = heap s"
    and "thr (mutex_enter m me s) = (thr s)(me := (thr s me)\<lparr>state := ST_ST_LOCK_WAIT\<rparr>)"
proof -
  define s0 where "s0 = s\<lparr>links := ST_APPEND_LINK (WaitLinks me) (MutexQ m) (links s)\<rparr>"
  have qs: "waitq s (MutexQ m) ws" "is_wait_head (MutexQ m)" using q(1) by (simp_all add: waitq_simps)
  note w = waitq_add [OF qs q(2) s0_def, unfolded waitq_simps]
  have i0: "sched_inv s0 rq" unfolding s0_def
    by (rule sched_inv_links [OF inv]) (use w(2) sched_invD(1) [OF inv] s0_def in simp)
  have e: "mutex_enter m me s = set_state me ST_ST_LOCK_WAIT s0"
    by (simp add: mutex_enter_def s0_def Let_def set_state_links) (simp add: set_state_def)
  show "sched_inv (mutex_enter m me s) rq" unfolding e
    by (rule set_state_inv [OF i0]) (use me in \<open>simp_all add: s0_def\<close>)
  have l: "links (mutex_enter m me s) = links s0" by (simp add: e set_state_def)
  show "mutexq (mutex_enter m me s) m (ws @ [me])" using w(1) by (simp add: q_defs l)
  show "same_other_waitqs (MutexQ m) me s (mutex_enter m me s)"
    using w(3-5) by (simp add: same_other_waitqs_def waitq_def q_defs l)
  show "same_globals s (mutex_enter m me s)" "heap (mutex_enter m me s) = heap s"
    "thr (mutex_enter m me s) = (thr s)(me := (thr s me)\<lparr>state := ST_ST_LOCK_WAIT\<rparr>)"
    by (simp_all add: e s0_def set_state_def same_globals_def)
qed

lemma cond_leave_ok:
  assumes inv: "sched_inv s rq" and q: "condq s c ws" "me \<in> set ws"
  obtains s' where "cond_leave me s = (if has_flag s me ST_FL_INTERRUPT then Inl EINTR
        else if has_flag s me ST_FL_TIMEDOUT then Inl ETIME else Inr (), s')"
    and "sched_inv s' rq" and "condq s' c (remove1 me ws)" and "same_other_waitqs (CondQ c) me s s'"
    and "same_globals s s'" and "heap s' = heap s" and "\<forall>u. u \<noteq> me \<longrightarrow> thr s' u = thr s u"
    and "state (thr s' me) = state (thr s me)" and "\<not> has_flag s' me ST_FL_INTERRUPT"
    and "\<not> has_flag s' me ST_FL_TIMEDOUT"
proof -
  define s0 where "s0 = s\<lparr>links := ST_REMOVE_LINK (WaitLinks me) (links s)\<rparr>"
  have qs: "waitq s (CondQ c) ws" "is_wait_head (CondQ c)" using q(1) by (simp_all add: waitq_simps)
  note w = waitq_del [OF qs q(2) s0_def, unfolded waitq_simps]
  have i0: "sched_inv s0 rq" unfolding s0_def
    by (rule sched_inv_links [OF inv]) (use w(2) sched_invD(1) [OF inv] s0_def in simp)
  define s1 where "s1 = (if has_flag s0 me ST_FL_TIMEDOUT then clr_flags me ST_FL_TIMEDOUT s0 else s0)"
  define s2 where "s2 = (if has_flag s1 me ST_FL_INTERRUPT then clr_flags me ST_FL_INTERRUPT s1 else s1)"
  have i2: "sched_inv s2 rq" using sched_inv_or_flags(3,4) i0 by (simp add: s2_def s1_def)
  have e: "cond_leave me s = (if has_flag s me ST_FL_INTERRUPT then Inl EINTR
        else if has_flag s me ST_FL_TIMEDOUT then Inl ETIME else Inr (), s2)"
    by (auto simp: cond_leave_def Let_def s2_def s1_def s0_def thr_upd_defs flag_simps)
  have l: "links s2 = links s0" by (simp add: s2_def s1_def clr_flags_def)
  have k: "condq s2 c (remove1 me ws)" "same_other_waitqs (CondQ c) me s s2"
    using w(1,3-5) by (simp_all add: same_other_waitqs_def waitq_def q_defs l)
  have f: "same_globals s s2" "heap s2 = heap s" "\<forall>u. u \<noteq> me \<longrightarrow> thr s2 u = thr s u"
    "state (thr s2 me) = state (thr s me)"
    by (simp_all add: s2_def s1_def s0_def thr_upd_defs same_globals_def)
  have g: "\<not> has_flag s2 me ST_FL_INTERRUPT" "\<not> has_flag s2 me ST_FL_TIMEDOUT"
    by (auto simp: s2_def s1_def thr_upd_defs flag_simps)
  show thesis by (rule that [OF e i2 k f g])
qed

lemma mutex_leave_ok:
  assumes inv: "sched_inv s rq" and q: "mutexq s m ws" "me \<in> set ws"
  obtains s' where "mutex_leave m me s =
      (if has_flag s me ST_FL_INTERRUPT \<and> mutex_owner s m \<noteq> Some me then Inl EINTR else Inr (), s')"
    and "sched_inv s' rq" and "mutexq s' m (remove1 me ws)" and "same_other_waitqs (MutexQ m) me s s'"
    and "same_globals s s'" and "heap s' = heap s" and "\<forall>u. u \<noteq> me \<longrightarrow> thr s' u = thr s u"
    and "state (thr s' me) = state (thr s me)"
proof -
  define s0 where "s0 = s\<lparr>links := ST_REMOVE_LINK (WaitLinks me) (links s)\<rparr>"
  have qs: "waitq s (MutexQ m) ws" "is_wait_head (MutexQ m)" using q(1) by (simp_all add: waitq_simps)
  note w = waitq_del [OF qs q(2) s0_def, unfolded waitq_simps]
  have i0: "sched_inv s0 rq" unfolding s0_def
    by (rule sched_inv_links [OF inv]) (use w(2) sched_invD(1) [OF inv] s0_def in simp)
  define s2 where "s2 = (if has_flag s me ST_FL_INTERRUPT \<and> mutex_owner s m \<noteq> Some me
    then clr_flags me ST_FL_INTERRUPT s0 else s0)"
  have i2: "sched_inv s2 rq" using sched_inv_or_flags(3) i0 by (simp add: s2_def)
  have e: "mutex_leave m me s =
      (if has_flag s me ST_FL_INTERRUPT \<and> mutex_owner s m \<noteq> Some me then Inl EINTR else Inr (), s2)"
    by (auto simp: mutex_leave_def Let_def s2_def s0_def has_flag_def)
  have l: "links s2 = links s0" by (simp add: s2_def clr_flags_def)
  have k: "mutexq s2 m (remove1 me ws)" "same_other_waitqs (MutexQ m) me s s2"
    using w(1,3-5) by (simp_all add: same_other_waitqs_def waitq_def q_defs l)
  have f: "same_globals s s2" "heap s2 = heap s" "\<forall>u. u \<noteq> me \<longrightarrow> thr s2 u = thr s u"
    "state (thr s2 me) = state (thr s me)"
    by (simp_all add: s2_def s0_def thr_upd_defs same_globals_def)
  show thesis by (rule that [OF e i2 k f])
qed

section \<open>Unlocking\<close>

definition lock_waiter :: "st \<Rightarrow> tid list \<Rightarrow> tid option" where
  "lock_waiter s ws = find (\<lambda>t. state (thr s t) = ST_ST_LOCK_WAIT) ws"

definition hand_over :: "mid \<Rightarrow> tid option \<Rightarrow> st \<Rightarrow> st" where
  "hand_over m next s =
    (let s = s\<lparr>mutex_owner := (mutex_owner s)(m := next)\<rparr>
     in case next of None \<Rightarrow> s | Some t \<Rightarrow> make_runnable t s)"

lemma unlock_loop_ok:
  assumes "mutexq s m (us @ ws)"
  shows "mutex_unlock_loop m (hd (map WaitLinks ws @ [MutexQ m])) s = Some (hand_over m (lock_waiter s ws) s)"
  using assms
proof (induction ws arbitrary: us)
  case Nil
  then show ?case by (subst mutex_unlock_loop.simps) (simp add: lock_waiter_def hand_over_def)
next
  case (Cons t ws)
  have "lnext (links s) (WaitLinks t) = Some (hd (map WaitLinks ws @ [MutexQ m]))"
    using waitq_next Cons.prems by (metis waitq_simps(2))
  then show ?case using Cons.IH [of "us @ [t]"] Cons.prems
    by (subst mutex_unlock_loop.simps) (simp add: lock_waiter_def hand_over_def Let_def)
qed

lemma st_mutex_unlock_eq:
  assumes "mutexq s m ws"
  shows "st_mutex_unlock m s = Some (if mutex_owner s m = this_thread s
    then (Inr (), hand_over m (lock_waiter s ws) s) else (Inl EPERM, s))"
  using unlock_loop_ok [of s m "[]" ws] assms waitq_first [of s "MutexQ m" ws]
  by (simp add: st_mutex_unlock_def waitq_simps)

lemma hand_over_ok:
  assumes inv: "sched_inv s rq" and n: "\<forall>t. next = Some t \<longrightarrow> state (thr s t) = ST_ST_LOCK_WAIT"
  shows "sched_inv (hand_over m next s) (rq @ (case next of None \<Rightarrow> [] | Some t \<Rightarrow> [t]))"
    and "same_waitqs s (hand_over m next s)" and "mutex_owner (hand_over m next s) = (mutex_owner s)(m := next)"
    and "thr (hand_over m next s) = (case next of None \<Rightarrow> thr s
           | Some t \<Rightarrow> (thr s)(t := (thr s t)\<lparr>state := ST_ST_RUNNABLE\<rparr>))"
    and "heap (hand_over m next s) = heap s" and "this_thread (hand_over m next s) = this_thread s"
    and "idle_thread (hand_over m next s) = idle_thread s"
proof -
  define s0 where "s0 = s\<lparr>mutex_owner := (mutex_owner s)(m := next)\<rparr>"
  have f0: "links s0 = links s" "heap s0 = heap s" "thr s0 = thr s" "idle_thread s0 = idle_thread s"
    "this_thread s0 = this_thread s" "mutex_owner s0 = (mutex_owner s)(m := next)" by (simp_all add: s0_def)
  have i0: "sched_inv s0 rq" by (rule sched_inv_cong [OF inv]) (simp_all add: f0 has_flag_def)
  have w0: "same_waitqs s s0" by (rule same_waitqs_links [OF f0(1)]) simp
  have h: "hand_over m next s = (case next of None \<Rightarrow> s0 | Some t \<Rightarrow> make_runnable t s0)"
    unfolding hand_over_def s0_def Let_def ..
  show "sched_inv (hand_over m next s) (rq @ (case next of None \<Rightarrow> [] | Some t \<Rightarrow> [t]))"
  proof (cases "next")
    case (Some t)
    have "state (thr s t) = ST_ST_LOCK_WAIT" using n Some by simp
    then have "t \<notin> sleepers (heap s0)" "state (thr s0 t) \<noteq> ST_ST_RUNNABLE" "idle_thread s0 \<noteq> Some t"
      using sched_invD(5) [OF inv, of t] sched_invD(8) [OF inv, of t] by (auto simp: f0)
    then have "sched_inv (make_runnable t s0) (rq @ [t])" by (rule make_runnable_ok [OF i0])
    then show ?thesis unfolding h using Some by simp
  qed (use i0 h in simp)
  show "same_waitqs s (hand_over m next s)"
    using w0 same_trans(2) [OF w0] make_runnable_frame(2) [OF i0] by (simp add: h split: option.splits)
  have "mutex_owner (make_runnable t s0) = mutex_owner s0" "this_thread (make_runnable t s0) = this_thread s0"
    "idle_thread (make_runnable t s0) = idle_thread s0" for t
    using make_runnable_frame(1) [OF i0, of t] by (simp_all add: same_globals_def)
  then show "mutex_owner (hand_over m next s) = (mutex_owner s)(m := next)"
    "thr (hand_over m next s) = (case next of None \<Rightarrow> thr s
           | Some t \<Rightarrow> (thr s)(t := (thr s t)\<lparr>state := ST_ST_RUNNABLE\<rparr>))"
    "heap (hand_over m next s) = heap s" "this_thread (hand_over m next s) = this_thread s"
    "idle_thread (hand_over m next s) = idle_thread s"
    by (simp_all add: h f0 split: option.splits)
qed

section \<open>Properties\<close>

text \<open>
  \<open>st_cond_signal\<close> always returns. It wakes the thread that has waited longest among those still
  in the condition wait, if there is one: that thread leaves the sleep queue, becomes runnable and
  goes to the back of the run queue; no other thread changes. The wait queue itself is unchanged,
  since a woken thread unlinks itself when it runs.
\<close>

theorem st_cond_signal_fifo:
  assumes "sched_inv s rq" and "condq s c ws"
  shows "\<exists>s'. st_cond_signal c s = Some s' \<and> condq s' c ws \<and>
    (case cond_waiters s ws of
       [] \<Rightarrow> sched_inv s' rq \<and> thr s' = thr s \<and> sleepers (heap s') = sleepers (heap s)
     | t # _ \<Rightarrow> sched_inv s' (rq @ [t]) \<and> state (thr s' t) = ST_ST_RUNNABLE \<and>
         (\<forall>u. u \<noteq> t \<longrightarrow> thr s' u = thr s u) \<and> sleepers (heap s') = sleepers (heap s) - {t})"
proof -
  obtain s' where "st_cond_signal c s = Some s'" "sched_inv s' (rq @ to_wake False (cond_waiters s ws))"
    "sleepers (heap s') = sleepers (heap s) - set (to_wake False (cond_waiters s ws))"
    "thr s' = wake_all (set (to_wake False (cond_waiters s ws))) s" "same_waitqs s s'"
    using st_cond_signal_impl_ok [OF assms, of False] by (auto simp: st_cond_signal_def)
  then show ?thesis using assms(2)
    by (auto simp: to_wake_def wake_all_def same_waitqs_def fun_eq_iff split: list.splits)
qed

theorem st_cond_signal_fifo_witness:
  "sched_inv demo_vp [4] \<and> condq demo_vp 0 [1, 6] \<and>
   (\<exists>s'. st_cond_signal 0 demo_vp = Some s' \<and> sched_inv s' [4, 1] \<and> sleepers (heap s') = {2, 3})"
proof -
  have "cond_waiters demo_vp [1, 6] = [1, 6]" by (simp add: cond_waiters_def demo_fields demo_thr_def)
  moreover have "{1, 2, 3} - {1} = {2, 3 :: nat}" by auto
  ultimately show ?thesis
    using st_cond_signal_fifo [OF demo_inv demo_queues(2)] demo_inv demo_queues(2)
    by (auto simp: demo_fields demo_sleepers)
qed

text \<open>
  \<open>st_cond_broadcast\<close> always returns and wakes exactly the threads in the condition wait, all of
  them, in the order in which they wait; every other thread keeps its state.
\<close>

theorem st_cond_broadcast_all:
  assumes "sched_inv s rq" and "condq s c ws"
  shows "\<exists>s'. st_cond_broadcast c s = Some s' \<and> condq s' c ws \<and> sched_inv s' (rq @ cond_waiters s ws) \<and>
    sleepers (heap s') = sleepers (heap s) - set (cond_waiters s ws) \<and>
    (\<forall>t \<in> set ws. state (thr s' t) \<noteq> ST_ST_COND_WAIT) \<and>
    (\<forall>u. u \<notin> set (cond_waiters s ws) \<longrightarrow> thr s' u = thr s u)"
proof -
  obtain s' where r: "st_cond_broadcast c s = Some s'" "sched_inv s' (rq @ cond_waiters s ws)"
    "sleepers (heap s') = sleepers (heap s) - set (cond_waiters s ws)"
    "thr s' = wake_all (set (cond_waiters s ws)) s" "same_waitqs s s'"
    using st_cond_signal_impl_ok [OF assms, of True] by (auto simp: st_cond_broadcast_def to_wake_def)
  have "state (thr s' t) \<noteq> ST_ST_COND_WAIT" if "t \<in> set ws" for t
    using that by (simp add: r(4) wake_all_def cond_waiters_def)
  then show ?thesis using r assms(2) by (auto simp: wake_all_def same_waitqs_def)
qed

theorem st_cond_broadcast_all_witness:
  "sched_inv demo_vp [4] \<and> condq demo_vp 0 [1, 6] \<and>
   (\<exists>s'. st_cond_broadcast 0 demo_vp = Some s' \<and> sched_inv s' [4, 1, 6] \<and>
     state (thr s' 1) \<noteq> ST_ST_COND_WAIT \<and> state (thr s' 6) \<noteq> ST_ST_COND_WAIT)"
proof -
  have "cond_waiters demo_vp [1, 6] = [1, 6]" by (simp add: cond_waiters_def demo_fields demo_thr_def)
  then show ?thesis
    using st_cond_broadcast_all [OF demo_inv demo_queues(2)] demo_inv demo_queues(2) by auto
qed

text \<open>How a blocking call continues once the entry part is done.\<close>

lemma switch_away_eq: "st_vp_schedule s = Some s1 \<Longrightarrow> switch_away others s = others s1"
  by (simp add: switch_away_def)

lemma schedule_returns:
  assumes "sched_inv s rq"
  obtains s1 rq1 where "st_vp_schedule s = Some s1" and "sched_inv s1 rq1" and "heap s1 = heap s"
    and "last_clock s1 = last_clock s" and "same_waitqs s s1" and "idle_thread s1 = idle_thread s"
    and "\<forall>u. u \<notin> set rq \<longrightarrow> idle_thread s \<noteq> Some u \<longrightarrow> thr s1 u = thr s u"
    and "\<forall>u. flags (thr s1 u) = flags (thr s u)"
proof -
  obtain nx rq1 where p: "sched_pick (this_thread s) (idle_thread s) rq = (nx, rq1)" by fastforce
  obtain s1 where s1: "st_vp_schedule s = Some s1" "sched_inv s1 rq1" "resumed nx s s1" "heap s1 = heap s"
    "idle_thread s1 = idle_thread s" "last_clock s1 = last_clock s" "same_waitqs s s1"
    using st_vp_schedule_ok [OF assms p] by blast
  have "nx = Some u \<Longrightarrow> u \<in> set rq \<or> idle_thread s = Some u" for u
    using p by (cases rq) (auto split: if_splits)
  then have "\<forall>u. u \<notin> set rq \<longrightarrow> idle_thread s \<noteq> Some u \<longrightarrow> thr s1 u = thr s u"
    using s1(3) by (auto simp: resumed_def split: option.splits)
  moreover have "\<forall>u. flags (thr s1 u) = flags (thr s u)"
    using s1(3) by (auto simp: resumed_def split: option.splits)
  ultimately show thesis using that s1 by blast
qed

lemma timedwait_ok:
  assumes "sched_inv s rq" and "this_thread s = Some me" and "state (thr s me) = ST_ST_RUNNING"
    and "idle_thread s \<noteq> Some me" and "condq s c ws" and "me \<notin> set ws" and "\<not> has_flag s me ST_FL_INTERRUPT"
  shows "\<exists>s1 rq1. sched_inv s1 rq1 \<and> condq s1 c (ws @ [me]) \<and> state (thr s1 me) = ST_ST_COND_WAIT \<and>
    (me \<in> sleepers (heap s1) \<longleftrightarrow> timeout \<noteq> ST_UTIME_NO_TIMEOUT) \<and>
    (timeout \<noteq> ST_UTIME_NO_TIMEOUT \<longrightarrow> due (heap s1) me = last_clock s + timeout) \<and>
    \<not> has_flag s1 me ST_FL_INTERRUPT \<and> (has_flag s1 me ST_FL_TIMEDOUT \<longleftrightarrow> has_flag s me ST_FL_TIMEDOUT) \<and>
    (others s1 = None \<longrightarrow> st_cond_timedwait c timeout others s = None) \<and>
    (\<forall>s2 rq2 ws2. others s1 = Some s2 \<longrightarrow> sched_inv s2 rq2 \<longrightarrow> condq s2 c ws2 \<longrightarrow> me \<in> set ws2 \<longrightarrow>
       (\<exists>s3. st_cond_timedwait c timeout others s =
           Some (if has_flag s2 me ST_FL_INTERRUPT then Inl EINTR
                 else if has_flag s2 me ST_FL_TIMEDOUT then Inl ETIME else Inr (), s3) \<and>
         sched_inv s3 rq2 \<and> condq s3 c (remove1 me ws2) \<and>
         \<not> has_flag s3 me ST_FL_INTERRUPT \<and> \<not> has_flag s3 me ST_FL_TIMEDOUT))"
proof (rule cond_enter_ok [OF assms(1,3,4,5,6), of timeout])
  fix s0
  assume s0: "cond_enter c timeout me s = Some s0" "sched_inv s0 rq" "condq s0 c (ws @ [me])"
    "same_globals s s0"
    "sleepers (heap s0) = (if timeout = ST_UTIME_NO_TIMEOUT then sleepers (heap s) else insert me (sleepers (heap s)))"
    "state (thr s0 me) = ST_ST_COND_WAIT"
    "timeout \<noteq> ST_UTIME_NO_TIMEOUT \<longrightarrow> due (heap s0) = (due (heap s))(me := last_clock s + timeout)"
    "\<forall>f. f = ST_FL_TIMEDOUT \<or> f = ST_FL_INTERRUPT \<longrightarrow> has_flag s0 me f = has_flag s me f"
  obtain s1 rq1 where s1: "st_vp_schedule s0 = Some s1" "sched_inv s1 rq1" "heap s1 = heap s0"
    "same_waitqs s0 s1" "\<forall>u. u \<notin> set rq \<longrightarrow> idle_thread s0 \<noteq> Some u \<longrightarrow> thr s1 u = thr s0 u"
    by (rule schedule_returns [OF s0(2)])
  have n: "me \<notin> set rq" "me \<notin> sleepers (heap s)"
    using sched_invD(6) [OF assms(1), of me] sched_invD(5) [OF assms(1), of me] assms(3) by auto
  have t1: "thr s1 me = thr s0 me" using s1(5) n(1) s0(4) assms(4) by (simp add: same_globals_def)
  have e: "st_cond_timedwait c timeout others s = map_option (cond_leave me) (others s1)"
    using assms(2,7) s0(1) switch_away_eq [OF s1(1)] by (simp add: st_cond_timedwait_def)
  have "\<exists>s3. st_cond_timedwait c timeout others s =
           Some (if has_flag s2 me ST_FL_INTERRUPT then Inl EINTR
                 else if has_flag s2 me ST_FL_TIMEDOUT then Inl ETIME else Inr (), s3) \<and>
         sched_inv s3 rq2 \<and> condq s3 c (remove1 me ws2) \<and>
         \<not> has_flag s3 me ST_FL_INTERRUPT \<and> \<not> has_flag s3 me ST_FL_TIMEDOUT"
    if o: "others s1 = Some s2" "sched_inv s2 rq2" "condq s2 c ws2" "me \<in> set ws2" for s2 rq2 ws2
    by (rule cond_leave_ok [OF o(2-4)]) (use e o(1) in simp)
  then show ?thesis
    using s1(2,3,4) s0(3,5-8) assms(7) n(2) t1 e by (intro exI [of _ s1] exI [of _ rq1]) (auto simp: same_waitqs_def has_flag_def)
qed

text \<open>
  \<open>st_cond_timedwait\<close> by the running thread. Without a pending interrupt the caller is appended
  to the wait queue and to the sleep queue exactly if a timeout is given, and another thread is
  resumed. When the caller runs again it unlinks itself, and it returns \<open>EINTR\<close> if it was
  interrupted, \<open>ETIME\<close> if it timed out, and 0 otherwise, with both flags cleared.
\<close>

theorem st_cond_timedwait_outcome:
  assumes "sched_inv s rq" and "this_thread s = Some me" and "state (thr s me) = ST_ST_RUNNING"
    and "idle_thread s \<noteq> Some me" and "condq s c ws" and "me \<notin> set ws" and "\<not> has_flag s me ST_FL_INTERRUPT"
  shows "\<exists>s1 rq1. sched_inv s1 rq1 \<and> condq s1 c (ws @ [me]) \<and> state (thr s1 me) = ST_ST_COND_WAIT \<and>
    (me \<in> sleepers (heap s1) \<longleftrightarrow> timeout \<noteq> ST_UTIME_NO_TIMEOUT) \<and>
    (timeout \<noteq> ST_UTIME_NO_TIMEOUT \<longrightarrow> due (heap s1) me = last_clock s + timeout) \<and>
    \<not> has_flag s1 me ST_FL_INTERRUPT \<and> (has_flag s1 me ST_FL_TIMEDOUT \<longleftrightarrow> has_flag s me ST_FL_TIMEDOUT) \<and>
    (others s1 = None \<longrightarrow> st_cond_timedwait c timeout others s = None) \<and>
    (\<forall>s2 rq2 ws2. others s1 = Some s2 \<longrightarrow> sched_inv s2 rq2 \<longrightarrow> condq s2 c ws2 \<longrightarrow> me \<in> set ws2 \<longrightarrow>
       (\<exists>s3. st_cond_timedwait c timeout others s =
           Some (if has_flag s2 me ST_FL_INTERRUPT then Inl EINTR
                 else if has_flag s2 me ST_FL_TIMEDOUT then Inl ETIME else Inr (), s3) \<and>
         sched_inv s3 rq2 \<and> condq s3 c (remove1 me ws2) \<and>
         \<not> has_flag s3 me ST_FL_INTERRUPT \<and> \<not> has_flag s3 me ST_FL_TIMEDOUT))"
  by (rule timedwait_ok [OF assms])

theorem st_cond_timedwait_outcome_witness:
  "sched_inv demo_vp [4] \<and> condq demo_vp 0 [1, 6] \<and>
   (\<exists>s3. st_cond_timedwait 0 100 Some demo_vp = Some (Inr (), s3) \<and> condq s3 0 [1, 6])"
proof -
  have f: "state (thr demo_vp 5) = ST_ST_RUNNING" "\<not> has_flag demo_vp 5 ST_FL_INTERRUPT"
    "\<not> has_flag demo_vp 5 ST_FL_TIMEDOUT"
    by (simp_all add: demo_fields demo_thr_def has_flag_def)
  obtain s1 rq1 where s1: "sched_inv s1 rq1" "condq s1 0 ([1, 6] @ [5])" "\<not> has_flag s1 5 ST_FL_INTERRUPT"
    "\<not> has_flag s1 5 ST_FL_TIMEDOUT"
    "\<forall>s2 rq2 ws2. Some s1 = Some s2 \<longrightarrow> sched_inv s2 rq2 \<longrightarrow> condq s2 0 ws2 \<longrightarrow> 5 \<in> set ws2 \<longrightarrow>
       (\<exists>s3. st_cond_timedwait 0 100 Some demo_vp =
           Some (if has_flag s2 5 ST_FL_INTERRUPT then Inl EINTR
                 else if has_flag s2 5 ST_FL_TIMEDOUT then Inl ETIME else Inr (), s3) \<and>
         sched_inv s3 rq2 \<and> condq s3 0 (remove1 5 ws2) \<and>
         \<not> has_flag s3 5 ST_FL_INTERRUPT \<and> \<not> has_flag s3 5 ST_FL_TIMEDOUT)"
    using st_cond_timedwait_outcome [OF demo_inv demo_fields(5) f(1) _ demo_queues(2) _ f(2), of 100 Some] f(3)
    by (auto simp: demo_fields)
  show ?thesis using s1(5) [rule_format, OF refl s1(1,2)] s1(3,4) demo_inv demo_queues(2) by auto
qed

text \<open>
  Timeout of a condition wait. A thread that waits with a timeout and is not signalled is woken by
  the clock check at or after the deadline, and its \<open>st_cond_timedwait\<close> returns \<open>ETIME\<close> with the wait
  queue as it was before the call.
\<close>

theorem st_cond_timedwait_times_out:
  assumes "sched_inv s rq" and "this_thread s = Some me" and "state (thr s me) = ST_ST_RUNNING"
    and "idle_thread s \<noteq> Some me" and "condq s c ws" and "me \<notin> set ws" and "\<not> has_flag s me ST_FL_INTERRUPT"
    and "timeout \<noteq> ST_UTIME_NO_TIMEOUT" and "last_clock s + timeout \<le> now"
  shows "\<exists>s3. st_cond_timedwait c timeout (st_vp_check_clock now wall) s = Some (Inl ETIME, s3) \<and>
    condq s3 c ws \<and> me \<notin> sleepers (heap s3)"
proof -
  obtain s1 rq1 where s1: "sched_inv s1 rq1" "condq s1 c (ws @ [me])" "state (thr s1 me) = ST_ST_COND_WAIT"
    "me \<in> sleepers (heap s1)" "due (heap s1) me = last_clock s + timeout" "\<not> has_flag s1 me ST_FL_INTERRUPT"
    and fin: "\<forall>s2 rq2 ws2. st_vp_check_clock now wall s1 = Some s2 \<longrightarrow> sched_inv s2 rq2 \<longrightarrow> condq s2 c ws2 \<longrightarrow>
       me \<in> set ws2 \<longrightarrow>
       (\<exists>s3. st_cond_timedwait c timeout (st_vp_check_clock now wall) s =
           Some (if has_flag s2 me ST_FL_INTERRUPT then Inl EINTR
                 else if has_flag s2 me ST_FL_TIMEDOUT then Inl ETIME else Inr (), s3) \<and>
         sched_inv s3 rq2 \<and> condq s3 c (remove1 me ws2))"
    using timedwait_ok [OF assms(1-7), of timeout "st_vp_check_clock now wall"] assms(8) by blast
  obtain s2 ks where s2: "st_vp_check_clock now wall s1 = Some s2" "sched_inv s2 (rq1 @ ks)"
    "set ks = {t \<in> sleepers (heap s1). due (heap s1) t \<le> now}"
    "\<forall>u \<in> set ks. woken_by_clock (thr s1 u) (thr s2 u)" "same_waitqs s1 s2"
    using st_vp_check_clock_ok [OF s1(1), of now wall] by blast
  have me: "me \<in> set ks" using s1(4,5) assms(9) by (simp add: s2(3))
  then have fl: "has_flag s2 me ST_FL_TIMEDOUT" "\<not> has_flag s2 me ST_FL_INTERRUPT"
    using s2(4) s1(3,6) by (auto simp: woken_by_clock_def has_flag_def)
  have q2: "condq s2 c (ws @ [me])" using s2(5) s1(2) by (auto simp: same_waitqs_def)
  obtain s3 where s3: "st_cond_timedwait c timeout (st_vp_check_clock now wall) s = Some (Inl ETIME, s3)"
    "sched_inv s3 (rq1 @ ks)" "condq s3 c (remove1 me (ws @ [me]))"
    using fin [rule_format, OF s2(1,2) q2] fl by auto
  have "remove1 me (ws @ [me]) = ws" using assms(6) by (simp add: remove1_append)
  moreover have "me \<notin> sleepers (heap s3)"
    using sched_invD(5,6) [OF s3(2), of me] me by auto
  ultimately show ?thesis using s3(1,3) by auto
qed

theorem st_cond_timedwait_times_out_witness:
  "sched_inv demo_vp [4] \<and> condq demo_vp 0 [1, 6] \<and>
   (\<exists>s3. st_cond_timedwait 0 100 (st_vp_check_clock 105 0) demo_vp = Some (Inl ETIME, s3) \<and> condq s3 0 [1, 6])"
proof -
  have f: "state (thr demo_vp 5) = ST_ST_RUNNING" "\<not> has_flag demo_vp 5 ST_FL_INTERRUPT"
    by (simp_all add: demo_fields demo_thr_def has_flag_def)
  then show ?thesis
    using st_cond_timedwait_times_out [OF demo_inv demo_fields(5) f(1) _ demo_queues(2) _ f(2), of 100 105 0]
      demo_inv demo_queues(2) by (auto simp: demo_fields ST_UTIME_NO_TIMEOUT_def)
qed

text \<open>
  C8: \<open>st_mutex_unlock\<close> always returns. Only the owner may unlock (\<open>EPERM\<close> otherwise, nothing changed);
  the mutex passes directly to the thread that has waited longest among those still waiting for it,
  which becomes runnable at the back of the run queue, and is free only if nobody waits for it.
\<close>

theorem st_mutex_unlock_hands_over:
  assumes "sched_inv s rq" and "mutexq s m ws"
  shows "\<exists>r s'. st_mutex_unlock m s = Some (r, s') \<and> mutexq s' m ws \<and>
    (if mutex_owner s m \<noteq> this_thread s then r = Inl EPERM \<and> s' = s
     else r = Inr () \<and>
       (case filter (\<lambda>t. state (thr s t) = ST_ST_LOCK_WAIT) ws of
          [] \<Rightarrow> mutex_owner s' m = None \<and> sched_inv s' rq \<and> thr s' = thr s
        | t # _ \<Rightarrow> mutex_owner s' m = Some t \<and> sched_inv s' (rq @ [t]) \<and> state (thr s' t) = ST_ST_RUNNABLE \<and>
            (\<forall>u. u \<noteq> t \<longrightarrow> thr s' u = thr s u)))"
proof (cases "mutex_owner s m = this_thread s")
  case True
  define nx where "nx = lock_waiter s ws"
  have f: "nx = (case filter (\<lambda>t. state (thr s t) = ST_ST_LOCK_WAIT) ws of [] \<Rightarrow> None | t # _ \<Rightarrow> Some t)"
    unfolding nx_def lock_waiter_def by (induction ws) auto
  have "\<forall>t. nx = Some t \<longrightarrow> state (thr s t) = ST_ST_LOCK_WAIT"
    by (auto simp: nx_def lock_waiter_def find_Some_iff)
  note h = hand_over_ok [OF assms(1) this, of m]
  have q: "mutexq (hand_over m nx s) m ws" using h(2) assms(2) by (auto simp: same_waitqs_def)
  show ?thesis
    using st_mutex_unlock_eq [OF assms(2)] True h q f unfolding nx_def [symmetric] by (auto split: list.splits)
next
  case False
  then show ?thesis using st_mutex_unlock_eq [OF assms(2)] assms(2) by simp
qed

theorem st_mutex_unlock_hands_over_witness:
  "sched_inv demo_vp [4] \<and> mutexq demo_vp 0 [7] \<and>
   (\<exists>s'. st_mutex_unlock 0 demo_vp = Some (Inr (), s') \<and> mutex_owner s' 0 = Some 7 \<and> sched_inv s' [4, 7])"
proof -
  have "filter (\<lambda>t. state (thr demo_vp t) = ST_ST_LOCK_WAIT) [7] = [7]" by (simp add: demo_fields demo_thr_def)
  then show ?thesis using st_mutex_unlock_hands_over [OF demo_inv demo_queues(3)] demo_inv demo_queues(3)
    by (auto simp: demo_fields)
qed

text \<open>
  \<open>st_mutex_lock\<close> by the running thread, on every branch: a pending interrupt gives \<open>EINTR\<close> and is
  cleared; a free mutex is taken at once; locking one's own mutex gives \<open>EDEADLK\<close>; otherwise the
  caller is appended to the wait queue and another thread is resumed, and when the caller runs again
  it unlinks itself and returns 0 exactly if it was not interrupted or owns the mutex.
\<close>

theorem st_mutex_lock_outcome:
  assumes "sched_inv s rq" and "this_thread s = Some me" and "state (thr s me) = ST_ST_RUNNING"
    and "idle_thread s \<noteq> Some me" and "mutexq s m ws" and "me \<notin> set ws"
  shows "if has_flag s me ST_FL_INTERRUPT
     then st_mutex_lock m others s = Some (Inl EINTR, clr_flags me ST_FL_INTERRUPT s)
     else case mutex_owner s m of
       None \<Rightarrow> st_mutex_lock m others s = Some (Inr (), s\<lparr>mutex_owner := (mutex_owner s)(m := Some me)\<rparr>)
     | Some p \<Rightarrow> (if p = me then st_mutex_lock m others s = Some (Inl EDEADLK, s)
        else \<exists>s1 rq1. sched_inv s1 rq1 \<and> mutexq s1 m (ws @ [me]) \<and> state (thr s1 me) = ST_ST_LOCK_WAIT \<and>
          mutex_owner s1 = mutex_owner s \<and> heap s1 = heap s \<and>
          (others s1 = None \<longrightarrow> st_mutex_lock m others s = None) \<and>
          (\<forall>s2 rq2 ws2. others s1 = Some s2 \<longrightarrow> sched_inv s2 rq2 \<longrightarrow> mutexq s2 m ws2 \<longrightarrow> me \<in> set ws2 \<longrightarrow>
            (\<exists>s3. st_mutex_lock m others s =
                Some (if has_flag s2 me ST_FL_INTERRUPT \<and> mutex_owner s2 m \<noteq> Some me then Inl EINTR else Inr (), s3) \<and>
              mutexq s3 m (remove1 me ws2) \<and> mutex_owner s3 = mutex_owner s2 \<and> sched_inv s3 rq2)))"
proof (cases "\<not> has_flag s me ST_FL_INTERRUPT \<and> mutex_owner s m \<noteq> None \<and> mutex_owner s m \<noteq> Some me")
  case False
  then show ?thesis using assms(2) by (auto simp: st_mutex_lock_def split: option.splits)
next
  case True
  note en = mutex_enter_ok [OF assms(1,3,4,5,6)]
  obtain nx rq1 where p: "sched_pick (this_thread (mutex_enter m me s)) (idle_thread (mutex_enter m me s)) rq = (nx, rq1)"
    by fastforce
  obtain s1 where s1: "st_vp_schedule (mutex_enter m me s) = Some s1" "sched_inv s1 rq1" "resumed nx (mutex_enter m me s) s1"
    "heap s1 = heap s" "mutex_owner s1 = mutex_owner s" "same_waitqs (mutex_enter m me s) s1"
    using st_vp_schedule_ok [OF en(1) p] en(4,5) by (auto simp: same_globals_def)
  have "me \<notin> set rq" using sched_invD(6) [OF assms(1), of me] assms(3) by auto
  then have "nx \<noteq> Some me" using p assms(4) en(4) by (cases rq) (auto simp: same_globals_def split: if_splits)
  then have t1: "state (thr s1 me) = ST_ST_LOCK_WAIT"
    using s1(3) en(6) by (auto simp: resumed_def split: option.splits)
  have e: "st_mutex_lock m others s = map_option (mutex_leave m me) (others s1)"
    using True assms(2) switch_away_eq [OF s1(1)] by (auto simp: st_mutex_lock_def)
  have "\<exists>s3. st_mutex_lock m others s =
      Some (if has_flag s2 me ST_FL_INTERRUPT \<and> mutex_owner s2 m \<noteq> Some me then Inl EINTR else Inr (), s3) \<and>
      mutexq s3 m (remove1 me ws2) \<and> mutex_owner s3 = mutex_owner s2 \<and> sched_inv s3 rq2"
    if o: "others s1 = Some s2" "sched_inv s2 rq2" "mutexq s2 m ws2" "me \<in> set ws2" for s2 rq2 ws2
    by (rule mutex_leave_ok [OF o(2-4)]) (use e o(1) in \<open>simp add: same_globals_def\<close>)
  moreover have "mutexq s1 m (ws @ [me])" using s1(6) en(2) by (auto simp: same_waitqs_def)
  ultimately have "\<exists>s1 rq1. sched_inv s1 rq1 \<and> mutexq s1 m (ws @ [me]) \<and> state (thr s1 me) = ST_ST_LOCK_WAIT \<and>
          mutex_owner s1 = mutex_owner s \<and> heap s1 = heap s \<and>
          (others s1 = None \<longrightarrow> st_mutex_lock m others s = None) \<and>
          (\<forall>s2 rq2 ws2. others s1 = Some s2 \<longrightarrow> sched_inv s2 rq2 \<longrightarrow> mutexq s2 m ws2 \<longrightarrow> me \<in> set ws2 \<longrightarrow>
            (\<exists>s3. st_mutex_lock m others s =
                Some (if has_flag s2 me ST_FL_INTERRUPT \<and> mutex_owner s2 m \<noteq> Some me then Inl EINTR else Inr (), s3) \<and>
              mutexq s3 m (remove1 me ws2) \<and> mutex_owner s3 = mutex_owner s2 \<and> sched_inv s3 rq2))"
    using s1 t1 e by (intro exI [of _ s1] exI [of _ rq1]) simp
  moreover obtain p' where "mutex_owner s m = Some p'" "p' \<noteq> me" using True by auto
  ultimately show ?thesis using True by (simp only: if_False option.case simp_thms)
qed

theorem st_mutex_lock_outcome_witness:
  "sched_inv demo_vp [4] \<and> mutexq demo_vp 2 [] \<and>
   (\<exists>s3. st_mutex_lock 2 (\<lambda>s. Some (hand_over 2 (Some 5) s)) demo_vp = Some (Inr (), s3) \<and>
     mutex_owner s3 2 = Some 5 \<and> mutexq s3 2 [])"
proof -
  let ?o = "\<lambda>s. Some (hand_over 2 (Some 5) s)"
  have f: "state (thr demo_vp 5) = ST_ST_RUNNING" "\<not> has_flag demo_vp 5 ST_FL_INTERRUPT"
    by (simp_all add: demo_fields demo_thr_def has_flag_def)
  obtain s1 rq1 where s1: "sched_inv s1 rq1" "mutexq s1 2 [5]" "state (thr s1 5) = ST_ST_LOCK_WAIT"
    and fin: "\<forall>s2 rq2 ws2. ?o s1 = Some s2 \<longrightarrow> sched_inv s2 rq2 \<longrightarrow> mutexq s2 2 ws2 \<longrightarrow> 5 \<in> set ws2 \<longrightarrow>
       (\<exists>s3. st_mutex_lock 2 ?o demo_vp =
          Some (if has_flag s2 5 ST_FL_INTERRUPT \<and> mutex_owner s2 2 \<noteq> Some 5 then Inl EINTR else Inr (), s3) \<and>
          mutexq s3 2 (remove1 5 ws2) \<and> mutex_owner s3 = mutex_owner s2 \<and> sched_inv s3 rq2)"
    using st_mutex_lock_outcome [OF demo_inv demo_fields(5) f(1) _ demo_queues(6), of ?o] f(2)
    by (auto simp: demo_fields)
  have l: "\<forall>t. Some 5 = Some t \<longrightarrow> state (thr s1 t) = ST_ST_LOCK_WAIT" using s1(3) by simp
  note h = hand_over_ok [OF s1(1) l, of 2]
  have q: "mutexq (hand_over 2 (Some 5) s1) 2 [5]" using h(2) s1(2) by (auto simp: same_waitqs_def)
  show ?thesis using fin [rule_format, OF refl h(1) q] h(3) demo_inv demo_queues(6) by auto
qed

text \<open>\<open>st_usleep\<close> up to the point where it gives up the CPU.\<close>

lemma usleep_enter:
  assumes "sched_inv s rq" and "this_thread s = Some me" and "state (thr s me) = ST_ST_RUNNING"
    and "idle_thread s \<noteq> Some me" and "\<not> has_flag s me ST_FL_INTERRUPT"
  obtains s0 where "sched_inv s0 rq" and "same_globals s s0" and "links s0 = links s"
    and "st_usleep usecs others s = map_option (Pair (Inr ())) (switch_away others s0)"
    and "state (thr s0 me) = (if usecs = ST_UTIME_NO_TIMEOUT then ST_ST_SUSPENDED else ST_ST_SLEEPING)"
    and "\<forall>u. u \<noteq> me \<longrightarrow> thr s0 u = thr s u"
    and "if usecs = ST_UTIME_NO_TIMEOUT then me \<notin> sleepers (heap s0)
         else me \<in> sleepers (heap s0) \<and> due (heap s0) me = last_clock s + usecs"
proof (cases "usecs = ST_UTIME_NO_TIMEOUT")
  case True
  have n: "me \<notin> sleepers (heap s)" using sched_invD(5) [OF assms(1), of me] assms(3) by auto
  have i: "sched_inv (set_state me ST_ST_SUSPENDED s) rq"
    by (rule set_state_inv [OF assms(1,3)]) (use assms(4) in simp_all)
  show ?thesis
    by (rule that [OF i]) (use True assms(2,3,5) n in \<open>simp_all add: st_usleep_def\<close>,
      simp_all add: set_state_def same_globals_def)
next
  case fin: False
  obtain s' where s': "st_add_sleep_q me usecs (set_state me ST_ST_SLEEPING s) = Some s'" "sched_inv s' rq"
    "sleepers (heap s') = insert me (sleepers (heap s))"
    "due (heap s') = (due (heap s))(me := last_clock s + usecs)"
    "thr s' = (thr s)(me := (thr s me)\<lparr>state := ST_ST_SLEEPING, flags := flag_set (flags (thr s me)) ST_FL_ON_SLEEPQ\<rparr>)"
    "links s' = links s" "same_globals s s'"
    by (rule begin_sleep [OF assms(1,3,4), of ST_ST_SLEEPING usecs]) simp_all
  show ?thesis
    by (rule that [OF s'(2,7,6)]) (use fin assms(2,3,5) s' in \<open>simp_all add: st_usleep_def\<close>)
qed

text \<open>
  \<open>st_usleep\<close> by the running thread. A pending interrupt gives \<open>EINTR\<close> at once and is cleared. With
  a finite time the thread goes on the sleep queue; with \<open>ST_UTIME_NO_TIMEOUT\<close> it is suspended and is
  not on the sleep queue, so that no clock check wakes it. When the thread runs again the call
  returns 0 whatever happened: an interrupt that ended the sleep is not reported and stays pending.
\<close>

theorem st_usleep_outcome:
  assumes "sched_inv s rq" and "this_thread s = Some me" and "state (thr s me) = ST_ST_RUNNING"
    and "idle_thread s \<noteq> Some me"
  shows "if has_flag s me ST_FL_INTERRUPT
     then st_usleep usecs others s = Some (Inl EINTR, clr_flags me ST_FL_INTERRUPT s)
     else \<exists>s1 rq1. sched_inv s1 rq1 \<and> st_usleep usecs others s = map_option (Pair (Inr ())) (others s1) \<and>
       state (thr s1 me) = (if usecs = ST_UTIME_NO_TIMEOUT then ST_ST_SUSPENDED else ST_ST_SLEEPING) \<and>
       (if usecs = ST_UTIME_NO_TIMEOUT then me \<notin> sleepers (heap s1)
        else me \<in> sleepers (heap s1) \<and> due (heap s1) me = last_clock s + usecs)"
proof (cases "has_flag s me ST_FL_INTERRUPT")
  case True
  then show ?thesis using assms(2,3) by (simp add: st_usleep_def)
next
  case False
  have n: "me \<notin> set rq" using sched_invD(6) [OF assms(1), of me] assms(3) by auto
  obtain s0 where s0: "sched_inv s0 rq" "same_globals s s0" "links s0 = links s"
    "st_usleep usecs others s = map_option (Pair (Inr ())) (switch_away others s0)"
    "state (thr s0 me) = (if usecs = ST_UTIME_NO_TIMEOUT then ST_ST_SUSPENDED else ST_ST_SLEEPING)"
    "if usecs = ST_UTIME_NO_TIMEOUT then me \<notin> sleepers (heap s0)
     else me \<in> sleepers (heap s0) \<and> due (heap s0) me = last_clock s + usecs"
    by (rule usleep_enter [OF assms(1-4) False])
  obtain s1 rq1 where s1: "st_vp_schedule s0 = Some s1" "sched_inv s1 rq1" "heap s1 = heap s0"
    "\<forall>u. u \<notin> set rq \<longrightarrow> idle_thread s0 \<noteq> Some u \<longrightarrow> thr s1 u = thr s0 u"
    by (rule schedule_returns [OF s0(1)])
  have "thr s1 me = thr s0 me" using s1(4) n(1) s0(2) assms(4) by (simp add: same_globals_def)
  then show ?thesis
    using False s0(4-6) s1 switch_away_eq [OF s1(1)] by (auto intro!: exI [of _ s1] exI [of _ rq1])
qed

theorem st_usleep_outcome_witness:
  "sched_inv demo_vp [4] \<and>
   (\<exists>s1 rq1. sched_inv s1 rq1 \<and> st_usleep 100 Some demo_vp = Some (Inr (), s1) \<and> 5 \<in> sleepers (heap s1) \<and>
      due (heap s1) 5 = 105)"
proof -
  have f: "state (thr demo_vp 5) = ST_ST_RUNNING" "\<not> has_flag demo_vp 5 ST_FL_INTERRUPT"
    by (simp_all add: demo_fields demo_thr_def has_flag_def)
  show ?thesis
    using st_usleep_outcome [OF demo_inv demo_fields(5) f(1), of 100 Some] f(2) demo_inv
    by (auto simp: demo_fields ST_UTIME_NO_TIMEOUT_def)
qed

end
