(* ===== verification/Sync_Machine.thy ===== *)
theory Sync_Machine
  imports Sync
begin

text \<open>
  The threads of one virtual processor as a state machine. A configuration is the state of the VP and,
  for every thread, the place where it stands: in the application, in a sleep, or between the entry
  and the exit part of a wait on a condition variable or mutex. One step is one operation of the
  running thread up to the point where it gives up the CPU, the exit part of a wait, or an iteration
  of the idle thread. \<open>Q\<close> is the set of wait queues (condition variables and mutexes) that exist.
\<close>

section \<open>Steps\<close>

datatype place = App | Asleep | Waits node

type_synonym config = "st \<times> (tid \<Rightarrow> place)"

text \<open>The running thread is \<open>me\<close>, an application thread that stands at \<open>p\<close>.\<close>

definition runs :: "tid \<Rightarrow> place \<Rightarrow> config \<Rightarrow> bool" where
  "runs me p = (\<lambda>(s, pc). this_thread s = Some me \<and> idle_thread s \<noteq> Some me \<and> pc me = p)"

inductive vp_step :: "node set \<Rightarrow> config \<Rightarrow> config \<Rightarrow> bool" for Q :: "node set" where
  lock_now: "runs me App (s, pc) \<Longrightarrow> MutexQ m \<in> Q \<Longrightarrow>
    has_flag s me ST_FL_INTERRUPT \<or> mutex_owner s m = None \<or> mutex_owner s m = Some me \<Longrightarrow>
    st_mutex_lock m (\<lambda>_. None) s = Some (r, s') \<Longrightarrow> vp_step Q (s, pc) (s', pc)"
| lock_block: "runs me App (s, pc) \<Longrightarrow> MutexQ m \<in> Q \<Longrightarrow> \<not> has_flag s me ST_FL_INTERRUPT \<Longrightarrow>
    mutex_owner s m = Some p \<Longrightarrow> p \<noteq> me \<Longrightarrow> st_vp_schedule (mutex_enter m me s) = Some s' \<Longrightarrow>
    vp_step Q (s, pc) (s', pc(me := Waits (MutexQ m)))"
| lock_return: "runs me (Waits (MutexQ m)) (s, pc) \<Longrightarrow> MutexQ m \<in> Q \<Longrightarrow> mutex_leave m me s = (r, s') \<Longrightarrow>
    vp_step Q (s, pc) (s', pc(me := App))"
| unlock: "runs me App (s, pc) \<Longrightarrow> MutexQ m \<in> Q \<Longrightarrow> st_mutex_unlock m s = Some (r, s') \<Longrightarrow>
    vp_step Q (s, pc) (s', pc)"
| trylock: "runs me App (s, pc) \<Longrightarrow> MutexQ m \<in> Q \<Longrightarrow> st_mutex_trylock m s = (r, s') \<Longrightarrow>
    vp_step Q (s, pc) (s', pc)"
| cond_block: "runs me App (s, pc) \<Longrightarrow> CondQ c \<in> Q \<Longrightarrow> \<not> has_flag s me ST_FL_INTERRUPT \<Longrightarrow>
    cond_enter c timeout me s = Some s1 \<Longrightarrow> st_vp_schedule s1 = Some s' \<Longrightarrow>
    vp_step Q (s, pc) (s', pc(me := Waits (CondQ c)))"
| cond_return: "runs me (Waits (CondQ c)) (s, pc) \<Longrightarrow> CondQ c \<in> Q \<Longrightarrow> cond_leave me s = (r, s') \<Longrightarrow>
    vp_step Q (s, pc) (s', pc(me := App))"
| signal: "runs me App (s, pc) \<Longrightarrow> CondQ c \<in> Q \<Longrightarrow> st_cond_signal_impl c broadcast s = Some s' \<Longrightarrow>
    vp_step Q (s, pc) (s', pc)"
| sleep_block: "runs me App (s, pc) \<Longrightarrow> \<not> has_flag s me ST_FL_INTERRUPT \<Longrightarrow>
    st_usleep usecs Some s = Some (r, s') \<Longrightarrow> vp_step Q (s, pc) (s', pc(me := Asleep))"
| sleep_return: "runs me Asleep (s, pc) \<Longrightarrow> vp_step Q (s, pc) (s, pc(me := App))"
| interrupt: "runs me App (s, pc) \<Longrightarrow> st_thread_interrupt t s = Some s' \<Longrightarrow> vp_step Q (s, pc) (s', pc)"
| interrupted: "runs me App (s, pc) \<Longrightarrow> has_flag s me ST_FL_INTERRUPT \<Longrightarrow>
    vp_step Q (s, pc) (clr_flags me ST_FL_INTERRUPT s, pc)"
| idle: "this_thread s = Some i \<Longrightarrow> idle_thread s = Some i \<Longrightarrow> st_vp_check_clock now wall s = Some s1 \<Longrightarrow>
    st_vp_schedule (set_state i ST_ST_RUNNABLE s1) = Some s' \<Longrightarrow> vp_step Q (s, pc) (s', pc)"

section \<open>The invariant\<close>

definition queues_ok :: "node set \<Rightarrow> config \<Rightarrow> bool" where
  "queues_ok Q = (\<lambda>(s, pc). \<forall>q \<in> Q. is_wait_head q \<and>
     (\<exists>ws. waitq s q ws \<and> (\<forall>t. t \<in> set ws \<longleftrightarrow> pc t = Waits q)))"

text \<open>
  A thread in the lock wait stands at a mutex that somebody else owns; one that stands at a mutex and
  is not in the lock wait any more owns the mutex or was interrupted.
\<close>

definition thread_ok :: "config \<Rightarrow> tid \<Rightarrow> bool" where
  "thread_ok = (\<lambda>(s, pc) t.
     (state (thr s t) = ST_ST_LOCK_WAIT \<longrightarrow>
        (\<exists>m. pc t = Waits (MutexQ m) \<and> mutex_owner s m \<noteq> None \<and> mutex_owner s m \<noteq> Some t)) \<and>
     (\<forall>m. pc t = Waits (MutexQ m) \<longrightarrow> state (thr s t) \<noteq> ST_ST_LOCK_WAIT \<longrightarrow>
        mutex_owner s m = Some t \<or> has_flag s t ST_FL_INTERRUPT) \<and>
     (state (thr s t) = ST_ST_COND_WAIT \<longrightarrow> (\<exists>c. pc t = Waits (CondQ c))))"

definition config_ok :: "node set \<Rightarrow> config \<Rightarrow> bool" where
  "config_ok Q = (\<lambda>(s, pc). (\<exists>rq. sched_inv s rq) \<and> queues_ok Q (s, pc) \<and> (\<forall>t. thread_ok (s, pc) t) \<and>
     (\<exists>i. idle_thread s = Some i) \<and> (\<forall>me. this_thread s = Some me \<longrightarrow> state (thr s me) = ST_ST_RUNNING))"

text \<open>What the wake-ups and the dispatcher do to the threads.\<close>

definition evolves :: "st \<Rightarrow> st \<Rightarrow> bool" where
  "evolves s s' \<longleftrightarrow> mutex_owner s' = mutex_owner s \<and> idle_thread s' = idle_thread s \<and>
     (\<forall>u. (has_flag s u ST_FL_INTERRUPT \<longrightarrow> has_flag s' u ST_FL_INTERRUPT) \<and>
        (state (thr s' u) = state (thr s u) \<or>
         state (thr s u) \<noteq> ST_ST_RUNNING \<and> state (thr s' u) \<in> {ST_ST_RUNNABLE, ST_ST_RUNNING} \<and>
           (state (thr s u) = ST_ST_LOCK_WAIT \<longrightarrow> has_flag s' u ST_FL_INTERRUPT)))"

lemma thread_ok_evolves:
  assumes "evolves s s'" and "thread_ok (s, pc) t"
  shows "thread_ok (s', pc) t"
proof -
  have e: "mutex_owner s' = mutex_owner s" "has_flag s t ST_FL_INTERRUPT \<longrightarrow> has_flag s' t ST_FL_INTERRUPT"
    "state (thr s' t) = state (thr s t) \<or> state (thr s' t) \<in> {ST_ST_RUNNABLE, ST_ST_RUNNING} \<and>
       (state (thr s t) = ST_ST_LOCK_WAIT \<longrightarrow> has_flag s' t ST_FL_INTERRUPT)"
    using assms(1) by (auto simp: evolves_def)
  from e(3) show ?thesis
  proof
    assume "state (thr s' t) = state (thr s t)"
    then show ?thesis using assms(2) e(1,2) by (auto simp: thread_ok_def)
  next
    assume "state (thr s' t) \<in> {ST_ST_RUNNABLE, ST_ST_RUNNING} \<and>
       (state (thr s t) = ST_ST_LOCK_WAIT \<longrightarrow> has_flag s' t ST_FL_INTERRUPT)"
    then show ?thesis using assms(2) e(1,2) by (auto simp: thread_ok_def)
  qed
qed

lemma queues_ok_same: "same_waitqs s s' \<Longrightarrow> queues_ok Q (s, pc) \<Longrightarrow> queues_ok Q (s', pc)"
  unfolding queues_ok_def using same_waitqs_waitq by fastforce

lemma evolvesI:
  assumes "same_globals s s'"
    and "\<And>u. thr s' u \<noteq> thr s u \<Longrightarrow> state (thr s u) \<notin> {ST_ST_RUNNING, ST_ST_LOCK_WAIT} \<and>
       state (thr s' u) = ST_ST_RUNNABLE \<and> (has_flag s u ST_FL_INTERRUPT \<longrightarrow> has_flag s' u ST_FL_INTERRUPT)"
  shows "evolves s s'"
proof -
  have "has_flag s u ST_FL_INTERRUPT \<longrightarrow> has_flag s' u ST_FL_INTERRUPT" for u
    using assms(2) [of u] by (cases "thr s' u = thr s u") (auto simp: has_flag_def)
  moreover have "state (thr s' u) = state (thr s u) \<or> state (thr s u) \<notin> {ST_ST_RUNNING, ST_ST_LOCK_WAIT} \<and>
       state (thr s' u) = ST_ST_RUNNABLE" for u
    using assms(2) [of u] by (cases "thr s' u = thr s u") auto
  ultimately show ?thesis using assms(1) unfolding evolves_def same_globals_def by fastforce
qed

lemma schedule_evolves:
  assumes inv: "sched_inv s rq" and idle: "idle_thread s = Some i" and r: "st_vp_schedule s = Some s'"
  obtains rq' t where "sched_inv s' rq'" and "evolves s s'" and "same_waitqs s s'"
    and "this_thread s' = Some t" and "state (thr s' t) = ST_ST_RUNNING"
proof -
  obtain nx rq1 where p: "sched_pick (this_thread s) (idle_thread s) rq = (nx, rq1)" by fastforce
  have s': "sched_inv s' rq1" "resumed nx s s'" "idle_thread s' = idle_thread s"
    "mutex_owner s' = mutex_owner s" "same_waitqs s s'"
    using st_vp_schedule_ok [OF inv p] r by auto
  obtain t where t: "nx = Some t" "t \<in> set rq \<or> t = i"
  proof (cases rq)
    case Nil
    then show ?thesis using that [of i] p idle by simp
  next
    case (Cons a as)
    then show ?thesis using that [of i] that [of a] p idle by (auto split: if_splits)
  qed
  have st: "state (thr s t) \<in> idle_states" using t(2) sched_invD(6,8) [OF inv, of t] idle by auto
  have th: "this_thread s' = Some t" "thr s' = (thr s)(t := (thr s t)\<lparr>state := ST_ST_RUNNING\<rparr>)"
    using s'(2) t(1) by (auto simp: resumed_def)
  have "evolves s s'"
    using st s'(3,4) by (auto simp: evolves_def th has_flag_def idle_states_def)
  then show thesis using that [OF s'(1) _ s'(5)] th by simp
qed

lemma config_okD:
  assumes "config_ok Q (s, pc)"
  shows "\<exists>rq. sched_inv s rq" "queues_ok Q (s, pc)" "thread_ok (s, pc) t" "\<exists>i. idle_thread s = Some i"
    "this_thread s = Some me \<Longrightarrow> state (thr s me) = ST_ST_RUNNING"
  using assms by (auto simp: config_ok_def)

text \<open>A wake-up by the running thread keeps the invariant, and so does a dispatch.\<close>

lemma config_ok_wake:
  assumes ok: "config_ok Q (s, pc)" and "sched_inv s' rq'" and "evolves s s'" and "same_waitqs s s'"
    and "this_thread s' = this_thread s"
  shows "config_ok Q (s', pc)"
proof -
  have "state (thr s' me) = ST_ST_RUNNING" if "this_thread s' = Some me" for me
  proof -
    have "state (thr s me) = ST_ST_RUNNING" using config_okD(5) [OF ok, of me] that assms(5) by simp
    then show ?thesis using assms(3) unfolding evolves_def by metis
  qed
  moreover have "\<exists>i. idle_thread s' = Some i" using config_okD(4) [OF ok] assms(3) by (simp add: evolves_def)
  ultimately show ?thesis
    using assms(2) queues_ok_same [OF assms(4) config_okD(2) [OF ok]]
      thread_ok_evolves [OF assms(3) config_okD(3) [OF ok]]
    by (auto simp: config_ok_def)
qed

lemma config_ok_dispatch:
  assumes "sched_inv s0 rq" and "queues_ok Q (s0, pc)" and "\<forall>t. thread_ok (s0, pc) t"
    and "idle_thread s0 = Some i" and "st_vp_schedule s0 = Some s'"
  shows "config_ok Q (s', pc)"
proof -
  obtain rq' t where r: "sched_inv s' rq'" "evolves s0 s'" "same_waitqs s0 s'" "this_thread s' = Some t"
    "state (thr s' t) = ST_ST_RUNNING"
    by (rule schedule_evolves [OF assms(1,4,5)])
  then show ?thesis
    using queues_ok_same [OF r(3) assms(2)] thread_ok_evolves [OF r(2)] assms(3,4)
    by (auto simp: config_ok_def evolves_def)
qed

text \<open>Entering and leaving a wait queue.\<close>

lemma queues_ok_enter:
  assumes "queues_ok Q (s, pc)" and "q \<in> Q" and "pc me = App" and "waitq s q ws" and "waitq s' q (ws @ [me])"
    and "same_other_waitqs q me s s'"
  shows "queues_ok Q (s', pc(me := Waits q))"
  unfolding queues_ok_def prod.case
proof
  fix r
  assume r: "r \<in> Q"
  then obtain vs where v: "is_wait_head r" "waitq s r vs" "\<forall>t. t \<in> set vs \<longleftrightarrow> pc t = Waits r"
    using assms(1) by (auto simp: queues_ok_def)
  show "is_wait_head r \<and> (\<exists>ws. waitq s' r ws \<and> (\<forall>t. t \<in> set ws \<longleftrightarrow> (pc(me := Waits q)) t = Waits r))"
  proof (cases "r = q")
    case True
    then have "vs = ws" using v(2) assms(4) waitq_det by blast
    then show ?thesis using v assms(5) True by auto
  next
    case False
    moreover have "me \<notin> set vs" using v(3) assms(3) by simp
    ultimately have "waitq s' r vs" using assms(6) v by (auto simp: same_other_waitqs_def)
    then show ?thesis using v False assms(3) by auto
  qed
qed

lemma queues_ok_leave:
  assumes "queues_ok Q (s, pc)" and "q \<in> Q" and "pc me = Waits q" and "waitq s q ws"
    and "waitq s' q (remove1 me ws)" and "same_other_waitqs q me s s'"
  shows "queues_ok Q (s', pc(me := App))"
  unfolding queues_ok_def prod.case
proof
  fix r
  assume r: "r \<in> Q"
  then obtain vs where v: "is_wait_head r" "waitq s r vs" "\<forall>t. t \<in> set vs \<longleftrightarrow> pc t = Waits r"
    using assms(1) by (auto simp: queues_ok_def)
  show "is_wait_head r \<and> (\<exists>ws. waitq s' r ws \<and> (\<forall>t. t \<in> set ws \<longleftrightarrow> (pc(me := App)) t = Waits r))"
  proof (cases "r = q")
    case True
    then have "vs = ws" using v(2) assms(4) waitq_det by blast
    moreover have "distinct ws" using assms(4) by (auto simp: waitq_def is_clist_def distinct_map)
    ultimately show ?thesis using v assms(5) True by auto
  next
    case False
    moreover have "me \<notin> set vs" using v(3) assms(3) False by auto
    ultimately have "waitq s' r vs" using assms(6) v by (auto simp: same_other_waitqs_def)
    then show ?thesis using v False assms(3) by auto
  qed
qed

lemma queues_ok_move:
  assumes "queues_ok Q (s, pc)" and "\<forall>q. pc me \<noteq> Waits q \<and> p \<noteq> Waits q"
  shows "queues_ok Q (s, pc(me := p))"
proof -
  have "(pc(me := p)) t = Waits q \<longleftrightarrow> pc t = Waits q" for t q using assms(2) by simp
  then show ?thesis using assms(1) unfolding queues_ok_def prod.case by (simp only:)
qed

lemma thread_ok_enter:
  assumes "\<forall>t. thread_ok (s, pc) t" and "\<forall>u. u \<noteq> me \<longrightarrow> thr s' u = thr s u" and "mutex_owner s' = mutex_owner s"
    and "thread_ok (s', pc(me := p)) me"
  shows "\<forall>t. thread_ok (s', pc(me := p)) t"
proof
  fix t
  show "thread_ok (s', pc(me := p)) t"
  proof (cases "t = me")
    case False
    then show ?thesis using assms(1) [rule_format, of t] assms(2,3) by (simp add: thread_ok_def has_flag_def)
  qed (use assms(4) in simp)
qed

section \<open>Every step keeps the invariant\<close>

lemma running_facts:
  assumes "config_ok Q (s, pc)" and "runs me p (s, pc)"
  obtains rq i where "sched_inv s rq" and "this_thread s = Some me" and "state (thr s me) = ST_ST_RUNNING"
    and "idle_thread s = Some i" and "i \<noteq> me" and "pc me = p"
  using assms config_okD(1,4) [OF assms(1)] config_okD(5) [OF assms(1), of me] by (auto simp: runs_def)

lemma queue_of:
  assumes "config_ok Q (s, pc)" and "q \<in> Q"
  obtains ws where "waitq s q ws" and "\<And>t. t \<in> set ws \<longleftrightarrow> pc t = Waits q"
  using config_okD(2) [OF assms(1)] assms(2) by (auto simp: queues_ok_def)

lemma step_lock_block:
  assumes ok: "config_ok Q (s, pc)" and r: "runs me App (s, pc)" and m: "MutexQ m \<in> Q"
    and p: "mutex_owner s m = Some p" "p \<noteq> me" and e: "st_vp_schedule (mutex_enter m me s) = Some s'"
  shows "config_ok Q (s', pc(me := Waits (MutexQ m)))"
proof -
  obtain rq i where f: "sched_inv s rq" "this_thread s = Some me" "state (thr s me) = ST_ST_RUNNING"
    "idle_thread s = Some i" "i \<noteq> me" "pc me = App" by (rule running_facts [OF ok r])
  obtain ws where w: "waitq s (MutexQ m) ws" "\<And>t. t \<in> set ws \<longleftrightarrow> pc t = Waits (MutexQ m)"
    by (rule queue_of [OF ok m]) blast
  have n: "mutexq s m ws" "me \<notin> set ws" "idle_thread s \<noteq> Some me" using w f by (auto simp: waitq_simps)
  note en = mutex_enter_ok [OF f(1,3) n(3) n(1,2)]
  have q: "queues_ok Q (mutex_enter m me s, pc(me := Waits (MutexQ m)))"
    by (rule queues_ok_enter [OF config_okD(2) [OF ok] m f(6) w(1) _ en(3)]) (simp add: waitq_simps en(2))
  have t: "\<forall>t. thread_ok (mutex_enter m me s, pc(me := Waits (MutexQ m))) t"
    by (rule thread_ok_enter) (use config_okD(3) [OF ok] en(4,6) p in \<open>auto simp: thread_ok_def same_globals_def\<close>)
  have "idle_thread (mutex_enter m me s) = Some i" using en(4) f(4) by (simp add: same_globals_def)
  then show ?thesis by (rule config_ok_dispatch [OF en(1) q t _ e])
qed

lemma step_lock_return:
  assumes ok: "config_ok Q (s, pc)" and r: "runs me (Waits (MutexQ m)) (s, pc)" and m: "MutexQ m \<in> Q"
    and e: "mutex_leave m me s = (rv, s')"
  shows "config_ok Q (s', pc(me := App))"
proof -
  obtain rq i where f: "sched_inv s rq" "this_thread s = Some me" "state (thr s me) = ST_ST_RUNNING"
    "idle_thread s = Some i" "i \<noteq> me" "pc me = Waits (MutexQ m)" by (rule running_facts [OF ok r])
  obtain ws where w: "waitq s (MutexQ m) ws" "\<And>t. t \<in> set ws \<longleftrightarrow> pc t = Waits (MutexQ m)"
    by (rule queue_of [OF ok m]) blast
  have n: "mutexq s m ws" "me \<in> set ws" using w f by (auto simp: waitq_simps)
  have lv: "sched_inv s' rq" "mutexq s' m (remove1 me ws)" "same_other_waitqs (MutexQ m) me s s'"
    "same_globals s s'" "\<forall>u. u \<noteq> me \<longrightarrow> thr s' u = thr s u" "state (thr s' me) = state (thr s me)"
    by (rule mutex_leave_ok [OF f(1) n]; use e in simp)+
  have q: "queues_ok Q (s', pc(me := App))"
    by (rule queues_ok_leave [OF config_okD(2) [OF ok] m f(6) w(1) _ lv(3)]) (simp add: waitq_simps lv(2))
  have "\<forall>t. thread_ok (s', pc(me := App)) t"
    by (rule thread_ok_enter) (use config_okD(3) [OF ok] lv f(3) in \<open>auto simp: thread_ok_def same_globals_def\<close>)
  then show ?thesis using lv(1,4,6) q f by (auto simp: config_ok_def same_globals_def)
qed

lemma step_cond_block:
  assumes ok: "config_ok Q (s, pc)" and r: "runs me App (s, pc)" and c: "CondQ c \<in> Q"
    and e: "cond_enter c timeout me s = Some s1" "st_vp_schedule s1 = Some s'"
  shows "config_ok Q (s', pc(me := Waits (CondQ c)))"
proof -
  obtain rq i where f: "sched_inv s rq" "this_thread s = Some me" "state (thr s me) = ST_ST_RUNNING"
    "idle_thread s = Some i" "i \<noteq> me" "pc me = App" by (rule running_facts [OF ok r])
  obtain ws where w: "waitq s (CondQ c) ws" "\<And>t. t \<in> set ws \<longleftrightarrow> pc t = Waits (CondQ c)"
    by (rule queue_of [OF ok c]) blast
  have n: "condq s c ws" "me \<notin> set ws" "idle_thread s \<noteq> Some me" using w f by (auto simp: waitq_simps)
  have en: "sched_inv s1 rq" "condq s1 c (ws @ [me])" "same_other_waitqs (CondQ c) me s s1" "same_globals s s1"
    "\<forall>u. u \<noteq> me \<longrightarrow> thr s1 u = thr s u" "state (thr s1 me) = ST_ST_COND_WAIT"
    by (rule cond_enter_ok [OF f(1,3) n(3) n(1,2), of timeout]; use e in simp)+
  have q: "queues_ok Q (s1, pc(me := Waits (CondQ c)))"
    by (rule queues_ok_enter [OF config_okD(2) [OF ok] c f(6) w(1) _ en(3)]) (simp add: waitq_simps en(2))
  have t: "\<forall>t. thread_ok (s1, pc(me := Waits (CondQ c))) t"
    by (rule thread_ok_enter) (use config_okD(3) [OF ok] en in \<open>auto simp: thread_ok_def same_globals_def\<close>)
  have "idle_thread s1 = Some i" using en(4) f(4) by (simp add: same_globals_def)
  then show ?thesis by (rule config_ok_dispatch [OF en(1) q t _ e(2)])
qed

lemma step_cond_return:
  assumes ok: "config_ok Q (s, pc)" and r: "runs me (Waits (CondQ c)) (s, pc)" and c: "CondQ c \<in> Q"
    and e: "cond_leave me s = (rv, s')"
  shows "config_ok Q (s', pc(me := App))"
proof -
  obtain rq i where f: "sched_inv s rq" "this_thread s = Some me" "state (thr s me) = ST_ST_RUNNING"
    "idle_thread s = Some i" "i \<noteq> me" "pc me = Waits (CondQ c)" by (rule running_facts [OF ok r])
  obtain ws where w: "waitq s (CondQ c) ws" "\<And>t. t \<in> set ws \<longleftrightarrow> pc t = Waits (CondQ c)"
    by (rule queue_of [OF ok c]) blast
  have n: "condq s c ws" "me \<in> set ws" using w f by (auto simp: waitq_simps)
  have lv: "sched_inv s' rq" "condq s' c (remove1 me ws)" "same_other_waitqs (CondQ c) me s s'"
    "same_globals s s'" "\<forall>u. u \<noteq> me \<longrightarrow> thr s' u = thr s u" "state (thr s' me) = state (thr s me)"
    by (rule cond_leave_ok [OF f(1) n]; use e in simp)+
  have q: "queues_ok Q (s', pc(me := App))"
    by (rule queues_ok_leave [OF config_okD(2) [OF ok] c f(6) w(1) _ lv(3)]) (simp add: waitq_simps lv(2))
  have "\<forall>t. thread_ok (s', pc(me := App)) t"
    by (rule thread_ok_enter) (use config_okD(3) [OF ok] lv f(3) in \<open>auto simp: thread_ok_def same_globals_def\<close>)
  then show ?thesis using lv(1,4,6) q f by (auto simp: config_ok_def same_globals_def)
qed

lemma step_unlock:
  assumes ok: "config_ok Q (s, pc)" and r: "runs me App (s, pc)" and m: "MutexQ m \<in> Q"
    and e: "st_mutex_unlock m s = Some (rv, s')"
  shows "config_ok Q (s', pc)"
proof -
  obtain rq i where f: "sched_inv s rq" "this_thread s = Some me" "state (thr s me) = ST_ST_RUNNING"
    "idle_thread s = Some i" "i \<noteq> me" "pc me = App" by (rule running_facts [OF ok r])
  obtain ws where w: "waitq s (MutexQ m) ws" "\<And>t. t \<in> set ws \<longleftrightarrow> pc t = Waits (MutexQ m)"
    by (rule queue_of [OF ok m]) blast
  define nx where "nx = lock_waiter s ws"
  have eq: "(rv, s') = (if mutex_owner s m = Some me then (Inr (), hand_over m nx s) else (Inl EPERM, s))"
    using st_mutex_unlock_eq [of s m ws] w(1) e f(2) by (simp add: waitq_simps nx_def)
  show ?thesis
  proof (cases "mutex_owner s m = Some me")
    case False
    then show ?thesis using eq ok by simp
  next
    case True
    have nx: "\<forall>t. nx = Some t \<longrightarrow> state (thr s t) = ST_ST_LOCK_WAIT \<and> t \<in> set ws"
      "nx = None \<longrightarrow> (\<forall>t \<in> set ws. state (thr s t) \<noteq> ST_ST_LOCK_WAIT)"
      by (auto simp: nx_def lock_waiter_def find_Some_iff find_None_iff)
    have s': "s' = hand_over m nx s" using eq True by simp
    have l: "\<forall>t. nx = Some t \<longrightarrow> state (thr s t) = ST_ST_LOCK_WAIT" using nx by blast
    note h = hand_over_ok [OF f(1) l, of m, folded s']
    have thr: "thr s' t = (if nx = Some t then (thr s t)\<lparr>state := ST_ST_RUNNABLE\<rparr> else thr s t)" for t
      by (simp add: h(4) split: option.splits)
    have "thread_ok (s', pc) t" for t
    proof -
      note o = config_okD(3) [OF ok, of t]
      have "t \<noteq> me" if "pc t = Waits q" for q using that f(6) by auto
      then show ?thesis
        using o nx w(2) [of t] True unfolding thread_ok_def prod.case h(3)
        by (cases "nx = Some t"; cases "nx = None") (auto simp: thr has_flag_def)
    qed
    moreover have "state (thr s' me) = ST_ST_RUNNING" using f(3) l by (auto simp: thr)
    ultimately show ?thesis
      using h(1,6,7) queues_ok_same [OF h(2) config_okD(2) [OF ok]] f(2,4) by (auto simp: config_ok_def)
  qed
qed

text \<open>Taking a free mutex.\<close>

lemma step_take:
  assumes ok: "config_ok Q (s, pc)" and r: "runs me App (s, pc)" and o: "mutex_owner s m = None"
  shows "config_ok Q (s\<lparr>mutex_owner := (mutex_owner s)(m := Some me)\<rparr>, pc)"
proof -
  obtain rq i where f: "sched_inv s rq" "this_thread s = Some me" "state (thr s me) = ST_ST_RUNNING"
    "idle_thread s = Some i" "i \<noteq> me" "pc me = App" by (rule running_facts [OF ok r])
  let ?s = "s\<lparr>mutex_owner := (mutex_owner s)(m := Some me)\<rparr>"
  have "sched_inv ?s rq" by (rule sched_inv_cong [OF f(1)]) (simp_all add: has_flag_def)
  moreover have "queues_ok Q (?s, pc)"
    by (rule queues_ok_same [OF _ config_okD(2) [OF ok]]) (rule same_waitqs_links [of _ s], simp_all)
  moreover have "thread_ok (?s, pc) t" for t
    using config_okD(3) [OF ok, of t] o f(6) by (auto simp: thread_ok_def has_flag_def)
  ultimately show ?thesis using f by (auto simp: config_ok_def)
qed

lemma step_clear_interrupt:
  assumes ok: "config_ok Q (s, pc)" and r: "runs me App (s, pc)"
  shows "config_ok Q (clr_flags me ST_FL_INTERRUPT s, pc)"
proof -
  obtain rq i where f: "sched_inv s rq" "this_thread s = Some me" "state (thr s me) = ST_ST_RUNNING"
    "idle_thread s = Some i" "i \<noteq> me" "pc me = App" by (rule running_facts [OF ok r])
  let ?s = "clr_flags me ST_FL_INTERRUPT s"
  have "queues_ok Q (?s, pc)"
    by (rule queues_ok_same [OF _ config_okD(2) [OF ok]]) (rule same_waitqs_links [of _ s], simp_all add: clr_flags_def)
  moreover have "thread_ok (?s, pc) t" for t
    using config_okD(3) [OF ok, of t] f(6) by (auto simp: thread_ok_def thr_upd_defs)
  ultimately show ?thesis
    using f sched_inv_or_flags(3) [OF f(1), of me] by (auto simp: config_ok_def clr_flags_def)
qed

lemma step_signal:
  assumes ok: "config_ok Q (s, pc)" and r: "runs me App (s, pc)" and c: "CondQ c \<in> Q"
    and e: "st_cond_signal_impl c b s = Some s'"
  shows "config_ok Q (s', pc)"
proof -
  obtain rq i where f: "sched_inv s rq" by (rule running_facts [OF ok r])
  obtain ws where w: "condq s c ws" using queue_of [OF ok c] by (metis waitq_simps(1))
  let ?W = "to_wake b (cond_waiters s ws)"
  have s': "sched_inv s' (rq @ ?W)" "thr s' = wake_all (set ?W) s" "same_globals s s'" "same_waitqs s s'"
    using st_cond_signal_impl_ok [OF f w, of b] e by auto
  have "set ?W \<subseteq> {t. state (thr s t) = ST_ST_COND_WAIT}"
    using set_take_subset [of 1 "cond_waiters s ws"] by (auto simp: to_wake_def cond_waiters_def)
  then have "evolves s s'"
    using s'(2) by (intro evolvesI [OF s'(3)]) (auto simp: wake_all_def has_flag_def flag_simps split: if_splits)
  then show ?thesis using config_ok_wake [OF ok s'(1) _ s'(4)] s'(3) by (simp add: same_globals_def)
qed

lemma step_interrupt:
  assumes ok: "config_ok Q (s, pc)" and r: "runs me App (s, pc)" and e: "st_thread_interrupt t s = Some s'"
  shows "config_ok Q (s', pc)"
proof -
  obtain rq i where f: "sched_inv s rq" by (rule running_facts [OF ok r])
  consider "state (thr s t) = ST_ST_ZOMBIE" | "state (thr s t) \<in> {ST_ST_RUNNING, ST_ST_RUNNABLE}"
    | "state (thr s t) \<notin> {ST_ST_ZOMBIE, ST_ST_RUNNING, ST_ST_RUNNABLE}" by blast
  then show ?thesis
  proof cases
    case 1
    then show ?thesis using e ok by (simp add: st_thread_interrupt_def)
  next
    case 2
    then have s': "s' = or_flags t ST_FL_INTERRUPT s"
      using e by (auto simp: st_thread_interrupt_def Let_def or_flags_def)
    have "evolves s s'" by (auto simp: s' evolves_def thr_upd_defs flag_simps)
    moreover have "same_waitqs s s'" by (rule same_waitqs_links [of _ s]) (simp_all add: s' or_flags_def)
    moreover have "sched_inv s' rq" unfolding s' by (rule sched_inv_or_flags(1) [OF f])
    moreover have "this_thread s' = this_thread s" by (simp add: s' or_flags_def)
    ultimately show ?thesis using config_ok_wake [OF ok] by blast
  next
    case 3
    have s': "sched_inv s' (rq @ [t])" "\<forall>u. u \<noteq> t \<longrightarrow> thr s' u = thr s u" "state (thr s' t) = ST_ST_RUNNABLE"
      "has_flag s' t ST_FL_INTERRUPT" "same_globals s s'" "same_waitqs s s'"
      by (rule interrupt_waiting [OF f 3]; use e in simp)+
    have "has_flag s u ST_FL_INTERRUPT \<longrightarrow> has_flag s' u ST_FL_INTERRUPT" for u
      using s'(2,4) by (cases "u = t") (auto simp: has_flag_def)
    moreover have "state (thr s' u) = state (thr s u) \<or> u = t" for u using s'(2) by auto
    ultimately have "evolves s s'"
      using s'(3,4,5) 3 unfolding evolves_def same_globals_def by (metis insertCI)
    then show ?thesis using config_ok_wake [OF ok s'(1) _ s'(6)] s'(5) by (simp add: same_globals_def)
  qed
qed

lemma step_sleep:
  assumes ok: "config_ok Q (s, pc)" and r: "runs me App (s, pc)" and n: "\<not> has_flag s me ST_FL_INTERRUPT"
    and e: "st_usleep usecs Some s = Some (rv, s')"
  shows "config_ok Q (s', pc(me := Asleep))"
proof -
  obtain rq i where f: "sched_inv s rq" "this_thread s = Some me" "state (thr s me) = ST_ST_RUNNING"
    "idle_thread s = Some i" "i \<noteq> me" "pc me = App" by (rule running_facts [OF ok r])
  have i: "idle_thread s \<noteq> Some me" using f by simp
  obtain s0 where s0: "sched_inv s0 rq" "same_globals s s0" "links s0 = links s"
    "st_usleep usecs Some s = map_option (Pair (Inr ())) (switch_away Some s0)"
    "state (thr s0 me) = (if usecs = ST_UTIME_NO_TIMEOUT then ST_ST_SUSPENDED else ST_ST_SLEEPING)"
    "\<forall>u. u \<noteq> me \<longrightarrow> thr s0 u = thr s u"
    by (rule usleep_enter [OF f(1-3) i n])
  have "queues_ok Q (s0, pc)"
    by (rule queues_ok_same [OF _ config_okD(2) [OF ok]]) (rule same_waitqs_links [OF s0(3)], simp)
  then have q: "queues_ok Q (s0, pc(me := Asleep))" by (rule queues_ok_move) (simp add: f(6))
  have t: "\<forall>t. thread_ok (s0, pc(me := Asleep)) t"
    by (rule thread_ok_enter) (use config_okD(3) [OF ok] s0 in \<open>auto simp: thread_ok_def same_globals_def\<close>)
  have sc: "st_vp_schedule s0 = Some s'" "idle_thread s0 = Some i"
    using e s0(2,4) f(4) by (auto simp: switch_away_def same_globals_def split: option.splits)
  show ?thesis by (rule config_ok_dispatch [OF s0(1) q t sc(2,1)])
qed

lemma step_sleep_return:
  assumes ok: "config_ok Q (s, pc)" and r: "runs me Asleep (s, pc)"
  shows "config_ok Q (s, pc(me := App))"
proof -
  obtain rq i where f: "sched_inv s rq" "this_thread s = Some me" "state (thr s me) = ST_ST_RUNNING"
    "idle_thread s = Some i" "i \<noteq> me" "pc me = Asleep" by (rule running_facts [OF ok r])
  have "queues_ok Q (s, pc(me := App))" by (rule queues_ok_move [OF config_okD(2) [OF ok]]) (simp add: f(6))
  moreover have "\<forall>t. thread_ok (s, pc(me := App)) t"
    by (rule thread_ok_enter) (use config_okD(3) [OF ok] f(3) in \<open>auto simp: thread_ok_def\<close>)
  ultimately show ?thesis using f by (auto simp: config_ok_def)
qed

lemma sched_inv_idle_runnable:
  assumes inv: "sched_inv s rq" and i: "idle_thread s = Some i"
  shows "sched_inv (set_state i ST_ST_RUNNABLE s) rq"
proof (rule sched_invI, goal_cases)
  case (3 u)
  then show ?case using sched_invD(4) [OF inv, of u] by (simp add: thr_upd_defs)
next
  case (6 u)
  then show ?case using sched_invD(7) [OF inv, of u] i by (auto simp: set_state_def split: if_splits)
next
  case (7 u)
  then show ?case using sched_invD(8) [OF inv, of u] by (auto simp: set_state_def)
next
  case (8 u)
  then show ?case using sched_invD(9) [OF inv, of u] by (auto simp: set_state_def has_flag_def split: if_splits)
qed (use sched_invD(1,2,5,6) [OF inv] sched_invD(8) [OF inv i] in \<open>auto simp: set_state_def\<close>)

lemma step_idle:
  assumes ok: "config_ok Q (s, pc)" and i: "this_thread s = Some i" "idle_thread s = Some i"
    and e: "st_vp_check_clock now wall s = Some s1" "st_vp_schedule (set_state i ST_ST_RUNNABLE s1) = Some s'"
  shows "config_ok Q (s', pc)"
proof -
  obtain rq where f: "sched_inv s rq" using config_okD(1) [OF ok] by blast
  obtain ws where s1: "sched_inv s1 (rq @ ws)" "set ws = {t \<in> sleepers (heap s). due (heap s) t \<le> now}"
    "\<forall>u. u \<notin> set ws \<longrightarrow> thr s1 u = thr s u" "\<forall>u \<in> set ws. woken_by_clock (thr s u) (thr s1 u)"
    "same_waitqs s s1" "idle_thread s1 = idle_thread s" "mutex_owner s1 = mutex_owner s"
    using st_vp_check_clock_ok [OF f, of now wall] e(1) by auto
  have th: "thread_ok (s1, pc) t" for t
  proof (cases "t \<in> set ws")
    case True
    have w: "state (thr s t) \<in> wait_states" using sched_invD(5) [OF f, of t] True s1(2) by simp
    have "woken_by_clock (thr s t) (thr s1 t)" using s1(4) True by simp
    then show ?thesis
      using config_okD(3) [OF ok, of t] w s1(7) by (auto simp: thread_ok_def woken_by_clock_def has_flag_def)
  next
    case False
    then show ?thesis using config_okD(3) [OF ok, of t] s1(3,7) by (simp add: thread_ok_def has_flag_def)
  qed
  have "state (thr s1 i) \<in> idle_states" using sched_invD(8) [OF s1(1), of i] s1(6) i by auto
  then have "thread_ok (set_state i ST_ST_RUNNABLE s1, pc) t" for t
    using th [of t] by (cases "t = i") (auto simp: thread_ok_def thr_upd_defs idle_states_def)
  then have t: "\<forall>t. thread_ok (set_state i ST_ST_RUNNABLE s1, pc) t" by blast
  have "queues_ok Q (set_state i ST_ST_RUNNABLE s1, pc)"
    by (rule queues_ok_same [OF _ config_okD(2) [OF ok]], rule same_waitqs_links [OF _ s1(5)]) (simp add: set_state_def)
  moreover have "idle_thread (set_state i ST_ST_RUNNABLE s1) = Some i" "sched_inv (set_state i ST_ST_RUNNABLE s1) (rq @ ws)"
    using sched_inv_idle_runnable [OF s1(1)] s1(6) i by (simp_all add: set_state_def)
  ultimately show ?thesis using config_ok_dispatch t e(2) by blast
qed

lemma vp_step_ok: "vp_step Q x y \<Longrightarrow> config_ok Q x \<Longrightarrow> config_ok Q y"
proof (induction rule: vp_step.induct)
  case (lock_now me s pc m r s')
  have "this_thread s = Some me" using lock_now(1) by (simp add: runs_def)
  then show ?case
    using lock_now step_take [OF _ lock_now(1)] step_clear_interrupt [OF _ lock_now(1)]
    by (auto simp: st_mutex_lock_def split: if_splits)
next
  case (trylock me s pc m r s')
  have "this_thread s = Some me" using trylock(1) by (simp add: runs_def)
  then show ?case using trylock step_take [OF _ trylock(1)] by (auto simp: st_mutex_trylock_def split: if_splits)
next
  case (lock_block me s pc m p s')
  then show ?case by (intro step_lock_block [OF lock_block(7)])
next
  case (lock_return me m s pc r s')
  then show ?case by (intro step_lock_return [OF lock_return(4)])
next
  case (unlock me s pc m r s')
  then show ?case by (intro step_unlock [OF unlock(4)])
next
  case (cond_block me s pc c timeout s1 s')
  then show ?case by (intro step_cond_block [OF cond_block(6)])
next
  case (cond_return me c s pc r s')
  then show ?case by (intro step_cond_return [OF cond_return(4)])
next
  case (signal me s pc c broadcast s')
  then show ?case by (intro step_signal [OF signal(4)])
next
  case (sleep_block me s pc usecs r s')
  then show ?case by (intro step_sleep [OF sleep_block(4)])
next
  case (sleep_return me s pc)
  then show ?case by (intro step_sleep_return)
next
  case (interrupt me s pc t s')
  then show ?case by (intro step_interrupt [OF interrupt(3)])
next
  case (interrupted me s pc)
  then show ?case by (intro step_clear_interrupt)
next
  case (idle s i now wall s1 s' pc)
  then show ?case by (intro step_idle [OF idle(5)])
qed

lemma vp_reachable_ok: "(vp_step Q)\<^sup>*\<^sup>* x y \<Longrightarrow> config_ok Q x \<Longrightarrow> config_ok Q y"
  by (induction rule: rtranclp_induct) (auto intro: vp_step_ok)

section \<open>Concrete configurations\<close>

definition demo_place :: "tid \<Rightarrow> place" where
  "demo_place t = (if t \<in> {1, 6} then Waits (CondQ 0) else if t = 7 then Waits (MutexQ 0)
     else if t \<in> {2, 3} then Asleep else App)"

definition demo_queues_set :: "node set" where
  "demo_queues_set = {CondQ 0, MutexQ 0}"

lemma demo_config_ok: "config_ok demo_queues_set (demo_vp, demo_place)"
proof -
  have "queues_ok demo_queues_set (demo_vp, demo_place)"
    unfolding queues_ok_def prod.case demo_queues_set_def
  proof (intro ballI conjI)
    fix q
    assume q: "q \<in> {CondQ 0, MutexQ 0}"
    then show "is_wait_head q" by auto
    from q consider "q = CondQ 0" | "q = MutexQ 0" by auto
    then show "\<exists>ws. waitq demo_vp q ws \<and> (\<forall>t. (t \<in> set ws) = (demo_place t = Waits q))"
    proof cases
      case 1
      then show ?thesis using demo_queues(2)
        by (intro exI [of _ "[1, 6]"]) (auto simp: waitq_simps demo_place_def)
    next
      case 2
      then show ?thesis using demo_queues(3)
        by (intro exI [of _ "[7]"]) (auto simp: waitq_simps demo_place_def)
    qed
  qed
  moreover have "thread_ok (demo_vp, demo_place) t" for t
    by (auto simp: thread_ok_def demo_fields demo_thr_def demo_place_def)
  ultimately show ?thesis using demo_inv
    by (auto simp: config_ok_def demo_fields demo_thr_def)
qed

text \<open>The same configuration after 5 has handed mutex 0 to 7 and 7 was resumed.\<close>

definition demo_handed :: st where
  "demo_handed = demo_vp\<lparr>thr := demo_thr(7 := (demo_thr 7)\<lparr>state := ST_ST_RUNNING\<rparr>), this_thread := Some 7,
     mutex_owner := (mutex_owner demo_vp)(0 := Some 7)\<rparr>"

lemma demo_handed_fields:
  "links demo_handed = links demo_vp" "heap demo_handed = demo_heap" "idle_thread demo_handed = Some 0"
  "thr demo_handed = demo_thr(7 := (demo_thr 7)\<lparr>state := ST_ST_RUNNING\<rparr>)" "this_thread demo_handed = Some 7"
  "mutex_owner demo_handed = (mutex_owner demo_vp)(0 := Some 7)"
  by (simp_all add: demo_handed_def demo_fields)

lemma demo_handed_inv: "sched_inv demo_handed [4]"
proof (rule sched_invI, goal_cases)
  case 1
  then show ?case using demo_queues(1) by (simp add: runq_def demo_handed_fields)
next
  case 2
  then show ?case using demo_heap_ok by (auto simp: wf_heap_def demo_handed_fields)
qed (auto simp: demo_handed_fields demo_sleepers has_flag_def demo_thr_def fl_defs flag_on_def wait_states_def
      idle_states_def split: if_splits)

lemma demo_handed_ok: "config_ok demo_queues_set (demo_handed, demo_place)"
proof -
  have "same_waitqs demo_vp demo_handed"
    by (rule same_waitqs_links [OF demo_handed_fields(1)]) simp
  then have "queues_ok demo_queues_set (demo_handed, demo_place)"
    using queues_ok_same config_okD(2) [OF demo_config_ok] by blast
  moreover have "thread_ok (demo_handed, demo_place) t" for t
    by (auto simp: thread_ok_def demo_handed_fields demo_thr_def demo_place_def)
  ultimately show ?thesis using demo_handed_inv
    by (auto simp: config_ok_def demo_handed_fields)
qed

section \<open>Properties\<close>

text \<open>
  C5: Every operation of the library keeps the invariant of the machine: from a consistent
  configuration, whatever locks, waits, signals, sleeps, interrupts and clock ticks the threads
  perform in whatever order, the run queue, the timeout heap and the wait queues stay well-formed,
  every thread is on exactly the wait queue it stands at, and the current thread is running.
\<close>

theorem vp_invariant:
  assumes "config_ok Q x" and "(vp_step Q)\<^sup>*\<^sup>* x (s, pc)"
  shows "config_ok Q (s, pc) \<and> (\<exists>rq. sched_inv s rq) \<and>
    (\<forall>q \<in> Q. \<exists>ws. waitq s q ws \<and> (\<forall>t. t \<in> set ws \<longleftrightarrow> pc t = Waits q)) \<and>
    (\<forall>me. this_thread s = Some me \<longrightarrow> state (thr s me) = ST_ST_RUNNING)"
  using vp_reachable_ok [OF assms(2,1)] by (auto simp: config_ok_def queues_ok_def)

theorem vp_invariant_witness:
  "config_ok demo_queues_set (demo_vp, demo_place) \<and>
   (\<exists>s. (vp_step demo_queues_set)\<^sup>*\<^sup>* (demo_vp, demo_place) (s, demo_place) \<and> has_flag s 3 ST_FL_INTERRUPT \<and>
      config_ok demo_queues_set (s, demo_place))"
proof -
  obtain s where s: "st_thread_interrupt 3 demo_vp = Some s" "has_flag s 3 ST_FL_INTERRUPT"
    by (rule interrupt_waiting [OF demo_inv, of 3]) (simp_all add: demo_fields demo_thr_def)
  have "runs 5 App (demo_vp, demo_place)" by (simp add: runs_def demo_fields demo_place_def)
  then have "(vp_step demo_queues_set)\<^sup>*\<^sup>* (demo_vp, demo_place) (s, demo_place)"
    using vp_step.interrupt s(1) by blast
  then show ?thesis using vp_invariant [OF demo_config_ok] demo_config_ok s(2) by blast
qed

text \<open>
  C6: Mutual exclusion through the blocking path. When \<open>st_mutex_lock\<close> returns to a thread that had to
  wait, in any reachable configuration, it returns 0 exactly if that thread owns the mutex; otherwise
  it returns \<open>EINTR\<close>.
\<close>

theorem lock_return_owns:
  assumes "config_ok Q x" and "(vp_step Q)\<^sup>*\<^sup>* x (s, pc)" and "MutexQ m \<in> Q"
    and "runs me (Waits (MutexQ m)) (s, pc)" and "mutex_leave m me s = (r, s')"
  shows "mutex_owner s' = mutex_owner s \<and>
    (if mutex_owner s' m = Some me then r = Inr () else r = Inl EINTR)"
proof -
  have ok: "config_ok Q (s, pc)" using vp_reachable_ok assms(1,2) by blast
  have "pc me = Waits (MutexQ m)" "state (thr s me) = ST_ST_RUNNING"
    using assms(4) config_okD(5) [OF ok, of me] by (auto simp: runs_def)
  then have "mutex_owner s m = Some me \<or> has_flag s me ST_FL_INTERRUPT"
    using config_okD(3) [OF ok, of me] by (auto simp: thread_ok_def)
  then show ?thesis
    using assms(5) by (auto simp: mutex_leave_def Let_def has_flag_def clr_flags_def split: if_splits)
qed

theorem lock_return_owns_witness:
  "config_ok demo_queues_set (demo_handed, demo_place) \<and>
   (\<exists>r s'. mutex_leave 0 7 demo_handed = (r, s') \<and> mutex_owner s' 0 = Some 7 \<and> r = Inr ())"
proof -
  obtain r s' where l: "mutex_leave 0 7 demo_handed = (r, s')" by fastforce
  have "MutexQ 0 \<in> demo_queues_set" "runs 7 (Waits (MutexQ 0)) (demo_handed, demo_place)"
    by (simp_all add: demo_queues_set_def runs_def demo_handed_fields demo_place_def)
  from lock_return_owns [OF demo_handed_ok rtranclp.rtrancl_refl this l] show ?thesis
    using l demo_handed_ok by (auto simp: demo_handed_fields)
qed



end
