(* ===== verification/Keys.thy ===== *)
theory Keys
  imports Sched_State
begin

text \<open>
  key.c: thread-specific data. The destructor table and the number of keys are the two static
  variables of the file; a thread's values are its \<open>private_data\<close> array. A destructor is code of the
  application: the model records the calls, each as the pair of the destructor and its argument.
\<close>

section \<open>Operations\<close>

definition ST_KEYS_MAX :: nat where
  "ST_KEYS_MAX = 16"

record keytab =
  destructors :: "ptr list"
  key_max :: int

type_synonym dcall = "ptr \<times> ptr"

definition st_key_create :: "ptr \<Rightarrow> keytab \<Rightarrow> (errno + int) \<times> keytab" where
  "st_key_create destructor k =
    (if key_max k \<ge> int ST_KEYS_MAX then (Inl EAGAIN, k)
     else (let key = key_max k;
               k = k\<lparr>key_max := key_max k + 1\<rparr>;
               k = k\<lparr>destructors := (destructors k)[nat key := destructor]\<rparr>
           in (Inr key, k)))"

definition st_key_getlimit :: int where
  "st_key_getlimit = int ST_KEYS_MAX"

definition st_thread_setspecific :: "tid option \<Rightarrow> int \<Rightarrow> ptr \<Rightarrow> keytab \<Rightarrow> st \<Rightarrow> (errno + unit) \<times> dcall list \<times> st" where
  "st_thread_setspecific thread key val k s =
    (case thread of None \<Rightarrow> (Inl EINVAL, [], s)
     | Some t \<Rightarrow>
        (if key < 0 \<or> key \<ge> key_max k then (Inl EINVAL, [], s)
         else (let old = private_data (thr s t) ! nat key; d = destructors k ! nat key
               in if val \<noteq> old
                  then (Inr (), (if old \<noteq> 0 \<and> d \<noteq> 0 then [(d, old)] else []),
                        upd_thr t (\<lambda>x. x\<lparr>private_data := (private_data x)[nat key := val]\<rparr>) s)
                  else (Inr (), [], s))))"

definition st_thread_getspecific :: "tid option \<Rightarrow> int \<Rightarrow> keytab \<Rightarrow> st \<Rightarrow> ptr" where
  "st_thread_getspecific thread key k s =
    (case thread of None \<Rightarrow> 0
     | Some t \<Rightarrow> (if key < 0 \<or> key \<ge> key_max k then 0 else private_data (thr s t) ! nat key))"

text \<open>The \<open>for\<close> loop of \<open>_st_thread_cleanup\<close> over the keys still to visit.\<close>

fun cleanup_loop :: "nat list \<Rightarrow> ptr list \<Rightarrow> ptr list \<Rightarrow> dcall list \<times> ptr list" where
  "cleanup_loop [] ds pd = ([], pd)"
| "cleanup_loop (key # keys) ds pd =
    (if pd ! key \<noteq> 0 \<and> ds ! key \<noteq> 0
     then (let (calls, pd') = cleanup_loop keys ds (pd[key := 0]) in ((ds ! key, pd ! key) # calls, pd'))
     else cleanup_loop keys ds pd)"

definition st_thread_cleanup :: "tid option \<Rightarrow> keytab \<Rightarrow> st \<Rightarrow> dcall list \<times> st" where
  "st_thread_cleanup thread k s =
    (case thread of None \<Rightarrow> ([], s)
     | Some t \<Rightarrow>
        (let (calls, pd) = cleanup_loop [0..<nat (key_max k)] (destructors k) (private_data (thr s t))
         in (calls, upd_thr t (\<lambda>x. x\<lparr>private_data := pd\<rparr>) s)))"

section \<open>Well-formed tables\<close>

definition keytab_ok :: "keytab \<Rightarrow> bool" where
  "keytab_ok k \<longleftrightarrow> length (destructors k) = ST_KEYS_MAX \<and> 0 \<le> key_max k \<and> key_max k \<le> int ST_KEYS_MAX"

definition data_ok :: "st \<Rightarrow> tid \<Rightarrow> bool" where
  "data_ok s t \<longleftrightarrow> length (private_data (thr s t)) = ST_KEYS_MAX"

text \<open>Creating keys one after the other.\<close>

fun create_keys :: "ptr list \<Rightarrow> keytab \<Rightarrow> (errno + int) list \<times> keytab" where
  "create_keys [] k = ([], k)"
| "create_keys (d # ds) k =
    (let (r, k1) = st_key_create d k; (rs, k2) = create_keys ds k1 in (r # rs, k2))"

lemma key_create_ok: "keytab_ok k \<Longrightarrow> keytab_ok (snd (st_key_create d k))"
  by (auto simp: keytab_ok_def st_key_create_def Let_def)

lemma create_keys_ok:
  assumes "keytab_ok k" and "nat (key_max k) + length ds \<le> ST_KEYS_MAX"
  shows "fst (create_keys ds k) = map (\<lambda>i. Inr (key_max k + int i)) [0..<length ds] \<and>
    keytab_ok (snd (create_keys ds k)) \<and> key_max (snd (create_keys ds k)) = key_max k + int (length ds) \<and>
    (\<forall>i < length ds. destructors (snd (create_keys ds k)) ! (nat (key_max k) + i) = ds ! i) \<and>
    (\<forall>j < nat (key_max k). destructors (snd (create_keys ds k)) ! j = destructors k ! j)"
  using assms
proof (induction ds arbitrary: k)
  case Nil
  then show ?case by simp
next
  case (Cons d ds)
  define k1 where "k1 = snd (st_key_create d k)"
  have lt: "key_max k < int ST_KEYS_MAX" "0 \<le> key_max k" "length (destructors k) = ST_KEYS_MAX"
    using Cons.prems by (auto simp: keytab_ok_def)
  have r: "st_key_create d k = (Inr (key_max k), k1)" "key_max k1 = key_max k + 1"
    "destructors k1 = (destructors k)[nat (key_max k) := d]"
    using lt by (auto simp: k1_def st_key_create_def Let_def)
  have n: "nat (key_max k1) = Suc (nat (key_max k))" using r(2) lt by simp
  have ih: "fst (create_keys ds k1) = map (\<lambda>i. Inr (key_max k1 + int i)) [0..<length ds]"
    "keytab_ok (snd (create_keys ds k1))" "key_max (snd (create_keys ds k1)) = key_max k1 + int (length ds)"
    "\<forall>i < length ds. destructors (snd (create_keys ds k1)) ! (nat (key_max k1) + i) = ds ! i"
    "\<forall>j < nat (key_max k1). destructors (snd (create_keys ds k1)) ! j = destructors k1 ! j"
    using Cons.IH [of k1] key_create_ok [OF Cons.prems(1), of d] Cons.prems(2) n by (auto simp: k1_def)
  have c: "create_keys (d # ds) k = (Inr (key_max k) # fst (create_keys ds k1), snd (create_keys ds k1))"
    by (simp add: r(1) split_beta)
  have m: "map (\<lambda>i. Inr (key_max k + int i)) [0..<length (d # ds)] = Inr (key_max k) # map (\<lambda>i. Inr (key_max k1 + int i)) [0..<length ds]"
    by (simp add: upt_conv_Cons map_Suc_upt [symmetric] r(2) del: upt_Suc)
  have "destructors (snd (create_keys ds k1)) ! (nat (key_max k) + i) = (d # ds) ! i" if "i < length (d # ds)" for i
  proof (cases i)
    case 0
    have "destructors (snd (create_keys ds k1)) ! nat (key_max k) = destructors k1 ! nat (key_max k)"
      using ih(5) n by simp
    then show ?thesis using 0 lt r(3) by simp
  next
    case (Suc i')
    then show ?thesis using ih(4) n that by auto
  qed
  moreover have "destructors (snd (create_keys ds k1)) ! j = destructors k ! j" if "j < nat (key_max k)" for j
    using ih(5) n that r(3) by auto
  ultimately show ?case unfolding c fst_conv snd_conv m using ih(1-3) r(2) by simp
qed

text \<open>The cleanup loop visits each key once, so it can be computed key by key.\<close>

definition has_dtor :: "ptr list \<Rightarrow> ptr list \<Rightarrow> nat \<Rightarrow> bool" where
  "has_dtor ds pd key \<longleftrightarrow> pd ! key \<noteq> 0 \<and> ds ! key \<noteq> 0"

lemma cleanup_loop_eq:
  assumes "distinct keys" and "\<forall>key \<in> set keys. key < length pd"
  shows "cleanup_loop keys ds pd =
    (map (\<lambda>key. (ds ! key, pd ! key)) (filter (has_dtor ds pd) keys),
     map (\<lambda>i. if i \<in> set keys \<and> has_dtor ds pd i then 0 else pd ! i) [0..<length pd])"
  using assms
proof (induction keys arbitrary: pd)
  case Nil
  then show ?case by (simp add: map_nth)
next
  case (Cons a keys)
  define pd1 where "pd1 = (if has_dtor ds pd a then pd[a := 0] else pd)"
  have l: "length pd1 = length pd" by (simp add: pd1_def)
  have e: "pd1 ! i = (if i = a \<and> has_dtor ds pd a then 0 else pd ! i)" if "i < length pd" for i
    using that by (simp add: pd1_def nth_list_update)
  have h: "has_dtor ds pd1 i = (i \<noteq> a \<and> has_dtor ds pd i)" if "i < length pd" for i
    using e [OF that] by (auto simp: has_dtor_def)
  have f: "filter (has_dtor ds pd1) keys = filter (has_dtor ds pd) keys"
    using Cons.prems by (intro filter_cong) (auto simp: h)
  have m: "map (\<lambda>key. (ds ! key, pd1 ! key)) (filter (has_dtor ds pd) keys) =
      map (\<lambda>key. (ds ! key, pd ! key)) (filter (has_dtor ds pd) keys)"
    using Cons.prems by (auto simp: e)
  have v: "map (\<lambda>i. if i \<in> set keys \<and> has_dtor ds pd1 i then 0 else pd1 ! i) [0..<length pd1] =
      map (\<lambda>i. if i \<in> set (a # keys) \<and> has_dtor ds pd i then 0 else pd ! i) [0..<length pd]"
    using l by (auto simp: e h)
  have ih: "cleanup_loop keys ds pd1 = (map (\<lambda>key. (ds ! key, pd ! key)) (filter (has_dtor ds pd) keys),
      map (\<lambda>i. if i \<in> set (a # keys) \<and> has_dtor ds pd i then 0 else pd ! i) [0..<length pd])"
    using Cons.IH [of pd1] Cons.prems l f m v by simp
  show ?case
  proof (cases "has_dtor ds pd a")
    case True
    then have "cleanup_loop (a # keys) ds pd = (case cleanup_loop keys ds pd1 of (calls, pd') \<Rightarrow> ((ds ! a, pd ! a) # calls, pd'))"
      by (simp add: pd1_def) (simp add: has_dtor_def)
    then show ?thesis unfolding ih using True by simp
  next
    case False
    then have "cleanup_loop (a # keys) ds pd = cleanup_loop keys ds pd1"
      by (simp add: pd1_def) (auto simp: has_dtor_def)
    then show ?thesis unfolding ih using False by simp
  qed
qed

section \<open>Properties\<close>

definition demo_keys :: keytab where
  "demo_keys = \<lparr>destructors = 100 # 0 # 300 # replicate 13 0, key_max = 3\<rparr>"

definition demo_data :: st where
  "demo_data = \<lparr>links = \<lparr>lnext = \<lambda>_. None, lprev = \<lambda>_. None\<rparr>,
     heap = \<lparr>due = \<lambda>_. 0, left = \<lambda>_. None, right = \<lambda>_. None, heap_index = \<lambda>_. 0, sleep_q = None, sleepq_size = 0\<rparr>,
     thr = (\<lambda>t. \<lparr>state = ST_ST_RUNNING, flags = 0, start = 0, arg = 0, retval = 0,
       private_data = 7 # 8 # 9 # replicate 13 0, term_cv = None, has_context = True\<rparr>),
     idle_thread = None, last_clock = 0, pagesize = 4096, this_thread = Some 1, active_count = 1,
     curr_time = 0, last_tset = 0, mutex_owner = (\<lambda>_. None), fiber_native = True, cur_context = None, running = None\<rparr>"

text \<open>
  C14: Thread-specific data. Setting a valid key of a thread and reading it back gives the value; no
  other key and no other thread changes; the destructor of the key is called exactly if it exists and
  the old value is not \<open>NULL\<close> and different from the new one, and then once, on the old value. A
  missing thread or an invalid key gives \<open>EINVAL\<close> and changes nothing.
\<close>

theorem setspecific_getspecific:
  assumes "keytab_ok k" and "data_ok s t"
  shows "case st_thread_setspecific (Some t) key val k s of (r, calls, s') \<Rightarrow>
    (if 0 \<le> key \<and> key < key_max k
     then r = Inr () \<and> st_thread_getspecific (Some t) key k s' = val \<and>
       (\<forall>u key'. u \<noteq> t \<or> key' \<noteq> key \<longrightarrow>
          st_thread_getspecific (Some u) key' k s' = st_thread_getspecific (Some u) key' k s) \<and>
       (let old = st_thread_getspecific (Some t) key k s; d = destructors k ! nat key
        in calls = (if old \<noteq> val \<and> old \<noteq> 0 \<and> d \<noteq> 0 then [(d, old)] else [])) \<and> data_ok s' t
     else r = Inl EINVAL \<and> calls = [] \<and> s' = s)"
proof (cases "0 \<le> key \<and> key < key_max k")
  case True
  then have l: "nat key < length (private_data (thr s t))"
    using assms by (auto simp: keytab_ok_def data_ok_def)
  have "nat key' \<noteq> nat key" if "key' \<noteq> key" "0 \<le> key'" for key' using that True by auto
  then show ?thesis
    using True l assms(2)
    by (auto simp: st_thread_setspecific_def st_thread_getspecific_def Let_def data_ok_def nth_list_update)
qed (auto simp: st_thread_setspecific_def)

theorem setspecific_getspecific_witness:
  "keytab_ok demo_keys \<and> data_ok demo_data 1 \<and>
   (\<exists>s'. st_thread_setspecific (Some 1) 2 5 demo_keys demo_data = (Inr (), [(300, 9)], s') \<and>
     st_thread_getspecific (Some 1) 2 demo_keys s' = 5)"
proof -
  have o: "keytab_ok demo_keys" "data_ok demo_data 1"
    by (simp_all add: keytab_ok_def data_ok_def demo_keys_def demo_data_def ST_KEYS_MAX_def)
  obtain r calls s' where e: "st_thread_setspecific (Some 1) 2 5 demo_keys demo_data = (r, calls, s')"
    by (metis prod_cases3)
  have "st_thread_getspecific (Some 1) 2 demo_keys demo_data = 9" "destructors demo_keys ! 2 = 300" "key_max demo_keys = 3"
    by (simp_all add: st_thread_getspecific_def demo_keys_def demo_data_def)
  then show ?thesis using setspecific_getspecific [OF o, of 2 5] e o by (auto simp: Let_def)
qed

text \<open>
  Key creation. While fewer than \<open>ST_KEYS_MAX\<close> keys exist, \<open>st_key_create\<close> hands out the next unused
  number and records the destructor, leaving those of earlier keys alone; from then on it returns
  \<open>EAGAIN\<close> and changes nothing. So at most 16 keys are ever valid.
\<close>

theorem create_keys_fresh:
  assumes "keytab_ok k" and "nat (key_max k) + length ds = ST_KEYS_MAX"
  shows "(case create_keys ds k of (rs, k') \<Rightarrow>
      rs = map (\<lambda>i. Inr (key_max k + int i)) [0..<length ds] \<and> key_max k' = st_key_getlimit \<and>
      (\<forall>i < length ds. destructors k' ! (nat (key_max k) + i) = ds ! i) \<and>
      (\<forall>j < nat (key_max k). destructors k' ! j = destructors k ! j) \<and>
      (\<forall>d. st_key_create d k' = (Inl EAGAIN, k')))"
proof -
  obtain rs k' where c: "create_keys ds k = (rs, k')" by fastforce
  have le: "nat (key_max k) + length ds \<le> ST_KEYS_MAX" using assms(2) by simp
  have "key_max k' = key_max k + int (length ds)" using create_keys_ok [OF assms(1) le] c by simp
  then have "key_max k' = int ST_KEYS_MAX" using assms by (auto simp: keytab_ok_def)
  then show ?thesis
    using create_keys_ok [OF assms(1) le] c by (simp add: st_key_getlimit_def st_key_create_def)
qed

theorem create_keys_fresh_witness:
  "keytab_ok demo_keys \<and> (case create_keys (replicate 13 4) demo_keys of (rs, k') \<Rightarrow>
     rs = map (\<lambda>i. Inr (3 + int i)) [0..<13] \<and> st_key_create 9 k' = (Inl EAGAIN, k'))"
proof -
  have "keytab_ok demo_keys" "nat (key_max demo_keys) + length (replicate 13 (4 :: ptr)) = ST_KEYS_MAX"
    by (simp_all add: keytab_ok_def demo_keys_def ST_KEYS_MAX_def)
  from create_keys_fresh [OF this] this(1) show ?thesis by (auto simp: demo_keys_def)
qed

text \<open>
  Cleanup at thread exit calls, in the order of the keys, the destructor of every key that has one
  and whose value is not \<open>NULL\<close>, each exactly once and on that value, and clears those values. Running
  it again calls nothing.
\<close>

theorem cleanup_once:
  assumes "keytab_ok k" and "data_ok s t"
  shows "case st_thread_cleanup (Some t) k s of (calls, s') \<Rightarrow>
    calls = map (\<lambda>key. (destructors k ! key, private_data (thr s t) ! key))
      (filter (\<lambda>key. private_data (thr s t) ! key \<noteq> 0 \<and> destructors k ! key \<noteq> 0) [0..<nat (key_max k)]) \<and>
    (\<forall>key < ST_KEYS_MAX. private_data (thr s' t) ! key =
      (if int key < key_max k \<and> destructors k ! key \<noteq> 0 then 0 else private_data (thr s t) ! key)) \<and>
    fst (st_thread_cleanup (Some t) k s') = []"
proof -
  define pd where "pd = private_data (thr s t)"
  define n where "n = nat (key_max k)"
  have b: "n \<le> length pd" "length pd = ST_KEYS_MAX"
    using assms by (auto simp: n_def pd_def keytab_ok_def data_ok_def)
  define pd' where "pd' = map (\<lambda>i. if i \<in> set [0..<n] \<and> has_dtor (destructors k) pd i then 0 else pd ! i) [0..<length pd]"
  have e: "cleanup_loop [0..<n] (destructors k) pd =
      (map (\<lambda>key. (destructors k ! key, pd ! key)) (filter (has_dtor (destructors k) pd) [0..<n]), pd')"
    unfolding pd'_def by (rule cleanup_loop_eq) (use b in auto)
  have nth: "pd' ! i = (if i < n \<and> destructors k ! i \<noteq> 0 then 0 else pd ! i)" if "i < ST_KEYS_MAX" for i
    using that b by (auto simp: pd'_def has_dtor_def)
  have len: "length pd' = length pd" by (simp add: pd'_def)
  have "filter (has_dtor (destructors k) pd') [0..<n] = []"
    using b nth by (auto simp: has_dtor_def filter_empty_conv)
  then have again: "fst (cleanup_loop [0..<n] (destructors k) pd') = []"
    using cleanup_loop_eq [of "[0..<n]" pd' "destructors k"] b len by auto
  show ?thesis
    using e nth again assms(1)
    by (auto simp: st_thread_cleanup_def pd_def [symmetric] n_def [symmetric] has_dtor_def [abs_def] keytab_ok_def split_beta)
      (auto simp: n_def)
qed

theorem cleanup_once_witness:
  "keytab_ok demo_keys \<and> data_ok demo_data 1 \<and>
   (\<exists>s'. st_thread_cleanup (Some 1) demo_keys demo_data = ([(100, 7), (300, 9)], s') \<and>
     fst (st_thread_cleanup (Some 1) demo_keys s') = [])"
proof -
  have o: "keytab_ok demo_keys" "data_ok demo_data 1"
    by (simp_all add: keytab_ok_def data_ok_def demo_keys_def demo_data_def ST_KEYS_MAX_def)
  obtain calls s' where e: "st_thread_cleanup (Some 1) demo_keys demo_data = (calls, s')" by fastforce
  have "nat (key_max demo_keys) = 3" by (simp add: demo_keys_def)
  then have "calls = [(100, 7), (300, 9)]" "fst (st_thread_cleanup (Some 1) demo_keys s') = []"
    using cleanup_once [OF o] e by (auto simp: demo_keys_def demo_data_def upt_conv_Cons numeral_3_eq_3)
  then show ?thesis using e o by auto
qed

end
