(* ===== verification/Stacks.thy ===== *)
theory Stacks
  imports Clist
begin

text \<open>
  stk.c: thread stacks and the list of free stacks. The stack objects (\<open>_st_stack_t\<close>) and the list
  head \<open>_st_free_stacks\<close> share one link memory; \<open>calloc\<close>, \<open>malloc\<close> and \<open>rand\<close> are arguments of the
  operations that call them.
\<close>

section \<open>Operations\<close>

datatype snode = FreeStacks | StackLinks nat

record stack =
  vaddr :: int
  vaddr_size :: int
  stk_size :: int
  stk_bottom :: int
  stk_top :: int
  sp :: int

record stacks =
  slinks :: "snode links"
  stk :: "nat \<Rightarrow> stack"
  num_free_stacks :: int
  randomize_stacks :: bool

fun ST_THREAD_STACK_PTR :: "snode \<Rightarrow> nat option" where
  "ST_THREAD_STACK_PTR (StackLinks i) = Some i"
| "ST_THREAD_STACK_PTR FreeStacks = None"

text \<open>The first-fit loop of \<open>_st_stack_new\<close>: \<open>Some None\<close> when no free stack is big enough.\<close>

partial_function (option) stack_find :: "int \<Rightarrow> snode \<Rightarrow> stacks \<Rightarrow> nat option option" where
  "stack_find stack_size qp s =
    (if qp = FreeStacks then Some None
     else (case ST_THREAD_STACK_PTR qp of None \<Rightarrow> None
           | Some ts \<Rightarrow>
              (if stk_size (stk s ts) \<ge> stack_size then Some (Some ts)
               else (case lnext (slinks s) qp of None \<Rightarrow> None | Some qp \<Rightarrow> stack_find stack_size qp s))))"

definition stack_take :: "nat \<Rightarrow> stacks \<Rightarrow> stacks" where
  "stack_take ts s =
    (let s = s\<lparr>slinks := ST_REMOVE_LINK (StackLinks ts) (slinks s)\<rparr>;
         s = s\<lparr>num_free_stacks := num_free_stacks s - 1\<rparr>;
         s = s\<lparr>slinks := set_next (StackLinks ts) None (slinks s)\<rparr>
     in s\<lparr>slinks := set_prev (StackLinks ts) None (slinks s)\<rparr>)"

text \<open>
  A fresh stack of \<open>stack_size\<close> bytes in the segment at \<open>seg\<close>. \<open>rnd\<close> is the value of \<open>rand()\<close>.
\<close>

definition stack_init :: "int \<Rightarrow> int \<Rightarrow> int \<Rightarrow> int \<Rightarrow> bool \<Rightarrow> stack" where
  "stack_init stack_size page seg rnd randomize =
    (let extra = (if randomize then page else 0);
         bottom = seg + page;
         top = bottom + stack_size;
         offset = (if extra \<noteq> 0 then (rnd mod extra) AND (NOT 15) else 0)
     in \<lparr>vaddr = seg, vaddr_size = stack_size + 2 * page + extra, stk_size = stack_size,
         stk_bottom = bottom + offset, stk_top = top + offset, sp = 0\<rparr>)"

text \<open>
  \<open>obj\<close> is the object \<open>calloc\<close> returns, \<open>seg\<close> the function \<open>_st_new_stk_segment\<close> (\<open>malloc\<close> of the given
  size on Windows), with 0 for \<open>NULL\<close>.
\<close>

definition st_stack_new :: "int \<Rightarrow> int \<Rightarrow> nat option \<Rightarrow> (int \<Rightarrow> int) \<Rightarrow> int \<Rightarrow> stacks \<Rightarrow> (nat option \<times> stacks) option" where
  "st_stack_new stack_size page obj seg rnd s =
    (case lnext (slinks s) FreeStacks of None \<Rightarrow> None
     | Some qp \<Rightarrow>
        (case stack_find stack_size qp s of None \<Rightarrow> None
         | Some (Some ts) \<Rightarrow> Some (Some ts, stack_take ts s)
         | Some None \<Rightarrow>
            (case obj of None \<Rightarrow> Some (None, s)
             | Some ts \<Rightarrow>
                (let extra = (if randomize_stacks s then page else 0);
                     a = seg (stack_size + 2 * page + extra)
                 in if a = 0 then Some (None, s)
                    else Some (Some ts, s\<lparr>stk := (stk s)(ts := stack_init stack_size page a rnd (randomize_stacks s)),
                           slinks := set_prev (StackLinks ts) None (set_next (StackLinks ts) None (slinks s))\<rparr>)))))"

text \<open>The stack goes before the last element: the second argument of the macro is \<open>_st_free_stacks.prev\<close>.\<close>

definition st_stack_free :: "nat option \<Rightarrow> stacks \<Rightarrow> stacks option" where
  "st_stack_free ts s =
    (case ts of None \<Rightarrow> Some s
     | Some t \<Rightarrow>
        (case lprev (slinks s) FreeStacks of None \<Rightarrow> None
         | Some p \<Rightarrow>
            Some (s\<lparr>slinks := ST_APPEND_LINK (StackLinks t) p (slinks s),
                    num_free_stacks := num_free_stacks s + 1\<rparr>)))"

definition st_randomize_stacks :: "bool \<Rightarrow> stacks \<Rightarrow> bool \<times> stacks" where
  "st_randomize_stacks on s = (randomize_stacks s, s\<lparr>randomize_stacks := on\<rparr>)"

section \<open>The free list\<close>

definition free_stacks :: "stacks \<Rightarrow> nat list \<Rightarrow> bool" where
  "free_stacks s fs \<longleftrightarrow> is_clist (slinks s) FreeStacks (map StackLinks fs) \<and> num_free_stacks s = int (length fs)"

lemma stack_find_ok:
  assumes "is_clist (slinks s) FreeStacks (map StackLinks (us @ fs))"
  shows "stack_find stack_size (hd (map StackLinks fs @ [FreeStacks])) s = Some (find (\<lambda>i. stk_size (stk s i) \<ge> stack_size) fs)"
  using assms
proof (induction fs arbitrary: us)
  case Nil
  then show ?case by (subst stack_find.simps) simp
next
  case (Cons i fs)
  have "lnext (slinks s) (StackLinks i) = Some (hd (map StackLinks fs @ [FreeStacks]))"
    using is_clist_next [of "slinks s" FreeStacks "map StackLinks us" "StackLinks i" "map StackLinks fs"] Cons.prems
    by simp
  then show ?case using Cons.IH [of "us @ [i]"] Cons.prems
    by (subst stack_find.simps) simp
qed

lemma stack_first_fit:
  assumes "free_stacks s fs"
  shows "\<exists>qp. lnext (slinks s) FreeStacks = Some qp \<and>
    stack_find stack_size qp s = Some (find (\<lambda>i. stk_size (stk s i) \<ge> stack_size) fs)"
proof -
  have c: "is_clist (slinks s) FreeStacks (map StackLinks fs)" using assms by (simp add: free_stacks_def)
  have "lnext (slinks s) FreeStacks = Some (hd (map StackLinks fs @ [FreeStacks]))"
    using is_clist_head [OF c] by (auto split: list.splits)
  then show ?thesis using stack_find_ok [of s "[]" fs stack_size] c by simp
qed

lemma inj_StackLinks [simp]: "inj StackLinks"
  by (simp add: inj_def)

lemma free_distinct: "free_stacks s fs \<Longrightarrow> distinct fs"
  by (auto simp: free_stacks_def is_clist_def distinct_map)

lemma stack_take_ok:
  assumes "free_stacks s fs" and "ts \<in> set fs"
  shows "free_stacks (stack_take ts s) (remove1 ts fs)" and "stk (stack_take ts s) = stk s"
proof -
  have c: "is_clist (slinks s) FreeStacks (map StackLinks fs)" using assms by (simp add: free_stacks_def)
  have r: "is_clist (ST_REMOVE_LINK (StackLinks ts) (slinks s)) FreeStacks (map StackLinks (remove1 ts fs))"
    using stq.holds_remove [OF c, of "StackLinks ts"] assms(2) by (simp add: remove1_map_inj)
  have nin: "StackLinks ts \<notin> set (FreeStacks # map StackLinks (remove1 ts fs))"
    using free_distinct [OF assms(1)] by auto
  have "is_clist (slinks (stack_take ts s)) FreeStacks (map StackLinks (remove1 ts fs))"
    by (rule is_clist_cong [THEN iffD2, OF _ r]) (use nin in \<open>auto simp: stack_take_def Let_def\<close>)
  moreover have "num_free_stacks (stack_take ts s) = int (length (remove1 ts fs))"
    using assms length_pos_if_in_set [OF assms(2)]
    by (simp add: free_stacks_def stack_take_def Let_def length_remove1 of_nat_diff Suc_le_eq)
  ultimately show "free_stacks (stack_take ts s) (remove1 ts fs)" by (simp add: free_stacks_def)
  show "stk (stack_take ts s) = stk s" by (simp add: stack_take_def Let_def)
qed

lemma stack_free_ok:
  assumes "free_stacks s fs" and "ts \<notin> set fs"
  obtains s' where "st_stack_free (Some ts) s = Some s'" and "stk s' = stk s"
    and "free_stacks s' (if fs = [] then [ts] else butlast fs @ [ts, last fs])"
proof -
  have c: "is_clist (slinks s) FreeStacks (map StackLinks fs)" using assms by (simp add: free_stacks_def)
  show thesis
  proof (cases fs rule: rev_cases)
    case Nil
    have "is_clist (ST_APPEND_LINK (StackLinks ts) FreeStacks (slinks s)) FreeStacks [StackLinks ts]"
      using append_link_clist [OF c, of "StackLinks ts"] Nil by simp
    moreover have "lprev (slinks s) FreeStacks = Some FreeStacks" using is_clist_tail [OF c] Nil by simp
    ultimately show thesis using that assms(1) Nil by (simp add: st_stack_free_def free_stacks_def)
  next
    case (snoc gs l)
    have c': "is_clist (slinks s) FreeStacks (map StackLinks gs @ StackLinks l # [])" using c snoc by simp
    have "is_clist (ST_INSERT_BEFORE (StackLinks ts) (StackLinks l) (slinks s)) FreeStacks
        (map StackLinks gs @ StackLinks ts # StackLinks l # [])"
      by (rule insert_before_clist [OF c']) (use assms(2) snoc in auto)
    moreover have "lprev (slinks s) FreeStacks = Some (StackLinks l)" using is_clist_tail [OF c] snoc by simp
    ultimately show thesis
      using that assms(1) snoc by (simp add: st_stack_free_def free_stacks_def ST_APPEND_LINK_def)
  qed
qed

lemma stack_new_reuse:
  assumes "free_stacks s fs" and "find (\<lambda>i. stk_size (stk s i) \<ge> stack_size) fs = Some i"
  shows "st_stack_new stack_size page obj seg rnd s = Some (Some i, stack_take i s)"
    and "free_stacks (stack_take i s) (remove1 i fs)" and "stack_size \<le> stk_size (stk s i)" and "i \<in> set fs"
proof -
  obtain qp where q: "lnext (slinks s) FreeStacks = Some qp" "stack_find stack_size qp s = Some (Some i)"
    using stack_first_fit [OF assms(1), of stack_size] assms(2) by auto
  then show "st_stack_new stack_size page obj seg rnd s = Some (Some i, stack_take i s)"
    by (simp add: st_stack_new_def)
  show i: "i \<in> set fs" "stack_size \<le> stk_size (stk s i)" using assms(2) by (auto simp: find_Some_iff)
  show "free_stacks (stack_take i s) (remove1 i fs)" by (rule stack_take_ok(1) [OF assms(1) i(1)])
qed

lemma stack_new_fresh:
  assumes "free_stacks s fs" and "find (\<lambda>i. stk_size (stk s i) \<ge> stack_size) fs = None" and "ts \<notin> set fs"
    and a: "a = seg (stack_size + 2 * page + (if randomize_stacks s then page else 0))" "a \<noteq> 0"
  obtains s' where "st_stack_new stack_size page (Some ts) seg rnd s = Some (Some ts, s')" and "free_stacks s' fs"
    and "stk s' = (stk s)(ts := stack_init stack_size page a rnd (randomize_stacks s))"
proof -
  have q: "\<exists>qp. lnext (slinks s) FreeStacks = Some qp \<and> stack_find stack_size qp s = Some None"
    using stack_first_fit [OF assms(1), of stack_size] assms(2) by auto
  define s' where "s' = s\<lparr>stk := (stk s)(ts := stack_init stack_size page a rnd (randomize_stacks s)),
      slinks := set_prev (StackLinks ts) None (set_next (StackLinks ts) None (slinks s))\<rparr>"
  have c: "is_clist (slinks s) FreeStacks (map StackLinks fs)" using assms by (simp add: free_stacks_def)
  have "is_clist (slinks s') FreeStacks (map StackLinks fs)"
    by (rule is_clist_cong [THEN iffD2, OF _ c]) (use assms(3) in \<open>auto simp: s'_def\<close>)
  then have "free_stacks s' fs" using assms(1) by (simp add: free_stacks_def s'_def)
  then show thesis using that [of s'] q a by (auto simp: st_stack_new_def s'_def Let_def)
qed

lemma and_not_15: "(x::int) AND NOT 15 = x - x mod 16"
proof -
  have "x AND NOT (mask 4) = push_bit 4 (drop_bit 4 x)"
    by (rule bit_eqI) (auto simp: bit_and_iff bit_not_iff_eq bit_mask_iff bit_push_bit_iff_int bit_drop_bit_eq)
  moreover have "push_bit 4 (drop_bit 4 x) + take_bit 4 x = x" by (rule bits_ident)
  moreover have "mask 4 = (15 :: int)" by (simp add: mask_eq_exp_minus_1)
  ultimately show ?thesis by (simp add: take_bit_eq_mod)
qed

section \<open>Properties\<close>

definition demo_stacks :: stacks where
  "demo_stacks = \<lparr>slinks = ST_APPEND_LINK (StackLinks 12) FreeStacks (ST_APPEND_LINK (StackLinks 11) FreeStacks
      (ST_INIT_CLIST FreeStacks \<lparr>lnext = \<lambda>_. None, lprev = \<lambda>_. None\<rparr>)),
    stk = (\<lambda>i. stack_init (if i = 12 then 131072 else 65536) 4096 (1048576 * int i) 0 False),
    num_free_stacks = 2, randomize_stacks = True\<rparr>"

lemma demo_free: "free_stacks demo_stacks [11, 12]"
  by (simp add: free_stacks_def demo_stacks_def is_clist_def ST_APPEND_LINK_def ST_INSERT_BEFORE_def
      ST_INIT_CLIST_def Let_def)

lemma demo_stk: "stk_size (stk demo_stacks i) = (if i = 12 then 131072 else 65536)"
  by (simp add: demo_stacks_def stack_init_def Let_def)

text \<open>
  \<open>_st_stack_new\<close> is a first-fit allocator with a free list. It always returns: the first free
  stack that is big enough if there is one, taken off the list; otherwise a fresh stack of exactly
  the requested size, with the list unchanged, or \<open>NULL\<close> with nothing changed if \<open>calloc\<close> or \<open>malloc\<close>
  fails.
\<close>

theorem st_stack_new_first_fit:
  assumes "free_stacks s fs" and "\<forall>ts. obj = Some ts \<longrightarrow> ts \<notin> set fs"
    and "a = seg (stack_size + 2 * page + (if randomize_stacks s then page else 0))"
  shows "\<exists>r s'. st_stack_new stack_size page obj seg rnd s = Some (r, s') \<and>
    (case filter (\<lambda>i. stack_size \<le> stk_size (stk s i)) fs of
       i # _ \<Rightarrow> r = Some i \<and> free_stacks s' (remove1 i fs) \<and> stk s' = stk s
     | [] \<Rightarrow> (if obj = None \<or> a = 0 then r = None \<and> s' = s
              else r = obj \<and> free_stacks s' fs \<and> stk_size (stk s' (the obj)) = stack_size \<and>
                vaddr (stk s' (the obj)) = a \<and> (\<forall>i. obj \<noteq> Some i \<longrightarrow> stk s' i = stk s i)))"
proof (cases "find (\<lambda>i. stk_size (stk s i) \<ge> stack_size) fs")
  case (Some i)
  have "\<exists>is. filter (\<lambda>i. stack_size \<le> stk_size (stk s i)) fs = i # is"
    using Some by (induction fs) (auto split: if_splits)
  then show ?thesis
    using stack_new_reuse [OF assms(1) Some] stack_take_ok(2) [OF assms(1)] by fastforce
next
  case None
  have f: "filter (\<lambda>i. stack_size \<le> stk_size (stk s i)) fs = []"
    using None by (auto simp: find_None_iff filter_empty_conv)
  obtain qp where q: "lnext (slinks s) FreeStacks = Some qp" "stack_find stack_size qp s = Some None"
    using stack_first_fit [OF assms(1), of stack_size] None by auto
  show ?thesis
  proof (cases "obj = None \<or> a = 0")
    case True
    then show ?thesis using q f assms(3) by (cases obj) (auto simp: st_stack_new_def Let_def)
  next
    case False
    then obtain ts where ts: "obj = Some ts" "a \<noteq> 0" by auto
    obtain s' where "st_stack_new stack_size page (Some ts) seg rnd s = Some (Some ts, s')" "free_stacks s' fs"
      "stk s' = (stk s)(ts := stack_init stack_size page a rnd (randomize_stacks s))"
      by (rule stack_new_fresh [OF assms(1) None, of ts a seg page rnd]) (use assms(2,3) ts in auto)
    then show ?thesis using f ts by (auto simp: stack_init_def Let_def)
  qed
qed

theorem st_stack_new_first_fit_witness:
  "free_stacks demo_stacks [11, 12] \<and>
   (\<exists>s'. st_stack_new 100000 4096 (Some 3) (\<lambda>n. 9000000) 77 demo_stacks = Some (Some 12, s') \<and> free_stacks s' [11])"
  using st_stack_new_first_fit [OF demo_free, of "Some 3" 9000000 "\<lambda>n. 9000000" 100000 4096 77] demo_free
  by (auto simp: demo_stk)



text \<open>
  Freed stacks are reused. After a stack has been freed, a request that it can satisfy is served
  from the free list and never reaches the system allocator. The freed stack goes on the list just
  before the last element (not at the end), and the count of free stacks stays exact.
\<close>

theorem stack_free_new:
  assumes "free_stacks s fs" and "ts \<notin> set fs" and "stack_size \<le> stk_size (stk s ts)"
  shows "\<exists>s1 i s2. st_stack_free (Some ts) s = Some s1 \<and>
    free_stacks s1 (if fs = [] then [ts] else butlast fs @ [ts, last fs]) \<and>
    st_stack_new stack_size page None seg rnd s1 = Some (Some i, s2) \<and> i \<in> insert ts (set fs) \<and>
    stack_size \<le> stk_size (stk s i) \<and> num_free_stacks s2 = num_free_stacks s"
proof -
  let ?fs = "if fs = [] then [ts] else butlast fs @ [ts, last fs]"
  obtain s1 where s1: "st_stack_free (Some ts) s = Some s1" "stk s1 = stk s" "free_stacks s1 ?fs"
    by (rule stack_free_ok [OF assms(1,2)])
  have in_fs: "ts \<in> set ?fs" by auto
  then obtain i where i: "find (\<lambda>i. stk_size (stk s1 i) \<ge> stack_size) ?fs = Some i"
    using assms(3) s1(2) by (metis find_None_iff option.exhaust)
  note r = stack_new_reuse [OF s1(3) i]
  have sub: "set ?fs \<subseteq> insert ts (set fs)" using in_set_butlastD [of _ fs] last_in_set [of fs] by auto
  have "length ?fs = Suc (length fs)" by (cases fs) auto
  then have "num_free_stacks (stack_take i s1) = num_free_stacks s"
    using r(2,4) assms(1) by (simp add: free_stacks_def length_remove1)
  then show ?thesis using s1 r sub by (intro exI [of _ s1] exI [of _ i] exI [of _ "stack_take i s1"]) auto
qed

theorem stack_free_new_witness:
  "free_stacks demo_stacks [11, 12] \<and>
   (\<exists>s1 i s2. st_stack_free (Some 5) demo_stacks = Some s1 \<and> free_stacks s1 [11, 5, 12] \<and>
     st_stack_new 65536 4096 None (\<lambda>_. 0) 0 s1 = Some (Some i, s2) \<and> num_free_stacks s2 = 2)"
  using stack_free_new [OF demo_free, of 5 65536 4096 "\<lambda>_. 0" 0] demo_free
  by (auto simp: demo_stk) (auto simp: demo_stacks_def)

end
