(* ===== verification/Threads.thy ===== *)
theory Threads
  imports Sync_Machine Keys Stacks "HOL-Library.Signed_Division"
begin

text \<open>
  The life of a thread (sched.c): creation, the start routine, exit and join, initialisation of the
  virtual processor, and the idle loops. The thread object and its private data are carved from the
  top of its stack, so a thread has the number of its stack: a stack that is on the free list and
  handed out again becomes a new thread at the same address.
\<close>

section \<open>Operations\<close>

record sys =
  vp :: st
  stks :: stacks
  kt :: keytab
  dcalls :: "dcall list"

text \<open>What the allocators, \<open>rand\<close> and \<open>createFiber\<close> return to one call of \<open>st_thread_create\<close>.\<close>

record create_env =
  stack_obj :: "nat option"
  stack_seg :: "int \<Rightarrow> int"
  rand_val :: int
  fiber_ok :: bool
  cond_obj :: "cid option"

definition ST_DEFAULT_STACK_SIZE :: int where
  "ST_DEFAULT_STACK_SIZE = 64 * 1024"

definition MD_STACK_PAD_SIZE :: int where
  "MD_STACK_PAD_SIZE = 128"

definition round_stack_size :: "int \<Rightarrow> int \<Rightarrow> int" where
  "round_stack_size page stk_sz =
    (let n = (if stk_sz = 0 then ST_DEFAULT_STACK_SIZE else stk_sz)
     in ((n + page - 1) sdiv page) * page)"

text \<open>
  The stack pointer below the private data (16 pointers of \<open>ptr_size\<close> bytes) and the thread object
  (\<open>thread_size\<close> bytes), aligned to 64 bytes, less the pad.
\<close>

definition initial_sp :: "int \<Rightarrow> int \<Rightarrow> int \<Rightarrow> int" where
  "initial_sp ptr_size thread_size stop =
    (let p = stop - int ST_KEYS_MAX * ptr_size;
         p = p - thread_size;
         p = (if p AND 0x3f \<noteq> 0 then p - (p AND 0x3f) else p)
     in p - MD_STACK_PAD_SIZE)"

definition clear_node :: "'n \<Rightarrow> 'n links \<Rightarrow> 'n links" where
  "clear_node n l = set_prev n None (set_next n None l)"

text \<open>\<open>memset(thread, 0, ...)\<close> and \<open>memset(ptds, 0, ...)\<close>: state 0 is \<open>_ST_ST_RUNNING\<close>.\<close>

definition zero_thread :: thread where
  "zero_thread = \<lparr>state = ST_ST_RUNNING, flags = 0, start = 0, arg = 0, retval = 0,
     private_data = replicate ST_KEYS_MAX 0, term_cv = None, has_context = False\<rparr>"

definition clear_timer :: "tid \<Rightarrow> theap \<Rightarrow> theap" where
  "clear_timer t h = h\<lparr>due := (due h)(t := 0), left := (left h)(t := None), right := (right h)(t := None),
     heap_index := (heap_index h)(t := 0)\<rparr>"

definition clear_thread :: "tid \<Rightarrow> st \<Rightarrow> st" where
  "clear_thread t s = s\<lparr>thr := (thr s)(t := zero_thread), heap := clear_timer t (heap s),
     links := clear_node (Links t) (clear_node (WaitLinks t) (links s))\<rparr>"

definition st_thread_create ::
  "ptr \<Rightarrow> ptr \<Rightarrow> bool \<Rightarrow> int \<Rightarrow> int \<Rightarrow> int \<Rightarrow> create_env \<Rightarrow> sys \<Rightarrow> (tid option \<times> sys) option" where
  "st_thread_create start_fn arg_val joinable stk_sz ptr_size thread_size env y =
    (let page = pagesize (vp y)
     in case st_stack_new (round_stack_size page stk_sz) page (stack_obj env) (stack_seg env) (rand_val env) (stks y) of
          None \<Rightarrow> None
        | Some (None, k) \<Rightarrow> Some (None, y\<lparr>stks := k\<rparr>)
        | Some (Some t, k) \<Rightarrow>
           (let k = k\<lparr>stk := (stk k)(t := (stk k t)\<lparr>sp := initial_sp ptr_size thread_size (stk_top (stk k t))\<rparr>)\<rparr>;
                s = clear_thread t (vp y);
                s = upd_thr t (\<lambda>x. x\<lparr>start := start_fn, arg := arg_val, has_context := fiber_ok env\<rparr>) s;
                (failed, s) =
                  (if joinable
                   then (case st_cond_new (cond_obj env) s of (None, s) \<Rightarrow> (True, s)
                         | (Some c, s) \<Rightarrow> (False, upd_thr t (\<lambda>x. x\<lparr>term_cv := Some c\<rparr>) s))
                   else (False, s))
            in if failed
               then map_option (\<lambda>k. (None, y\<lparr>vp := s, stks := k\<rparr>)) (st_stack_free (Some t) k)
               else (let s = set_state t ST_ST_RUNNABLE s;
                         s = s\<lparr>active_count := active_count s + 1\<rparr>;
                         s = ST_ADD_RUNQ t s
                     in Some (Some t, y\<lparr>vp := s, stks := k\<rparr>))))"

text \<open>
  \<open>_ST_SWITCH_CONTEXT(thread)\<close> in \<open>st_thread_exit\<close> names the exiting thread itself, so control stays
  with it.
\<close>

definition st_thread_exit :: "ptr \<Rightarrow> sys \<Rightarrow> sys option" where
  "st_thread_exit rv y =
    (case this_thread (vp y) of None \<Rightarrow> Some y
     | Some t \<Rightarrow>
        (let s = upd_thr t (\<lambda>x. x\<lparr>retval := rv\<rparr>) (vp y);
             (calls, s) = st_thread_cleanup (Some t) (kt y) s;
             s = s\<lparr>active_count := active_count s - 1\<rparr>;
             s = set_state t ST_ST_ZOMBIE s
         in case (case term_cv (thr s t) of None \<Rightarrow> Some s
                  | Some c \<Rightarrow>
                      (case st_cond_signal c (ST_ADD_ZOMBIEQ t s) of None \<Rightarrow> None
                       | Some s \<Rightarrow>
                          (let s = ST_SWITCH_CONTEXT t s
                           in Some (upd_thr t (\<lambda>x. x\<lparr>term_cv := None\<rparr>) s)))) of
              None \<Rightarrow> None
            | Some s \<Rightarrow>
               (case (if \<not> has_flag s t ST_FL_PRIMORDIAL then st_stack_free (Some t) (stks y) else Some (stks y)) of
                  None \<Rightarrow> None
                | Some k \<Rightarrow>
                    Some (y\<lparr>vp := ST_SWITCH_CONTEXT t s, stks := k, dcalls := dcalls y @ calls\<rparr>))))"

text \<open>
  The loop of \<open>st_thread_join\<close>: each wait on the termination condition variable lets the other
  threads run (the head of the list); when the list is used up the call has not returned.
\<close>

fun join_loop :: "tid \<Rightarrow> cid \<Rightarrow> others list \<Rightarrow> st \<Rightarrow> ((errno + unit) \<times> st) option" where
  "join_loop thread c others s =
    (if state (thr s thread) = ST_ST_ZOMBIE then Some (Inr (), s)
     else (case others of [] \<Rightarrow> None
           | f # fs \<Rightarrow>
              (case st_cond_timedwait c ST_UTIME_NO_TIMEOUT f s of None \<Rightarrow> None
               | Some (Inl e, s) \<Rightarrow> Some (Inl e, s)
               | Some (Inr _, s) \<Rightarrow> join_loop thread c fs s)))"

declare join_loop.simps [simp del]

definition st_thread_join :: "tid \<Rightarrow> others list \<Rightarrow> st \<Rightarrow> ((errno + ptr) \<times> st) option" where
  "st_thread_join thread others s =
    (case term_cv (thr s thread) of None \<Rightarrow> Some (Inl EINVAL, s)
     | Some c \<Rightarrow>
        (if this_thread s = Some thread then Some (Inl EDEADLK, s)
         else if lnext (links s) (CondQ c) \<noteq> Some (CondQ c) then Some (Inl EINVAL, s)
         else (case join_loop thread c others s of None \<Rightarrow> None
               | Some (Inl e, s) \<Rightarrow> Some (Inl e, s)
               | Some (Inr _, s) \<Rightarrow>
                  (let rv = retval (thr s thread);
                       s = set_state thread ST_ST_RUNNABLE s;
                       s = ST_DEL_ZOMBIEQ thread s
                   in Some (Inr rv, ST_ADD_RUNQ thread s)))))"

text \<open>\<open>_st_thread_main\<close>; \<open>app\<close> is the start routine: its return value and its effect.\<close>

definition st_thread_main :: "tid option \<Rightarrow> (ptr \<Rightarrow> ptr \<Rightarrow> sys \<Rightarrow> (ptr \<times> sys) option) \<Rightarrow> sys \<Rightarrow> sys option" where
  "st_thread_main thd app y =
    (case thd of None \<Rightarrow> Some y
     | Some t \<Rightarrow>
        (case (if start (thr (vp y) t) \<noteq> 0
               then map_option snd (app (start (thr (vp y) t)) (arg (thr (vp y) t)) y)
               else Some y) of
           None \<Rightarrow> None
         | Some y \<Rightarrow>
            map_option (\<lambda>y. y\<lparr>vp := swapOutFiber (vp y)\<rparr>) (st_thread_exit (retval (thr (vp y) t)) y)))"

text \<open>\<open>memset(&_st_this_vp, 0, ...)\<close> followed by the three \<open>ST_INIT_CLIST\<close>.\<close>

definition vp_reset :: "st \<Rightarrow> st" where
  "vp_reset s =
    (let s = s\<lparr>idle_thread := None, last_clock := 0, pagesize := 0,
               links := clear_node RunQ (clear_node IoQ (clear_node ZombieQ (links s))),
               heap := (heap s)\<lparr>sleep_q := None, sleepq_size := 0\<rparr>\<rparr>
     in s\<lparr>links := ST_INIT_CLIST ZombieQ (ST_INIT_CLIST IoQ (ST_INIT_CLIST RunQ (links s)))\<rparr>)"

text \<open>
  \<open>io_ok\<close> and \<open>ev_ok\<close> say whether \<open>_st_io_init\<close> and the \<open>init\<close> function of the event system succeed;
  \<open>st_set_eventsys\<close> is modelled with the event system. \<open>False\<close> stands for the return value -1.
\<close>

definition st_init :: "bool \<Rightarrow> bool \<Rightarrow> int \<Rightarrow> utime \<Rightarrow> ptr \<Rightarrow> int \<Rightarrow> int \<Rightarrow> create_env \<Rightarrow> sys \<Rightarrow> (bool \<times> sys) option" where
  "st_init io_ok ev_ok page now idle_fn ptr_size thread_size env y =
    (if active_count (vp y) > 0 then Some (True, y)
     else if \<not> io_ok then Some (False, y)
     else (let y = y\<lparr>vp := vp_reset (vp y)\<rparr>
           in if \<not> ev_ok then Some (False, y)
              else (let y = y\<lparr>vp := (vp y)\<lparr>pagesize := page, last_clock := now\<rparr>\<rparr>
                    in case st_thread_create idle_fn 0 False 0 ptr_size thread_size env y of
                         None \<Rightarrow> None
                       | Some (None, y) \<Rightarrow> Some (False, y)
                       | Some (Some i, y) \<Rightarrow>
                          (let s = (vp y)\<lparr>idle_thread := Some i\<rparr>;
                               s = upd_thr i (\<lambda>x. x\<lparr>flags := ST_FL_IDLE_THREAD\<rparr>) s;
                               s = s\<lparr>active_count := active_count s - 1\<rparr>
                           in Some (True, y\<lparr>vp := ST_DEL_RUNQ i s\<rparr>)))))"

section \<open>The idle loops\<close>

text \<open>
  One iteration needs the event system's dispatch function and the values of the two clocks. The
  loops take the list of what successive iterations see, and stop when no thread is active or the
  list is used up.
\<close>

type_synonym idle_input = "(st \<Rightarrow> st option) \<times> utime \<times> int"

text \<open>\<open>_st_idle_thread_run\<close> in the native fiber.\<close>

fun idle_thread_run :: "idle_input list \<Rightarrow> st \<Rightarrow> st option" where
  "idle_thread_run [] s = Some s"
| "idle_thread_run ((dispatch, now, wall) # ins) s =
    (if active_count s > 0
     then Option.bind (dispatch s) (\<lambda>s. Option.bind (st_vp_check_clock now wall s) (\<lambda>s.
            Option.bind (st_vp_schedule s) (idle_thread_run ins)))
     else Some s)"

text \<open>\<open>_st_idle_thread_start\<close> in the idle thread \<open>me\<close>.\<close>

fun idle_thread_start :: "tid option \<Rightarrow> idle_input list \<Rightarrow> st \<Rightarrow> st option" where
  "idle_thread_start me [] s = Some s"
| "idle_thread_start me ((dispatch, now, wall) # ins) s =
    (if active_count s > 0
     then Option.bind (dispatch s) (\<lambda>s. Option.bind (st_vp_check_clock now wall s) (\<lambda>s.
            (let s = (case me of None \<Rightarrow> s
                      | Some i \<Rightarrow> if state (thr s i) \<noteq> ST_ST_ZOMBIE \<and> state (thr s i) \<noteq> ST_ST_RUNNABLE
                                 then set_state i ST_ST_RUNNABLE s else s)
             in if active_count s \<le> 0 then Some s
                else Option.bind (st_vp_schedule s) (idle_thread_start me ins))))
     else Some s)"

section \<open>Creating a thread\<close>

lemma heap_ok_clear_timer:
  assumes "heap_ok h t" and "x \<notin> set_tree t"
  shows "heap_ok (clear_timer x h) t"
proof -
  have d: "heap_ord ((due h)(x := 0)) u = heap_ord (due h) u" if "x \<notin> set_tree u" for u
    using that by (induction u) auto
  have "tree_at (clear_timer x h) (sleep_q h) t \<longleftrightarrow> tree_at h (sleep_q h) t"
    by (rule tree_at_cong) (use assms(2) in \<open>auto simp: clear_timer_def\<close>)
  moreover have "indexed ((heap_index h)(x := 0)) 1 t \<longleftrightarrow> indexed (heap_index h) 1 t"
    by (rule indexed_cong) (use assms(2) in auto)
  moreover have "sleep_q (clear_timer x h) = sleep_q h" "due (clear_timer x h) = (due h)(x := 0)"
    "heap_index (clear_timer x h) = (heap_index h)(x := 0)" "sleepq_size (clear_timer x h) = sleepq_size h"
    by (simp_all add: clear_timer_def)
  ultimately show ?thesis using assms d [of t] unfolding heap_ok_def by presburger
qed

lemma clear_timer_ok:
  assumes "wf_heap h" and "x \<notin> sleepers h"
  shows "wf_heap (clear_timer x h)" and "sleepers (clear_timer x h) = sleepers h"
proof -
  obtain t where t: "heap_ok h t" using assms(1) by (auto simp: wf_heap_def)
  then have "heap_ok (clear_timer x h) t" using heap_ok_clear_timer assms(2) sleepers_eq by simp
  then show "wf_heap (clear_timer x h)" "sleepers (clear_timer x h) = sleepers h"
    using t sleepers_eq by (auto simp: wf_heap_def)
qed

text \<open>A thread number that no queue, no timer and not the idle thread uses.\<close>

definition dead :: "st \<Rightarrow> tid \<Rightarrow> bool" where
  "dead s t \<longleftrightarrow> state (thr s t) \<noteq> ST_ST_RUNNABLE \<and> t \<notin> sleepers (heap s) \<and> idle_thread s \<noteq> Some t"

lemma clear_node_other: "n \<notin> set (q # xs) \<Longrightarrow> is_clist (clear_node n h) q xs \<longleftrightarrow> is_clist h q xs"
  by (rule is_clist_cong) (auto simp: clear_node_def)

lemma clear_thread_inv:
  assumes inv: "sched_inv s rq" and t: "dead s t"
  shows "sched_inv (clear_thread t s) rq"
proof -
  have n: "t \<notin> set rq" using sched_invD(6) [OF inv, of t] t by (auto simp: dead_def)
  have t': "t \<notin> sleepers (heap s)" "idle_thread s \<noteq> Some t" using t by (auto simp: dead_def)
  note h = clear_timer_ok [OF sched_invD(2) [OF inv] t'(1)]
  have f: "heap (clear_thread t s) = clear_timer t (heap s)" "idle_thread (clear_thread t s) = idle_thread s"
    "thr (clear_thread t s) = (thr s)(t := zero_thread)" by (simp_all add: clear_thread_def)
  show ?thesis
  proof (rule sched_invI, goal_cases)
    case 1
    have "Links t \<notin> set (RunQ # map Links rq)" "WaitLinks t \<notin> set (RunQ # map Links rq)" using n by auto
    then show ?case using sched_invD(1) [OF inv] unfolding runq_def clear_thread_def
      by (simp del: list.set add: clear_node_other)
  next
    case (3 u)
    show ?case using sched_invD(4) [OF inv, of u] t' h by (auto simp: f has_flag_def zero_thread_def)
  next
    case (6 u)
    then show ?case using sched_invD(7) [OF inv, of u] by (auto simp: f zero_thread_def split: if_splits)
  next
    case (7 u)
    then show ?case using sched_invD(8) [OF inv, of u] t' h by (auto simp: f)
  next
    case (8 u)
    then show ?case using sched_invD(9) [OF inv, of u] by (auto simp: f has_flag_def zero_thread_def split: if_splits)
  qed (use n t' h sched_invD(5,6) [OF inv] in \<open>auto simp: f\<close>)
qed

lemma stack_new_total:
  assumes "free_stacks s fs" and "\<forall>ts. obj = Some ts \<longrightarrow> ts \<notin> set fs"
  obtains r s' where "st_stack_new stack_size page obj seg rnd s = Some (r, s')"
    and "case r of None \<Rightarrow> s' = s
      | Some t \<Rightarrow> (t \<in> set fs \<or> obj = Some t) \<and> free_stacks s' (remove1 t fs) \<and> stack_size \<le> stk_size (stk s' t)"
proof (cases "find (\<lambda>i. stk_size (stk s i) \<ge> stack_size) fs")
  case (Some i)
  show thesis
    using that [OF stack_new_reuse(1) [OF assms(1) Some]] stack_new_reuse(2-4) [OF assms(1) Some]
      stack_take_ok(2) [OF assms(1), of i] by simp
next
  case None
  obtain qp where q: "lnext (slinks s) FreeStacks = Some qp" "stack_find stack_size qp s = Some None"
    using stack_first_fit [OF assms(1), of stack_size] None by auto
  define a where "a = seg (stack_size + 2 * page + (if randomize_stacks s then page else 0))"
  show thesis
  proof (cases "obj = None \<or> a = 0")
    case True
    then have "st_stack_new stack_size page obj seg rnd s = Some (None, s)"
      using q by (cases obj) (auto simp: st_stack_new_def Let_def a_def)
    then show thesis using that by simp
  next
    case False
    then obtain ts where ts: "obj = Some ts" "a \<noteq> 0" "ts \<notin> set fs" using assms(2) by auto
    obtain s' where s': "st_stack_new stack_size page (Some ts) seg rnd s = Some (Some ts, s')" "free_stacks s' fs"
      "stk s' = (stk s)(ts := stack_init stack_size page a rnd (randomize_stacks s))"
      by (rule stack_new_fresh [OF assms(1) None ts(3), of a seg page rnd]) (use a_def ts(2) in auto)
    have "remove1 ts fs = fs" using ts(3) by (rule remove1_idem)
    then show thesis using that [of "Some ts" s'] s' ts by (simp add: stack_init_def Let_def)
  qed
qed

lemma cond_new_inv:
  assumes "sched_inv s rq" and "st_cond_new obj s = (r, s')"
  shows "sched_inv s' rq" and "r = obj" and "thr s' = thr s" and "active_count s' = active_count s"
    and "this_thread s' = this_thread s" and "idle_thread s' = idle_thread s" and "heap s' = heap s"
proof -
  have "is_clist (ST_INIT_CLIST (CondQ c) (links s)) RunQ (map Links rq) \<longleftrightarrow> is_clist (links s) RunQ (map Links rq)" for c
    by (rule is_clist_cong) (auto simp: ST_INIT_CLIST_def)
  then have "runq s' rq" using sched_invD(1) [OF assms(1)] assms(2)
    by (auto simp: st_cond_new_def runq_def split: option.splits)
  then show "sched_inv s' rq"
    using assms by (cases obj) (auto simp: st_cond_new_def intro: sched_inv_links)
  show "r = obj" "thr s' = thr s" "active_count s' = active_count s" "this_thread s' = this_thread s"
    "idle_thread s' = idle_thread s" "heap s' = heap s"
    using assms(2) by (auto simp: st_cond_new_def split: option.splits)
qed

text \<open>The state after \<open>st_thread_create\<close> has initialised the object of thread \<open>t\<close>.\<close>

definition new_thread :: "ptr \<Rightarrow> ptr \<Rightarrow> bool \<Rightarrow> cid option \<Rightarrow> thread" where
  "new_thread start_fn arg_val ctx c = zero_thread\<lparr>start := start_fn, arg := arg_val, has_context := ctx, term_cv := c\<rparr>"

lemma created_thread_inv:
  assumes inv: "sched_inv s rq" and t: "dead s t" and c: "joinable \<longrightarrow> cond_obj env \<noteq> None"
    and s1_def: "s1 = upd_thr t (\<lambda>x. x\<lparr>start := start_fn, arg := arg_val, has_context := fiber_ok env\<rparr>) (clear_thread t s)"
    and s2_def: "s2 = (if joinable then upd_thr t (\<lambda>x. x\<lparr>term_cv := cond_obj env\<rparr>) (snd (st_cond_new (cond_obj env) s1)) else s1)"
    and s3_def: "s3 = ST_ADD_RUNQ t ((set_state t ST_ST_RUNNABLE s2)\<lparr>active_count := active_count s2 + 1\<rparr>)"
  shows "sched_inv s3 (rq @ [t])" and "active_count s3 = active_count s + 1" and "this_thread s3 = this_thread s"
    and "thr s3 = (thr s)(t := (new_thread start_fn arg_val (fiber_ok env)
           (if joinable then cond_obj env else None))\<lparr>state := ST_ST_RUNNABLE\<rparr>)"
    and "sleepers (heap s3) = sleepers (heap s)" and "idle_thread s3 = idle_thread s"
proof -
  have i1: "sched_inv s1 rq" unfolding s1_def
    by (rule sched_inv_cong [OF clear_thread_inv [OF inv t]]) (simp_all add: has_flag_def)
  obtain r s' where cn: "st_cond_new (cond_obj env) s1 = (r, s')" by fastforce
  note c1 = cond_new_inv [OF i1 cn]
  have i2: "sched_inv s2 rq"
  proof (cases joinable)
    case True
    then show ?thesis using cn unfolding s2_def
      by (simp add: sched_inv_cong [OF c1(1)] has_flag_def)
  qed (use i1 in \<open>simp add: s2_def\<close>)
  have t1: "thr s1 = (thr s)(t := new_thread start_fn arg_val (fiber_ok env) None)"
    by (simp add: s1_def clear_thread_def new_thread_def zero_thread_def fun_eq_iff)
  have f2: "thr s2 = (thr s)(t := new_thread start_fn arg_val (fiber_ok env) (if joinable then cond_obj env else None))"
    "active_count s2 = active_count s" "this_thread s2 = this_thread s" "idle_thread s2 = idle_thread s"
    "heap s2 = clear_timer t (heap s)"
    using c1(3-7) cn t1 by (auto simp: s2_def new_thread_def s1_def clear_thread_def)
  have m: "s3 = (make_runnable t s2)\<lparr>active_count := active_count s + 1\<rparr>"
    by (simp add: s3_def make_runnable_def ST_ADD_RUNQ_def set_state_def upd_thr_def f2(2))
  have sl: "sleepers (heap s2) = sleepers (heap s)"
    unfolding f2(5) by (rule clear_timer_ok(2) [OF sched_invD(2) [OF inv]]) (use t in \<open>simp add: dead_def\<close>)
  have "sched_inv (make_runnable t s2) (rq @ [t])"
    by (rule make_runnable_ok [OF i2]) (use t sl f2(1,4) in \<open>simp_all add: dead_def new_thread_def zero_thread_def\<close>)
  then show "sched_inv s3 (rq @ [t])" unfolding m
    by (rule sched_inv_cong) (simp_all add: has_flag_def)
  show "active_count s3 = active_count s + 1" by (simp add: m)
  show "thr s3 = (thr s)(t := (new_thread start_fn arg_val (fiber_ok env)
      (if joinable then cond_obj env else None))\<lparr>state := ST_ST_RUNNABLE\<rparr>)"
    by (simp add: m f2(1))
  show "sleepers (heap s3) = sleepers (heap s)" by (simp add: m sl)
  show "this_thread s3 = this_thread s" "idle_thread s3 = idle_thread s"
    using make_runnable_frame(1) [OF i2, of t] f2 by (simp_all add: m same_globals_def)
qed

lemma st_thread_create_ok:
  assumes inv: "sched_inv (vp y) rq" and fs: "free_stacks (stks y) fs"
    and obj: "\<forall>ts. stack_obj env = Some ts \<longrightarrow> ts \<notin> set fs"
    and d: "\<forall>t. t \<in> set fs \<or> stack_obj env = Some t \<longrightarrow> dead (vp y) t"
  shows "\<exists>r y'. st_thread_create start_fn arg_val joinable stk_sz ptr_size thread_size env y = Some (r, y') \<and>
    (case r of
       None \<Rightarrow> sched_inv (vp y') rq \<and> active_count (vp y') = active_count (vp y) \<and>
         (\<forall>u. \<not> dead (vp y) u \<longrightarrow> thr (vp y') u = thr (vp y) u)
     | Some t \<Rightarrow> (t \<in> set fs \<or> stack_obj env = Some t) \<and> sched_inv (vp y') (rq @ [t]) \<and>
         free_stacks (stks y') (remove1 t fs) \<and> active_count (vp y') = active_count (vp y) + 1 \<and>
         this_thread (vp y') = this_thread (vp y) \<and> idle_thread (vp y') = idle_thread (vp y) \<and>
         sleepers (heap (vp y')) = sleepers (heap (vp y)) \<and>
         thr (vp y') = (thr (vp y))(t := (new_thread start_fn arg_val (fiber_ok env)
           (if joinable then cond_obj env else None))\<lparr>state := ST_ST_RUNNABLE\<rparr>))"
proof -
  let ?n = "round_stack_size (pagesize (vp y)) stk_sz" and ?p = "pagesize (vp y)"
  obtain r k where k: "st_stack_new ?n ?p (stack_obj env) (stack_seg env) (rand_val env) (stks y) = Some (r, k)"
    "case r of None \<Rightarrow> k = stks y
      | Some t \<Rightarrow> (t \<in> set fs \<or> stack_obj env = Some t) \<and> free_stacks k (remove1 t fs) \<and> ?n \<le> stk_size (stk k t)"
    by (rule stack_new_total [OF fs obj])
  show ?thesis
  proof (cases r)
    case None
    then show ?thesis using k inv by (simp add: st_thread_create_def Let_def)
  next
    case (Some t)
    define k1 where "k1 = k\<lparr>stk := (stk k)(t := (stk k t)\<lparr>sp := initial_sp ptr_size thread_size (stk_top (stk k t))\<rparr>)\<rparr>"
    define s1 where "s1 = upd_thr t (\<lambda>x. x\<lparr>start := start_fn, arg := arg_val, has_context := fiber_ok env\<rparr>) (clear_thread t (vp y))"
    have t: "t \<in> set fs \<or> stack_obj env = Some t" "free_stacks k1 (remove1 t fs)" "dead (vp y) t"
      using k Some d by (auto simp: k1_def free_stacks_def)
    show ?thesis
    proof (cases "joinable \<and> cond_obj env = None")
      case True
      have nt: "t \<notin> set (remove1 t fs)" using free_distinct [OF fs] by simp
      obtain k2 where "st_stack_free (Some t) k1 = Some k2"
        by (rule stack_free_ok [OF t(2) nt])
      then have e: "st_thread_create start_fn arg_val joinable stk_sz ptr_size thread_size env y =
          Some (None, y\<lparr>vp := s1, stks := k2\<rparr>)"
        using True k(1) Some by (simp add: st_thread_create_def Let_def st_cond_new_def k1_def s1_def)
      have "sched_inv s1 rq" unfolding s1_def
        by (rule sched_inv_cong [OF clear_thread_inv [OF inv t(3)]]) (simp_all add: has_flag_def)
      then show ?thesis unfolding e using t(3) by (auto simp: s1_def clear_thread_def)
    next
      case False
      define s2 where "s2 = (if joinable then upd_thr t (\<lambda>x. x\<lparr>term_cv := cond_obj env\<rparr>) (snd (st_cond_new (cond_obj env) s1)) else s1)"
      define s3 where "s3 = ST_ADD_RUNQ t ((set_state t ST_ST_RUNNABLE s2)\<lparr>active_count := active_count s2 + 1\<rparr>)"
      have e: "st_thread_create start_fn arg_val joinable stk_sz ptr_size thread_size env y =
          Some (Some t, y\<lparr>vp := s3, stks := k1\<rparr>)"
        using False k(1) Some unfolding s3_def s2_def s1_def k1_def
        by (auto simp: st_thread_create_def Let_def st_cond_new_def set_state_def split: option.splits)
      have "joinable \<longrightarrow> cond_obj env \<noteq> None" using False by simp
      note c = created_thread_inv [OF inv t(3) this s1_def s2_def s3_def]
      show ?thesis unfolding e using c t(1,2) by simp
    qed
  qed
qed

section \<open>Exit\<close>

text \<open>The run queue and the zombie queue have no thread in common.\<close>

lemma run_zombie_disjoint:
  assumes "runq s rq" and "zombieq s zs"
  shows "set (RunQ # map Links rq) \<inter> set (ZombieQ # map Links zs) = {}"
  by (rule is_clist_disjoint) (use assms in \<open>auto simp: q_defs\<close>)

lemma zombieq_distinct: "zombieq s zs \<Longrightarrow> distinct zs"
  by (auto simp: zombieq_def is_clist_def distinct_map)

lemma zombieq_add:
  assumes "zombieq s zs" and "t \<notin> set zs"
  shows "zombieq (ST_ADD_ZOMBIEQ t s) (zs @ [t])" and "runq s rq \<Longrightarrow> t \<notin> set rq \<Longrightarrow> runq (ST_ADD_ZOMBIEQ t s) rq"
    and "condq s c ws \<Longrightarrow> condq (ST_ADD_ZOMBIEQ t s) c ws"
proof -
  note z = assms(1) [unfolded zombieq_def]
  show "zombieq (ST_ADD_ZOMBIEQ t s) (zs @ [t])"
    using stq.holds_append [OF z, of "Links t"] assms(2) by (auto simp: zombieq_def ST_ADD_ZOMBIEQ_def)
  show "runq (ST_ADD_ZOMBIEQ t s) rq" if r: "runq s rq" "t \<notin> set rq"
    using stq.append_frame [OF z r(1) [unfolded runq_def], of "Links t"] run_zombie_disjoint [OF r(1) assms(1)] r(2)
    by (auto simp: runq_def ST_ADD_ZOMBIEQ_def)
  show "condq s c ws \<Longrightarrow> condq (ST_ADD_ZOMBIEQ t s) c ws"
    by (auto simp: condq_def ST_ADD_ZOMBIEQ_def intro!: stq.append_frame [OF z])
qed

lemma runq_add_zombieq:
  assumes "runq s rq" and "zombieq s zs" and "t \<notin> set zs"
    and "links s' = ST_APPEND_LINK (Links t) RunQ (links s)"
  shows "zombieq s' zs"
  using stq.append_frame [OF assms(1,2) [unfolded runq_def zombieq_def], of "Links t"]
    run_zombie_disjoint [OF assms(1,2)] assms(3,4) by (auto simp: zombieq_def)

text \<open>A single signal wakes one thread, or none.\<close>

lemma signal_loop_one:
  assumes "condq s c (us @ ws)"
  shows "cond_signal_loop c False (hd (map WaitLinks ws @ [CondQ c])) s =
    (case cond_waiters s ws of [] \<Rightarrow> Some s | t # _ \<Rightarrow> wake_thread t s)"
  using assms
proof (induction ws arbitrary: us)
  case Nil
  then show ?case by (subst cond_signal_loop.simps) (simp add: cond_waiters_def)
next
  case (Cons t ws)
  have "lnext (links s) (WaitLinks t) = Some (hd (map WaitLinks ws @ [CondQ c]))"
    using waitq_next Cons.prems by (metis waitq_simps(1))
  then show ?case using Cons.IH [of "us @ [t]"] Cons.prems
    by (subst cond_signal_loop.simps) (auto simp: cond_waiters_def split: option.splits)
qed

lemma st_cond_signal_one:
  "condq s c ws \<Longrightarrow> st_cond_signal c s = (case cond_waiters s ws of [] \<Rightarrow> Some s | t # _ \<Rightarrow> wake_thread t s)"
  using signal_loop_one [of s c "[]" ws] waitq_first [of s "CondQ c" ws]
  by (simp add: st_cond_signal_def st_cond_signal_impl_def waitq_simps)

text \<open>The first part of \<open>st_thread_exit\<close>: up to the zombie state.\<close>

definition exit_mark :: "ptr \<Rightarrow> tid \<Rightarrow> keytab \<Rightarrow> st \<Rightarrow> st" where
  "exit_mark rv t k s =
    set_state t ST_ST_ZOMBIE
      ((snd (st_thread_cleanup (Some t) k (upd_thr t (\<lambda>x. x\<lparr>retval := rv\<rparr>) s)))\<lparr>active_count := active_count s - 1\<rparr>)"

lemma exit_mark_ok:
  assumes inv: "sched_inv s rq" and t: "state (thr s t) = ST_ST_RUNNING"
  shows "sched_inv (exit_mark rv t k s) rq" and "state (thr (exit_mark rv t k s) t) = ST_ST_ZOMBIE"
    and "retval (thr (exit_mark rv t k s) t) = rv" and "term_cv (thr (exit_mark rv t k s) t) = term_cv (thr s t)"
    and "flags (thr (exit_mark rv t k s) t) = flags (thr s t)"
    and "has_context (thr (exit_mark rv t k s) t) = has_context (thr s t)"
    and "\<forall>u. u \<noteq> t \<longrightarrow> thr (exit_mark rv t k s) u = thr s u" and "links (exit_mark rv t k s) = links s"
    and "heap (exit_mark rv t k s) = heap s" and "this_thread (exit_mark rv t k s) = this_thread s"
    and "active_count (exit_mark rv t k s) = active_count s - 1" and "idle_thread (exit_mark rv t k s) = idle_thread s"
    and "fiber_native (exit_mark rv t k s) = fiber_native s" and "running (exit_mark rv t k s) = running s"
proof -
  define pd where "pd = snd (cleanup_loop [0..<nat (key_max k)] (destructors k) (private_data (thr s t)))"
  have e: "exit_mark rv t k s =
      (upd_thr t (\<lambda>x. x\<lparr>retval := rv, private_data := pd, state := ST_ST_ZOMBIE\<rparr>) s)\<lparr>active_count := active_count s - 1\<rparr>"
    by (cases s) (simp add: exit_mark_def st_thread_cleanup_def split_beta set_state_def upd_thr_def pd_def)
  have "sched_inv (set_state t ST_ST_ZOMBIE s) rq" by (rule set_state_inv [OF inv t]) simp_all
  then show "sched_inv (exit_mark rv t k s) rq" unfolding e
    by (rule sched_inv_cong) (simp_all add: set_state_def has_flag_def)
  show "state (thr (exit_mark rv t k s) t) = ST_ST_ZOMBIE" "retval (thr (exit_mark rv t k s) t) = rv"
    "term_cv (thr (exit_mark rv t k s) t) = term_cv (thr s t)" "flags (thr (exit_mark rv t k s) t) = flags (thr s t)"
    "has_context (thr (exit_mark rv t k s) t) = has_context (thr s t)"
    "\<forall>u. u \<noteq> t \<longrightarrow> thr (exit_mark rv t k s) u = thr s u" "links (exit_mark rv t k s) = links s"
    "heap (exit_mark rv t k s) = heap s" "this_thread (exit_mark rv t k s) = this_thread s"
    "active_count (exit_mark rv t k s) = active_count s - 1" "idle_thread (exit_mark rv t k s) = idle_thread s"
    "fiber_native (exit_mark rv t k s) = fiber_native s" "running (exit_mark rv t k s) = running s"
    by (simp_all add: e)
qed

lemma switch_self:
  "thr (ST_SWITCH_CONTEXT t s) = thr s" "links (ST_SWITCH_CONTEXT t s) = links s" "heap (ST_SWITCH_CONTEXT t s) = heap s"
  "idle_thread (ST_SWITCH_CONTEXT t s) = idle_thread s" "this_thread (ST_SWITCH_CONTEXT t s) = this_thread s"
  "active_count (ST_SWITCH_CONTEXT t s) = active_count s"
  "fiber_native (ST_SWITCH_CONTEXT t s) = fiber_native s"
  "running (ST_SWITCH_CONTEXT t s) = (if has_context (thr s t) \<and> fiber_native s then Some t else running s)"
  by (simp_all add: ST_SWITCH_CONTEXT_def swapFiber_def Let_def)

lemma st_thread_exit_eq:
  assumes "this_thread (vp y) = Some t"
  shows "st_thread_exit rv y =
    (let s = exit_mark rv t (kt y) (vp y)
     in Option.bind (case term_cv (thr (vp y) t) of None \<Rightarrow> Some s
          | Some c \<Rightarrow> map_option (\<lambda>s. upd_thr t (\<lambda>x. x\<lparr>term_cv := None\<rparr>) (ST_SWITCH_CONTEXT t s))
              (st_cond_signal c (ST_ADD_ZOMBIEQ t s)))
        (\<lambda>s. map_option (\<lambda>k. y\<lparr>vp := ST_SWITCH_CONTEXT t s, stks := k,
               dcalls := dcalls y @ fst (st_thread_cleanup (Some t) (kt y) (vp y))\<rparr>)
          (if \<not> has_flag s t ST_FL_PRIMORDIAL then st_stack_free (Some t) (stks y) else Some (stks y))))"
proof -
  define u where "u = upd_thr t (\<lambda>x. x\<lparr>retval := rv\<rparr>) (vp y)"
  have c: "fst (st_thread_cleanup (Some t) (kt y) u) = fst (st_thread_cleanup (Some t) (kt y) (vp y))"
    "active_count (snd (st_thread_cleanup (Some t) (kt y) u)) = active_count (vp y)"
    by (simp_all add: u_def st_thread_cleanup_def split_beta)
  have m: "exit_mark rv t (kt y) (vp y) =
      set_state t ST_ST_ZOMBIE ((snd (st_thread_cleanup (Some t) (kt y) u))\<lparr>active_count := active_count (vp y) - 1\<rparr>)"
    by (simp add: exit_mark_def u_def)
  have tc: "term_cv (thr (exit_mark rv t (kt y) (vp y)) t) = term_cv (thr (vp y) t)"
    by (simp add: m set_state_def u_def st_thread_cleanup_def split_beta)
  show ?thesis
    unfolding st_thread_exit_def assms option.case Let_def u_def [symmetric] split_beta c m [symmetric] tc
    by (auto split: option.splits)
qed

text \<open>The free list after a stack was freed.\<close>

definition freed :: "nat list \<Rightarrow> nat \<Rightarrow> nat list" where
  "freed fs t = (if fs = [] then [t] else butlast fs @ [t, last fs])"

lemma exit_plain_ok:
  assumes inv: "sched_inv (vp y) rq" and t: "this_thread (vp y) = Some t" "state (thr (vp y) t) = ST_ST_RUNNING"
    "term_cv (thr (vp y) t) = None" "\<not> has_flag (vp y) t ST_FL_PRIMORDIAL"
    and fs: "free_stacks (stks y) fs" "t \<notin> set fs"
  shows "\<exists>y'. st_thread_exit rv y = Some y' \<and> sched_inv (vp y') rq \<and> state (thr (vp y') t) = ST_ST_ZOMBIE \<and>
    retval (thr (vp y') t) = rv \<and> active_count (vp y') = active_count (vp y) - 1 \<and>
    (\<forall>u. u \<noteq> t \<longrightarrow> thr (vp y') u = thr (vp y) u) \<and> free_stacks (stks y') (freed fs t) \<and>
    dcalls y' = dcalls y @ fst (st_thread_cleanup (Some t) (kt y) (vp y)) \<and>
    this_thread (vp y') = Some t \<and>
    running (vp y') = (if has_context (thr (vp y) t) \<and> fiber_native (vp y) then Some t else running (vp y))"
proof -
  define s where "s = exit_mark rv t (kt y) (vp y)"
  note m = exit_mark_ok [OF inv t(2), where rv = rv and k = "kt y", folded s_def]
  obtain k where k: "st_stack_free (Some t) (stks y) = Some k" "free_stacks k (freed fs t)"
    using stack_free_ok [OF fs] unfolding freed_def by metis
  have "\<not> has_flag s t ST_FL_PRIMORDIAL" using t(4) m(5) by (simp add: has_flag_def)
  then have e: "st_thread_exit rv y = Some (y\<lparr>vp := ST_SWITCH_CONTEXT t s, stks := k,
      dcalls := dcalls y @ fst (st_thread_cleanup (Some t) (kt y) (vp y))\<rparr>)"
    using st_thread_exit_eq [OF t(1), of rv] k(1) t(3) by (simp add: s_def [symmetric])
  have "sched_inv (ST_SWITCH_CONTEXT t s) rq"
    by (rule sched_inv_cong [OF m(1)]) (simp_all add: switch_self has_flag_def)
  then show ?thesis unfolding e using m k(2) t(1) by (simp add: switch_self)
qed

lemma exit_joinable_ok:
  assumes inv: "sched_inv (vp y) rq" and t: "this_thread (vp y) = Some t" "state (thr (vp y) t) = ST_ST_RUNNING"
    "term_cv (thr (vp y) t) = Some c" "\<not> has_flag (vp y) t ST_FL_PRIMORDIAL"
    and fs: "free_stacks (stks y) fs" "t \<notin> set fs"
    and q: "condq (vp y) c ws" "zombieq (vp y) zs" "t \<notin> set zs" "\<forall>z \<in> set zs. state (thr (vp y) z) = ST_ST_ZOMBIE"
  shows "\<exists>y'. st_thread_exit rv y = Some y' \<and> state (thr (vp y') t) = ST_ST_ZOMBIE \<and> retval (thr (vp y') t) = rv \<and>
    term_cv (thr (vp y') t) = None \<and> zombieq (vp y') (zs @ [t]) \<and> free_stacks (stks y') (freed fs t) \<and>
    this_thread (vp y') = Some t \<and>
    (case cond_waiters (vp y) ws of [] \<Rightarrow> sched_inv (vp y') rq
     | w # _ \<Rightarrow> sched_inv (vp y') (rq @ [w]) \<and> state (thr (vp y') w) = ST_ST_RUNNABLE)"
proof -
  define s where "s = exit_mark rv t (kt y) (vp y)"
  note m = exit_mark_ok [OF inv t(2), where rv = rv and k = "kt y", folded s_def]
  have nrq: "t \<notin> set rq" using sched_invD(6) [OF inv, of t] t(2) by auto
  have z0: "zombieq s zs" "condq s c ws" using q by (simp_all add: q_defs m(8))
  define s1 where "s1 = ST_ADD_ZOMBIEQ t s"
  have f1: "thr s1 = thr s" "heap s1 = heap s" "idle_thread s1 = idle_thread s" "this_thread s1 = this_thread s"
    by (simp_all add: s1_def ST_ADD_ZOMBIEQ_def)
  note z1 = zombieq_add [OF z0(1) q(3), folded s1_def]
  have i1: "sched_inv s1 rq"
    using sched_inv_links [OF m(1)] z1(2) [OF sched_invD(1) [OF m(1)] nrq] by (simp add: s1_def ST_ADD_ZOMBIEQ_def)
  have c1: "condq s1 c ws" by (rule z1(3) [OF z0(2)])
  have w: "cond_waiters s1 ws = cond_waiters (vp y) ws"
    unfolding cond_waiters_def
  proof (rule filter_cong)
    fix x
    show "(state (thr s1 x) = ST_ST_COND_WAIT) = (state (thr (vp y) x) = ST_ST_COND_WAIT)"
      using m(2,7) t(2) f1(1) by (cases "x = t") auto
  qed simp
  have g: "\<exists>s2 rq2. st_cond_signal c s1 = Some s2 \<and> sched_inv s2 rq2 \<and> zombieq s2 (zs @ [t]) \<and> thr s2 t = thr s1 t \<and>
      this_thread s2 = this_thread s1 \<and>
      (case cond_waiters (vp y) ws of [] \<Rightarrow> rq2 = rq
       | w # _ \<Rightarrow> rq2 = rq @ [w] \<and> w \<noteq> t \<and> state (thr s2 w) = ST_ST_RUNNABLE)"
  proof (cases "cond_waiters s1 ws")
    case Nil
    then show ?thesis using st_cond_signal_one [OF c1] i1 z1(1) w by simp
  next
    case (Cons v vs)
    have sv: "state (thr s1 v) = ST_ST_COND_WAIT"
    proof -
      have "v \<in> set (cond_waiters s1 ws)" using Cons by simp
      then show ?thesis by (simp add: cond_waiters_def)
    qed
    obtain s2 where s2: "wake_thread v s1 = Some s2" "sched_inv s2 (rq @ [v])"
      "thr s2 = (thr s1)(v := (thr s1 v)\<lparr>
        flags := (if v \<in> sleepers (heap s1) then flag_clr (flags (thr s1 v)) ST_FL_ON_SLEEPQ else flags (thr s1 v)),
        state := ST_ST_RUNNABLE\<rparr>)" "same_globals s1 s2"
      by (rule wake_thread_ok [OF i1, of v]) (use sv in simp_all)
    have vt: "v \<noteq> t" using sv m(2) f1(1) by auto
    have "v \<notin> set (zs @ [t])"
    proof
      assume "v \<in> set (zs @ [t])"
      then have "state (thr s v) = ST_ST_ZOMBIE" using q(3,4) m(2,7) vt by auto
      then show False using sv f1(1) by simp
    qed
    then have "zombieq s2 (zs @ [t])"
      using runq_add_zombieq [OF sched_invD(1) [OF i1] z1(1)] wake_thread_links [OF s2(1)] by blast
    then show ?thesis
      using st_cond_signal_one [OF c1] s2 Cons vt w by (auto simp: same_globals_def)
  qed
  obtain s2 rq2 where s2: "st_cond_signal c s1 = Some s2" "sched_inv s2 rq2" "zombieq s2 (zs @ [t])" "thr s2 t = thr s1 t"
    "this_thread s2 = this_thread s1"
    "case cond_waiters (vp y) ws of [] \<Rightarrow> rq2 = rq
       | w # _ \<Rightarrow> rq2 = rq @ [w] \<and> w \<noteq> t \<and> state (thr s2 w) = ST_ST_RUNNABLE"
    using g by blast
  define s3 where "s3 = upd_thr t (\<lambda>x. x\<lparr>term_cv := None\<rparr>) (ST_SWITCH_CONTEXT t s2)"
  obtain k where k: "st_stack_free (Some t) (stks y) = Some k" "free_stacks k (freed fs t)"
    using stack_free_ok [OF fs] unfolding freed_def by metis
  have pr: "\<not> has_flag s3 t ST_FL_PRIMORDIAL"
    using t(4) m(5) s2(4) f1(1) by (simp add: s3_def has_flag_def switch_self)
  have e: "st_thread_exit rv y = Some (y\<lparr>vp := ST_SWITCH_CONTEXT t s3, stks := k,
      dcalls := dcalls y @ fst (st_thread_cleanup (Some t) (kt y) (vp y))\<rparr>)"
    using st_thread_exit_eq [OF t(1), of rv] k(1) t(3) s2(1) pr
    by (simp add: s_def [symmetric] s1_def [symmetric] s3_def [symmetric])
  have i3: "sched_inv (ST_SWITCH_CONTEXT t s3) rq2"
    by (rule sched_inv_cong [OF s2(2)]) (simp_all add: s3_def switch_self has_flag_def)
  have l3: "links s3 = links s2" by (simp add: s3_def switch_self)
  have "state (thr s3 t) = ST_ST_ZOMBIE" "retval (thr s3 t) = rv" "term_cv (thr s3 t) = None"
    "this_thread s3 = Some t" "\<forall>u. u \<noteq> t \<longrightarrow> thr s3 u = thr s2 u"
    using m(2,3,10) s2(4,5) f1(1,4) t(1) by (simp_all add: s3_def switch_self)
  then show ?thesis unfolding e using i3 k(2) s2(3,6)
    by (auto simp: switch_self zombieq_def l3 split: list.splits)
qed

section \<open>Joining\<close>

lemma zombieq_del:
  assumes "runq s rq" and "zombieq s zs" and "t \<in> set zs"
  shows "zombieq (ST_DEL_ZOMBIEQ t s) (remove1 t zs)" and "runq (ST_DEL_ZOMBIEQ t s) rq"
    and "condq s c ws \<Longrightarrow> condq (ST_DEL_ZOMBIEQ t s) c ws"
proof -
  note z = assms(2) [unfolded zombieq_def]
  have t: "Links t \<in> set (map Links zs)" using assms(3) by simp
  show "zombieq (ST_DEL_ZOMBIEQ t s) (remove1 t zs)"
    using stq.holds_remove [OF z t] by (simp add: zombieq_def ST_DEL_ZOMBIEQ_def remove1_map_inj)
  show "runq (ST_DEL_ZOMBIEQ t s) rq"
    using stq.remove_frame [OF z t assms(1) [unfolded runq_def]] run_zombie_disjoint [OF assms(1,2)]
    by (auto simp: runq_def ST_DEL_ZOMBIEQ_def)
  show "condq s c ws \<Longrightarrow> condq (ST_DEL_ZOMBIEQ t s) c ws"
    by (auto simp: condq_def ST_DEL_ZOMBIEQ_def intro!: stq.remove_frame [OF z t])
qed

text \<open>The last part of \<open>st_thread_join\<close>: the zombie goes from the zombie queue to the run queue.\<close>

lemma join_reap:
  assumes inv: "sched_inv s rq" and z: "zombieq s zs" "t \<in> set zs" and t: "state (thr s t) = ST_ST_ZOMBIE"
    "idle_thread s \<noteq> Some t"
  defines "s' \<equiv> ST_ADD_RUNQ t (ST_DEL_ZOMBIEQ t (set_state t ST_ST_RUNNABLE s))"
  shows "sched_inv s' (rq @ [t])" and "zombieq s' (remove1 t zs)"
    and "thr s' = (thr s)(t := (thr s t)\<lparr>state := ST_ST_RUNNABLE\<rparr>)" and "condq s c ws \<Longrightarrow> condq s' c ws"
proof -
  define s1 where "s1 = ST_DEL_ZOMBIEQ t s"
  note d = zombieq_del [OF sched_invD(1) [OF inv] z, folded s1_def]
  have e: "s' = make_runnable t s1"
    by (cases s) (simp add: s'_def s1_def make_runnable_def ST_DEL_ZOMBIEQ_def set_state_def upd_thr_def)
  have f: "thr s1 = thr s" "heap s1 = heap s" "idle_thread s1 = idle_thread s"
    by (simp_all add: s1_def ST_DEL_ZOMBIEQ_def)
  have i1: "sched_inv s1 rq"
    using sched_inv_links [OF inv] d(2) by (simp add: s1_def ST_DEL_ZOMBIEQ_def)
  have "t \<notin> sleepers (heap s1)" using sched_invD(5) [OF i1, of t] t(1) f(1) by auto
  then show "sched_inv s' (rq @ [t])" unfolding e
    by (rule make_runnable_ok [OF i1]) (use t f in simp_all)
  show "thr s' = (thr s)(t := (thr s t)\<lparr>state := ST_ST_RUNNABLE\<rparr>)" by (simp add: e f)
  show "condq s' c ws" if "condq s c ws"
    using d(3) [OF that] make_runnable_frame(2) [OF i1, of t] unfolding e by (auto simp: same_waitqs_def)
  have "t \<notin> set (remove1 t zs)" using zombieq_distinct [OF z(1)] by simp
  then show "zombieq s' (remove1 t zs)" unfolding e
    by (rule runq_add_zombieq [OF d(2,1)]) (simp add: make_runnable_def ST_ADD_RUNQ_def set_state_def)
qed

section \<open>Properties\<close>

definition demo_sys :: sys where
  "demo_sys = \<lparr>vp = demo_vp, stks = demo_stacks, kt = demo_keys, dcalls = []\<rparr>"

definition demo_env :: create_env where
  "demo_env = \<lparr>stack_obj = Some 13, stack_seg = (\<lambda>_. 5000000), rand_val = 0, fiber_ok = True, cond_obj = Some 9\<rparr>"

lemma demo_dead: "t \<in> {11, 12, 13} \<Longrightarrow> dead demo_vp t"
  by (auto simp: dead_def demo_fields demo_sleepers demo_thr_def)



text \<open>
  \<open>st_thread_exit\<close> of a thread nobody can join: the exit value is recorded, the destructors of the
  thread-specific values are called, the thread is a zombie on no queue, the count of active threads
  drops by one and the stack is on the free list. No other thread is resumed: the call returns with
  the exiting thread still current and its own fiber running.
\<close>

theorem st_thread_exit_plain:
  assumes "sched_inv (vp y) rq" and "this_thread (vp y) = Some t" and "state (thr (vp y) t) = ST_ST_RUNNING"
    and "term_cv (thr (vp y) t) = None" and "\<not> has_flag (vp y) t ST_FL_PRIMORDIAL"
    and "free_stacks (stks y) fs" and "t \<notin> set fs"
  shows "\<exists>y'. st_thread_exit rv y = Some y' \<and> sched_inv (vp y') rq \<and> state (thr (vp y') t) = ST_ST_ZOMBIE \<and>
    retval (thr (vp y') t) = rv \<and> active_count (vp y') = active_count (vp y) - 1 \<and>
    (\<forall>u. u \<noteq> t \<longrightarrow> thr (vp y') u = thr (vp y) u) \<and> free_stacks (stks y') (freed fs t) \<and>
    dcalls y' = dcalls y @ fst (st_thread_cleanup (Some t) (kt y) (vp y)) \<and>
    this_thread (vp y') = Some t \<and>
    running (vp y') = (if has_context (thr (vp y) t) \<and> fiber_native (vp y) then Some t else running (vp y))"
  by (rule exit_plain_ok [OF assms])

theorem st_thread_exit_plain_witness:
  "sched_inv (vp demo_sys) [4] \<and> (\<exists>y'. st_thread_exit 77 demo_sys = Some y' \<and> retval (thr (vp y') 5) = 77 \<and>
     free_stacks (stks y') [11, 5, 12] \<and> this_thread (vp y') = Some 5)"
proof -
  have p: "sched_inv (vp demo_sys) [4]" "this_thread (vp demo_sys) = Some 5" "state (thr (vp demo_sys) 5) = ST_ST_RUNNING"
    "term_cv (thr (vp demo_sys) 5) = None" "\<not> has_flag (vp demo_sys) 5 ST_FL_PRIMORDIAL"
    "free_stacks (stks demo_sys) [11, 12]" "5 \<notin> set [11, 12 :: nat]"
    using demo_inv demo_free by (auto simp: demo_sys_def demo_fields demo_thr_def has_flag_def)
  show ?thesis using st_thread_exit_plain [OF p, of 77] p(1) by (auto simp: freed_def)
qed

text \<open>
  \<open>st_thread_exit\<close> of a joinable thread. It goes on the zombie queue and wakes the longest waiting
  joiner, but, since the context switch that should suspend it names the exiting thread itself, the
  cleanup is not postponed: when the call returns the stack that holds the thread object is already
  on the free list while the thread is still on the zombie queue, and the termination condition
  variable is gone, so that a later \<open>st_thread_join\<close> fails with \<open>EINVAL\<close>.
\<close>

theorem st_thread_exit_joinable:
  assumes "sched_inv (vp y) rq" and "this_thread (vp y) = Some t" and "state (thr (vp y) t) = ST_ST_RUNNING"
    and "term_cv (thr (vp y) t) = Some c" and "\<not> has_flag (vp y) t ST_FL_PRIMORDIAL"
    and "free_stacks (stks y) fs" and "t \<notin> set fs"
    and "condq (vp y) c ws" and "zombieq (vp y) zs" and "t \<notin> set zs"
    and "\<forall>z \<in> set zs. state (thr (vp y) z) = ST_ST_ZOMBIE"
  shows "\<exists>y'. st_thread_exit rv y = Some y' \<and> state (thr (vp y') t) = ST_ST_ZOMBIE \<and> retval (thr (vp y') t) = rv \<and>
    zombieq (vp y') (zs @ [t]) \<and> free_stacks (stks y') (freed fs t) \<and> t \<in> set (freed fs t) \<and>
    (case cond_waiters (vp y) ws of [] \<Rightarrow> sched_inv (vp y') rq
     | w # _ \<Rightarrow> sched_inv (vp y') (rq @ [w]) \<and> state (thr (vp y') w) = ST_ST_RUNNABLE) \<and>
    (\<forall>others. st_thread_join t others (vp y') = Some (Inl EINVAL, vp y'))"
proof -
  have "t \<in> set (freed fs t)" by (simp add: freed_def)
  then show ?thesis using exit_joinable_ok [OF assms, of rv] by (auto simp: st_thread_join_def)
qed

definition demo_joinable :: sys where
  "demo_joinable = demo_sys\<lparr>vp := upd_thr 5 (\<lambda>x. x\<lparr>term_cv := Some 0\<rparr>) demo_vp\<rparr>"

theorem st_thread_exit_joinable_witness:
  "\<exists>y'. st_thread_exit 77 demo_joinable = Some y' \<and> zombieq (vp y') [5] \<and> free_stacks (stks y') [11, 5, 12] \<and>
     st_thread_join 5 [] (vp y') = Some (Inl EINVAL, vp y')"
proof -
  have i: "sched_inv (upd_thr 5 (\<lambda>x. x\<lparr>term_cv := Some 0\<rparr>) demo_vp) [4]"
    by (rule sched_inv_cong [OF demo_inv]) (simp_all add: has_flag_def)
  have p: "sched_inv (vp demo_joinable) [4]" "this_thread (vp demo_joinable) = Some 5"
    "state (thr (vp demo_joinable) 5) = ST_ST_RUNNING" "term_cv (thr (vp demo_joinable) 5) = Some 0"
    "\<not> has_flag (vp demo_joinable) 5 ST_FL_PRIMORDIAL" "free_stacks (stks demo_joinable) [11, 12]"
    "5 \<notin> set [11, 12 :: nat]" "condq (vp demo_joinable) 0 [1, 6]" "zombieq (vp demo_joinable) []" "5 \<notin> set ([] :: nat list)"
    "\<forall>z \<in> set []. state (thr (vp demo_joinable) z) = ST_ST_ZOMBIE"
    using i demo_free demo_queues(2,5)
    by (auto simp: demo_joinable_def demo_sys_def demo_fields demo_thr_def has_flag_def)
  show ?thesis using st_thread_exit_joinable [OF p, of 77] by (auto simp: freed_def)
qed

text \<open>
  \<open>st_thread_join\<close> that has to wait. The caller waits on the termination condition variable; when it
  runs again and finds the target a zombie it returns the target's exit value, and the target moves
  from the zombie queue to the back of the run queue, runnable.
\<close>

theorem st_thread_join_returns_value:
  assumes "sched_inv s rq" and "this_thread s = Some me" and "state (thr s me) = ST_ST_RUNNING"
    and "idle_thread s \<noteq> Some me" and "\<not> has_flag s me ST_FL_INTERRUPT" and "term_cv (thr s t) = Some c"
    and "t \<noteq> me" and "condq s c []" and "state (thr s t) \<noteq> ST_ST_ZOMBIE"
  shows "\<exists>s1 rq1. sched_inv s1 rq1 \<and> condq s1 c [me] \<and> state (thr s1 me) = ST_ST_COND_WAIT \<and>
    (\<forall>s2 rq2 zs. others s1 = Some s2 \<longrightarrow> sched_inv s2 rq2 \<longrightarrow> condq s2 c [me] \<longrightarrow> zombieq s2 zs \<longrightarrow> t \<in> set zs \<longrightarrow>
       state (thr s2 t) = ST_ST_ZOMBIE \<longrightarrow> idle_thread s2 \<noteq> Some t \<longrightarrow>
       \<not> has_flag s2 me ST_FL_INTERRUPT \<longrightarrow> \<not> has_flag s2 me ST_FL_TIMEDOUT \<longrightarrow>
       (\<exists>s3. st_thread_join t [others] s = Some (Inr (retval (thr s2 t)), s3) \<and> sched_inv s3 (rq2 @ [t]) \<and>
          zombieq s3 (remove1 t zs) \<and> condq s3 c [] \<and> state (thr s3 t) = ST_ST_RUNNABLE))"
proof -
  obtain s0 where s0: "cond_enter c ST_UTIME_NO_TIMEOUT me s = Some s0" "sched_inv s0 rq" "condq s0 c [me]"
    "same_globals s s0" "state (thr s0 me) = ST_ST_COND_WAIT"
    by (rule cond_enter_ok [OF assms(1,3,4,8), of ST_UTIME_NO_TIMEOUT]) simp_all
  obtain s1 rq1 where s1: "st_vp_schedule s0 = Some s1" "sched_inv s1 rq1" "same_waitqs s0 s1"
    "\<forall>u. u \<notin> set rq \<longrightarrow> idle_thread s0 \<noteq> Some u \<longrightarrow> thr s1 u = thr s0 u"
    by (rule schedule_returns [OF s0(2)])
  have "me \<notin> set rq" using sched_invD(6) [OF assms(1), of me] assms(3) by auto
  then have t1: "thr s1 me = thr s0 me" using s1(4) s0(4) assms(4) by (simp add: same_globals_def)
  have l: "lnext (links s) (CondQ c) = Some (CondQ c)" using assms(8) by (simp add: condq_def)
  have w: "st_cond_timedwait c ST_UTIME_NO_TIMEOUT others s = map_option (cond_leave me) (others s1)"
    using assms(2,5) s0(1) switch_away_eq [OF s1(1)] by (simp add: st_cond_timedwait_def)
  have fin: "\<exists>s3. st_thread_join t [others] s = Some (Inr (retval (thr s2 t)), s3) \<and> sched_inv s3 (rq2 @ [t]) \<and>
          zombieq s3 (remove1 t zs) \<and> condq s3 c [] \<and> state (thr s3 t) = ST_ST_RUNNABLE"
    if o: "others s1 = Some s2" "sched_inv s2 rq2" "condq s2 c [me]" "zombieq s2 zs" "t \<in> set zs"
      "state (thr s2 t) = ST_ST_ZOMBIE" "idle_thread s2 \<noteq> Some t" "\<not> has_flag s2 me ST_FL_INTERRUPT"
      "\<not> has_flag s2 me ST_FL_TIMEDOUT" for s2 rq2 zs
  proof (rule cond_leave_ok [OF o(2,3), of me])
    fix u
    assume u: "cond_leave me s2 = (if has_flag s2 me ST_FL_INTERRUPT then Inl EINTR
        else if has_flag s2 me ST_FL_TIMEDOUT then Inl ETIME else Inr (), u)" "sched_inv u rq2"
      "condq u c (remove1 me [me])" "same_other_waitqs (CondQ c) me s2 u" "same_globals s2 u"
      "\<forall>v. v \<noteq> me \<longrightarrow> thr u v = thr s2 v"
    have ut: "thr u t = thr s2 t" using u(6) assms(7) by simp
    have z: "zombieq u zs" using u(4) o(4) by (simp add: same_other_waitqs_def)
    note r = join_reap [OF u(2) z o(5)]
    have it: "idle_thread u \<noteq> Some t" using u(5) o(7) by (simp add: same_globals_def)
    define v where "v = ST_ADD_RUNQ t (ST_DEL_ZOMBIEQ t (set_state t ST_ST_RUNNABLE u))"
    have "join_loop t c [others] s = Some (Inr (), u)"
      using assms(9) w o(1,6,8,9) u(1) ut by (subst join_loop.simps) (simp add: join_loop.simps)
    then have e: "st_thread_join t [others] s = Some (Inr (retval (thr s2 t)), v)"
      using assms(2,6,7) l ut by (simp add: st_thread_join_def v_def Let_def)
    have zu: "state (thr u t) = ST_ST_ZOMBIE" using o(6) ut by simp
    note r = join_reap [OF u(2) z o(5) zu it, folded v_def]
    have "condq v c []" using u(3) r(4) [of c "[]"] by simp
    then show ?thesis using e r(1-3) by auto
  qed simp
  then show ?thesis using s1(2,3) s0(3,5) t1 by (intro exI [of _ s1] exI [of _ rq1]) (auto simp: same_waitqs_def)
qed

text \<open>A state in which thread 5 can join thread 20, and one in which thread 20 has exited meanwhile.\<close>

definition demo_join :: st where
  "demo_join = demo_vp\<lparr>thr := demo_thr(20 := (demo_thr 20)\<lparr>term_cv := Some 3\<rparr>),
     links := ST_INIT_CLIST (CondQ 3) demo_links\<rparr>"

definition demo_exited :: st where
  "demo_exited = demo_join\<lparr>thr := demo_thr(20 := (demo_thr 20)\<lparr>state := ST_ST_ZOMBIE, retval := 99\<rparr>),
     links := ST_APPEND_LINK (Links 20) ZombieQ (ST_APPEND_LINK (WaitLinks 5) (CondQ 3) (links demo_join))\<rparr>"

lemma demo_join_facts:
  "runq demo_join [4]" "condq demo_join 3 []" "runq demo_exited [4]" "condq demo_exited 3 [5]" "zombieq demo_exited [20]"
  by (simp_all add: q_defs demo_join_def demo_exited_def demo_links_def is_clist_def ST_APPEND_LINK_def
      ST_INSERT_BEFORE_def ST_INIT_CLIST_def Let_def)

lemma demo_join_inv: "sched_inv demo_join [4]" "sched_inv demo_exited [4]"
proof -
  show "sched_inv demo_join [4]"
  proof (rule sched_invI, goal_cases)
    case 1
    then show ?case by (rule demo_join_facts)
  qed (use demo_heap_ok in \<open>auto simp: demo_join_def wf_heap_def demo_fields demo_sleepers has_flag_def demo_thr_def
      fl_defs flag_on_def wait_states_def idle_states_def split: if_splits\<close>)
  show "sched_inv demo_exited [4]"
  proof (rule sched_invI, goal_cases)
    case 1
    then show ?case by (rule demo_join_facts)
  qed (use demo_heap_ok in \<open>auto simp: demo_exited_def demo_join_def wf_heap_def demo_fields demo_sleepers has_flag_def
      demo_thr_def fl_defs flag_on_def wait_states_def idle_states_def split: if_splits\<close>)
qed

theorem st_thread_join_returns_value_witness:
  "\<exists>s3. st_thread_join 20 [\<lambda>_. Some demo_exited] demo_join = Some (Inr 99, s3) \<and> sched_inv s3 [4, 20] \<and> zombieq s3 []"
proof -
  have p: "this_thread demo_join = Some 5" "state (thr demo_join 5) = ST_ST_RUNNING" "idle_thread demo_join \<noteq> Some 5"
    "\<not> has_flag demo_join 5 ST_FL_INTERRUPT" "term_cv (thr demo_join 20) = Some 3" "(20 :: tid) \<noteq> 5"
    "state (thr demo_join 20) \<noteq> ST_ST_ZOMBIE"
    by (simp_all add: demo_join_def demo_fields demo_thr_def has_flag_def)
  have r: "state (thr demo_exited 20) = ST_ST_ZOMBIE" "idle_thread demo_exited \<noteq> Some 20" "retval (thr demo_exited 20) = 99"
    "\<not> has_flag demo_exited 5 ST_FL_INTERRUPT" "\<not> has_flag demo_exited 5 ST_FL_TIMEDOUT"
    by (simp_all add: demo_exited_def demo_join_def demo_fields demo_thr_def has_flag_def)
  obtain s1 where fin: "\<forall>s2 rq2 zs. Some demo_exited = Some s2 \<longrightarrow> sched_inv s2 rq2 \<longrightarrow> condq s2 3 [5] \<longrightarrow> zombieq s2 zs \<longrightarrow>
       20 \<in> set zs \<longrightarrow> state (thr s2 20) = ST_ST_ZOMBIE \<longrightarrow> idle_thread s2 \<noteq> Some 20 \<longrightarrow>
       \<not> has_flag s2 5 ST_FL_INTERRUPT \<longrightarrow> \<not> has_flag s2 5 ST_FL_TIMEDOUT \<longrightarrow>
       (\<exists>s3. st_thread_join 20 [\<lambda>_. Some demo_exited] demo_join = Some (Inr (retval (thr s2 20)), s3) \<and>
          sched_inv s3 (rq2 @ [20]) \<and> zombieq s3 (remove1 20 zs) \<and> condq s3 3 [] \<and> state (thr s3 20) = ST_ST_RUNNABLE)"
    using st_thread_join_returns_value [OF demo_join_inv(1) p(1-6) demo_join_facts(2) p(7), of "\<lambda>_. Some demo_exited"]
    by blast
  have "20 \<in> set [20 :: tid]" by simp
  from fin [rule_format, OF refl demo_join_inv(2) demo_join_facts(4,5) this r(1,2,4,5)] show ?thesis by (auto simp: r(3))
qed

text \<open>
  \<open>_st_thread_main\<close> discards the value the start routine returns: the exit value of a thread whose
  start routine simply returns is the one stored in the thread object before, \<open>NULL\<close> for a new thread.
\<close>

theorem st_thread_main_discards_result:
  assumes "start (thr (vp y) t) \<noteq> 0" and "app (start (thr (vp y) t)) (arg (thr (vp y) t)) y = Some (v, y1)"
    and "sched_inv (vp y1) rq" and "this_thread (vp y1) = Some t" and "state (thr (vp y1) t) = ST_ST_RUNNING"
    and "term_cv (thr (vp y1) t) = None" and "\<not> has_flag (vp y1) t ST_FL_PRIMORDIAL"
    and "free_stacks (stks y1) fs" and "t \<notin> set fs"
  shows "\<exists>y2. st_thread_main (Some t) app y = Some y2 \<and> state (thr (vp y2) t) = ST_ST_ZOMBIE \<and>
    retval (thr (vp y2) t) = retval (thr (vp y1) t)"
proof -
  obtain y' where "st_thread_exit (retval (thr (vp y1) t)) y1 = Some y'" "state (thr (vp y') t) = ST_ST_ZOMBIE"
    "retval (thr (vp y') t) = retval (thr (vp y1) t)"
    using exit_plain_ok [OF assms(3-9), of "retval (thr (vp y1) t)"] by blast
  then show ?thesis using assms(1,2) by (simp add: st_thread_main_def swapOutFiber_def Let_def)
qed

definition demo_main :: sys where
  "demo_main = demo_sys\<lparr>vp := upd_thr 5 (\<lambda>x. x\<lparr>start := 70\<rparr>) demo_vp\<rparr>"

theorem st_thread_main_discards_result_witness:
  "\<exists>y2. st_thread_main (Some 5) (\<lambda>f a y. Some (42, y)) demo_main = Some y2 \<and> retval (thr (vp y2) 5) = 0"
proof -
  have i: "sched_inv (upd_thr 5 (\<lambda>x. x\<lparr>start := 70\<rparr>) demo_vp) [4]"
    by (rule sched_inv_cong [OF demo_inv]) (simp_all add: has_flag_def)
  have p: "start (thr (vp demo_main) 5) \<noteq> 0"
    "(\<lambda>f a y. Some (42, y)) (start (thr (vp demo_main) 5)) (arg (thr (vp demo_main) 5)) demo_main = Some (42, demo_main)"
    "sched_inv (vp demo_main) [4]" "this_thread (vp demo_main) = Some 5"
    "state (thr (vp demo_main) 5) = ST_ST_RUNNING" "term_cv (thr (vp demo_main) 5) = None"
    "\<not> has_flag (vp demo_main) 5 ST_FL_PRIMORDIAL" "free_stacks (stks demo_main) [11, 12]" "5 \<notin> set [11, 12 :: nat]"
    using i demo_free by (simp_all add: demo_main_def demo_sys_def demo_fields demo_thr_def has_flag_def)
  have "retval (thr (vp demo_main) 5) = 0" by (simp add: demo_main_def demo_fields demo_thr_def)
  then show ?thesis using st_thread_main_discards_result [OF p(1), of "\<lambda>f a y. Some (42, y)", OF p(2-9)] by auto
qed

section \<open>Start-up and the idle loop\<close>

text \<open>Before \<open>st_init\<close>: no thread is runnable, on the sleep queue or marked as the idle thread.\<close>

definition boot_state :: "st \<Rightarrow> bool" where
  "boot_state s \<longleftrightarrow> (\<forall>t. state (thr s t) \<noteq> ST_ST_RUNNABLE \<and> \<not> has_flag s t ST_FL_ON_SLEEPQ \<and>
     \<not> has_flag s t ST_FL_IDLE_THREAD)"

lemma wf_heap_empty:
  assumes "sleep_q h = None" and "sleepq_size h = 0"
  shows "wf_heap h" and "sleepers h = {}"
proof -
  have "\<not> num ps \<le> 0" for ps using foldl_go_ge [of 1 ps] by simp
  then have "heap_ok h Leaf" using assms by (simp add: heap_ok_def)
  then show "wf_heap h" "sleepers h = {}" using sleepers_eq by (auto simp: wf_heap_def)
qed

lemma vp_reset_inv:
  assumes "boot_state s"
  shows "sched_inv (vp_reset s) []" and "thr (vp_reset s) = thr s" and "idle_thread (vp_reset s) = None"
    and "active_count (vp_reset s) = active_count s" and "sleepers (heap (vp_reset s)) = {}"
proof -
  have f: "thr (vp_reset s) = thr s" "idle_thread (vp_reset s) = None" "active_count (vp_reset s) = active_count s"
    "sleep_q (heap (vp_reset s)) = None" "sleepq_size (heap (vp_reset s)) = 0"
    by (simp_all add: vp_reset_def Let_def)
  note h = wf_heap_empty [OF f(4,5)]
  have "runq (vp_reset s) []" by (simp add: runq_def vp_reset_def Let_def ST_INIT_CLIST_def)
  then show "sched_inv (vp_reset s) []"
    using assms h f(1,2) by (intro sched_invI) (auto simp: boot_state_def has_flag_def)
  show "thr (vp_reset s) = thr s" "idle_thread (vp_reset s) = None" "active_count (vp_reset s) = active_count s"
    "sleepers (heap (vp_reset s)) = {}" using f h by simp_all
qed

lemma idle_from_new_thread:
  assumes inv: "sched_inv s [i]" and e: "sleepers (heap s) = {}" and n: "\<forall>t. \<not> has_flag s t ST_FL_IDLE_THREAD"
    and id: "idle_thread s = None"
  defines "s' \<equiv> ST_DEL_RUNQ i ((upd_thr i (\<lambda>x. x\<lparr>flags := ST_FL_IDLE_THREAD\<rparr>) (s\<lparr>idle_thread := Some i\<rparr>))
      \<lparr>active_count := active_count s - 1\<rparr>)"
  shows "sched_inv s' []" and "idle_thread s' = Some i" and "active_count s' = active_count s - 1"
    and "state (thr s' i) = ST_ST_RUNNABLE"
proof -
  have f: "heap s' = heap s" "idle_thread s' = Some i" "active_count s' = active_count s - 1"
    "thr s' = (thr s)(i := (thr s i)\<lparr>flags := ST_FL_IDLE_THREAD\<rparr>)"
    by (simp_all add: s'_def ST_DEL_RUNQ_def)
  have st: "state (thr s i) = ST_ST_RUNNABLE" using sched_invD(6) [OF inv, of i] by simp
  have fl: "\<not> flag_on ST_FL_IDLE_THREAD ST_FL_ON_SLEEPQ" by (simp add: flag_on_def fl_defs)
  have "runq (ST_DEL_RUNQ i s) []" using runq_del [OF sched_invD(1) [OF inv], of i] by simp
  then have q: "runq s' []" by (simp add: s'_def runq_def ST_DEL_RUNQ_def)
  show "sched_inv s' []"
  proof (rule sched_invI, goal_cases)
    case (3 u)
    then show ?case using sched_invD(4) [OF inv, of u] e fl by (auto simp: f has_flag_def)
  next
    case (6 u)
    then show ?case using sched_invD(7) [OF inv, of u] id by (auto simp: f split: if_splits)
  next
    case (8 u)
    then show ?case using n by (auto simp: f has_flag_def split: if_splits)
  qed (use q e st sched_invD(2) [OF inv] in \<open>auto simp: f\<close>)
  show "idle_thread s' = Some i" "active_count s' = active_count s - 1" "state (thr s' i) = ST_ST_RUNNABLE"
    using f st by simp_all
qed


definition demo_boot :: sys where
  "demo_boot = \<lparr>vp = demo_data, stks = demo_stacks, kt = demo_keys, dcalls = []\<rparr>"


text \<open>
  The idle loop: if the event system's dispatch function returns and keeps the invariant, every
  iteration does.
\<close>

definition dispatch_ok :: "(st \<Rightarrow> st option) \<Rightarrow> bool" where
  "dispatch_ok d \<longleftrightarrow> (\<forall>s rq. sched_inv s rq \<longrightarrow> (\<exists>s' rq'. d s = Some s' \<and> sched_inv s' rq' \<and> idle_thread s' = idle_thread s))"

lemma check_clock_returns:
  assumes "sched_inv s rq"
  obtains s' rq' where "st_vp_check_clock now wall s = Some s'" and "sched_inv s' rq'" and "idle_thread s' = idle_thread s"
  using st_vp_check_clock_ok [OF assms, of now wall] by blast

lemma idle_thread_run_ok:
  assumes "sched_inv s rq" and "\<forall>(d, now, wall) \<in> set ins. dispatch_ok d"
  shows "\<exists>s' rq'. idle_thread_run ins s = Some s' \<and> sched_inv s' rq'"
  using assms
proof (induction ins arbitrary: s rq)
  case (Cons x ins)
  obtain d now wall where x: "x = (d, now, wall)" by (cases x)
  show ?case
  proof (cases "active_count s > 0")
    case True
    obtain s1 rq1 where s1: "d s = Some s1" "sched_inv s1 rq1"
      using Cons.prems x by (auto simp: dispatch_ok_def)
    obtain s2 rq2 where s2: "st_vp_check_clock now wall s1 = Some s2" "sched_inv s2 rq2"
      by (rule check_clock_returns [OF s1(2)])
    obtain s3 rq3 where s3: "st_vp_schedule s2 = Some s3" "sched_inv s3 rq3"
      by (rule schedule_returns [OF s2(2)])
    show ?thesis using Cons.IH [OF s3(2)] Cons.prems(2) True s1(1) s2(1) s3(1) x by auto
  qed (use Cons.prems x in auto)
qed auto

lemma idle_thread_start_ok:
  assumes "sched_inv s rq" and "idle_thread s = me" and "\<forall>(d, now, wall) \<in> set ins. dispatch_ok d"
  shows "\<exists>s' rq'. idle_thread_start me ins s = Some s' \<and> sched_inv s' rq'"
  using assms
proof (induction ins arbitrary: s rq)
  case (Cons x ins)
  obtain d now wall where x: "x = (d, now, wall)" by (cases x)
  show ?case
  proof (cases "active_count s > 0")
    case True
    obtain s1 rq1 where s1: "d s = Some s1" "sched_inv s1 rq1" "idle_thread s1 = me"
      using Cons.prems x by (auto simp: dispatch_ok_def)
    obtain s2 rq2 where s2: "st_vp_check_clock now wall s1 = Some s2" "sched_inv s2 rq2" "idle_thread s2 = me"
      using check_clock_returns [OF s1(2), of now wall] s1(3) by metis
    define s3 where "s3 = (case me of None \<Rightarrow> s2
        | Some i \<Rightarrow> if state (thr s2 i) \<noteq> ST_ST_ZOMBIE \<and> state (thr s2 i) \<noteq> ST_ST_RUNNABLE
                   then set_state i ST_ST_RUNNABLE s2 else s2)"
    have i3: "sched_inv s3 rq2"
      using s2(2) sched_inv_idle_runnable [OF s2(2)] s2(3) by (auto simp: s3_def split: option.splits)
    have a3: "idle_thread s3 = me" using s2(3) by (auto simp: s3_def set_state_def split: option.splits)
    obtain s4 rq4 where s4: "st_vp_schedule s3 = Some s4" "sched_inv s4 rq4" "idle_thread s4 = idle_thread s3"
      by (rule schedule_returns [OF i3])
    have e: "idle_thread_start me (x # ins) s =
        (if active_count s3 \<le> 0 then Some s3 else Option.bind (st_vp_schedule s3) (idle_thread_start me ins))"
      using True s1(1) s2(1) x unfolding s3_def by (simp add: Let_def)
    show ?thesis using Cons.IH [OF s4(2)] Cons.prems(3) s4(1,3) i3 a3 e by auto
  qed (use Cons.prems x in auto)
qed auto



end
