(* ===== verification/Event.thy ===== *)
theory Event
  imports Sched "HOL-Library.Signed_Division" "HOL-Library.Multiset"
begin

text \<open>
  event.c: the bookkeeping of the select event system. Descriptors are split into groups of
  \<open>FD_SETSIZE\<close> consecutive numbers, each with its own three \<open>fd_set\<close>s, and three maps count for every
  descriptor how many pending requests ask for reading, writing and exceptions. The maps belong to an
  external container library: the operations of the model take the record of its functions as an argument, and
  \<open>cmap_ok\<close> states what the code relies on.
\<close>

section \<open>Descriptor sets and poll requests\<close>

text \<open>The three kinds of readiness in the order in which the code treats them.\<close>

datatype kind = RD | WR | EXC

definition kinds :: "kind list" where
  "kinds = [RD, WR, EXC]"

type_synonym short = "16 word"

definition POLLIN :: short where "POLLIN = 0x300"
definition POLLOUT :: short where "POLLOUT = 0x10"
definition POLLPRI :: short where "POLLPRI = 0x400"
definition POLLNVAL :: short where "POLLNVAL = 0x4"

fun kmask :: "kind \<Rightarrow> short" where
  "kmask RD = POLLIN"
| "kmask WR = POLLOUT"
| "kmask EXC = POLLPRI"

record pollfd =
  fd :: int
  events :: short
  revents :: short

definition wants :: "kind \<Rightarrow> pollfd \<Rightarrow> bool" where
  "wants k pd \<longleftrightarrow> events pd AND kmask k \<noteq> 0"

definition FD_SETSIZE :: int where
  "FD_SETSIZE = 200"

text \<open>
  The winsock \<open>fd_set\<close> is an array of sockets with a count: \<open>FD_SET\<close> appends a socket that is not in
  the array while there is room, \<open>FD_CLR\<close> removes it, \<open>FD_ISSET\<close> searches it.
\<close>

type_synonym fd_set = "int list"

definition FD_SET :: "int \<Rightarrow> fd_set \<Rightarrow> fd_set" where
  "FD_SET x xs = (if x \<in> set xs then xs else if int (length xs) < FD_SETSIZE then xs @ [x] else xs)"

definition FD_CLR :: "int \<Rightarrow> fd_set \<Rightarrow> fd_set" where
  "FD_CLR x xs = remove1 x xs"

definition FD_ISSET :: "int \<Rightarrow> fd_set \<Rightarrow> bool" where
  "FD_ISSET x xs \<longleftrightarrow> x \<in> set xs"

record seldata =
  index :: int
  maxfd :: int
  nreq :: int
  fdset :: "kind \<Rightarrow> fd_set"

section \<open>The external map\<close>

text \<open>
  \<open>map_at\<close> yields the pointer to the value of a key (here the value, \<open>None\<close> for \<open>NULL\<close>) and the map,
  which it may extend by a default value; \<open>map_insert\<close> adds a pair, \<open>map_store\<close> writes through a
  pointer obtained from \<open>map_at\<close>.
\<close>

record 'm cmap =
  map_new :: 'm
  map_at :: "'m \<Rightarrow> int \<Rightarrow> int option \<times> 'm"
  map_insert :: "'m \<Rightarrow> int \<Rightarrow> int \<Rightarrow> 'm"
  map_store :: "'m \<Rightarrow> int \<Rightarrow> int \<Rightarrow> 'm"

definition cnt :: "'m cmap \<Rightarrow> 'm \<Rightarrow> int \<Rightarrow> int" where
  "cnt ops m x = (case fst (map_at ops m x) of None \<Rightarrow> 0 | Some v \<Rightarrow> v)"

definition cmap_ok :: "'m cmap \<Rightarrow> bool" where
  "cmap_ok ops \<longleftrightarrow> cnt ops (map_new ops) = (\<lambda>_. 0) \<and>
     (\<forall>m x. cnt ops (snd (map_at ops m x)) = cnt ops m) \<and>
     (\<forall>m x v. fst (map_at ops m x) = None \<longrightarrow>
        cnt ops (map_insert ops (snd (map_at ops m x)) x v) = (cnt ops m)(x := v)) \<and>
     (\<forall>m x v. fst (map_at ops m x) \<noteq> None \<longrightarrow>
        cnt ops (map_store ops (snd (map_at ops m x)) x v) = (cnt ops m)(x := v))"

definition ST_SELECT_ADD_CNT :: "'m cmap \<Rightarrow> 'm \<Rightarrow> int \<Rightarrow> int \<Rightarrow> 'm" where
  "ST_SELECT_ADD_CNT ops mp x val =
    (case map_at ops mp x of
       (None, mp) \<Rightarrow> map_insert ops mp x val
     | (Some v, mp) \<Rightarrow> map_store ops mp x (v + val))"

definition st_select_del_cnt :: "'m cmap \<Rightarrow> 'm \<Rightarrow> int \<Rightarrow> int \<Rightarrow> int \<times> 'm" where
  "st_select_del_cnt ops mp x val =
    (case map_at ops mp x of
       (Some v, mp) \<Rightarrow> (v - val, map_store ops mp x (v - val))
     | (None, mp) \<Rightarrow> (0, mp))"

definition st_select_get_cnt :: "'m cmap \<Rightarrow> 'm \<Rightarrow> int \<Rightarrow> int \<times> 'm" where
  "st_select_get_cnt ops mp x =
    (case map_at ops mp x of (Some v, mp) \<Rightarrow> (v, mp) | (None, mp) \<Rightarrow> (0, mp))"

section \<open>Groups and poll sets\<close>

record 'm evs =
  select_data :: "seldata list"
  cmaps :: "kind \<Rightarrow> 'm"

definition select_num :: "'m evs \<Rightarrow> int" where
  "select_num ev = int (length (select_data ev))"

definition st_seldata_new :: seldata where
  "st_seldata_new = \<lparr>index = 0, maxfd = 0, nreq = 0, fdset = \<lambda>_. []\<rparr>"

definition st_select_get_gfd :: "int \<Rightarrow> int" where
  "st_select_get_gfd x = (x - 1) sdiv FD_SETSIZE"

definition st_select_check_seldata :: "int \<Rightarrow> 'm evs \<Rightarrow> 'm evs" where
  "st_select_check_seldata gfd ev =
    (if gfd < select_num ev then ev
     else ev\<lparr>select_data := select_data ev @
            map (\<lambda>i. st_seldata_new\<lparr>index := i\<rparr>) [select_num ev..gfd]\<rparr>)"

definition st_select_init :: "'m cmap \<Rightarrow> 'm evs \<Rightarrow> 'm evs" where
  "st_select_init ops ev = ev\<lparr>cmaps := (\<lambda>_. map_new ops)\<rparr>"

definition upd_seldata :: "int \<Rightarrow> (seldata \<Rightarrow> seldata) \<Rightarrow> 'm evs \<Rightarrow> 'm evs" where
  "upd_seldata gfd f ev = ev\<lparr>select_data := (select_data ev)[nat gfd := f (select_data ev ! nat gfd)]\<rparr>"

definition upd_fdset :: "kind \<Rightarrow> (fd_set \<Rightarrow> fd_set) \<Rightarrow> seldata \<Rightarrow> seldata" where
  "upd_fdset k f d = d\<lparr>fdset := (fdset d)(k := f (fdset d k))\<rparr>"

text \<open>One of the three \<open>if (pd->events & ...)\<close> statements of \<open>_st_select_pollset_add\<close> and of its counterpart.\<close>

definition add_kind :: "'m cmap \<Rightarrow> pollfd \<Rightarrow> int \<Rightarrow> kind \<Rightarrow> 'm evs \<Rightarrow> 'm evs" where
  "add_kind ops pd gfd k ev =
    (if wants k pd
     then (let ev = upd_seldata gfd (upd_fdset k (FD_SET (fd pd))) ev
           in ev\<lparr>cmaps := (cmaps ev)(k := ST_SELECT_ADD_CNT ops (cmaps ev k) (fd pd) 1)\<rparr>)
     else ev)"

definition cut_kind :: "'m cmap \<Rightarrow> pollfd \<Rightarrow> int \<Rightarrow> kind \<Rightarrow> 'm evs \<Rightarrow> 'm evs" where
  "cut_kind ops pd gfd k ev =
    (if wants k pd
     then (let (n, mp) = st_select_del_cnt ops (cmaps ev k) (fd pd) 1;
               ev = ev\<lparr>cmaps := (cmaps ev)(k := mp)\<rparr>
           in if n = 0 then upd_seldata gfd (upd_fdset k (FD_CLR (fd pd))) ev else ev)
     else ev)"

definition add_pd :: "'m cmap \<Rightarrow> pollfd \<Rightarrow> 'm evs \<Rightarrow> 'm evs" where
  "add_pd ops pd ev =
    (if fd pd \<le> 0 \<or> events pd = 0 then ev
     else (let gfd = st_select_get_gfd (fd pd);
               ev = st_select_check_seldata gfd ev;
               ev = fold (add_kind ops pd gfd) kinds ev;
               ev = upd_seldata gfd (\<lambda>d. if maxfd d < fd pd then d\<lparr>maxfd := fd pd\<rparr> else d) ev
           in upd_seldata gfd (\<lambda>d. d\<lparr>nreq := nreq d + 1\<rparr>) ev))"

fun st_select_pollset_add :: "'m cmap \<Rightarrow> pollfd list \<Rightarrow> 'm evs \<Rightarrow> 'm evs" where
  "st_select_pollset_add ops [] ev = ev"
| "st_select_pollset_add ops (pd # pds) ev = st_select_pollset_add ops pds (add_pd ops pd ev)"

definition del_pd :: "'m cmap \<Rightarrow> pollfd \<Rightarrow> 'm evs \<Rightarrow> 'm evs" where
  "del_pd ops pd ev =
    (let gfd = st_select_get_gfd (fd pd)
     in if fd pd \<le> 0 \<or> events pd = 0 \<or> gfd \<ge> select_num ev then ev
        else (let ev = fold (cut_kind ops pd gfd) kinds ev
              in upd_seldata gfd (\<lambda>d. d\<lparr>nreq := nreq d - 1\<rparr>) ev))"

fun st_select_pollset_del :: "'m cmap \<Rightarrow> pollfd list \<Rightarrow> 'm evs \<Rightarrow> 'm evs" where
  "st_select_pollset_del ops [] ev = ev"
| "st_select_pollset_del ops (pd # pds) ev = st_select_pollset_del ops pds (del_pd ops pd ev)"

definition st_select_fd_new :: "int \<Rightarrow> errno + unit" where
  "st_select_fd_new osfd = Inr ()"

text \<open>The three counts are read in turn, as the short-circuit \<open>||\<close> does.\<close>

fun any_cnt :: "'m cmap \<Rightarrow> int \<Rightarrow> kind list \<Rightarrow> 'm evs \<Rightarrow> bool \<times> 'm evs" where
  "any_cnt ops osfd [] ev = (False, ev)"
| "any_cnt ops osfd (k # ks) ev =
    (let (n, mp) = st_select_get_cnt ops (cmaps ev k) osfd;
         ev = ev\<lparr>cmaps := (cmaps ev)(k := mp)\<rparr>
     in if n > 0 then (True, ev) else any_cnt ops osfd ks ev)"

definition st_select_fd_close :: "'m cmap \<Rightarrow> int \<Rightarrow> 'm evs \<Rightarrow> (errno + unit) \<times> 'm evs" where
  "st_select_fd_close ops osfd ev =
    (if st_select_get_gfd osfd \<ge> select_num ev then (Inr (), ev)
     else (case any_cnt ops osfd kinds ev of (True, ev) \<Rightarrow> (Inl EBUSY, ev) | (False, ev) \<Rightarrow> (Inr (), ev)))"

definition st_select_fd_getlimit :: int where
  "st_select_fd_getlimit = FD_SETSIZE"

section \<open>Choice of the event system\<close>

definition ST_EVENTSYS_DEFAULT :: int where "ST_EVENTSYS_DEFAULT = 0"
definition ST_EVENTSYS_SELECT :: int where "ST_EVENTSYS_SELECT = 1"
definition ST_EVENTSYS_POLL :: int where "ST_EVENTSYS_POLL = 2"
definition ST_EVENTSYS_ALT :: int where "ST_EVENTSYS_ALT = 3"

text \<open>The event system that is installed: its name and value, \<open>None\<close> for \<open>NULL\<close>.\<close>

type_synonym eventsys = "(string \<times> int) option"

definition st_select_eventsys :: "string \<times> int" where
  "st_select_eventsys = (''select'', ST_EVENTSYS_SELECT)"

definition st_set_eventsys :: "int \<Rightarrow> eventsys \<Rightarrow> (errno + unit) \<times> eventsys" where
  "st_set_eventsys e es =
    (if es \<noteq> None then (Inl EBUSY, es)
     else if e = ST_EVENTSYS_DEFAULT \<or> e = ST_EVENTSYS_SELECT \<or> e = ST_EVENTSYS_POLL \<or> e = ST_EVENTSYS_ALT
     then (Inr (), Some st_select_eventsys)
     else (Inl EINVAL, es))"

definition st_get_eventsys :: "eventsys \<Rightarrow> int" where
  "st_get_eventsys es = (case es of None \<Rightarrow> -1 | Some (n, v) \<Rightarrow> v)"

definition st_get_eventsys_name :: "eventsys \<Rightarrow> string" where
  "st_get_eventsys_name es = (case es of None \<Rightarrow> [] | Some (n, v) \<Rightarrow> n)"

section \<open>Counts\<close>

lemma cmap_okD:
  assumes "cmap_ok ops"
  shows "cnt ops (map_new ops) = (\<lambda>_. 0)" "cnt ops (snd (map_at ops m x)) = cnt ops m"
    "fst (map_at ops m x) = None \<Longrightarrow> cnt ops (map_insert ops (snd (map_at ops m x)) x v) = (cnt ops m)(x := v)"
    "fst (map_at ops m x) = Some w \<Longrightarrow> cnt ops (map_store ops (snd (map_at ops m x)) x v) = (cnt ops m)(x := v)"
  using assms by (auto simp: cmap_ok_def)

lemma add_cnt_eq:
  assumes "cmap_ok ops"
  shows "cnt ops (ST_SELECT_ADD_CNT ops m x v) = (cnt ops m)(x := cnt ops m x + v)"
proof -
  obtain r m' where at: "map_at ops m x = (r, m')" by (cases "map_at ops m x")
  show ?thesis
  proof (cases r)
    case None
    then show ?thesis using cmap_okD(3) [OF assms, of m x v] at by (simp add: ST_SELECT_ADD_CNT_def cnt_def)
  next
    case (Some w)
    then have "cnt ops m x = w" using at by (simp add: cnt_def)
    then show ?thesis using cmap_okD(4) [OF assms, of m x w "w + v"] at Some
      by (simp add: ST_SELECT_ADD_CNT_def)
  qed
qed

lemma del_cnt_eq:
  assumes "cmap_ok ops"
  shows "st_select_del_cnt ops m x v = (r, m') \<Longrightarrow> cnt ops m x \<noteq> 0 \<Longrightarrow>
      r = cnt ops m x - v \<and> cnt ops m' = (cnt ops m)(x := cnt ops m x - v)"
    and "st_select_del_cnt ops m x v = (r, m') \<Longrightarrow> y \<noteq> x \<Longrightarrow> cnt ops m' y = cnt ops m y"
proof -
  obtain q n where at: "map_at ops m x = (q, n)" by (cases "map_at ops m x")
  have n: "cnt ops n = cnt ops m" using cmap_okD(2) [OF assms, of m x] at by simp
  have w: "q = Some w \<Longrightarrow> cnt ops (map_store ops n x (w - v)) = (cnt ops m)(x := w - v)" for w
    using cmap_okD(4) [OF assms, of m x w "w - v"] at by simp
  have c: "cnt ops m x = (case q of None \<Rightarrow> 0 | Some w \<Rightarrow> w)" using at by (simp add: cnt_def)
  show "st_select_del_cnt ops m x v = (r, m') \<Longrightarrow> cnt ops m x \<noteq> 0 \<Longrightarrow>
      r = cnt ops m x - v \<and> cnt ops m' = (cnt ops m)(x := cnt ops m x - v)"
    using at w c by (auto simp: st_select_del_cnt_def split: option.splits)
  show "st_select_del_cnt ops m x v = (r, m') \<Longrightarrow> y \<noteq> x \<Longrightarrow> cnt ops m' y = cnt ops m y"
    using at w c n by (auto simp: st_select_del_cnt_def split: option.splits)
qed

lemma get_cnt_eq:
  assumes "cmap_ok ops"
  shows "st_select_get_cnt ops m x = (cnt ops m x, snd (map_at ops m x))"
  by (auto simp: st_select_get_cnt_def cnt_def split: option.splits prod.splits)

section \<open>Pending requests\<close>

text \<open>
  \<open>occ k f ps\<close>: how many of the pending entries \<open>ps\<close> ask for kind \<open>k\<close> on descriptor \<open>f\<close>. An entry is
  active if the code does not skip it; \<open>grp f\<close> is the group of a descriptor.
\<close>

definition occ :: "kind \<Rightarrow> int \<Rightarrow> pollfd list \<Rightarrow> nat" where
  "occ k f ps = length (filter (\<lambda>p. fd p = f \<and> wants k p) ps)"

definition active :: "pollfd \<Rightarrow> bool" where
  "active p \<longleftrightarrow> fd p > 0 \<and> events p \<noteq> 0"

definition grp :: "int \<Rightarrow> nat" where
  "grp f = nat ((f - 1) div FD_SETSIZE)"

text \<open>
  The consistency of the event system with the pending entries \<open>ps\<close>: the maps count them, the sets
  hold only descriptors with a positive count, in the group of the descriptor, and every group counts its
  requests. It is exact (\<open>x\<close>) if the sets hold all descriptors with a positive count and the numbers of requests are
  right. \<open>select\<close> removes from the sets the descriptors that are not ready, and a notified request is
  not subtracted from the number of its group, so that after a dispatch only the weaker form holds.
\<close>

definition counts_ok :: "'m cmap \<Rightarrow> 'm evs \<Rightarrow> pollfd list \<Rightarrow> bool" where
  "counts_ok ops ev ps \<longleftrightarrow> (\<forall>k f. f > 0 \<longrightarrow> cnt ops (cmaps ev k) f = int (occ k f ps)) \<and>
     (\<forall>p \<in> set ps. active p \<longrightarrow> grp (fd p) < length (select_data ev))"

definition in_group :: "nat \<Rightarrow> kind \<Rightarrow> pollfd list \<Rightarrow> int \<Rightarrow> bool" where
  "in_group g k ps f \<longleftrightarrow> f > 0 \<and> grp f = g \<and> occ k f ps > 0"

definition nactive :: "nat \<Rightarrow> pollfd list \<Rightarrow> int" where
  "nactive g ps = int (length (filter (\<lambda>p. active p \<and> grp (fd p) = g) ps))"

definition group_ok :: "bool \<Rightarrow> nat \<Rightarrow> seldata \<Rightarrow> pollfd list \<Rightarrow> bool" where
  "group_ok x g d ps \<longleftrightarrow> index d = int g \<and> nreq d \<ge> nactive g ps \<and> (x \<longrightarrow> nreq d = nactive g ps) \<and>
     (\<forall>k. distinct (fdset d k) \<and> (\<forall>f \<in> set (fdset d k). in_group g k ps f) \<and>
        (x \<longrightarrow> (\<forall>f. in_group g k ps f \<longrightarrow> f \<in> set (fdset d k))))"

definition evs_ok :: "bool \<Rightarrow> 'm cmap \<Rightarrow> 'm evs \<Rightarrow> pollfd list \<Rightarrow> bool" where
  "evs_ok x ops ev ps \<longleftrightarrow> counts_ok ops ev ps \<and>
     (\<forall>g < length (select_data ev). group_ok x g (select_data ev ! g) ps)"

lemma group_okI:
  assumes "index d = int g" "nreq d \<ge> nactive g ps" "x \<Longrightarrow> nreq d = nactive g ps" "\<And>k. distinct (fdset d k)"
    "\<And>k f. f \<in> set (fdset d k) \<Longrightarrow> in_group g k ps f" "\<And>k f. x \<Longrightarrow> in_group g k ps f \<Longrightarrow> f \<in> set (fdset d k)"
  shows "group_ok x g d ps"
  using assms unfolding group_ok_def by blast

lemma group_okD:
  assumes "group_ok x g d ps"
  shows "index d = int g" "nreq d \<ge> nactive g ps" "x \<Longrightarrow> nreq d = nactive g ps" "distinct (fdset d k)"
    "f \<in> set (fdset d k) \<Longrightarrow> in_group g k ps f" "x \<Longrightarrow> in_group g k ps f \<Longrightarrow> f \<in> set (fdset d k)"
  using assms unfolding group_ok_def by blast+

lemma wants_events: "wants k p \<Longrightarrow> events p \<noteq> 0"
  by (auto simp: wants_def)

lemma gfd_grp: "f > 0 \<Longrightarrow> st_select_get_gfd f = int (grp f)"
  by (cases "f = 1") (simp_all add: st_select_get_gfd_def grp_def FD_SETSIZE_def signed_divide_int_def)

lemma grp_range: "f > 0 \<Longrightarrow> grp f = g \<Longrightarrow> f \<in> {200 * int g + 1 .. 200 * int g + 200}"
  unfolding grp_def FD_SETSIZE_def by simp linarith

text \<open>A group has at most \<open>FD_SETSIZE\<close> descriptors, so \<open>FD_SET\<close> always finds room.\<close>

lemma FD_SET_in_group:
  assumes "distinct xs" and "\<forall>f \<in> set xs. f > 0 \<and> grp f = g" and "x > 0" "grp x = g"
  shows "set (FD_SET x xs) = insert x (set xs)" "distinct (FD_SET x xs)"
proof -
  have "int (length xs) < FD_SETSIZE" if "x \<notin> set xs"
  proof -
    have "set (x # xs) \<subseteq> {200 * int g + 1 .. 200 * int g + 200}" using assms(2-) grp_range by auto
    then have "card (set (x # xs)) \<le> 200" using card_mono [of "{200 * int g + 1 .. 200 * int g + 200}"] by fastforce
    moreover have "card (set (x # xs)) = Suc (length xs)"
      using assms(1) that distinct_card [of "x # xs"] by simp
    ultimately show ?thesis by (simp add: FD_SETSIZE_def)
  qed
  then show "set (FD_SET x xs) = insert x (set xs)" "distinct (FD_SET x xs)"
    using assms(1) by (auto simp: FD_SET_def)
qed

lemma occ_simps [simp]:
  "occ k f [] = 0"
  "occ k f (p # ps) = (if fd p = f \<and> wants k p then Suc (occ k f ps) else occ k f ps)"
  "occ k f (ps @ qs) = occ k f ps + occ k f qs"
  by (auto simp: occ_def)

lemma kinds_set: "set kinds = UNIV"
  unfolding kinds_def using kind.exhaust by auto

section \<open>Adding a request\<close>

lemma upd_seldata_fields [simp]:
  "length (select_data (upd_seldata g f ev)) = length (select_data ev)"
  "cmaps (upd_seldata g f ev) = cmaps ev" "select_num (upd_seldata g f ev) = select_num ev"
  by (simp_all add: upd_seldata_def select_num_def)

lemma upd_seldata_comp: "upd_seldata g f (upd_seldata g h ev) = upd_seldata g (f \<circ> h) ev"
  by (cases "nat g < length (select_data ev)") (simp_all add: upd_seldata_def list_update_beyond)

lemma upd_seldata_cmaps: "upd_seldata g f (ev\<lparr>cmaps := c\<rparr>) = (upd_seldata g f ev)\<lparr>cmaps := c\<rparr>"
  by (simp add: upd_seldata_def)

lemma upd_seldata_id: "upd_seldata g (\<lambda>d. d) ev = ev"
  by (simp add: upd_seldata_def)

lemma upd_seldata_cong: "(\<And>d. f d = h d) \<Longrightarrow> upd_seldata g f ev = upd_seldata g h ev"
  by (simp add: upd_seldata_def)

definition upd_sets :: "(kind \<Rightarrow> fd_set \<Rightarrow> fd_set) \<Rightarrow> seldata \<Rightarrow> seldata" where
  "upd_sets f d = d\<lparr>fdset := \<lambda>k. f k (fdset d k)\<rparr>"

lemma upd_sets_fields [simp]: "fdset (upd_sets f d) k = f k (fdset d k)" "index (upd_sets f d) = index d"
  "maxfd (upd_sets f d) = maxfd d" "nreq (upd_sets f d) = nreq d"
  by (simp_all add: upd_sets_def)

lemma fun_kind_eqI: "f RD = g RD \<Longrightarrow> f WR = g WR \<Longrightarrow> f EXC = g EXC \<Longrightarrow> f = g"
  by (rule ext) (metis kind.exhaust)

text \<open>The three statements act on different sets and maps, so their order does not matter.\<close>

lemma fold_kinds:
  assumes step: "\<And>k e. act k e = (upd_seldata g (upd_fdset k (F k (cmaps e k))) e)\<lparr>cmaps := (cmaps e)(k := C k (cmaps e k))\<rparr>"
  shows "fold act kinds ev =
    (upd_seldata g (upd_sets (\<lambda>k. F k (cmaps ev k))) ev)\<lparr>cmaps := \<lambda>k. C k (cmaps ev k)\<rparr>"
proof -
  have sets: "upd_fdset EXC (F EXC a) (upd_fdset WR (F WR b) (upd_fdset RD (F RD c) d)) =
      upd_sets (\<lambda>k. F k (case k of RD \<Rightarrow> c | WR \<Rightarrow> b | EXC \<Rightarrow> a)) d" for a b c d
    by (rule seldata.equality) (auto simp: upd_fdset_def intro!: fun_kind_eqI)
  have m: "(\<lambda>k. F k (case k of RD \<Rightarrow> cmaps ev RD | WR \<Rightarrow> cmaps ev WR | EXC \<Rightarrow> cmaps ev EXC)) = (\<lambda>k. F k (cmaps ev k))"
    by (rule fun_kind_eqI) simp_all
  have c: "((cmaps ev)(RD := C RD (cmaps ev RD), WR := C WR (cmaps ev WR), EXC := C EXC (cmaps ev EXC))) = (\<lambda>k. C k (cmaps ev k))"
    by (rule fun_kind_eqI) simp_all
  show ?thesis
    by (simp add: kinds_def step upd_seldata_cmaps upd_seldata_comp comp_def sets m c)
qed

lemma upd_fdset_id [simp]: "upd_seldata g (upd_fdset k (\<lambda>x. x)) ev = ev" "upd_seldata g (upd_fdset k id) ev = ev"
  by (simp_all add: upd_fdset_def upd_seldata_def)

lemma add_kinds_eq:
  "fold (add_kind ops pd g) kinds ev =
     (upd_seldata g (upd_sets (\<lambda>k. if wants k pd then FD_SET (fd pd) else id)) ev)
       \<lparr>cmaps := \<lambda>k. if wants k pd then ST_SELECT_ADD_CNT ops (cmaps ev k) (fd pd) 1 else cmaps ev k\<rparr>"
  by (rule fold_kinds) (simp add: add_kind_def Let_def upd_seldata_id)

lemma cut_kinds_eq:
  "fold (cut_kind ops pd g) kinds ev =
     (upd_seldata g (upd_sets (\<lambda>k. if wants k pd \<and> fst (st_select_del_cnt ops (cmaps ev k) (fd pd) 1) = 0
          then FD_CLR (fd pd) else id)) ev)
       \<lparr>cmaps := \<lambda>k. if wants k pd then snd (st_select_del_cnt ops (cmaps ev k) (fd pd) 1) else cmaps ev k\<rparr>"
  by (rule fold_kinds [where F = "\<lambda>k m. if wants k pd \<and> fst (st_select_del_cnt ops m (fd pd) 1) = 0
          then FD_CLR (fd pd) else id"])
    (simp add: cut_kind_def Let_def upd_seldata_id upd_seldata_cmaps split: prod.splits)

lemma select_data_upd: "nat g < length (select_data ev) \<Longrightarrow> i < length (select_data ev) \<Longrightarrow>
    select_data (upd_seldata g f ev) ! i = (if i = nat g then f (select_data ev ! i) else select_data ev ! i)"
  by (simp add: upd_seldata_def)

lemma check_seldata_ok:
  fixes g :: nat
  assumes "evs_ok x ops ev ps"
  defines "ev' \<equiv> st_select_check_seldata (int g) ev"
  shows "evs_ok x ops ev' ps" "g < length (select_data ev')" "cmaps ev' = cmaps ev"
    "length (select_data ev) \<le> length (select_data ev')"
proof -
  let ?n = "length (select_data ev)"
  have old: "?n \<le> length (select_data ev')" "cmaps ev' = cmaps ev" "i < ?n \<Longrightarrow> select_data ev' ! i = select_data ev ! i" for i
    by (auto simp: ev'_def st_select_check_seldata_def nth_append)
  have new: "select_data ev' ! i = st_seldata_new\<lparr>index := int i\<rparr>" if "?n \<le> i" "i < length (select_data ev')" for i
    using that by (auto simp: ev'_def st_select_check_seldata_def nth_append select_num_def split: if_splits)
  have far: "p \<in> set ps \<Longrightarrow> active p \<Longrightarrow> grp (fd p) < ?n" for p
    using assms(1) by (auto simp: evs_ok_def counts_ok_def)
  have "group_ok x i (select_data ev' ! i) ps" if i: "?n \<le> i" "i < length (select_data ev')" for i
  proof -
    have z: "filter (\<lambda>p. active p \<and> grp (fd p) = i) ps = []"
      using far i(1) by (force simp: filter_empty_conv)
    have "occ k f ps = 0" if "f > 0" "grp f = i" for k f
      using far i(1) that wants_events by (force simp: occ_def filter_empty_conv active_def)
    then show ?thesis using new [OF i] z by (auto simp: group_ok_def in_group_def nactive_def st_seldata_new_def)
  qed
  then show "evs_ok x ops ev' ps"
    using assms(1) old unfolding evs_ok_def counts_ok_def
    by (metis (no_types, lifting) not_le order_less_le_trans)
  show "g < length (select_data ev')"
    by (auto simp: ev'_def st_select_check_seldata_def select_num_def)
  show "cmaps ev' = cmaps ev" "?n \<le> length (select_data ev')" using old by auto
qed

lemma evs_ok_inactive:
  assumes "\<not> active pd"
  shows "evs_ok x ops ev (pd # ps) = evs_ok x ops ev ps" "counts_ok ops ev (pd # ps) = counts_ok ops ev ps"
proof -
  have o: "\<not> (fd pd = f \<and> wants k pd)" if "f > 0" for k f
    using assms that wants_events by (auto simp: active_def)
  then have z: "f > 0 \<Longrightarrow> occ k f (pd # ps) = occ k f ps" for k f by simp
  then have "in_group g k (pd # ps) f = in_group g k ps f" for f g k by (metis in_group_def)
  then have g: "group_ok x g d (pd # ps) = group_ok x g d ps" for g d
    using assms by (simp only: group_ok_def nactive_def filter.simps if_False simp_thms)
  show "counts_ok ops ev (pd # ps) = counts_ok ops ev ps"
    using assms z by (auto simp: counts_ok_def simp del: occ_simps)
  then show "evs_ok x ops ev (pd # ps) = evs_ok x ops ev ps" by (simp add: evs_ok_def g)
qed

lemma add_pd_counts:
  assumes "cmap_ok ops" and "counts_ok ops ev ps" and "active pd"
    and "grp (fd pd) < length (select_data ev)" and "length (select_data ev') = length (select_data ev)"
    and "cmaps ev' = (\<lambda>k. if wants k pd then ST_SELECT_ADD_CNT ops (cmaps ev k) (fd pd) 1 else cmaps ev k)"
  shows "counts_ok ops ev' (pd # ps)"
  using assms by (auto simp: counts_ok_def add_cnt_eq)

lemma cut_pd_counts:
  assumes "cmap_ok ops" and "counts_ok ops ev (pd # ps)" and "active pd"
    and "length (select_data ev') = length (select_data ev)"
    and "cmaps ev' = (\<lambda>k. if wants k pd then snd (st_select_del_cnt ops (cmaps ev k) (fd pd) 1) else cmaps ev k)"
  shows "counts_ok ops ev' ps"
    and "wants k pd \<Longrightarrow> fst (st_select_del_cnt ops (cmaps ev k) (fd pd) 1) = int (occ k (fd pd) ps)"
proof -
  have f: "fd pd > 0" using assms(3) by (simp add: active_def)
  have c: "cnt ops (cmaps ev k) (fd pd) = int (Suc (occ k (fd pd) ps))" if "wants k pd" for k
    using assms(2) f that by (simp add: counts_ok_def)
  have d: "fst (st_select_del_cnt ops (cmaps ev k) (fd pd) 1) = int (occ k (fd pd) ps) \<and>
      cnt ops (snd (st_select_del_cnt ops (cmaps ev k) (fd pd) 1)) =
        (cnt ops (cmaps ev k))(fd pd := int (occ k (fd pd) ps))" if "wants k pd" for k
    using del_cnt_eq(1) [OF assms(1), of "cmaps ev k" "fd pd" 1 "fst (st_select_del_cnt ops (cmaps ev k) (fd pd) 1)"
      "snd (st_select_del_cnt ops (cmaps ev k) (fd pd) 1)"] c [OF that] by simp
  then show "wants k pd \<Longrightarrow> fst (st_select_del_cnt ops (cmaps ev k) (fd pd) 1) = int (occ k (fd pd) ps)" by simp
  show "counts_ok ops ev' ps"
    using assms(2,4,5) d by (auto simp: counts_ok_def)
qed

lemma add_pd_eq:
  fixes ev :: "'m evs"
  assumes "active pd"
  defines "e \<equiv> st_select_check_seldata (int (grp (fd pd))) ev"
  shows "add_pd ops pd ev = (upd_seldata (int (grp (fd pd)))
      (\<lambda>d. (let d = upd_sets (\<lambda>k. if wants k pd then FD_SET (fd pd) else id) d;
                d = (if maxfd d < fd pd then d\<lparr>maxfd := fd pd\<rparr> else d)
            in d\<lparr>nreq := nreq d + 1\<rparr>)) e)
      \<lparr>cmaps := \<lambda>k. if wants k pd then ST_SELECT_ADD_CNT ops (cmaps e k) (fd pd) 1 else cmaps e k\<rparr>"
  using assms(1) unfolding e_def
  by (simp add: add_pd_def active_def gfd_grp add_kinds_eq upd_seldata_comp upd_seldata_cmaps comp_def Let_def)

lemma add_pd_ok:
  assumes m: "cmap_ok ops" and ok: "evs_ok x ops ev ps"
  shows "evs_ok x ops (add_pd ops pd ev) (pd # ps)"
proof (cases "active pd")
  case False
  then show ?thesis using ok by (auto simp: evs_ok_inactive add_pd_def active_def not_less)
next
  case True
  then have f: "fd pd > 0" by (simp add: active_def)
  let ?g = "grp (fd pd)"
  define e where "e = st_select_check_seldata (int ?g) ev"
  note ck = check_seldata_ok [OF ok, of ?g, folded e_def] and eq = add_pd_eq [OF True, of ops ev, folded e_def]
  have "counts_ok ops (add_pd ops pd ev) (pd # ps)"
    using ck(1,2) by (intro add_pd_counts [OF m _ True, of e]) (auto simp: eq evs_ok_def)
  moreover have "group_ok x g (select_data (add_pd ops pd ev) ! g) (pd # ps)" if g: "g < length (select_data e)" for g
  proof -
    let ?d = "select_data e ! g" and ?d' = "select_data (add_pd ops pd ev) ! g"
    note old = group_okD [of x g ?d ps]
    have o: "group_ok x g ?d ps" using ck(1) g by (simp add: evs_ok_def)
    show ?thesis
    proof (cases "g = ?g")
      case True
      have F: "set (FD_SET (fd pd) (fdset ?d k)) = insert (fd pd) (set (fdset ?d k))"
          "distinct (FD_SET (fd pd) (fdset ?d k))" for k
        by (rule FD_SET_in_group [of _ g]; use old(4,5) [OF o] f True in \<open>auto simp: in_group_def\<close>)+
      have new: "fdset ?d' k = (if wants k pd then FD_SET (fd pd) (fdset ?d k) else fdset ?d k)"
          "index ?d' = index ?d" "nreq ?d' = nreq ?d + 1" for k
        using ck(2) g True by (auto simp: eq select_data_upd Let_def)
      have n: "nactive g (pd # ps) = nactive g ps + 1" using True \<open>active pd\<close> by (simp add: nactive_def)
      show ?thesis
      proof (rule group_okI, unfold new n)
        show "distinct (if wants k pd then FD_SET (fd pd) (fdset ?d k) else fdset ?d k)" for k
          using old(4) [OF o] F(2) by simp
        show "in_group g k (pd # ps) y" if "y \<in> set (if wants k pd then FD_SET (fd pd) (fdset ?d k) else fdset ?d k)" for k y
          using that old(5) [OF o, of y k] F(1) [of k] f True by (auto simp: in_group_def split: if_splits)
        show "y \<in> set (if wants k pd then FD_SET (fd pd) (fdset ?d k) else fdset ?d k)" if x "in_group g k (pd # ps) y" for k y
          using that(2) old(6) [OF o that(1), of k y] F(1) [of k] by (auto simp: in_group_def split: if_splits)
      qed (use old(1-3) [OF o] in auto)
    next
      case False
      then have "in_group g k (pd # ps) y = in_group g k ps y" "nactive g (pd # ps) = nactive g ps" "?d' = ?d" for k y
        using f ck(2) g by (auto simp: in_group_def nactive_def eq select_data_upd)
      then show ?thesis using o by (simp add: group_ok_def)
    qed
  qed
  ultimately show ?thesis by (simp add: evs_ok_def eq)
qed

lemma del_pd_ok:
  assumes m: "cmap_ok ops" and ok: "evs_ok x ops ev (pd # ps)"
  shows "evs_ok x ops (del_pd ops pd ev) ps"
proof (cases "active pd")
  case False
  then show ?thesis using ok by (auto simp: evs_ok_inactive del_pd_def active_def not_less)
next
  case True
  then have f: "fd pd > 0" by (simp add: active_def)
  let ?g = "grp (fd pd)"
  have len: "?g < length (select_data ev)" using ok True by (simp add: evs_ok_def counts_ok_def)
  let ?new = "\<lambda>d. upd_sets (\<lambda>k. if wants k pd \<and> fst (st_select_del_cnt ops (cmaps ev k) (fd pd) 1) = 0
          then FD_CLR (fd pd) else id) d"
  let ?all = "\<lambda>d. (?new d)\<lparr>nreq := nreq d - 1\<rparr>"
  have e': "del_pd ops pd ev = (upd_seldata (int ?g) ?all ev)
      \<lparr>cmaps := \<lambda>k. if wants k pd then snd (st_select_del_cnt ops (cmaps ev k) (fd pd) 1) else cmaps ev k\<rparr>"
    using True f len by (simp add: del_pd_def active_def gfd_grp cut_kinds_eq upd_seldata_comp upd_seldata_cmaps comp_def
        Let_def select_num_def)
  have c: "counts_ok ops ev (pd # ps)" using ok by (simp add: evs_ok_def)
  have cut: "counts_ok ops (del_pd ops pd ev) ps"
    "wants k pd \<Longrightarrow> fst (st_select_del_cnt ops (cmaps ev k) (fd pd) 1) = int (occ k (fd pd) ps)" for k
    by (rule cut_pd_counts [OF m c True, of "del_pd ops pd ev"], simp_all add: e')+
  moreover have "group_ok x g (select_data (del_pd ops pd ev) ! g) ps" if g: "g < length (select_data ev)" for g
  proof -
    let ?d = "select_data ev ! g" and ?d' = "select_data (del_pd ops pd ev) ! g"
    note old = group_okD [of x g ?d "pd # ps"]
    have o: "group_ok x g ?d (pd # ps)" using ok g by (simp add: evs_ok_def)
    show ?thesis
    proof (cases "g = ?g")
      case True
      have new: "fdset ?d' k = (if wants k pd \<and> occ k (fd pd) ps = 0 then remove1 (fd pd) (fdset ?d k) else fdset ?d k)"
          "index ?d' = index ?d" "nreq ?d' = nreq ?d - 1" for k
        using len g True cut(2) [of k] by (auto simp: e' select_data_upd FD_CLR_def)
      have n: "nactive g (pd # ps) = nactive g ps + 1" using True \<open>active pd\<close> by (simp add: nactive_def)
      show ?thesis
      proof (rule group_okI, unfold new)
        let ?S = "\<lambda>k. if wants k pd \<and> occ k (fd pd) ps = 0 then remove1 (fd pd) (fdset ?d k) else fdset ?d k"
        show "distinct (?S k)" for k using old(4) [OF o] by simp
        show "in_group g k ps y" if "y \<in> set (?S k)" for k y
          using that old(4) [OF o, of k] old(5) [OF o, of y k] by (auto simp: in_group_def split: if_splits)
        show "y \<in> set (?S k)" if x "in_group g k ps y" for k y
          using that(2) old(4) [OF o, of k] old(6) [OF o that(1), of k y] by (auto simp: in_group_def split: if_splits)
      qed (use old(1-3) [OF o, unfolded n] in auto)
    next
      case False
      then have "in_group g k (pd # ps) y = in_group g k ps y" "nactive g (pd # ps) = nactive g ps" "?d' = ?d" for k y
        using f len g by (auto simp: in_group_def nactive_def e' select_data_upd)
      then show ?thesis using o by (simp add: group_ok_def)
    qed
  qed
  ultimately show ?thesis by (simp add: evs_ok_def e')
qed

section \<open>Poll sets\<close>

lemma counts_ok_perm:
  assumes "mset ps = mset qs"
  shows "counts_ok ops ev ps = counts_ok ops ev qs" "evs_ok x ops ev ps = evs_ok x ops ev qs"
proof -
  have f: "length (filter P ps) = length (filter P qs)" for P
    using assms by (metis mset_filter size_mset)
  have "set ps = set qs" using assms by (rule mset_eq_setD)
  then show c: "counts_ok ops ev ps = counts_ok ops ev qs"
    by (simp add: counts_ok_def occ_def f)
  show "evs_ok x ops ev ps = evs_ok x ops ev qs"
    by (simp add: evs_ok_def c group_ok_def in_group_def nactive_def occ_def f)
qed

lemma pollset_add_ok:
  "cmap_ok ops \<Longrightarrow> evs_ok x ops ev ps \<Longrightarrow> evs_ok x ops (st_select_pollset_add ops pds ev) (pds @ ps)"
proof (induction pds arbitrary: ev ps)
  case (Cons pd pds)
  have "evs_ok x ops (st_select_pollset_add ops pds (add_pd ops pd ev)) (pds @ pd # ps)"
    by (rule Cons.IH [OF Cons.prems(1) add_pd_ok [OF Cons.prems]])
  then show ?case using counts_ok_perm(2) [where ps = "pds @ pd # ps" and qs = "pd # pds @ ps" and ops = ops] by simp
qed simp

text \<open>A registered descriptor stays in its set while further requests are registered.\<close>

definition registered :: "pollfd \<Rightarrow> kind \<Rightarrow> 'm evs \<Rightarrow> bool" where
  "registered p k ev \<longleftrightarrow> grp (fd p) < length (select_data ev) \<and>
     FD_ISSET (fd p) (fdset (select_data ev ! grp (fd p)) k)"

lemma add_pd_registers:
  assumes "evs_ok x ops ev ps"
  shows "registered p k ev \<Longrightarrow> registered p k (add_pd ops pd ev)"
    and "fd pd > 0 \<Longrightarrow> wants k pd \<Longrightarrow> registered pd k (add_pd ops pd ev)"
proof -
  let ?e = "st_select_check_seldata (int (grp (fd pd))) ev"
  note ck = check_seldata_ok [OF assms, of "grp (fd pd)"]
  have keep: "i < length (select_data ev) \<Longrightarrow> select_data ?e ! i = select_data ev ! i" for i
    by (auto simp: st_select_check_seldata_def nth_append)
  have F: "y \<in> set zs \<Longrightarrow> y \<in> set (FD_SET z zs)" for y z zs by (simp add: FD_SET_def)
  show "registered p k (add_pd ops pd ev)" if r: "registered p k ev"
  proof (cases "active pd")
    case True
    then show ?thesis
      using r ck(2,4) keep F by (auto simp: registered_def FD_ISSET_def add_pd_eq [OF True] select_data_upd Let_def)
  next
    case False
    then have "add_pd ops pd ev = ev" by (auto simp: add_pd_def active_def)
    then show ?thesis using r by simp
  qed
  assume p: "fd pd > 0" "wants k pd"
  then have a: "active pd" using wants_events by (simp add: active_def)
  let ?d = "select_data ?e ! grp (fd pd)"
  have "group_ok x (grp (fd pd)) ?d ps" using ck(1,2) by (simp add: evs_ok_def)
  note old = group_okD [OF this]
  have "set (FD_SET (fd pd) (fdset ?d k)) = insert (fd pd) (set (fdset ?d k))"
    by (rule FD_SET_in_group [of _ "grp (fd pd)"]) (use old(4,5) [unfolded in_group_def] p(1) in blast)+
  then have "fd pd \<in> set (FD_SET (fd pd) (fdset ?d k))" by simp
  then show "registered pd k (add_pd ops pd ev)"
    using ck(2) p(2) by (auto simp: registered_def FD_ISSET_def add_pd_eq [OF a] select_data_upd Let_def)
qed

lemma pollset_registers:
  assumes "cmap_ok ops" and "evs_ok x ops ev ps"
  shows "registered p k ev \<or> p \<in> set pds \<and> fd p > 0 \<and> wants k p \<Longrightarrow> registered p k (st_select_pollset_add ops pds ev)"
  using assms
proof (induction pds arbitrary: ev ps)
  case (Cons q pds)
  show ?case using Cons.IH [OF _ Cons.prems(2) add_pd_ok [OF Cons.prems(2,3), of q]] Cons.prems(1)
    add_pd_registers(1) [OF Cons.prems(3), of p k q] add_pd_registers(2) [OF Cons.prems(3), of q k] by auto
qed auto

lemma pollset_del_ok:
  "cmap_ok ops \<Longrightarrow> evs_ok x ops ev (pds @ ps) \<Longrightarrow> evs_ok x ops (st_select_pollset_del ops pds ev) ps"
  by (induction pds arbitrary: ev) (auto intro: del_pd_ok)

lemma any_cnt_eq:
  assumes m: "cmap_ok ops"
  shows "any_cnt ops x ks ev = (b, ev') \<Longrightarrow> (b \<longleftrightarrow> (\<exists>k \<in> set ks. cnt ops (cmaps ev k) x > 0)) \<and>
    select_data ev' = select_data ev \<and> (\<forall>k. cnt ops (cmaps ev' k) = cnt ops (cmaps ev k))"
proof (induction ks arbitrary: ev)
  case (Cons j ks)
  let ?e = "ev\<lparr>cmaps := (cmaps ev)(j := snd (map_at ops (cmaps ev j) x))\<rparr>"
  have same: "cnt ops (cmaps ?e i) = cnt ops (cmaps ev i)" for i using cmap_okD(2) [OF m] by simp
  have step: "(if cnt ops (cmaps ev j) x > 0 then (True, ?e) else any_cnt ops x ks ?e) = (b, ev')"
    using Cons.prems by (simp add: get_cnt_eq [OF m] Let_def)
  show ?case
  proof (cases "cnt ops (cmaps ev j) x > 0")
    case True
    then show ?thesis using step same by force
  next
    case False
    then have "any_cnt ops x ks ?e = (b, ev')" using step by simp
    from Cons.IH [OF this, unfolded same] False show ?thesis by simp
  qed
qed auto

text \<open>A map that satisfies the assumptions, and an event system with requests on three descriptors of two groups.\<close>

definition fun_cmap :: "(int \<Rightarrow> int option) cmap" where
  "fun_cmap = \<lparr>map_new = (\<lambda>_. None), map_at = (\<lambda>m x. (m x, m)), map_insert = (\<lambda>m x v. m(x \<mapsto> v)),
     map_store = (\<lambda>m x v. m(x \<mapsto> v))\<rparr>"

lemma fun_cmap_ok: "cmap_ok fun_cmap"
  by (auto simp: cmap_ok_def cnt_def fun_cmap_def fun_eq_iff)

definition demo_evs :: "(int \<Rightarrow> int option) evs" where
  "demo_evs = \<lparr>select_data = [], cmaps = \<lambda>_ _. None\<rparr>"

definition demo_pds :: "pollfd list" where
  "demo_pds = [\<lparr>fd = 5, events = POLLIN, revents = 0\<rparr>, \<lparr>fd = 7, events = POLLOUT, revents = 0\<rparr>,
     \<lparr>fd = 205, events = POLLIN OR POLLPRI, revents = 0\<rparr>]"

lemma demo_evs_ok: "evs_ok x fun_cmap demo_evs []"
  by (simp add: evs_ok_def counts_ok_def demo_evs_def cnt_def fun_cmap_def)

lemma demo_wants:
  "wants k \<lparr>fd = x, events = POLLIN, revents = r\<rparr> \<longleftrightarrow> k = RD"
  "wants k \<lparr>fd = x, events = POLLOUT, revents = r\<rparr> \<longleftrightarrow> k = WR"
  "wants k \<lparr>fd = x, events = POLLIN OR POLLPRI, revents = r\<rparr> \<longleftrightarrow> k = RD \<or> k = EXC"
  by (cases k; simp add: wants_def POLLIN_def POLLOUT_def POLLPRI_def)+



text \<open>
  Closing a descriptor is refused with \<open>EBUSY\<close> exactly while a pending request waits for reading,
  writing or exceptions on it; the check changes neither counts nor sets.
\<close>

theorem fd_close_busy:
  assumes "cmap_ok ops" and "evs_ok x ops ev ps" and "osfd > 0"
  shows "fst (st_select_fd_close ops osfd ev) =
      (if \<exists>p \<in> set ps. fd p = osfd \<and> (\<exists>k. wants k p) then Inl EBUSY else Inr ()) \<and>
    evs_ok x ops (snd (st_select_fd_close ops osfd ev)) ps"
proof -
  obtain b ev' where a: "any_cnt ops osfd kinds ev = (b, ev')" by (cases "any_cnt ops osfd kinds ev")
  have any: "b \<longleftrightarrow> (\<exists>k \<in> set kinds. cnt ops (cmaps ev k) osfd > 0)" "select_data ev' = select_data ev"
      "cnt ops (cmaps ev' k) = cnt ops (cmaps ev k)" for k
    using any_cnt_eq [OF assms(1) a] by auto
  have c: "cnt ops (cmaps ev k) osfd = int (occ k osfd ps)" for k
    using assms by (simp add: evs_ok_def counts_ok_def)
  have b: "b \<longleftrightarrow> (\<exists>p \<in> set ps. fd p = osfd \<and> (\<exists>k. wants k p))"
    using any(1) unfolding c kinds_set occ_def by (auto simp: filter_empty_conv)
  have ok: "evs_ok x ops ev' ps" using assms(2) any(2,3) by (simp add: evs_ok_def counts_ok_def)
  have "\<not> (\<exists>p \<in> set ps. fd p = osfd \<and> (\<exists>k. wants k p))" if "st_select_get_gfd osfd \<ge> select_num ev"
  proof
    assume "\<exists>p \<in> set ps. fd p = osfd \<and> (\<exists>k. wants k p)"
    then have "grp osfd < length (select_data ev)"
      using assms(2,3) wants_events by (force simp: evs_ok_def counts_ok_def active_def)
    then show False using that assms(3) by (simp add: gfd_grp select_num_def)
  qed
  moreover have "st_select_fd_close ops osfd ev = (if st_select_get_gfd osfd \<ge> select_num ev then (Inr (), ev)
      else if b then (Inl EBUSY, ev') else (Inr (), ev'))"
    using a by (simp add: st_select_fd_close_def split: bool.splits)
  ultimately show ?thesis using b ok assms(2) by simp
qed

theorem fd_close_busy_witness:
  "fst (st_select_fd_close fun_cmap 7 (st_select_pollset_add fun_cmap demo_pds demo_evs)) = Inl EBUSY \<and>
   fst (st_select_fd_close fun_cmap 8 (st_select_pollset_add fun_cmap demo_pds demo_evs)) = Inr ()"
proof -
  have ok: "evs_ok True fun_cmap (st_select_pollset_add fun_cmap demo_pds demo_evs) demo_pds"
    using pollset_add_ok [OF fun_cmap_ok demo_evs_ok] by force
  have "\<exists>p \<in> set demo_pds. fd p = 7 \<and> (\<exists>k. wants k p)" "\<not> (\<exists>p \<in> set demo_pds. fd p = 8 \<and> (\<exists>k. wants k p))"
    by (auto simp: demo_pds_def demo_wants)
  then show ?thesis
    using fd_close_busy [OF fun_cmap_ok ok, of 7] fd_close_busy [OF fun_cmap_ok ok, of 8] by simp
qed

end
