(* ===== verification/Poll.thy ===== *)
theory Poll
  imports Event Sync
begin

text \<open>
  Waiting for I/O: the dispatch function of the select event system (event.c) and \<open>st_poll\<close> (sched.c).
  A poll request (\<open>_st_pollq_t\<close>) lives on the stack of the waiting thread and is linked into the I/O
  queue of the virtual processor. \<open>select\<close> is an argument: it gets the group, the first argument of the call, the
  three sets and the timeout, and yields its return value, the three sets it leaves behind and whether
  \<open>errno\<close> is \<open>EBADF\<close>.
\<close>

section \<open>Operations\<close>

record pollq =
  pq_thread :: tid
  pds :: "pollfd list"
  on_ioq :: bool

record 'm iow =
  vpst :: st
  evd :: "'m evs"
  pq :: "pqid \<Rightarrow> pollq"

type_synonym select_fn =
  "nat \<Rightarrow> int \<Rightarrow> (kind \<Rightarrow> fd_set) \<Rightarrow> (int \<times> int) option \<Rightarrow> int \<times> (kind \<Rightarrow> fd_set) \<times> bool"

definition set_pds :: "pqid \<Rightarrow> pollfd list \<Rightarrow> ('m, 'z) iow_scheme \<Rightarrow> ('m, 'z) iow_scheme" where
  "set_pds p ps w = w\<lparr>pq := (pq w)(p := (pq w p)\<lparr>pds := ps\<rparr>)\<rparr>"

text \<open>One round of the inner loop that compares an entry with the sets \<open>select\<close> returned.\<close>

definition mark_pd :: "(kind \<Rightarrow> fd_set) \<Rightarrow> pollfd \<Rightarrow> bool \<times> pollfd" where
  "mark_pd sets pd =
    (if \<not> FD_ISSET (fd pd) (sets RD) \<and> \<not> FD_ISSET (fd pd) (sets WR) \<and> \<not> FD_ISSET (fd pd) (sets EXC)
     then (False, pd)
     else (let r = 0;
               r = (if wants RD pd \<and> FD_ISSET (fd pd) (sets RD) then r OR POLLIN else r);
               r = (if wants WR pd \<and> FD_ISSET (fd pd) (sets WR) then r OR POLLOUT else r);
               r = (if wants EXC pd \<and> FD_ISSET (fd pd) (sets EXC) then r OR POLLPRI else r)
           in (r \<noteq> 0, pd\<lparr>revents := r\<rparr>)))"

fun mark_pds :: "(kind \<Rightarrow> fd_set) \<Rightarrow> pollfd list \<Rightarrow> bool \<times> pollfd list" where
  "mark_pds sets [] = (False, [])"
| "mark_pds sets (pd # ps) =
    (let (n, pd) = mark_pd sets pd; (m, ps) = mark_pds sets ps in (n \<or> m, pd # ps))"

text \<open>
  The loop that takes a notified request off the counts. A group number below 0 is an index outside
  the array, the result \<open>None\<close>.
\<close>

fun cut_pds :: "'m cmap \<Rightarrow> pollfd list \<Rightarrow> 'm evs \<Rightarrow> 'm evs option" where
  "cut_pds ops [] ev = Some ev"
| "cut_pds ops (pd # ps) ev =
    (let gfd = st_select_get_gfd (fd pd)
     in if gfd \<ge> select_num ev then cut_pds ops ps ev
        else if gfd < 0 then None
        else cut_pds ops ps (fold (cut_kind ops pd gfd) kinds ev))"

definition notify_request :: "'m cmap \<Rightarrow> pqid \<Rightarrow> ('m, 'z) iow_scheme \<Rightarrow> ('m, 'z) iow_scheme option" where
  "notify_request ops p w =
    (let w = w\<lparr>vpst := ST_DEL_IOQ p (vpst w)\<rparr>;
         w = w\<lparr>pq := (pq w)(p := (pq w p)\<lparr>on_ioq := False\<rparr>)\<rparr>
     in (case cut_pds ops (pds (pq w p)) (evd w) of None \<Rightarrow> None
         | Some ev \<Rightarrow>
            (let w = w\<lparr>evd := ev\<rparr>
             in (case wake_thread (pq_thread (pq w p)) (vpst w) of None \<Rightarrow> None
                 | Some s \<Rightarrow> Some (w\<lparr>vpst := s\<rparr>)))))"

partial_function (option) notify_loop :: "'m cmap \<Rightarrow> nat \<Rightarrow> node \<Rightarrow> ('m, 'z) iow_scheme \<Rightarrow> ('m, 'z) iow_scheme option" where
  "notify_loop ops g q w =
    (if q = IoQ then Some w
     else (case ST_POLLQUEUE_PTR q of None \<Rightarrow> None
           | Some p \<Rightarrow>
              (let (notify, ps) = mark_pds (fdset (select_data (evd w) ! g)) (pds (pq w p));
                   w = set_pds p ps w
               in (case (if notify then notify_request ops p w else Some w) of None \<Rightarrow> None
                   | Some w \<Rightarrow>
                      (case lnext (links (vpst w)) q of None \<Rightarrow> None
                       | Some q \<Rightarrow> notify_loop ops g q w)))))"

text \<open>
  \<open>_st_select_find_bad_fd\<close> in the Windows build: the test for a bad descriptor is compiled out, so no
  request is ever notified.
\<close>

partial_function (option) clear_revents_loop :: "node \<Rightarrow> ('m, 'z) iow_scheme \<Rightarrow> ('m, 'z) iow_scheme option" where
  "clear_revents_loop q w =
    (if q = IoQ then Some w
     else (case ST_POLLQUEUE_PTR q of None \<Rightarrow> None
           | Some p \<Rightarrow>
              (let w = set_pds p (map (\<lambda>pd. pd\<lparr>revents := 0\<rparr>) (pds (pq w p))) w
               in (case lnext (links (vpst w)) q of None \<Rightarrow> None
                   | Some q \<Rightarrow> clear_revents_loop q w))))"

definition st_select_find_bad_fd :: "('m, 'z) iow_scheme \<Rightarrow> ('m, 'z) iow_scheme option" where
  "st_select_find_bad_fd w =
    (let w = w\<lparr>evd := (evd w)\<lparr>select_data := map (\<lambda>d. d\<lparr>maxfd := 0\<rparr>) (select_data (evd w))\<rparr>\<rparr>
     in (case lnext (links (vpst w)) IoQ of None \<Rightarrow> None | Some q \<Rightarrow> clear_revents_loop q w))"

text \<open>The time until the first deadline, as seconds and microseconds of C type \<open>int\<close>; \<open>None\<close> for no deadline.\<close>

definition select_timeout :: "st \<Rightarrow> (int \<times> int) option" where
  "select_timeout s =
    (case sleep_q (heap s) of None \<Rightarrow> None
     | Some t \<Rightarrow>
        (let min_timeout = (if due (heap s) t \<le> last_clock s then 0 else due (heap s) t - last_clock s)
         in Some (sint (ucast (min_timeout div 1000000) :: 32 word), sint (ucast (min_timeout mod 1000000) :: 32 word))))"

definition st_select_dispatch_once :: "'m cmap \<Rightarrow> select_fn \<Rightarrow> nat \<Rightarrow> ('m, 'z) iow_scheme \<Rightarrow> ('m, 'z) iow_scheme option" where
  "st_select_dispatch_once ops sel g w =
    (let sdt = select_data (evd w) ! g
     in if nreq sdt \<le> 0 \<or> maxfd sdt \<le> 0 then Some w
        else (let (nfd, sets, ebadf) = sel g (maxfd sdt + 1) (fdset sdt) (select_timeout (vpst w));
                  w = w\<lparr>evd := upd_seldata (int g) (\<lambda>d. d\<lparr>fdset := sets\<rparr>) (evd w)\<rparr>
              in if nfd > 0
                 then (case lnext (links (vpst w)) IoQ of None \<Rightarrow> None | Some q \<Rightarrow> notify_loop ops g q w)
                 else if nfd < 0 \<and> ebadf then st_select_find_bad_fd w
                 else Some w))"

fun dispatch_groups :: "'m cmap \<Rightarrow> select_fn \<Rightarrow> nat list \<Rightarrow> ('m, 'z) iow_scheme \<Rightarrow> ('m, 'z) iow_scheme option" where
  "dispatch_groups ops sel [] w = Some w"
| "dispatch_groups ops sel (g # gs) w =
    (case st_select_dispatch_once ops sel g w of None \<Rightarrow> None | Some w \<Rightarrow> dispatch_groups ops sel gs w)"

definition st_select_dispatch :: "'m cmap \<Rightarrow> select_fn \<Rightarrow> ('m, 'z) iow_scheme \<Rightarrow> ('m, 'z) iow_scheme option" where
  "st_select_dispatch ops sel w = dispatch_groups ops sel [0..<length (select_data (evd w))] w"

text \<open>
  \<open>st_poll\<close> up to the call of the scheduler and from its return; \<open>p\<close> is the poll request on the
  caller's stack and \<open>ps\<close> the array of descriptors. \<open>others\<close> is what happens until the caller runs again.
\<close>

definition poll_enter :: "'m cmap \<Rightarrow> pqid \<Rightarrow> pollfd list \<Rightarrow> utime \<Rightarrow> tid \<Rightarrow> ('m, 'z) iow_scheme \<Rightarrow> ('m, 'z) iow_scheme option" where
  "poll_enter ops p ps timeout me w =
    (let w = w\<lparr>evd := st_select_pollset_add ops ps (evd w)\<rparr>;
         w = w\<lparr>pq := (pq w)(p := \<lparr>pq_thread = me, pds = ps, on_ioq = True\<rparr>)\<rparr>;
         w = w\<lparr>vpst := ST_ADD_IOQ p (vpst w)\<rparr>
     in (case st_add_sleep_q me (if timeout \<noteq> ST_UTIME_NO_TIMEOUT then timeout else 1) (vpst w) of None \<Rightarrow> None
         | Some s \<Rightarrow> Some (w\<lparr>vpst := set_state me ST_ST_IO_WAIT s\<rparr>)))"

definition poll_leave :: "'m cmap \<Rightarrow> pqid \<Rightarrow> tid \<Rightarrow> ('m, 'z) iow_scheme \<Rightarrow> (errno + int) \<times> ('m, 'z) iow_scheme" where
  "poll_leave ops p me w =
    (let (n, w) = (if on_ioq (pq w p)
                   then (let w = w\<lparr>vpst := ST_DEL_IOQ p (vpst w)\<rparr>
                         in (0, w\<lparr>evd := st_select_pollset_del ops (pds (pq w p)) (evd w)\<rparr>))
                   else (int (length (filter (\<lambda>pd. revents pd \<noteq> 0) (pds (pq w p)))), w))
     in if has_flag (vpst w) me ST_FL_INTERRUPT
        then (Inl EINTR, w\<lparr>vpst := clr_flags me ST_FL_INTERRUPT (vpst w)\<rparr>)
        else (Inr n, w))"

definition st_poll :: "'m cmap \<Rightarrow> pqid \<Rightarrow> pollfd list \<Rightarrow> utime \<Rightarrow> (('m, 'z) iow_scheme \<Rightarrow> ('m, 'z) iow_scheme option) \<Rightarrow> ('m, 'z) iow_scheme
    \<Rightarrow> ((errno + int) \<times> ('m, 'z) iow_scheme) option" where
  "st_poll ops p ps timeout others w =
    (case this_thread (vpst w) of None \<Rightarrow> Some (Inr 0, w)
     | Some me \<Rightarrow>
        (if has_flag (vpst w) me ST_FL_INTERRUPT
         then Some (Inl EINTR, w\<lparr>vpst := clr_flags me ST_FL_INTERRUPT (vpst w)\<rparr>)
         else (case poll_enter ops p ps timeout me w of None \<Rightarrow> None
               | Some w \<Rightarrow>
                  (case st_vp_schedule (vpst w) of None \<Rightarrow> None
                   | Some s \<Rightarrow> map_option (poll_leave ops p me) (others (w\<lparr>vpst := s\<rparr>))))))"

section \<open>Marking the entries\<close>

definition rmask :: "(kind \<Rightarrow> fd_set) \<Rightarrow> pollfd \<Rightarrow> kind \<Rightarrow> short" where
  "rmask R pd k = (if wants k pd \<and> FD_ISSET (fd pd) (R k) then kmask k else 0)"

definition ready_pd :: "(kind \<Rightarrow> fd_set) \<Rightarrow> pollfd \<Rightarrow> bool" where
  "ready_pd R pd \<longleftrightarrow> (\<exists>k. wants k pd \<and> FD_ISSET (fd pd) (R k))"

definition ready :: "(kind \<Rightarrow> fd_set) \<Rightarrow> pollfd list \<Rightarrow> bool" where
  "ready R ps \<longleftrightarrow> (\<exists>pd \<in> set ps. ready_pd R pd)"

text \<open>An entry after the loop: ready events are reported, an entry with none keeps its \<open>revents\<close> or has them cleared.\<close>

definition marked_as :: "(kind \<Rightarrow> fd_set) \<Rightarrow> pollfd \<Rightarrow> pollfd \<Rightarrow> bool" where
  "marked_as R pd pd' \<longleftrightarrow> fd pd' = fd pd \<and> events pd' = events pd \<and>
     (if ready_pd R pd then revents pd' = rmask R pd RD OR rmask R pd WR OR rmask R pd EXC
      else revents pd' = revents pd \<or> revents pd' = 0)"

lemma ex_kind: "(\<exists>k. P k) \<longleftrightarrow> P RD \<or> P WR \<or> P EXC"
  by (metis kind.exhaust)

lemma mark_pd_ok: "mark_pd R pd = (n, pd') \<Longrightarrow> (n \<longleftrightarrow> ready_pd R pd) \<and> marked_as R pd pd'"
  by (auto simp: mark_pd_def ready_pd_def marked_as_def rmask_def ex_kind POLLIN_def POLLOUT_def POLLPRI_def
      Let_def split: if_splits)

lemma mark_pds_ok: "mark_pds R ps = (n, ps') \<Longrightarrow> (n \<longleftrightarrow> ready R ps) \<and> list_all2 (marked_as R) ps ps'"
proof (induction ps arbitrary: n ps')
  case (Cons pd ps)
  obtain b pd' where m: "mark_pd R pd = (b, pd')" by (cases "mark_pd R pd")
  obtain c qs where ms: "mark_pds R ps = (c, qs)" by (cases "mark_pds R ps")
  show ?case using Cons.prems Cons.IH [OF ms] mark_pd_ok [OF m] m ms by (auto simp: ready_def)
qed (simp add: ready_def)

text \<open>Only descriptors that an entry asks for matter to it.\<close>

lemma ready_pd_cong:
  assumes "\<And>k. wants k pd \<Longrightarrow> FD_ISSET (fd pd) (R k) = FD_ISSET (fd pd) (S k)"
  shows "ready_pd R pd = ready_pd S pd" "marked_as R pd pd' = marked_as S pd pd'"
proof -
  show "ready_pd R pd = ready_pd S pd" using assms by (auto simp: ready_pd_def)
  moreover have "rmask R pd k = rmask S pd k" for k using assms [of k] by (auto simp: rmask_def)
  ultimately show "marked_as R pd pd' = marked_as S pd pd'" by (simp add: marked_as_def)
qed

section \<open>The counts of a notified request\<close>

lemma evs_ok_key:
  assumes "map fd ps = map fd qs" and "map events ps = map events qs"
  shows "evs_ok x ops ev ps = evs_ok x ops ev qs"
proof -
  have "list_all2 (\<lambda>p q. fd p = fd q \<and> events p = events q) ps qs"
    using assms by (auto simp: list_all2_conv_all_nth list_eq_iff_nth_eq)
  then have "(\<forall>k f. occ k f ps = occ k f qs) \<and> (\<forall>g. nactive g ps = nactive g qs) \<and>
      (\<forall>n. (\<forall>p \<in> set ps. active p \<longrightarrow> grp (fd p) < n) = (\<forall>p \<in> set qs. active p \<longrightarrow> grp (fd p) < n))"
    by (induction rule: list_all2_induct) (auto simp: nactive_def active_def wants_def)
  then show ?thesis by (simp add: evs_ok_def counts_ok_def group_ok_def in_group_def)
qed

text \<open>The sets after a request was taken off: what the remaining entries ask for.\<close>

definition narrowed :: "'m evs \<Rightarrow> 'm evs \<Rightarrow> pollfd list \<Rightarrow> bool" where
  "narrowed ev ev' ps \<longleftrightarrow> length (select_data ev') = length (select_data ev) \<and>
     (\<forall>g < length (select_data ev). \<forall>k. set (fdset (select_data ev' ! g) k) =
        {f \<in> set (fdset (select_data ev ! g) k). occ k f ps > 0} \<and>
        maxfd (select_data ev' ! g) = maxfd (select_data ev ! g) \<and> nreq (select_data ev' ! g) = nreq (select_data ev ! g))"

lemma cut_inactive:
  assumes m: "cmap_ok ops" and ok: "evs_ok False ops ev (pd # ps)" and "\<not> active pd"
    and g: "st_select_get_gfd (fd pd) = int g" "g < length (select_data ev)"
  defines "ev' \<equiv> fold (cut_kind ops pd (int g)) kinds ev"
  shows "evs_ok False ops ev' ps" and "narrowed ev ev' ps"
proof -
  have ps: "evs_ok False ops ev ps" using ok unfolding evs_ok_inactive(1) [OF assms(3)] .
  have pos: "f \<in> set (fdset (select_data ev ! i) k) \<Longrightarrow> f > 0 \<and> occ k f ps > 0" if "i < length (select_data ev)" for i k f
    using group_okD(5) [of False i "select_data ev ! i" ps f k] ps that by (auto simp: evs_ok_def in_group_def)
  have d: "select_data ev' ! i = select_data ev ! i" if i: "i < length (select_data ev)" for i
  proof -
    have "wants k pd \<Longrightarrow> fd pd \<notin> set (fdset (select_data ev ! i) k)" for k
      using pos [OF i] assms(3) wants_events by (force simp: active_def)
    then have "upd_sets (\<lambda>k. if wants k pd \<and> fst (st_select_del_cnt ops (cmaps ev k) (fd pd) 1) = 0
          then FD_CLR (fd pd) else id) (select_data ev ! i) = select_data ev ! i"
      by (auto simp: upd_sets_def FD_CLR_def remove1_idem intro!: seldata.equality)
    then show ?thesis using g(2) i by (auto simp: ev'_def cut_kinds_eq select_data_upd)
  qed
  have l: "length (select_data ev') = length (select_data ev)" by (simp add: ev'_def cut_kinds_eq)
  have c: "cnt ops (cmaps ev' k) f = cnt ops (cmaps ev k) f" if "f > 0" for k f
  proof (cases "wants k pd")
    case True
    then have "f \<noteq> fd pd" using assms(3) that wants_events by (force simp: active_def)
    then show ?thesis using del_cnt_eq(2) [OF m prod.collapse [symmetric], of f "fd pd" "cmaps ev k" 1] True
      by (simp add: ev'_def cut_kinds_eq)
  qed (simp add: ev'_def cut_kinds_eq)
  show "evs_ok False ops ev' ps" using ps d l c by (simp add: evs_ok_def counts_ok_def)
  show "narrowed ev ev' ps" using d l pos by (auto simp: narrowed_def)
qed


lemma cut_active:
  assumes m: "cmap_ok ops" and ok: "evs_ok False ops ev (pd # ps)" and a: "active pd"
  defines "ev' \<equiv> fold (cut_kind ops pd (int (grp (fd pd)))) kinds ev"
  shows "evs_ok False ops ev' ps" and "narrowed ev ev' ps"
proof -
  let ?g = "grp (fd pd)"
  have f: "fd pd > 0" and len: "?g < length (select_data ev)"
    using ok a by (simp_all add: evs_ok_def counts_ok_def active_def)
  have del: "del_pd ops pd ev = upd_seldata (int ?g) (\<lambda>d. d\<lparr>nreq := nreq d - 1\<rparr>) ev'"
    using a f len by (simp add: del_pd_def active_def gfd_grp select_num_def ev'_def Let_def)
  have l: "length (select_data ev') = length (select_data ev)" by (simp add: ev'_def cut_kinds_eq)
  have okd: "evs_ok False ops (del_pd ops pd ev) ps" by (rule del_pd_ok [OF m ok])
  have "group_ok False i (select_data ev' ! i) ps" if i: "i < length (select_data ev)" for i
  proof -
    have "group_ok False i (select_data (del_pd ops pd ev) ! i) ps" using okd i l by (simp add: evs_ok_def del)
    then show ?thesis using i len l by (auto simp: del select_data_upd group_ok_def split: if_splits)
  qed
  then show "evs_ok False ops ev' ps" using okd l by (simp add: evs_ok_def counts_ok_def del)
  have n: "fst (st_select_del_cnt ops (cmaps ev k) (fd pd) 1) = int (occ k (fd pd) ps)" if "wants k pd" for k
    by (rule cut_pd_counts(2) [OF m _ a l _ that]) (use ok in \<open>simp_all add: evs_ok_def ev'_def cut_kinds_eq\<close>)
  have "set (fdset (select_data ev' ! i) k) = {f \<in> set (fdset (select_data ev ! i) k). occ k f ps > 0}"
    if i: "i < length (select_data ev)" for i k
  proof -
    note old = group_okD(4,5) [of False i "select_data ev ! i" "pd # ps"]
    have o: "group_ok False i (select_data ev ! i) (pd # ps)" using ok i by (simp add: evs_ok_def)
    have s: "fdset (select_data ev' ! i) k = (if i = ?g \<and> wants k pd \<and> occ k (fd pd) ps = 0
        then remove1 (fd pd) (fdset (select_data ev ! i) k) else fdset (select_data ev ! i) k)"
      using i len n [of k] by (auto simp: ev'_def cut_kinds_eq select_data_upd FD_CLR_def)
    show ?thesis
    proof (rule set_eqI)
      fix y
      have "y \<in> set (fdset (select_data ev ! i) k) \<Longrightarrow> grp y = i \<and> occ k y (pd # ps) > 0"
        using old(2) [OF o, of y k] by (simp add: in_group_def)
      then show "y \<in> set (fdset (select_data ev' ! i) k) \<longleftrightarrow>
          y \<in> {f \<in> set (fdset (select_data ev ! i) k). occ k f ps > 0}"
        using old(1) [OF o, of k] unfolding s by (cases "y = fd pd") auto
    qed
  qed
  moreover have "maxfd (select_data ev' ! i) = maxfd (select_data ev ! i)" "nreq (select_data ev' ! i) = nreq (select_data ev ! i)"
    if i: "i < length (select_data ev)" for i
    using i len by (simp_all add: ev'_def cut_kinds_eq select_data_upd)
  ultimately show "narrowed ev ev' ps" using l by (simp add: narrowed_def)
qed

lemma narrowed_trans: "narrowed ev ev1 (ps @ qs) \<Longrightarrow> narrowed ev1 ev2 qs \<Longrightarrow> narrowed ev ev2 qs"
  by (auto simp: narrowed_def)

lemma narrowed_same: "evs_ok False ops ev ps \<Longrightarrow> narrowed ev ev ps"
  using group_okD(5) by (fastforce simp: narrowed_def evs_ok_def in_group_def)

lemma low_gfd: "- 199 < f \<Longrightarrow> f \<le> 0 \<Longrightarrow> st_select_get_gfd f = 0"
  by (auto simp: st_select_get_gfd_def FD_SETSIZE_def signed_divide_int_def sgn_if)

lemma cut_pds_ok:
  assumes m: "cmap_ok ops"
  shows "evs_ok False ops ev (ps @ qs) \<Longrightarrow> \<forall>pd \<in> set ps. fd pd > - 199 \<Longrightarrow>
    \<exists>ev'. cut_pds ops ps ev = Some ev' \<and> evs_ok False ops ev' qs \<and> narrowed ev ev' qs"
proof (induction ps arbitrary: ev)
  case Nil
  then show ?case using narrowed_same by auto
next
  case (Cons pd ps)
  define gfd where "gfd = st_select_get_gfd (fd pd)"
  have low: "gfd \<ge> 0" using Cons.prems(2) low_gfd [of "fd pd"] gfd_grp [of "fd pd"]
    by (cases "fd pd > 0") (auto simp: gfd_def)
  show ?case
  proof (cases "gfd \<ge> select_num ev")
    case True
    have "\<not> active pd"
    proof
      assume a: "active pd"
      then have "grp (fd pd) < length (select_data ev)" "fd pd > 0"
        using Cons.prems(1) by (simp_all add: evs_ok_def counts_ok_def active_def)
      then show False using True by (simp add: gfd_def gfd_grp select_num_def)
    qed
    then have "evs_ok False ops ev (ps @ qs)" using Cons.prems(1) by (simp add: evs_ok_inactive)
    then show ?thesis using Cons.IH [of ev] Cons.prems(2) True by (simp add: gfd_def Let_def)
  next
    case False
    let ?e = "fold (cut_kind ops pd gfd) kinds ev"
    have e: "cut_pds ops (pd # ps) ev = cut_pds ops ps ?e" using False low by (simp add: gfd_def Let_def)
    have ok: "evs_ok False ops ev (pd # ps @ qs)" using Cons.prems(1) by simp
    have "evs_ok False ops ?e (ps @ qs) \<and> narrowed ev ?e (ps @ qs)"
    proof (cases "active pd")
      case True
      then have "gfd = int (grp (fd pd))" by (simp add: gfd_def gfd_grp active_def)
      then show ?thesis using cut_active [OF m ok True] by simp
    next
      case inactive: False
      have "gfd = int (nat gfd)" "nat gfd < length (select_data ev)" using low False by (auto simp: select_num_def)
      then show ?thesis using cut_inactive [OF m ok inactive, of "nat gfd"] by (simp add: gfd_def)
    qed
    then show ?thesis using Cons.IH [of ?e] Cons.prems(2) narrowed_trans e by fastforce
  qed
qed


section \<open>The I/O queue\<close>

lemma ioq_distinct: "ioq s qs \<Longrightarrow> distinct qs"
  by (auto simp: ioq_def is_clist_def distinct_map)

lemma ioq_next: "ioq s (us @ p # ps) \<Longrightarrow> lnext (links s) (PqLinks p) = Some (hd (map PqLinks ps @ [IoQ]))"
  using is_clist_next [of "links s" IoQ "map PqLinks us" "PqLinks p" "map PqLinks ps"] by (simp add: ioq_def)

lemma ioq_first: "ioq s qs \<Longrightarrow> lnext (links s) IoQ = Some (hd (map PqLinks qs @ [IoQ]))"
  using linked_first by (fastforce simp: ioq_def is_clist_def)

lemma ioq_del:
  assumes q: "ioq s (us @ p # ps)" and inv: "sched_inv s rq"
  shows "ioq (ST_DEL_IOQ p s) (us @ ps)" "sched_inv (ST_DEL_IOQ p s) rq"
    "lnext (links (ST_DEL_IOQ p s)) (PqLinks p) = Some (hd (map PqLinks ps @ [IoQ]))"
    "heap (ST_DEL_IOQ p s) = heap s" "thr (ST_DEL_IOQ p s) = thr s" "same_globals s (ST_DEL_IOQ p s)"
proof -
  note l = q [unfolded ioq_def] and dist = ioq_distinct [OF q]
  have rem: "remove1 (PqLinks p) (map PqLinks (us @ p # ps)) = map PqLinks (us @ ps)"
    using dist by (auto simp: remove1_map_inj remove1_append)
  show "ioq (ST_DEL_IOQ p s) (us @ ps)"
    using stq.holds_remove [OF l, of "PqLinks p"] unfolding rem by (simp add: ioq_def ST_DEL_IOQ_def)
  have "runq (ST_DEL_IOQ p s) rq"
    using sched_invD(1) [OF inv] stq.remove_frame [OF l, of "PqLinks p" RunQ "map Links rq"]
    by (auto simp: runq_def ST_DEL_IOQ_def)
  then show "sched_inv (ST_DEL_IOQ p s) rq"
    using sched_inv_links [OF inv] by (simp add: ST_DEL_IOQ_def)
  have "last (IoQ # map PqLinks us) \<noteq> PqLinks p" using dist by (auto simp: last_map split: if_splits)
  then show "lnext (links (ST_DEL_IOQ p s)) (PqLinks p) = Some (hd (map PqLinks ps @ [IoQ]))"
    using is_clist_prev [of "links s" IoQ "map PqLinks us" "PqLinks p" "map PqLinks ps"] l ioq_next [OF q]
    by (auto simp: ST_DEL_IOQ_def ST_REMOVE_LINK_def)
qed (simp_all add: ST_DEL_IOQ_def same_globals_def)

text \<open>Waking a thread touches the links of run-queue nodes only.\<close>

lemma wake_thread_pq_links:
  assumes inv: "sched_inv s rq" and w: "wake_thread t s = Some s'"
  shows "lnext (links s') (PqLinks p) = lnext (links s) (PqLinks p)"
proof -
  note e = wake_thread_links [OF w]
  have "lprev (links s) RunQ = Some (last (RunQ # map Links rq))"
    using sched_invD(1) [OF inv] is_clist_tail by (fastforce simp: runq_def)
  moreover have "last (RunQ # map Links rq) \<noteq> PqLinks p"
    by (cases rq rule: rev_cases) auto
  ultimately show ?thesis using insert_before_frame [of "links s" RunQ _ "PqLinks p" "Links t"]
    by (simp add: e ST_APPEND_LINK_def)
qed

section \<open>Notification\<close>

definition pending :: "('m, 'z) iow_scheme \<Rightarrow> pqid list \<Rightarrow> pollfd list" where
  "pending w qs = concat (map (\<lambda>p. pds (pq w p)) qs)"

text \<open>The requests \<open>qs\<close> belong to different threads, which wait for I/O.\<close>

definition requests_ok :: "('m, 'z) iow_scheme \<Rightarrow> pqid list \<Rightarrow> bool" where
  "requests_ok w qs \<longleftrightarrow> distinct (map (\<lambda>p. pq_thread (pq w p)) qs) \<and>
     (\<forall>p \<in> set qs. on_ioq (pq w p) \<and> state (thr (vpst w) (pq_thread (pq w p))) = ST_ST_IO_WAIT \<and>
        (\<forall>pd \<in> set (pds (pq w p)). fd pd > - 199))"

definition io_inv :: "'m cmap \<Rightarrow> ('m, 'z) iow_scheme \<Rightarrow> tid list \<Rightarrow> pqid list \<Rightarrow> bool" where
  "io_inv ops w rq qs \<longleftrightarrow> sched_inv (vpst w) rq \<and> ioq (vpst w) qs \<and> requests_ok w qs \<and>
     evs_ok False ops (evd w) (pending w qs)"


text \<open>A thread taken from a wait for I/O to the run queue.\<close>

definition io_woken :: "st \<Rightarrow> tid \<Rightarrow> thread" where
  "io_woken s t = (thr s t)\<lparr>
     flags := (if t \<in> sleepers (heap s) then flag_clr (flags (thr s t)) ST_FL_ON_SLEEPQ else flags (thr s t)),
     state := ST_ST_RUNNABLE\<rparr>"

lemma notify_request_ok:
  assumes m: "cmap_ok ops" and inv: "io_inv ops w rq (us @ p # ps)"
  obtains w' where "notify_request ops p w = Some w'"
    and "io_inv ops w' (rq @ [pq_thread (pq w p)]) (us @ ps)"
    and "lnext (links (vpst w')) (PqLinks p) = Some (hd (map PqLinks ps @ [IoQ]))"
    and "pq w' = (pq w)(p := (pq w p)\<lparr>on_ioq := False\<rparr>)"
    and "narrowed (evd w) (evd w') (pending w (us @ ps))"
    and "thr (vpst w') = (thr (vpst w))(pq_thread (pq w p) := io_woken (vpst w) (pq_thread (pq w p)))"
    and "sleepers (heap (vpst w')) = sleepers (heap (vpst w)) - {pq_thread (pq w p)}"
    and "same_globals (vpst w) (vpst w')"
proof -
  let ?s = "vpst w" and ?t = "pq_thread (pq w p)"
  have i: "sched_inv ?s rq" "ioq ?s (us @ p # ps)" "requests_ok w (us @ p # ps)"
    "evs_ok False ops (evd w) (pending w (us @ p # ps))" using inv by (auto simp: io_inv_def)
  note del = ioq_del [OF i(2,1)]
  have "mset (pending w (us @ p # ps)) = mset (pds (pq w p) @ pending w (us @ ps))" by (simp add: pending_def)
  note ok = i(4) [unfolded counts_ok_perm(2) [OF this]]
  have "\<forall>pd \<in> set (pds (pq w p)). fd pd > - 199" using i(3) by (simp add: requests_ok_def)
  from cut_pds_ok [OF m ok this] obtain ev' where ev: "cut_pds ops (pds (pq w p)) (evd w) = Some ev'" "evs_ok False ops ev' (pending w (us @ ps))"
      "narrowed (evd w) ev' (pending w (us @ ps))"
    by blast
  have st: "state (thr (ST_DEL_IOQ p ?s) ?t) = ST_ST_IO_WAIT" using i(3) del(5) by (simp add: requests_ok_def)
  obtain s' where s': "wake_thread ?t (ST_DEL_IOQ p ?s) = Some s'" "sched_inv s' (rq @ [?t])"
      "sleepers (heap s') = sleepers (heap (ST_DEL_IOQ p ?s)) - {?t}"
      "thr s' = (thr (ST_DEL_IOQ p ?s))(?t := (thr (ST_DEL_IOQ p ?s) ?t)\<lparr>
        flags := (if ?t \<in> sleepers (heap (ST_DEL_IOQ p ?s)) then flag_clr (flags (thr (ST_DEL_IOQ p ?s) ?t)) ST_FL_ON_SLEEPQ
          else flags (thr (ST_DEL_IOQ p ?s) ?t)), state := ST_ST_RUNNABLE\<rparr>)"
      "same_globals (ST_DEL_IOQ p ?s) s'" "same_waitqs (ST_DEL_IOQ p ?s) s'"
    by (rule wake_thread_ok [OF del(2), of ?t]) (use st in simp_all)
  define w' where "w' = w\<lparr>vpst := s', evd := ev', pq := (pq w)(p := (pq w p)\<lparr>on_ioq := False\<rparr>)\<rparr>"
  have e: "notify_request ops p w = Some w'"
    using ev(1) s'(1) by (simp add: notify_request_def Let_def w'_def)
  have dist: "p \<notin> set (us @ ps)" using ioq_distinct [OF i(2)] by simp
  have "pds (pq w' q) = pds (pq w q)" for q by (simp add: w'_def)
  then have pe: "pending w' (us @ ps) = pending w (us @ ps)" by (simp add: pending_def)
  have th: "thr s' = (thr ?s)(?t := io_woken ?s ?t)"
    using s'(4) unfolding del(4,5) io_woken_def by simp
  have thd: "pq_thread (pq w' q) = pq_thread (pq w q)" for q by (simp add: w'_def)
  have same: "pq w' q = pq w q" "pq_thread (pq w q) \<noteq> ?t" if "q \<in> set (us @ ps)" for q
  proof -
    show "pq w' q = pq w q" using that dist by (auto simp: w'_def)
    have "?t \<notin> (\<lambda>p. pq_thread (pq w p)) ` set (us @ ps)" using i(3) by (simp add: requests_ok_def image_Un)
    then show "pq_thread (pq w q) \<noteq> ?t" using imageI [OF that, of "\<lambda>p. pq_thread (pq w p)"] by force
  qed
  have vp': "vpst w' = s'" by (simp add: w'_def)
  have "distinct (map (\<lambda>p. pq_thread (pq w' p)) (us @ ps))"
    using i(3) unfolding thd requests_ok_def by auto
  moreover have "on_ioq (pq w' q) \<and> state (thr s' (pq_thread (pq w' q))) = ST_ST_IO_WAIT \<and>
      (\<forall>pd \<in> set (pds (pq w' q)). fd pd > - 199)" if q: "q \<in> set (us @ ps)" for q
    using i(3) q same(2) [OF q] unfolding same(1) [OF q] requests_ok_def th by auto
  ultimately have "requests_ok w' (us @ ps)" unfolding requests_ok_def vp' by blast
  moreover have "ioq s' (us @ ps)" using s'(6) del(1) by (simp add: same_waitqs_def)
  ultimately have "io_inv ops w' (rq @ [?t]) (us @ ps)"
    using s'(2) ev(2) pe by (simp add: io_inv_def) (simp add: w'_def)
  moreover have "lnext (links s') (PqLinks p) = Some (hd (map PqLinks ps @ [IoQ]))"
    using wake_thread_pq_links [OF del(2) s'(1)] del(3) by simp
  moreover have "same_globals ?s s'" using same_trans(1) [OF del(6) s'(5)] .
  ultimately show thesis
    using that [OF e] ev(3) th s'(3) del(4) by (simp add: w'_def)
qed


text \<open>
  What one pass over the requests \<open>ps\<close> does to them, given the sets \<open>R\<close> that \<open>select\<close> returned.
\<close>

definition request_after :: "(kind \<Rightarrow> fd_set) \<Rightarrow> pollq \<Rightarrow> pollq \<Rightarrow> bool" where
  "request_after R x y \<longleftrightarrow> pq_thread y = pq_thread x \<and> on_ioq y = (on_ioq x \<and> \<not> ready R (pds x)) \<and>
     list_all2 (marked_as R) (pds x) (pds y)"

definition agrees :: "nat \<Rightarrow> (kind \<Rightarrow> fd_set) \<Rightarrow> 'm evs \<Rightarrow> pollfd list \<Rightarrow> bool" where
  "agrees g R ev ps \<longleftrightarrow> (\<forall>k f. occ k f ps > 0 \<longrightarrow> (f \<in> set (fdset (select_data ev ! g) k) \<longleftrightarrow> f \<in> set (R k)))"

lemma occ_pos: "occ k f ps > 0 \<longleftrightarrow> (\<exists>pd \<in> set ps. fd pd = f \<and> wants k pd)"
  by (induction ps) auto

lemma agrees_marks:
  assumes "agrees g R ev ps"
  shows "ready (fdset (select_data ev ! g)) ps = ready R ps"
    "list_all2 (marked_as (fdset (select_data ev ! g))) ps qs = list_all2 (marked_as R) ps qs"
proof -
  have c: "pd \<in> set ps \<Longrightarrow> wants k pd \<Longrightarrow> FD_ISSET (fd pd) (fdset (select_data ev ! g) k) = FD_ISSET (fd pd) (R k)" for pd k
    using assms occ_pos by (fastforce simp: agrees_def FD_ISSET_def)
  show "ready (fdset (select_data ev ! g)) ps = ready R ps"
    using ready_pd_cong(1) [of _ "fdset (select_data ev ! g)" R] c by (auto simp: ready_def)
  have "list_all2 (marked_as S) ps qs = list_all2 (marked_as T) ps qs"
    if "\<And>pd k. pd \<in> set ps \<Longrightarrow> wants k pd \<Longrightarrow> FD_ISSET (fd pd) (S k) = FD_ISSET (fd pd) (T k)" for S T
    using that ready_pd_cong(2) [of _ S T] by (auto simp: list_all2_conv_all_nth)
  then show "list_all2 (marked_as (fdset (select_data ev ! g))) ps qs = list_all2 (marked_as R) ps qs"
    using c by blast
qed

lemma marked_keys:
  assumes "list_all2 (marked_as R) ps qs"
  shows "map fd qs = map fd ps" "map events qs = map events ps"
  using assms by (induction rule: list_all2_induct) (auto simp: marked_as_def)

lemma occ_keys: "map fd ps = map fd qs \<Longrightarrow> map events ps = map events qs \<Longrightarrow> occ k f ps = occ k f qs"
proof -
  assume "map fd ps = map fd qs" and "map events ps = map events qs"
  then have "list_all2 (\<lambda>p q. fd p = fd q \<and> events p = events q) ps qs"
    by (auto simp: list_all2_conv_all_nth list_eq_iff_nth_eq)
  then show ?thesis by (induction rule: list_all2_induct) (auto simp: wants_def)
qed

lemma set_pds_inv:
  assumes inv: "io_inv ops w rq qs" and k: "map fd ps = map fd (pds (pq w p))" "map events ps = map events (pds (pq w p))"
  shows "io_inv ops (set_pds p ps w) rq qs" "occ k f (pending (set_pds p ps w) vs) = occ k f (pending w vs)"
proof -
  have m: "map fd (pending (set_pds p ps w) vs) = map fd (pending w vs)"
    "map events (pending (set_pds p ps w) vs) = map events (pending w vs)" for vs
    using k by (induction vs) (auto simp: pending_def set_pds_def)
  then show "occ k f (pending (set_pds p ps w) vs) = occ k f (pending w vs)" by (rule occ_keys)
  have ev: "evs_ok False ops (evd w) (pending (set_pds p ps w) qs)"
    using inv unfolding io_inv_def evs_ok_key [OF m] by simp
  have "set (map fd ps) = set (map fd (pds (pq w p)))" using k(1) by simp
  then have "(\<forall>pd \<in> set ps. fd pd > - 199) = (\<forall>pd \<in> set (pds (pq w p)). fd pd > - 199)"
    by (metis (mono_tags, lifting) image_iff list.set_map)
  moreover have "pq_thread (pq (set_pds p ps w) q) = pq_thread (pq w q)" "on_ioq (pq (set_pds p ps w) q) = on_ioq (pq w q)"
    "pds (pq (set_pds p ps w) q) = (if q = p then ps else pds (pq w q))" "vpst (set_pds p ps w) = vpst w" for q
    by (auto simp: set_pds_def)
  ultimately have "requests_ok (set_pds p ps w) qs"
    using inv unfolding io_inv_def requests_ok_def by simp
  then show "io_inv ops (set_pds p ps w) rq qs" using inv ev by (simp add: io_inv_def) (simp add: set_pds_def)
qed


definition notified :: "(kind \<Rightarrow> fd_set) \<Rightarrow> ('m, 'z) iow_scheme \<Rightarrow> pqid list \<Rightarrow> pqid list" where
  "notified R w ps = filter (\<lambda>p. ready R (pds (pq w p))) ps"

definition waiting :: "(kind \<Rightarrow> fd_set) \<Rightarrow> ('m, 'z) iow_scheme \<Rightarrow> pqid list \<Rightarrow> pqid list" where
  "waiting R w ps = filter (\<lambda>p. \<not> ready R (pds (pq w p))) ps"

definition threads_of :: "('m, 'z) iow_scheme \<Rightarrow> pqid list \<Rightarrow> tid list" where
  "threads_of w ps = map (\<lambda>p. pq_thread (pq w p)) ps"

text \<open>What a pass does: \<open>ts\<close> are the threads it wakes, \<open>ps\<close> the requests it visits.\<close>

definition pass_effect :: "(kind \<Rightarrow> fd_set) \<Rightarrow> ('m, 'z) iow_scheme \<Rightarrow> ('m, 'z) iow_scheme \<Rightarrow> pqid list \<Rightarrow> tid list \<Rightarrow> bool" where
  "pass_effect R w w' ps ts \<longleftrightarrow>
     (\<forall>p. if p \<in> set ps then request_after R (pq w p) (pq w' p) else pq w' p = pq w p) \<and>
     (\<forall>t. thr (vpst w') t = (if t \<in> set ts then io_woken (vpst w) t else thr (vpst w) t)) \<and>
     sleepers (heap (vpst w')) = sleepers (heap (vpst w)) - set ts \<and>
     same_globals (vpst w) (vpst w') \<and> length (select_data (evd w')) = length (select_data (evd w))"

lemma agrees_sub: "agrees g R ev ps \<Longrightarrow> (\<And>k f. occ k f qs \<le> occ k f ps) \<Longrightarrow> agrees g R ev qs"
  unfolding agrees_def by (meson order_less_le_trans)

lemma agrees_narrowed:
  assumes "agrees g R ev ps" and "narrowed ev ev' qs" and "g < length (select_data ev)"
    and "\<And>k f. occ k f rs \<le> occ k f ps" "\<And>k f. occ k f rs \<le> occ k f qs"
  shows "agrees g R ev' rs"
  unfolding agrees_def
proof (intro allI impI)
  fix k f assume "occ k f rs > 0"
  then have "occ k f ps > 0" "occ k f qs > 0" using assms(4,5) [of k f] by linarith+
  then show "f \<in> set (fdset (select_data ev' ! g) k) \<longleftrightarrow> f \<in> set (R k)"
    using assms(1-3) by (simp add: narrowed_def agrees_def)
qed

lemma pending_simps [simp]: "pending w [] = []" "pending w (p # ps) = pds (pq w p) @ pending w ps"
  "pending w (ps @ qs) = pending w ps @ pending w qs"
  by (simp_all add: pending_def)

lemma set_pds_fields [simp]: "vpst (set_pds p ps w) = vpst w" "evd (set_pds p ps w) = evd w"
  "pq (set_pds p ps w) = (pq w)(p := (pq w p)\<lparr>pds := ps\<rparr>)"
  by (simp_all add: set_pds_def)

text \<open>One request of the pass.\<close>

lemma notify_step:
  assumes m: "cmap_ok ops" and inv: "io_inv ops w rq (us @ p # ps)" and g: "g < length (select_data (evd w))"
    and ag: "agrees g R (evd w) (pending w (p # ps))"
  defines "b \<equiv> ready R (pds (pq w p))" and "t \<equiv> pq_thread (pq w p)"
  obtains w' where "notify_loop ops g (PqLinks p) w = notify_loop ops g (hd (map PqLinks ps @ [IoQ])) w'"
    and "io_inv ops w' (if b then rq @ [t] else rq) (if b then us @ ps else us @ p # ps)"
    and "agrees g R (evd w') (pending w' ps)"
    and "pass_effect R w w' [p] (if b then [t] else [])"
proof -
  have agp: "agrees g R (evd w) (pds (pq w p))" "agrees g R (evd w) (pending w ps)"
    by (rule agrees_sub [OF ag]; simp)+
  obtain n qs where mk: "mark_pds (fdset (select_data (evd w) ! g)) (pds (pq w p)) = (n, qs)"
    by (cases "mark_pds (fdset (select_data (evd w) ! g)) (pds (pq w p))")
  have n: "n = b" and lm: "list_all2 (marked_as R) (pds (pq w p)) qs"
    using mark_pds_ok [OF mk] unfolding agrees_marks [OF agp(1)] b_def by auto
  define w1 where "w1 = set_pds p qs w"
  note keys = marked_keys [OF lm]
  have inv1: "io_inv ops w1 rq (us @ p # ps)" unfolding w1_def by (rule set_pds_inv(1) [OF inv keys])
  have oc: "occ k f (pending w1 vs) = occ k f (pending w vs)" for k f vs
    unfolding w1_def by (rule set_pds_inv(2) [OF inv keys])
  have loop: "notify_loop ops g (PqLinks p) w = (case (if b then notify_request ops p w1 else Some w1) of None \<Rightarrow> None
      | Some w \<Rightarrow> (case lnext (links (vpst w)) (PqLinks p) of None \<Rightarrow> None | Some q \<Rightarrow> notify_loop ops g q w))"
    by (subst notify_loop.simps) (simp add: mk n w1_def)
  have f1: "pq_thread (pq w1 p) = t" "evd w1 = evd w" "vpst w1 = vpst w" by (simp_all add: w1_def t_def)
  show thesis
  proof (cases b)
    case True
    obtain w' where w': "notify_request ops p w1 = Some w'" "io_inv ops w' (rq @ [t]) (us @ ps)"
        "lnext (links (vpst w')) (PqLinks p) = Some (hd (map PqLinks ps @ [IoQ]))"
        "pq w' = (pq w1)(p := (pq w1 p)\<lparr>on_ioq := False\<rparr>)" "narrowed (evd w) (evd w') (pending w1 (us @ ps))"
        "thr (vpst w') = (thr (vpst w))(t := io_woken (vpst w) t)"
        "sleepers (heap (vpst w')) = sleepers (heap (vpst w)) - {t}" "same_globals (vpst w) (vpst w')"
      using notify_request_ok [OF m inv1] unfolding f1 by blast
    have "pds (pq w' q) = pds (pq w1 q)" for q by (simp add: w'(4))
    then have pe: "pending w' ps = pending w1 ps" by (simp add: pending_def)
    have ag': "agrees g R (evd w') (pending w' ps)"
      by (rule agrees_narrowed [OF agp(2) w'(5) g]; simp add: pe oc)
    have "request_after R (pq w p) (pq w' p)"
      using lm True by (simp add: w'(4) w1_def request_after_def b_def)
    then have "pass_effect R w w' [p] [t]"
      using w'(5-8) by (simp add: pass_effect_def w'(4)) (simp add: w1_def narrowed_def)
    then show thesis using that [of w'] loop w'(1,2,3) ag' True by simp
  next
    case False
    have "request_after R (pq w p) (pq w1 p)"
      using lm False by (simp add: w1_def request_after_def b_def)
    then have pe: "pass_effect R w w1 [p] []" by (simp add: pass_effect_def f1) (simp add: w1_def)
    have "agrees g R (evd w1) (pending w1 ps)"
      unfolding f1 by (rule agrees_sub [OF agp(2)]) (simp add: oc)
    moreover have "lnext (links (vpst w1)) (PqLinks p) = Some (hd (map PqLinks ps @ [IoQ]))"
      by (rule ioq_next [of _ us]) (use inv1 in \<open>simp add: io_inv_def\<close>)
    ultimately show thesis using that [of w1] loop inv1 pe False by simp
  qed
qed


lemma pass_effectD:
  assumes "pass_effect R w w' ps ts"
  shows "p \<in> set ps \<Longrightarrow> request_after R (pq w p) (pq w' p)" "p \<notin> set ps \<Longrightarrow> pq w' p = pq w p"
    "t \<in> set ts \<Longrightarrow> thr (vpst w') t = io_woken (vpst w) t" "t \<notin> set ts \<Longrightarrow> thr (vpst w') t = thr (vpst w) t"
    "sleepers (heap (vpst w')) = sleepers (heap (vpst w)) - set ts" "same_globals (vpst w) (vpst w')"
    "length (select_data (evd w')) = length (select_data (evd w))"
  using assms unfolding pass_effect_def by metis+

lemma pass_effect_trans:
  assumes a: "pass_effect R w w1 [p] ts" and b: "pass_effect R w1 w2 ps us" and "p \<notin> set ps"
    and "set ts \<inter> set us = {}"
  shows "pass_effect R w w2 (p # ps) (ts @ us)"
proof -
  note a = pass_effectD [OF a] and b = pass_effectD [OF b]
  have i: "io_woken (vpst w1) t = io_woken (vpst w) t" if "t \<in> set us" for t
    using a(4,5) that assms(4) by (auto simp: io_woken_def)
  have "(if r \<in> set (p # ps) then request_after R (pq w r) (pq w2 r) else pq w2 r = pq w r)" for r
    using a(1,2) [of r] b(1,2) [of r] assms(3) by (cases "r = p") auto
  moreover have "thr (vpst w2) t = (if t \<in> set (ts @ us) then io_woken (vpst w) t else thr (vpst w) t)" for t
    using a(3,4) [of t] b(3,4) [of t] i [of t] assms(4) by (cases "t \<in> set ts") auto
  moreover have "sleepers (heap (vpst w2)) = sleepers (heap (vpst w)) - set (ts @ us)"
      "length (select_data (evd w2)) = length (select_data (evd w))"
    using a(5,7) b(5,7) by auto
  moreover have "same_globals (vpst w) (vpst w2)" using same_trans(1) [OF a(6) b(6)] .
  ultimately show ?thesis unfolding pass_effect_def by blast
qed

lemma notify_loop_ok:
  assumes m: "cmap_ok ops"
  shows "io_inv ops w rq (us @ ps) \<Longrightarrow> g < length (select_data (evd w)) \<Longrightarrow> agrees g R (evd w) (pending w ps) \<Longrightarrow>
    \<exists>w'. notify_loop ops g (hd (map PqLinks ps @ [IoQ])) w = Some w' \<and>
      io_inv ops w' (rq @ threads_of w (notified R w ps)) (us @ waiting R w ps) \<and>
      pass_effect R w w' ps (threads_of w (notified R w ps))"
proof (induction ps arbitrary: w us rq)
  case Nil
  then show ?case
    by (subst notify_loop.simps) (simp add: notified_def waiting_def threads_of_def pass_effect_def)
next
  case (Cons p ps)
  let ?b = "ready R (pds (pq w p))" and ?t = "pq_thread (pq w p)"
  obtain w1 where w1: "notify_loop ops g (PqLinks p) w = notify_loop ops g (hd (map PqLinks ps @ [IoQ])) w1"
      "io_inv ops w1 (if ?b then rq @ [?t] else rq) (if ?b then us @ ps else us @ p # ps)"
      "agrees g R (evd w1) (pending w1 ps)" "pass_effect R w w1 [p] (if ?b then [?t] else [])"
    by (rule notify_step [OF m Cons.prems])
  have dist: "p \<notin> set ps" using Cons.prems(1) ioq_distinct by (fastforce simp: io_inv_def)
  have same: "pq w1 q = pq w q" if "q \<in> set ps" for q
    by (rule pass_effectD(2) [OF w1(4)]) (use that dist in auto)
  have l: "notified R w1 ps = notified R w ps" "waiting R w1 ps = waiting R w ps"
      "threads_of w1 (notified R w ps) = threads_of w (notified R w ps)"
    using same by (auto simp: notified_def waiting_def threads_of_def intro: filter_cong)
  have g1: "g < length (select_data (evd w1))" using Cons.prems(2) w1(4) by (simp add: pass_effect_def)
  let ?us = "if ?b then us else us @ [p]" and ?rq = "if ?b then rq @ [?t] else rq"
  have "io_inv ops w1 ?rq (?us @ ps)" using w1(2) by (cases ?b) simp_all
  from Cons.IH [OF this g1 w1(3), unfolded l] obtain w' where
    w': "notify_loop ops g (hd (map PqLinks ps @ [IoQ])) w1 = Some w'"
      "io_inv ops w' (?rq @ threads_of w (notified R w ps)) (?us @ waiting R w ps)"
      "pass_effect R w1 w' ps (threads_of w (notified R w ps))" by blast
  have "?t \<notin> set (threads_of w ps)" using Cons.prems(1) by (auto simp: io_inv_def requests_ok_def threads_of_def)
  moreover have "set (threads_of w (notified R w ps)) \<subseteq> set (threads_of w ps)" by (auto simp: threads_of_def notified_def)
  ultimately have "set (if ?b then [?t] else []) \<inter> set (threads_of w (notified R w ps)) = {}" by auto
  from pass_effect_trans [OF w1(4) w'(3) dist this]
  have "pass_effect R w w' (p # ps) (threads_of w (notified R w (p # ps)))"
    by (simp add: threads_of_def notified_def split: if_splits)
  moreover have "io_inv ops w' (rq @ threads_of w (notified R w (p # ps))) (us @ waiting R w (p # ps))"
    using w'(2) by (simp add: threads_of_def notified_def waiting_def split: if_splits)
  ultimately show ?case using w1(1) w'(1) by simp
qed

section \<open>Dispatch\<close>

text \<open>
  What \<open>select\<close> promises: the sets it leaves behind are parts of the sets it was given.
\<close>

definition select_ok :: "select_fn \<Rightarrow> bool" where
  "select_ok sel \<longleftrightarrow> (\<forall>g n S tv nfd R e k. sel g n S tv = (nfd, R, e) \<longrightarrow>
     set (R k) \<subseteq> set (S k) \<and> (distinct (S k) \<longrightarrow> distinct (R k)))"

lemma select_sets_ok:
  assumes "evs_ok False ops ev ps" and "g < length (select_data ev)"
    and "\<And>k. set (R k) \<subseteq> set (fdset (select_data ev ! g) k)" "\<And>k. distinct (R k)"
  shows "evs_ok False ops (upd_seldata (int g) (\<lambda>d. d\<lparr>fdset := R\<rparr>) ev) ps"
proof -
  have "group_ok False i (select_data (upd_seldata (int g) (\<lambda>d. d\<lparr>fdset := R\<rparr>) ev) ! i) ps"
    if i: "i < length (select_data ev)" for i
  proof -
    have o: "group_ok False i (select_data ev ! i) ps" using assms(1) i by (simp add: evs_ok_def)
    show ?thesis
    proof (cases "i = g")
      case True
      show ?thesis
        by (rule group_okI) (use group_okD [OF o] assms(2,4) True in \<open>auto simp: select_data_upd dest: assms(3) [THEN subsetD]\<close>)
    qed (use o i assms(2) in \<open>simp add: select_data_upd\<close>)
  qed
  then show ?thesis using assms(1) by (simp add: evs_ok_def counts_ok_def)
qed


lemma io_inv_evd:
  "io_inv ops w rq qs \<Longrightarrow> evs_ok False ops ev (pending w qs) \<Longrightarrow> io_inv ops (w\<lparr>evd := ev\<rparr>) rq qs"
  by (simp add: io_inv_def requests_ok_def pending_def)

lemma dispatch_ready:
  assumes m: "cmap_ok ops" and inv: "io_inv ops w rq qs" and g: "g < length (select_data (evd w))"
    and "nreq (select_data (evd w) ! g) > 0" "maxfd (select_data (evd w) ! g) > 0"
    and sel: "sel g (maxfd (select_data (evd w) ! g) + 1) (fdset (select_data (evd w) ! g)) (select_timeout (vpst w)) = (nfd, R, e)"
    and "select_ok sel" and "nfd > 0"
  shows "\<exists>w'. st_select_dispatch_once ops sel g w = Some w' \<and>
    io_inv ops w' (rq @ threads_of w (notified R w qs)) (waiting R w qs) \<and>
    pass_effect R w w' qs (threads_of w (notified R w qs))"
proof -
  let ?ev = "upd_seldata (int g) (\<lambda>d. d\<lparr>fdset := R\<rparr>) (evd w)"
  let ?w = "w\<lparr>evd := ?ev\<rparr>"
  have ok: "evs_ok False ops (evd w) (pending w qs)" and q: "ioq (vpst w) qs" using inv by (auto simp: io_inv_def)
  have R: "set (R k) \<subseteq> set (fdset (select_data (evd w) ! g) k)" "distinct (R k)" for k
    using assms(7) sel group_okD(4) [of False g "select_data (evd w) ! g"] ok g
    unfolding select_ok_def evs_ok_def by blast+
  have i: "io_inv ops ?w rq ([] @ qs)" using io_inv_evd [OF inv select_sets_ok [OF ok g R]] by simp
  have "agrees g R ?ev (pending ?w qs)" using g by (simp add: agrees_def select_data_upd)
  from notify_loop_ok [OF m i, of g R] g this obtain w' where
    w': "notify_loop ops g (hd (map PqLinks qs @ [IoQ])) ?w = Some w'"
      "io_inv ops w' (rq @ threads_of ?w (notified R ?w qs)) (waiting R ?w qs)"
      "pass_effect R ?w w' qs (threads_of ?w (notified R ?w qs))" by auto
  have l: "notified R ?w qs = notified R w qs" "waiting R ?w qs = waiting R w qs" "threads_of ?w vs = threads_of w vs" for vs
    by (simp_all add: notified_def waiting_def threads_of_def)
  have f: "pq ?w = pq w" "vpst ?w = vpst w" "length (select_data (evd ?w)) = length (select_data (evd w))" by simp_all
  have "pass_effect R w w' qs (threads_of w (notified R w qs))"
    using w'(3) unfolding l pass_effect_def f .
  moreover have "st_select_dispatch_once ops sel g w = Some w'"
    using assms(4,5,8) sel ioq_first [OF q] w'(1) by (simp add: st_select_dispatch_once_def Let_def)
  ultimately show ?thesis using w'(2) unfolding l by blast
qed

lemma clear_revents_ok:
  "io_inv ops w rq (us @ ps) \<Longrightarrow> \<exists>w'. clear_revents_loop (hd (map PqLinks ps @ [IoQ])) w = Some w' \<and>
    io_inv ops w' rq (us @ ps) \<and> evd w' = evd w \<and> vpst w' = vpst w"
proof (induction ps arbitrary: w us)
  case Nil
  then show ?case by (subst clear_revents_loop.simps) simp
next
  case (Cons p ps)
  let ?w = "set_pds p (map (\<lambda>pd. pd\<lparr>revents := 0\<rparr>) (pds (pq w p))) w"
  have i: "io_inv ops ?w rq (us @ p # ps)" by (rule set_pds_inv(1) [OF Cons.prems]) (simp_all add: comp_def)
  have "lnext (links (vpst ?w)) (PqLinks p) = Some (hd (map PqLinks ps @ [IoQ]))"
    by (rule ioq_next [of _ us]) (use i in \<open>simp add: io_inv_def\<close>)
  then have e: "clear_revents_loop (PqLinks p) w = clear_revents_loop (hd (map PqLinks ps @ [IoQ])) ?w"
    by (subst clear_revents_loop.simps) (simp add: Let_def)
  show ?case using Cons.IH [of ?w "us @ [p]"] i e by simp
qed

lemma find_bad_fd_ok:
  assumes inv: "io_inv ops w rq qs"
  obtains w' where "st_select_find_bad_fd w = Some w'" and "io_inv ops w' rq qs"
    and "evd w' = (evd w)\<lparr>select_data := map (\<lambda>d. d\<lparr>maxfd := 0\<rparr>) (select_data (evd w))\<rparr>"
    and "vpst w' = vpst w"
proof -
  let ?w = "w\<lparr>evd := (evd w)\<lparr>select_data := map (\<lambda>d. d\<lparr>maxfd := 0\<rparr>) (select_data (evd w))\<rparr>\<rparr>"
  have "evs_ok False ops (evd ?w) (pending w qs)"
    using inv by (simp add: io_inv_def evs_ok_def counts_ok_def group_ok_def)
  then have i: "io_inv ops ?w rq ([] @ qs)" using io_inv_evd [OF inv] by simp
  have q: "ioq (vpst w) qs" using inv by (simp add: io_inv_def)
  show thesis using clear_revents_ok [OF i] ioq_first [OF q] that
    by (auto simp: st_select_find_bad_fd_def Let_def)
qed


lemma dispatch_once_inv:
  assumes m: "cmap_ok ops" and inv: "io_inv ops w rq qs" and g: "g < length (select_data (evd w))"
    and sel: "select_ok sel"
  shows "\<exists>w' R. st_select_dispatch_once ops sel g w = Some w' \<and>
    io_inv ops w' (rq @ threads_of w (notified R w qs)) (waiting R w qs) \<and>
    length (select_data (evd w')) = length (select_data (evd w)) \<and> same_globals (vpst w) (vpst w')"
proof -
  let ?d = "select_data (evd w) ! g" and ?none = "\<lambda>_. [] :: int list"
  obtain nfd R e where r: "sel g (maxfd ?d + 1) (fdset ?d) (select_timeout (vpst w)) = (nfd, R, e)"
    by (cases "sel g (maxfd ?d + 1) (fdset ?d) (select_timeout (vpst w))") auto
  have none: "notified ?none w qs = []" "waiting ?none w qs = qs" "threads_of w [] = []"
    by (simp_all add: notified_def waiting_def threads_of_def ready_def ready_pd_def FD_ISSET_def)
  show ?thesis
  proof (cases "nreq ?d \<le> 0 \<or> maxfd ?d \<le> 0")
    case True
    then show ?thesis using inv none by (intro exI [of _ w] exI [of _ ?none]) (simp add: st_select_dispatch_once_def)
  next
    case busy: False
    let ?w = "w\<lparr>evd := upd_seldata (int g) (\<lambda>d. d\<lparr>fdset := R\<rparr>) (evd w)\<rparr>"
    have ok: "evs_ok False ops (evd w) (pending w qs)" using inv by (simp add: io_inv_def)
    have R: "set (R k) \<subseteq> set (fdset ?d k)" "distinct (R k)" for k
      using sel r group_okD(4) [of False g ?d] ok g unfolding select_ok_def evs_ok_def by blast+
    have i: "io_inv ops ?w rq qs" using io_inv_evd [OF inv select_sets_ok [OF ok g R]] .
    consider "nfd > 0" | "nfd < 0 \<and> e" | "\<not> nfd > 0 \<and> \<not> (nfd < 0 \<and> e)" by blast
    then show ?thesis
    proof cases
      case 1
      then show ?thesis using dispatch_ready [OF m inv g _ _ r sel] busy pass_effectD(6,7) by fastforce
    next
      case 2
      obtain w' where w': "st_select_find_bad_fd ?w = Some w'" "io_inv ops w' rq qs"
          "evd w' = (evd ?w)\<lparr>select_data := map (\<lambda>d. d\<lparr>maxfd := 0\<rparr>) (select_data (evd ?w))\<rparr>" "vpst w' = vpst ?w"
        by (rule find_bad_fd_ok [OF i])
      have "st_select_dispatch_once ops sel g w = Some w'"
        using busy r 2 w'(1) by (simp add: st_select_dispatch_once_def Let_def)
      then show ?thesis using w'(2-4) none by (intro exI [of _ w'] exI [of _ ?none]) simp
    next
      case 3
      then have "st_select_dispatch_once ops sel g w = Some ?w"
        using busy r by (auto simp: st_select_dispatch_once_def Let_def)
      then show ?thesis using i none by (intro exI [of _ ?w] exI [of _ ?none]) simp
    qed
  qed
qed

lemma dispatch_groups_inv:
  assumes m: "cmap_ok ops" and sel: "select_ok sel"
  shows "io_inv ops w rq qs \<Longrightarrow> \<forall>g \<in> set gs. g < length (select_data (evd w)) \<Longrightarrow>
    \<exists>w' rq' qs'. dispatch_groups ops sel gs w = Some w' \<and> io_inv ops w' (rq @ rq') qs' \<and> set qs' \<subseteq> set qs \<and>
      same_globals (vpst w) (vpst w')"
proof (induction gs arbitrary: w rq qs)
  case Nil
  then show ?case by (intro exI [of _ w] exI [of _ "[]"] exI [of _ qs]) simp
next
  case (Cons g gs)
  have "g < length (select_data (evd w))" using Cons.prems(2) by simp
  from dispatch_once_inv [OF m Cons.prems(1) this sel] obtain w1 R where
    w1: "st_select_dispatch_once ops sel g w = Some w1"
      "io_inv ops w1 (rq @ threads_of w (notified R w qs)) (waiting R w qs)"
      "length (select_data (evd w1)) = length (select_data (evd w))" "same_globals (vpst w) (vpst w1)" by blast
  have "\<forall>g \<in> set gs. g < length (select_data (evd w1))" using Cons.prems(2) w1(3) by simp
  from Cons.IH [OF w1(2) this] obtain w' rq' qs' where
    w': "dispatch_groups ops sel gs w1 = Some w'" "io_inv ops w' ((rq @ threads_of w (notified R w qs)) @ rq') qs'"
      "set qs' \<subseteq> set (waiting R w qs)" "same_globals (vpst w1) (vpst w')" by blast
  have "set qs' \<subseteq> set qs" using w'(3) by (auto simp: waiting_def)
  then show ?case using w1(1) w' same_trans(1) [OF w1(4) w'(4)] by (auto simp: append_assoc)
qed

section \<open>Waiting in st\_poll\<close>

definition io_base :: "'m cmap \<Rightarrow> ('m, 'z) iow_scheme \<Rightarrow> tid list \<Rightarrow> pqid list \<Rightarrow> bool" where
  "io_base ops w rq qs \<longleftrightarrow> sched_inv (vpst w) rq \<and> ioq (vpst w) qs \<and> evs_ok False ops (evd w) (pending w qs)"

lemma ioq_add:
  assumes q: "ioq s qs" and inv: "sched_inv s rq" and p: "p \<notin> set qs"
  shows "ioq (ST_ADD_IOQ p s) (qs @ [p])" "sched_inv (ST_ADD_IOQ p s) rq"
    "heap (ST_ADD_IOQ p s) = heap s" "thr (ST_ADD_IOQ p s) = thr s" "same_globals s (ST_ADD_IOQ p s)"
proof -
  note l = q [unfolded ioq_def]
  show "ioq (ST_ADD_IOQ p s) (qs @ [p])"
    using stq.holds_append [OF l, of "PqLinks p"] p by (auto simp: ioq_def ST_ADD_IOQ_def)
  have "runq (ST_ADD_IOQ p s) rq"
    using sched_invD(1) [OF inv] stq.append_frame [OF l, of RunQ "map Links rq" "PqLinks p"]
    by (auto simp: runq_def ST_ADD_IOQ_def)
  then show "sched_inv (ST_ADD_IOQ p s) rq"
    using sched_inv_links [OF inv] by (simp add: ST_ADD_IOQ_def)
qed (simp_all add: ST_ADD_IOQ_def same_globals_def)

text \<open>The state of the caller may be set before or after it enters the sleep queue.\<close>

lemma add_sleep_set_state:
  "st_add_sleep_q t timeout (set_state t v s) = map_option (set_state t v) (st_add_sleep_q t timeout s)"
  by (cases "sleepq_add t (last_clock s + timeout) (heap s)"; cases s)
    (auto simp: st_add_sleep_q_def set_state_def or_flags_def upd_thr_def Let_def)

lemma poll_enter_ok:
  assumes m: "cmap_ok ops" and inv: "io_base ops w rq qs" and p: "p \<notin> set qs"
    and me: "state (thr (vpst w) me) = ST_ST_RUNNING" "idle_thread (vpst w) \<noteq> Some me"
  obtains w' where "poll_enter ops p ps timeout me w = Some w'" and "io_base ops w' rq (qs @ [p])"
    and "pq w' = (pq w)(p := \<lparr>pq_thread = me, pds = ps, on_ioq = True\<rparr>)"
    and "\<forall>u. u \<noteq> me \<longrightarrow> thr (vpst w') u = thr (vpst w) u" and "state (thr (vpst w') me) = ST_ST_IO_WAIT"
    and "sleepers (heap (vpst w')) = insert me (sleepers (heap (vpst w)))"
    and "due (heap (vpst w')) me = last_clock (vpst w) + (if timeout = ST_UTIME_NO_TIMEOUT then 1 else timeout)"
    and "has_flag (vpst w') me ST_FL_INTERRUPT = has_flag (vpst w) me ST_FL_INTERRUPT"
    and "same_globals (vpst w) (vpst w')"
    and "evd w' = st_select_pollset_add ops ps (evd w)"
proof -
  let ?s = "vpst w" and ?to = "if timeout \<noteq> ST_UTIME_NO_TIMEOUT then timeout else 1"
  have i: "sched_inv ?s rq" "ioq ?s qs" "evs_ok False ops (evd w) (pending w qs)" using inv by (auto simp: io_base_def)
  note a = ioq_add [OF i(2,1) p]
  obtain s' where s': "st_add_sleep_q me ?to (set_state me ST_ST_IO_WAIT (ST_ADD_IOQ p ?s)) = Some s'" "sched_inv s' rq"
      "sleepers (heap s') = insert me (sleepers (heap (ST_ADD_IOQ p ?s)))"
      "due (heap s') = (due (heap (ST_ADD_IOQ p ?s)))(me := last_clock (ST_ADD_IOQ p ?s) + ?to)"
      "thr s' = (thr (ST_ADD_IOQ p ?s))(me := (thr (ST_ADD_IOQ p ?s) me)\<lparr>state := ST_ST_IO_WAIT,
         flags := flag_set (flags (thr (ST_ADD_IOQ p ?s) me)) ST_FL_ON_SLEEPQ\<rparr>)"
      "links s' = links (ST_ADD_IOQ p ?s)" "same_globals (ST_ADD_IOQ p ?s) s'"
    by (rule begin_sleep [OF a(2), of me ST_ST_IO_WAIT ?to]) (use me a(4,5) in \<open>simp_all add: same_globals_def\<close>)
  define w' where "w' = w\<lparr>vpst := s', evd := st_select_pollset_add ops ps (evd w),
      pq := (pq w)(p := \<lparr>pq_thread = me, pds = ps, on_ioq = True\<rparr>)\<rparr>"
  have e: "poll_enter ops p ps timeout me w = Some w'"
    using s'(1) unfolding add_sleep_set_state
    by (cases "st_add_sleep_q me ?to (ST_ADD_IOQ p ?s)") (simp_all add: poll_enter_def Let_def w'_def)
  have "pending w' qs = pending w qs"
    using p by (auto simp: pending_def w'_def intro!: arg_cong [where f = concat] map_cong)
  then have "mset (ps @ pending w qs) = mset (pending w' (qs @ [p]))" by (simp add: w'_def)
  from pollset_add_ok [OF m i(3), of ps, unfolded counts_ok_perm(2) [OF this]]
  have "io_base ops w' rq (qs @ [p])"
    using s'(2) a(1) by (simp add: io_base_def w'_def ioq_def s'(6))
  then show thesis
    using that [OF e] s'(3-5,7) a(3-5) same_trans(1) [OF a(5) s'(7)]
    by (simp add: w'_def has_flag_def flag_simps same_globals_def)
qed


lemma poll_leave_ok:
  assumes m: "cmap_ok ops" and inv: "io_base ops w rq (us @ p # vs)" and on: "on_ioq (pq w p)"
  obtains w' where "poll_leave ops p me w = (if has_flag (vpst w) me ST_FL_INTERRUPT then Inl EINTR else Inr 0, w')"
    and "io_base ops w' rq (us @ vs)" and "\<not> has_flag (vpst w') me ST_FL_INTERRUPT" and "pq w' = pq w"
    and "same_globals (vpst w) (vpst w')" and "\<forall>u. state (thr (vpst w') u) = state (thr (vpst w) u)"
proof -
  let ?s = "ST_DEL_IOQ p (vpst w)" and ?ev = "st_select_pollset_del ops (pds (pq w p)) (evd w)"
  have i: "sched_inv (vpst w) rq" "ioq (vpst w) (us @ p # vs)" "evs_ok False ops (evd w) (pending w (us @ p # vs))"
    using inv by (auto simp: io_base_def)
  note d = ioq_del [OF i(2,1)]
  have "mset (pending w (us @ p # vs)) = mset (pds (pq w p) @ pending w (us @ vs))" by simp
  from pollset_del_ok [OF m i(3) [unfolded counts_ok_perm(2) [OF this]]]
  have ev: "evs_ok False ops ?ev (pending w (us @ vs))" .
  have fl: "has_flag ?s me ST_FL_INTERRUPT = has_flag (vpst w) me ST_FL_INTERRUPT" by (simp add: has_flag_def d(5))
  have pe: "pending (w\<lparr>vpst := x, evd := y\<rparr>) zs = pending w zs" for x y zs by (simp add: pending_def)
  show thesis
  proof (cases "has_flag (vpst w) me ST_FL_INTERRUPT")
    case True
    show thesis
    proof (rule that [of "w\<lparr>vpst := clr_flags me ST_FL_INTERRUPT ?s, evd := ?ev\<rparr>"])
      show "io_base ops (w\<lparr>vpst := clr_flags me ST_FL_INTERRUPT ?s, evd := ?ev\<rparr>) rq (us @ vs)"
        using sched_inv_or_flags(3) [OF d(2)] d(1) ev unfolding io_base_def pe by (simp add: ioq_def clr_flags_def)
    qed (use True on fl d(5,6) in \<open>simp_all add: poll_leave_def Let_def thr_upd_defs flag_simps same_globals_def\<close>)
  next
    case False
    show thesis
      by (rule that [of "w\<lparr>vpst := ?s, evd := ?ev\<rparr>"])
        (use False on fl d(1,2,5,6) ev pe in \<open>simp_all add: poll_leave_def Let_def io_base_def\<close>)
  qed
qed

section \<open>Properties\<close>

text \<open>
  The demonstration state: thread 3 waits for the three descriptors of \<open>demo_pds\<close> with request 9.
\<close>

definition demo_iow :: "(int \<Rightarrow> int option) iow" where
  "demo_iow = \<lparr>vpst = ST_ADD_IOQ 9 demo_vp, evd = st_select_pollset_add fun_cmap demo_pds demo_evs,
     pq = \<lambda>_. \<lparr>pq_thread = 3, pds = demo_pds, on_ioq = True\<rparr>\<rparr>"

definition demo_select :: select_fn where
  "demo_select g n S tv = (1, \<lambda>k. filter (\<lambda>f. f = 5) (S k), False)"

lemma demo_io_base: "io_base fun_cmap demo_iow [4] [9]"
proof -
  have "evs_ok False fun_cmap (st_select_pollset_add fun_cmap demo_pds demo_evs) (demo_pds @ [])"
    by (rule pollset_add_ok [OF fun_cmap_ok demo_evs_ok])
  then show ?thesis using ioq_add [OF demo_queues(4) demo_inv, of 9]
    by (simp add: io_base_def demo_iow_def)
qed

lemma demo_io_inv: "io_inv fun_cmap demo_iow [4] [9]"
proof -
  have "thr (vpst demo_iow) 3 = demo_thr 3" using demo_fields(2) by (simp add: demo_iow_def ST_ADD_IOQ_def)
  then have "requests_ok demo_iow [9]"
    by (auto simp: requests_ok_def demo_thr_def) (auto simp: demo_iow_def demo_pds_def)
  then show ?thesis using demo_io_base by (simp add: io_inv_def io_base_def)
qed

lemma demo_group:
  "length (select_data (evd demo_iow)) = 2" "nreq (select_data (evd demo_iow) ! 0) = 2"
  "maxfd (select_data (evd demo_iow) ! 0) = 7" "fdset (select_data (evd demo_iow) ! 0) RD = [5]"
proof -
  have gfd: "st_select_get_gfd 5 = 0" "st_select_get_gfd 7 = 0" "st_select_get_gfd 205 = 1"
    by (simp_all add: st_select_get_gfd_def FD_SETSIZE_def signed_divide_int_def)
  have ev: "POLLIN \<noteq> 0" "POLLOUT \<noteq> 0" "POLLIN OR POLLPRI \<noteq> 0" by (simp_all add: POLLIN_def POLLOUT_def POLLPRI_def)
  have u: "[0..0::int] = [0]" "[1..1::int] = [1]" by (simp_all add: upto.simps)
  note d = demo_iow_def demo_evs_def demo_pds_def add_pd_def gfd ev st_select_check_seldata_def select_num_def u
    kinds_def add_kind_def demo_wants upd_seldata_def upd_fdset_def Let_def st_seldata_new_def FD_SET_def FD_SETSIZE_def
  show "length (select_data (evd demo_iow)) = 2" "nreq (select_data (evd demo_iow) ! 0) = 2"
    "maxfd (select_data (evd demo_iow) ! 0) = 7" "fdset (select_data (evd demo_iow) ! 0) RD = [5]"
    by (simp_all add: d)
qed


lemma demo_select_ok: "select_ok demo_select"
  by (auto simp: select_ok_def demo_select_def)

text \<open>
  C16: The dispatch function wakes exactly the requests that are ready. When \<open>select\<close> reports ready
  descriptors in the sets \<open>R\<close>, a pass over the I/O queue removes from it exactly the requests with an entry
  whose descriptor is ready for an event the entry asks for, appends their threads to the run
  queue in queue order and takes them off the sleep queue, reports in \<open>revents\<close> the ready events of each entry, leaves every
  other thread and request alone, and leaves the descriptor sets and counts consistent with the requests
  that remain.
\<close>

theorem dispatch_wakes_ready:
  assumes "cmap_ok ops" and "io_inv ops w rq qs" and "g < length (select_data (evd w))"
    and "nreq (select_data (evd w) ! g) > 0" and "maxfd (select_data (evd w) ! g) > 0"
    and "sel g (maxfd (select_data (evd w) ! g) + 1) (fdset (select_data (evd w) ! g)) (select_timeout (vpst w)) = (nfd, R, e)"
    and "select_ok sel" and "nfd > 0"
  shows "\<exists>w'. st_select_dispatch_once ops sel g w = Some w' \<and>
    io_inv ops w' (rq @ threads_of w (notified R w qs)) (waiting R w qs) \<and>
    pass_effect R w w' qs (threads_of w (notified R w qs))"
  by (rule dispatch_ready [OF assms])

theorem dispatch_wakes_ready_witness:
  "\<exists>w'. st_select_dispatch_once fun_cmap demo_select 0 demo_iow = Some w' \<and> io_inv fun_cmap w' [4, 3] [] \<and>
     thr (vpst w') 3 = io_woken (vpst demo_iow) 3"
proof -
  let ?R = "\<lambda>k. filter (\<lambda>f. f = 5) (fdset (select_data (evd demo_iow) ! 0) k)"
  have "demo_pds ! 0 \<in> set (pds (pq demo_iow 9))" "wants RD (demo_pds ! 0)" "fd (demo_pds ! 0) = 5"
    by (simp_all add: demo_iow_def demo_pds_def demo_wants)
  then have "ready ?R (pds (pq demo_iow 9))"
    using FD_ISSET_def [of 5 "?R RD"] demo_group(4) unfolding ready_def ready_pd_def by force
  then have l: "notified ?R demo_iow [9] = [9]" "waiting ?R demo_iow [9] = []" "threads_of demo_iow [9] = [3]"
    by (simp_all add: notified_def waiting_def threads_of_def) (simp add: demo_iow_def)
  have "\<exists>w'. st_select_dispatch_once fun_cmap demo_select 0 demo_iow = Some w' \<and>
    io_inv fun_cmap w' ([4] @ [3]) [] \<and> pass_effect ?R demo_iow w' [9] [3]"
    using dispatch_wakes_ready [OF fun_cmap_ok demo_io_inv, of 0 demo_select 1 ?R False] demo_group demo_select_ok l
    by (simp add: demo_select_def)
  then show ?thesis using pass_effectD(3) by fastforce
qed

text \<open>
  C17: The dispatch function never gets stuck and keeps the state consistent. Over all groups, with any
  outcome of every \<open>select\<close> (ready descriptors, a timeout, a failure), it returns, the scheduler invariant
  and the bookkeeping of the event system hold again, the run queue only grows at its end, and no request is added to
  the I/O queue.
\<close>

theorem st_select_dispatch_safe:
  assumes "cmap_ok ops" and "select_ok sel" and "io_inv ops w rq qs"
  shows "\<exists>w' rq' qs'. st_select_dispatch ops sel w = Some w' \<and> io_inv ops w' (rq @ rq') qs' \<and> set qs' \<subseteq> set qs \<and>
    same_globals (vpst w) (vpst w')"
  unfolding st_select_dispatch_def by (rule dispatch_groups_inv [OF assms]) simp

theorem st_select_dispatch_safe_witness:
  "\<exists>w' rq' qs'. st_select_dispatch fun_cmap demo_select demo_iow = Some w' \<and> io_inv fun_cmap w' ([4] @ rq') qs'"
  using st_select_dispatch_safe [OF fun_cmap_ok demo_select_ok demo_io_inv] by blast

lemma st_poll_ok:
  assumes "cmap_ok ops" and "io_base ops w rq qs" and "p \<notin> set qs" and "this_thread (vpst w) = Some me"
    and "state (thr (vpst w) me) = ST_ST_RUNNING" and "idle_thread (vpst w) \<noteq> Some me"
    and "\<not> has_flag (vpst w) me ST_FL_INTERRUPT"
  shows "\<exists>w1 rq1. io_base ops w1 rq1 (qs @ [p]) \<and> pq w1 p = \<lparr>pq_thread = me, pds = ps, on_ioq = True\<rparr> \<and>
    state (thr (vpst w1) me) = ST_ST_IO_WAIT \<and> me \<in> sleepers (heap (vpst w1)) \<and>
    due (heap (vpst w1)) me = last_clock (vpst w) + (if timeout = ST_UTIME_NO_TIMEOUT then 1 else timeout) \<and>
    \<not> has_flag (vpst w1) me ST_FL_INTERRUPT \<and>
    (others w1 = None \<longrightarrow> st_poll ops p ps timeout others w = None) \<and>
    (\<forall>w2 rq2 us vs. others w1 = Some w2 \<longrightarrow> on_ioq (pq w2 p) \<longrightarrow> io_base ops w2 rq2 (us @ p # vs) \<longrightarrow>
       (\<exists>w3. st_poll ops p ps timeout others w =
           Some (if has_flag (vpst w2) me ST_FL_INTERRUPT then Inl EINTR else Inr 0, w3) \<and>
         io_base ops w3 rq2 (us @ vs) \<and> \<not> has_flag (vpst w3) me ST_FL_INTERRUPT \<and>
         same_globals (vpst w2) (vpst w3) \<and> (\<forall>u. state (thr (vpst w3) u) = state (thr (vpst w2) u)))) \<and>
    (\<forall>w2. others w1 = Some w2 \<longrightarrow> \<not> on_ioq (pq w2 p) \<longrightarrow>
       st_poll ops p ps timeout others w =
         Some (if has_flag (vpst w2) me ST_FL_INTERRUPT
               then (Inl EINTR, w2\<lparr>vpst := clr_flags me ST_FL_INTERRUPT (vpst w2)\<rparr>)
               else (Inr (int (length (filter (\<lambda>pd. revents pd \<noteq> 0) (pds (pq w2 p))))), w2)))"
proof -
  obtain w0 where w0: "poll_enter ops p ps timeout me w = Some w0" "io_base ops w0 rq (qs @ [p])"
      "pq w0 = (pq w)(p := \<lparr>pq_thread = me, pds = ps, on_ioq = True\<rparr>)" "state (thr (vpst w0) me) = ST_ST_IO_WAIT"
      "sleepers (heap (vpst w0)) = insert me (sleepers (heap (vpst w)))"
      "due (heap (vpst w0)) me = last_clock (vpst w) + (if timeout = ST_UTIME_NO_TIMEOUT then 1 else timeout)"
      "same_globals (vpst w) (vpst w0)" "has_flag (vpst w0) me ST_FL_INTERRUPT = has_flag (vpst w) me ST_FL_INTERRUPT"
    by (rule poll_enter_ok [OF assms(1-3,5,6)])
  have i0: "sched_inv (vpst w0) rq" "ioq (vpst w0) (qs @ [p])" using w0(2) by (auto simp: io_base_def)
  obtain s1 rq1 where s1: "st_vp_schedule (vpst w0) = Some s1" "sched_inv s1 rq1" "heap s1 = heap (vpst w0)"
      "same_waitqs (vpst w0) s1" "\<forall>u. u \<notin> set rq \<longrightarrow> idle_thread (vpst w0) \<noteq> Some u \<longrightarrow> thr s1 u = thr (vpst w0) u"
    by (rule schedule_returns [OF i0(1)])
  have "me \<notin> set rq" using sched_invD(6) [of "vpst w" rq me] assms(2,5) by (auto simp: io_base_def)
  then have t: "thr s1 me = thr (vpst w0) me" using s1(5) w0(7) assms(6) by (simp add: same_globals_def)
  let ?w1 = "w0\<lparr>vpst := s1\<rparr>"
  have e: "st_poll ops p ps timeout others w = map_option (poll_leave ops p me) (others ?w1)"
    using assms(4,7) w0(1) s1(1) by (simp add: st_poll_def)
  have "io_base ops ?w1 rq1 (qs @ [p])"
    using w0(2) s1(2,4) i0(2) by (simp add: io_base_def same_waitqs_def pending_def)
  moreover have "\<exists>w3. st_poll ops p ps timeout others w =
           Some (if has_flag (vpst w2) me ST_FL_INTERRUPT then Inl EINTR else Inr 0, w3) \<and>
         io_base ops w3 rq2 (us @ vs) \<and> \<not> has_flag (vpst w3) me ST_FL_INTERRUPT \<and>
         same_globals (vpst w2) (vpst w3) \<and> (\<forall>u. state (thr (vpst w3) u) = state (thr (vpst w2) u))"
    if o: "others ?w1 = Some w2" "on_ioq (pq w2 p)" "io_base ops w2 rq2 (us @ p # vs)" for w2 rq2 us vs
    by (rule poll_leave_ok [OF assms(1) o(3,2), of me]) (use e o(1) in simp)
  moreover have "st_poll ops p ps timeout others w =
         Some (if has_flag (vpst w2) me ST_FL_INTERRUPT
               then (Inl EINTR, w2\<lparr>vpst := clr_flags me ST_FL_INTERRUPT (vpst w2)\<rparr>)
               else (Inr (int (length (filter (\<lambda>pd. revents pd \<noteq> 0) (pds (pq w2 p))))), w2))"
    if o: "others ?w1 = Some w2" "\<not> on_ioq (pq w2 p)" for w2
    using o e by (simp add: poll_leave_def Let_def)
  ultimately show ?thesis
    using w0(3-6,8) s1(3) t e assms(7) by (intro exI [of _ ?w1] exI [of _ rq1]) (simp add: has_flag_def)
qed




section \<open>Limits of the dispatch function\<close>

text \<open>
  \<open>select\<close> works on the sets of the group in place. When it times out they are what it left
  behind (documented to be empty), while the counts still say that requests are pending: the
  descriptors of those requests are not polled again until they are registered anew.
\<close>

lemma dispatch_timeout_forgets:
  assumes "g < length (select_data (evd w))"
    and "nreq (select_data (evd w) ! g) > 0" and "maxfd (select_data (evd w) ! g) > 0"
    and "sel g (maxfd (select_data (evd w) ! g) + 1) (fdset (select_data (evd w) ! g)) (select_timeout (vpst w)) = (0, R, e)"
  obtains w' where "st_select_dispatch_once ops sel g w = Some w'" and "fdset (select_data (evd w') ! g) = R"
    and "cmaps (evd w') = cmaps (evd w)" and "vpst w' = vpst w" and "pq w' = pq w"
  using that [of "w\<lparr>evd := upd_seldata (int g) (\<lambda>d. d\<lparr>fdset := R\<rparr>) (evd w)\<rparr>"] assms
  by (simp add: st_select_dispatch_once_def select_data_upd)

text \<open>
  A notified thread is appended to the run queue whatever its state. If it is there already, because its
  deadline passed and it has not run since, the run queue is destroyed: the node points to itself.
\<close>

lemma requeue_breaks_runq:
  assumes q: "runq s (xs @ [t])"
  shows "lnext (links (make_runnable t s)) (Links t) = Some (Links t)" and "\<not> runq (make_runnable t s) ys"
proof -
  have "lprev (links s) RunQ = Some (Links t)" using q is_clist_tail by (fastforce simp: runq_def)
  then have l: "lnext (links (make_runnable t s)) (Links t) = Some (Links t)"
      "lprev (links (make_runnable t s)) RunQ = Some (Links t)"
    by (simp_all add: make_runnable_def ST_ADD_RUNQ_def set_state_def ST_APPEND_LINK_def ST_INSERT_BEFORE_def Let_def)
  then show "lnext (links (make_runnable t s)) (Links t) = Some (Links t)" by simp
  show "\<not> runq (make_runnable t s) ys"
  proof
    assume r: "runq (make_runnable t s) ys"
    then have "lprev (links (make_runnable t s)) RunQ = Some (last (RunQ # map Links ys))"
      using is_clist_tail by (fastforce simp: runq_def)
    then obtain zs where zs: "ys = zs @ [t]" using l(2) by (cases ys rule: rev_cases) auto
    from r have "lnext (links (make_runnable t s)) (Links t) = Some RunQ"
      using is_clist_next [of "links (make_runnable t s)" RunQ "map Links zs" "Links t" "[]"] by (simp add: runq_def zs)
    then show False using l(1) by simp
  qed
qed

end
