(* ===== verification/Netio.thy ===== *)
theory Netio
  imports Poll Keys
begin

text \<open>
  io_win.c: descriptor objects with their free list, the translation of winsock errors, and the blocking
  I/O functions. Calls of the operating system are scripted: an I/O function takes a list with what
  each of its attempts meets, the result of the system call and what the other threads do if the attempt waits in
  \<open>st_poll\<close>. It yields \<open>None\<close> while the script is not long enough for it to return.
\<close>

section \<open>Error numbers\<close>

text \<open>\<open>errno\<close> values of the C runtime; failures are reported as numbers, since winsock codes below \<open>WSABASEERR\<close> are passed on as they are.\<close>

fun errno_num :: "errno \<Rightarrow> int" where
  "errno_num EPERM = 1" | "errno_num EINTR = 4" | "errno_num EBADF = 9" | "errno_num EAGAIN = 11"
| "errno_num EACCES = 13" | "errno_num EFAULT = 14" | "errno_num EBUSY = 16" | "errno_num EINVAL = 22"
| "errno_num EMFILE = 24" | "errno_num EDEADLK = 36" | "errno_num ENOSYS = 40" | "errno_num EADDRINUSE = 100"
| "errno_num EADDRNOTAVAIL = 101" | "errno_num ECONNABORTED = 106" | "errno_num ECONNREFUSED = 107"
| "errno_num ECONNRESET = 108" | "errno_num EDESTADDRREQ = 109" | "errno_num EHOSTUNREACH = 110"
| "errno_num EISCONN = 113" | "errno_num EMSGSIZE = 115" | "errno_num ENOPROTOOPT = 123" | "errno_num ENOTCONN = 126"
| "errno_num ENOTSOCK = 128" | "errno_num EOPNOTSUPP = 130" | "errno_num EPROTOTYPE = 136" | "errno_num ETIME = 137"
| "errno_num ETIMEDOUT = 138" | "errno_num (ESYS n) = n"

definition EWOULDBLOCK_num :: int where "EWOULDBLOCK_num = 140"
definition WSABASEERR :: int where "WSABASEERR = 10000"

definition wsa_table :: "(int \<times> errno) list" where
  "wsa_table =
    [(10004, EINTR), (10009, EBADF), (10013, EACCES), (10014, EFAULT), (10022, EINVAL), (10024, EMFILE),
     (10035, EAGAIN), (10036, EINTR), (10037, EINTR), (10038, ENOTSOCK), (10039, EDESTADDRREQ),
     (10040, EMSGSIZE), (10041, EPROTOTYPE), (10042, ENOPROTOOPT), (10045, EOPNOTSUPP), (10048, EADDRINUSE),
     (10049, EADDRNOTAVAIL), (10053, ECONNABORTED), (10054, ECONNRESET), (10056, EISCONN), (10057, ENOTCONN),
     (10060, ETIMEDOUT), (10061, ECONNREFUSED), (10065, EHOSTUNREACH)]"

text \<open>
  \<open>last\<close> is the value of \<open>GetLastError()\<close> and \<open>junk\<close> what the local variable \<open>syserr\<close> happens to hold: it is
  not initialised if \<open>err\<close> is not 0.
\<close>

definition st_GetError :: "int \<Rightarrow> int \<Rightarrow> int \<Rightarrow> int" where
  "st_GetError err last_err junk =
    (let syserr = (if err = 0 then last_err else junk)
     in if syserr < WSABASEERR then syserr
        else (case map_of wsa_table syserr of None \<Rightarrow> syserr | Some e \<Rightarrow> errno_num e))"

definition IO_NOT_READY_ERROR :: "int \<Rightarrow> bool" where
  "IO_NOT_READY_ERROR e \<longleftrightarrow> e = errno_num EAGAIN \<or> e = EWOULDBLOCK_num"

section \<open>Descriptor objects\<close>

type_synonym nid = nat

record netfd =
  nf_osfd :: int
  nf_inuse :: bool
  nf_private :: ptr
  nf_destructor :: ptr
  nf_aux :: ptr
  nf_next :: "nid option"

record 'm netw = "'m iow" +
  nfd :: "nid \<Rightarrow> netfd"
  netfd_freelist :: "nid option"
  nf_dcalls :: "dcall list"

definition upd_nf :: "nid \<Rightarrow> (netfd \<Rightarrow> netfd) \<Rightarrow> ('m, 'z) netw_scheme \<Rightarrow> ('m, 'z) netw_scheme" where
  "upd_nf i f w = w\<lparr>nfd := (nfd w)(i := f (nfd w i))\<rparr>"

definition st_netfd_free_aux_data :: "nid option \<Rightarrow> ('m, 'z) netw_scheme \<Rightarrow> ('m, 'z) netw_scheme" where
  "st_netfd_free_aux_data nf w = (case nf of None \<Rightarrow> w | Some i \<Rightarrow> upd_nf i (\<lambda>x. x\<lparr>nf_aux := 0\<rparr>) w)"

definition st_netfd_free :: "nid option \<Rightarrow> ('m, 'z) netw_scheme \<Rightarrow> ('m, 'z) netw_scheme" where
  "st_netfd_free nf w =
    (case nf of None \<Rightarrow> w
     | Some i \<Rightarrow>
        (if \<not> nf_inuse (nfd w i) then w
         else (let w = upd_nf i (\<lambda>x. x\<lparr>nf_inuse := False\<rparr>) w;
                   w = (if nf_aux (nfd w i) \<noteq> 0 then st_netfd_free_aux_data (Some i) w else w);
                   w = (if nf_private (nfd w i) \<noteq> 0 \<and> nf_destructor (nfd w i) \<noteq> 0
                        then w\<lparr>nf_dcalls := nf_dcalls w @ [(nf_destructor (nfd w i), nf_private (nfd w i))]\<rparr> else w);
                   w = upd_nf i (\<lambda>x. x\<lparr>nf_private := 0\<rparr>) w;
                   w = upd_nf i (\<lambda>x. x\<lparr>nf_destructor := 0\<rparr>) w;
                   w = upd_nf i (\<lambda>x. x\<lparr>nf_next := netfd_freelist w\<rparr>) w
               in w\<lparr>netfd_freelist := Some i\<rparr>)))"

text \<open>
  \<open>alloc\<close> is the object \<open>calloc\<close> returns if the free list is empty. Setting the descriptor non-blocking
  leaves the model's state alone.
\<close>

definition st_netfd_new :: "int \<Rightarrow> nid option \<Rightarrow> ('m, 'z) netw_scheme \<Rightarrow> nid option \<times> ('m, 'z) netw_scheme" where
  "st_netfd_new osfd alloc w =
    (case st_select_fd_new osfd of Inl e \<Rightarrow> (None, w)
     | Inr _ \<Rightarrow>
        (let (nf, w) = (case netfd_freelist w of
                          Some i \<Rightarrow> (Some i, w\<lparr>netfd_freelist := nf_next (nfd w i)\<rparr>)
                        | None \<Rightarrow> (alloc, (case alloc of None \<Rightarrow> w | Some i \<Rightarrow>
                            upd_nf i (\<lambda>_. \<lparr>nf_osfd = 0, nf_inuse = False, nf_private = 0, nf_destructor = 0,
                              nf_aux = 0, nf_next = None\<rparr>) w)))
         in (case nf of None \<Rightarrow> (None, w)
             | Some i \<Rightarrow> (Some i, upd_nf i (\<lambda>x. x\<lparr>nf_osfd := osfd, nf_inuse := True, nf_next := None\<rparr>) w))))"

definition st_netfd_open :: "int \<Rightarrow> nid option \<Rightarrow> ('m, 'z) netw_scheme \<Rightarrow> nid option \<times> ('m, 'z) netw_scheme" where
  "st_netfd_open osfd alloc w = (if osfd \<le> 0 then (None, w) else st_netfd_new osfd alloc w)"

definition st_netfd_open_socket :: "int \<Rightarrow> nid option \<Rightarrow> ('m, 'z) netw_scheme \<Rightarrow> nid option \<times> ('m, 'z) netw_scheme" where
  "st_netfd_open_socket osfd alloc w = (if osfd \<le> 0 then (None, w) else st_netfd_new osfd alloc w)"

text \<open>\<open>Inl\<close> is the return value \<open>-1\<close>, \<open>Inr r\<close> the return value \<open>r\<close>; \<open>last_err\<close> is \<open>GetLastError()\<close> after \<open>closesocket\<close>.\<close>

definition st_netfd_close :: "'m cmap \<Rightarrow> nid option \<Rightarrow> int \<Rightarrow> ('m, 'z) netw_scheme \<Rightarrow> (int + int) \<times> ('m, 'z) netw_scheme" where
  "st_netfd_close ops nf last_err w =
    (case nf of None \<Rightarrow> (Inr 0, w)
     | Some i \<Rightarrow>
        (let (r, ev) = st_select_fd_close ops (nf_osfd (nfd w i)) (evd w); w = w\<lparr>evd := ev\<rparr>
         in (case r of Inl e \<Rightarrow> (Inl (errno_num e), w)
             | Inr _ \<Rightarrow>
                (let w = st_netfd_free (Some i) w
                 in if nf_osfd (nfd w i) > 0 then (Inr (st_GetError 0 last_err 0), w) else (Inr 0, w)))))"

definition st_netfd_fileno :: "nid option \<Rightarrow> ('m, 'z) netw_scheme \<Rightarrow> int" where
  "st_netfd_fileno nf w = (case nf of None \<Rightarrow> 0 | Some i \<Rightarrow> nf_osfd (nfd w i))"

definition st_netfd_setspecific :: "nid option \<Rightarrow> ptr \<Rightarrow> ptr \<Rightarrow> ('m, 'z) netw_scheme \<Rightarrow> ('m, 'z) netw_scheme" where
  "st_netfd_setspecific nf val destructor w =
    (case nf of None \<Rightarrow> w
     | Some i \<Rightarrow>
        (let x = nfd w i;
             w = (if val \<noteq> nf_private x \<and> nf_private x \<noteq> 0 \<and> nf_destructor x \<noteq> 0
                  then w\<lparr>nf_dcalls := nf_dcalls w @ [(nf_destructor x, nf_private x)]\<rparr> else w)
         in upd_nf i (\<lambda>x. x\<lparr>nf_private := val, nf_destructor := destructor\<rparr>) w))"

definition st_netfd_getspecific :: "nid option \<Rightarrow> ('m, 'z) netw_scheme \<Rightarrow> ptr" where
  "st_netfd_getspecific nf w = (case nf of None \<Rightarrow> 0 | Some i \<Rightarrow> nf_private (nfd w i))"

definition st_netfd_serialize_accept :: "nid option \<Rightarrow> ('m, 'z) netw_scheme \<Rightarrow> ('m, 'z) netw_scheme" where
  "st_netfd_serialize_accept nf w = (case nf of None \<Rightarrow> w | Some i \<Rightarrow> upd_nf i (\<lambda>x. x\<lparr>nf_aux := 0\<rparr>) w)"

section \<open>Waiting and transferring\<close>

definition st_netfd_poll :: "'m cmap \<Rightarrow> pqid \<Rightarrow> nid option \<Rightarrow> short \<Rightarrow> utime
    \<Rightarrow> (('m, 'z) netw_scheme \<Rightarrow> ('m, 'z) netw_scheme option) \<Rightarrow> ('m, 'z) netw_scheme
    \<Rightarrow> ((int + unit) \<times> ('m, 'z) netw_scheme) option" where
  "st_netfd_poll ops p nf how timeout others w =
    (case nf of None \<Rightarrow> Some (Inr (), w)
     | Some i \<Rightarrow>
        (case st_poll ops p [\<lparr>fd = nf_osfd (nfd w i), events = how, revents = 0\<rparr>] timeout others w of None \<Rightarrow> None
         | Some (Inl e, w) \<Rightarrow> Some (Inl (errno_num e), w)
         | Some (Inr n, w) \<Rightarrow>
            (if n = 0 then Some (Inr (), w)
             else if revents (hd (pds (pq w p))) AND POLLNVAL \<noteq> 0 then Some (Inl (errno_num EBADF), w)
             else Some (Inr (), w))))"


text \<open>
  One attempt of a system call: a failure with its \<open>GetLastError()\<close> code, or a value. The poll function of
  the loops below is \<open>st_netfd_poll\<close> with everything but \<open>others\<close> and the state applied.
\<close>

datatype 'a osres = OsErr int | OsOk 'a

type_synonym byte = "8 word"
type_synonym ('o, 'w) poller = "'o \<Rightarrow> 'w \<Rightarrow> ((int + unit) \<times> 'w) option"

text \<open>The loop that \<open>st_read\<close>, \<open>st_recvfrom\<close> and \<open>st_sendto\<close> share.\<close>

fun io_retry :: "('o, 'w) poller \<Rightarrow> ('a osres \<times> 'o) list \<Rightarrow> 'w \<Rightarrow> ((int + 'a) \<times> 'w) option" where
  "io_retry poll [] w = None"
| "io_retry poll ((OsOk a, oth) # ins) w = Some (Inr a, w)"
| "io_retry poll ((OsErr c, oth) # ins) w =
    (let ecode = st_GetError 0 c 0
     in if ecode = errno_num EINTR then io_retry poll ins w
        else if \<not> IO_NOT_READY_ERROR ecode then Some (Inl ecode, w)
        else (case poll oth w of None \<Rightarrow> None
              | Some (Inl e, w) \<Rightarrow> Some (Inl e, w)
              | Some (Inr _, w) \<Rightarrow> io_retry poll ins w))"

text \<open>
  The bytes received so far are \<open>acc\<close>; a call that returns more than it was asked for is outside the model, and so are
  buffers of \<open>2\<^sup>3\<^sup>1\<close> bytes or more, whose length the cast to \<open>int\<close> would change.
\<close>

fun read_fully_loop :: "('o, 'w) poller \<Rightarrow> (byte list osres \<times> 'o) list \<Rightarrow> nat \<Rightarrow> byte list \<Rightarrow> 'w
    \<Rightarrow> ((int + byte list) \<times> 'w) option" where
  "read_fully_loop poll [] nleft acc w = (if nleft = 0 then Some (Inr acc, w) else None)"
| "read_fully_loop poll ((r, oth) # ins) nleft acc w =
    (if nleft = 0 then Some (Inr acc, w)
     else (case r of
        OsErr c \<Rightarrow>
          (let ecode = st_GetError 0 c 0
           in if ecode = errno_num EINTR then read_fully_loop poll ins nleft acc w
              else if \<not> IO_NOT_READY_ERROR ecode then Some (Inl ecode, w)
              else (case poll oth w of None \<Rightarrow> None
                    | Some (Inl e, w) \<Rightarrow> Some (Inl e, w)
                    | Some (Inr _, w) \<Rightarrow> read_fully_loop poll ins nleft acc w))
      | OsOk bs \<Rightarrow>
          (if length bs > nleft then None
           else (let nleft = nleft - length bs; acc = acc @ bs
                 in if nleft = 0 \<or> length bs = 0 then Some (Inr acc, w)
                    else (case poll oth w of None \<Rightarrow> None
                          | Some (Inl e, w) \<Rightarrow> Some (Inl e, w)
                          | Some (Inr _, w) \<Rightarrow> read_fully_loop poll ins nleft acc w)))))"

text \<open>\<open>buf\<close> is the rest of the buffer, \<open>sent\<close> what \<open>send\<close> has accepted so far.\<close>

fun write_loop :: "('o, 'w) poller \<Rightarrow> (nat osres \<times> 'o) list \<Rightarrow> nat \<Rightarrow> byte list \<Rightarrow> byte list \<Rightarrow> 'w
    \<Rightarrow> ((int + nat) \<times> byte list \<times> 'w) option" where
  "write_loop poll [] nbyte buf sent w = (if buf = [] then Some (Inr nbyte, sent, w) else None)"
| "write_loop poll ((r, oth) # ins) nbyte buf sent w =
    (if buf = [] then Some (Inr nbyte, sent, w)
     else (case r of
        OsErr c \<Rightarrow>
          (let ecode = st_GetError 0 c 0
           in if ecode = errno_num EINTR then write_loop poll ins nbyte buf sent w
              else if \<not> IO_NOT_READY_ERROR ecode then Some (Inl ecode, sent, w)
              else (case poll oth w of None \<Rightarrow> None
                    | Some (Inl e, w) \<Rightarrow> Some (Inl e, sent, w)
                    | Some (Inr _, w) \<Rightarrow> write_loop poll ins nbyte buf sent w))
      | OsOk n \<Rightarrow>
          (if n > length buf then None
           else if n = length buf then Some (Inr nbyte, sent @ buf, w)
           else (let sent = sent @ take n buf; buf = drop n buf
                 in (case poll oth w of None \<Rightarrow> None
                     | Some (Inl e, w) \<Rightarrow> Some (Inl e, sent, w)
                     | Some (Inr _, w) \<Rightarrow> write_loop poll ins nbyte buf sent w)))))"

definition st_read :: "'m cmap \<Rightarrow> pqid \<Rightarrow> nid option \<Rightarrow> utime
    \<Rightarrow> (byte list osres \<times> (('m, 'z) netw_scheme \<Rightarrow> ('m, 'z) netw_scheme option)) list \<Rightarrow> ('m, 'z) netw_scheme
    \<Rightarrow> ((int + byte list) \<times> ('m, 'z) netw_scheme) option" where
  "st_read ops p nf timeout ins w =
    (case nf of None \<Rightarrow> Some (Inr [], w)
     | Some i \<Rightarrow> io_retry (st_netfd_poll ops p (Some i) POLLIN timeout) ins w)"

definition st_read_fully :: "'m cmap \<Rightarrow> pqid \<Rightarrow> nid option \<Rightarrow> nat \<Rightarrow> utime
    \<Rightarrow> (byte list osres \<times> (('m, 'z) netw_scheme \<Rightarrow> ('m, 'z) netw_scheme option)) list \<Rightarrow> ('m, 'z) netw_scheme
    \<Rightarrow> ((int + byte list) \<times> ('m, 'z) netw_scheme) option" where
  "st_read_fully ops p nf nbyte timeout ins w =
    (case nf of None \<Rightarrow> Some (Inr [], w)
     | Some i \<Rightarrow> read_fully_loop (st_netfd_poll ops p (Some i) POLLIN timeout) ins nbyte [] w)"

definition st_write :: "'m cmap \<Rightarrow> pqid \<Rightarrow> nid option \<Rightarrow> byte list \<Rightarrow> utime
    \<Rightarrow> (nat osres \<times> (('m, 'z) netw_scheme \<Rightarrow> ('m, 'z) netw_scheme option)) list \<Rightarrow> ('m, 'z) netw_scheme
    \<Rightarrow> ((int + nat) \<times> byte list \<times> ('m, 'z) netw_scheme) option" where
  "st_write ops p nf buf timeout ins w =
    (case nf of None \<Rightarrow> Some (Inr 0, [], w)
     | Some i \<Rightarrow> write_loop (st_netfd_poll ops p (Some i) POLLOUT timeout) ins (length buf) buf [] w)"

text \<open>
  \<open>st_writev\<close> adds up the return values of \<open>st_write\<close>, a failure counting as \<open>-1\<close>; every buffer comes with
  its script.
\<close>

fun writev_loop :: "'m cmap \<Rightarrow> pqid \<Rightarrow> nid option \<Rightarrow> utime
    \<Rightarrow> (byte list \<times> (nat osres \<times> (('m, 'z) netw_scheme \<Rightarrow> ('m, 'z) netw_scheme option)) list) list \<Rightarrow> int \<Rightarrow> ('m, 'z) netw_scheme
    \<Rightarrow> (int \<times> ('m, 'z) netw_scheme) option" where
  "writev_loop ops p nf timeout [] rv w = Some (rv, w)"
| "writev_loop ops p nf timeout ((buf, ins) # iov) rv w =
    (case st_write ops p nf buf timeout ins w of None \<Rightarrow> None
     | Some (Inl e, _, w) \<Rightarrow> writev_loop ops p nf timeout iov (rv - 1) w
     | Some (Inr n, _, w) \<Rightarrow> writev_loop ops p nf timeout iov (rv + int n) w)"

definition st_writev :: "'m cmap \<Rightarrow> pqid \<Rightarrow> nid option \<Rightarrow> utime
    \<Rightarrow> (byte list \<times> (nat osres \<times> (('m, 'z) netw_scheme \<Rightarrow> ('m, 'z) netw_scheme option)) list) list \<Rightarrow> ('m, 'z) netw_scheme
    \<Rightarrow> (int \<times> ('m, 'z) netw_scheme) option" where
  "st_writev ops p nf timeout iov w = (case nf of None \<Rightarrow> Some (0, w) | Some i \<Rightarrow> writev_loop ops p (Some i) timeout iov 0 w)"

text \<open>The datagram and, for \<open>st_sendto\<close>, the number of bytes sent.\<close>

definition st_recvfrom :: "'m cmap \<Rightarrow> pqid \<Rightarrow> nid option \<Rightarrow> utime
    \<Rightarrow> (byte list osres \<times> (('m, 'z) netw_scheme \<Rightarrow> ('m, 'z) netw_scheme option)) list \<Rightarrow> ('m, 'z) netw_scheme
    \<Rightarrow> ((int + byte list) \<times> ('m, 'z) netw_scheme) option" where
  "st_recvfrom ops p nf timeout ins w =
    (case nf of None \<Rightarrow> Some (Inr [], w)
     | Some i \<Rightarrow> io_retry (st_netfd_poll ops p (Some i) POLLIN timeout) ins w)"

definition st_sendto :: "'m cmap \<Rightarrow> pqid \<Rightarrow> nid option \<Rightarrow> utime
    \<Rightarrow> (int osres \<times> (('m, 'z) netw_scheme \<Rightarrow> ('m, 'z) netw_scheme option)) list \<Rightarrow> ('m, 'z) netw_scheme
    \<Rightarrow> ((int + int) \<times> ('m, 'z) netw_scheme) option" where
  "st_sendto ops p nf timeout ins w =
    (case nf of None \<Rightarrow> Some (Inr 0, w)
     | Some i \<Rightarrow> io_retry (st_netfd_poll ops p (Some i) POLLOUT timeout) ins w)"

section \<open>Opening connections\<close>

text \<open>\<open>sockerr\<close> is the result of \<open>getsockopt(SO_ERROR)\<close> of an attempt, \<open>junk\<close> an uninitialised variable.\<close>

fun connect_loop :: "('o, 'w) poller \<Rightarrow> int \<Rightarrow> (unit osres \<times> 'o \<times> int osres) list \<Rightarrow> 'w \<Rightarrow> ((int + unit) \<times> 'w) option" where
  "connect_loop poll junk [] w = None"
| "connect_loop poll junk ((OsOk _, oth, sockerr) # ins) w = Some (Inr (), w)"
| "connect_loop poll junk ((OsErr c, oth, sockerr) # ins) w =
    (let ecode = st_GetError 0 c 0
     in if ecode = errno_num EAGAIN then connect_loop poll junk ins w
        else if ecode = errno_num EISCONN then Some (Inr (), w)
        else if ecode \<noteq> errno_num EINTR
        then (if ecode \<noteq> errno_num EAGAIN \<and> ecode \<noteq> errno_num EINTR then Some (Inl ecode, w)
              else (case poll oth w of None \<Rightarrow> None
                    | Some (Inl e, w) \<Rightarrow> Some (Inl e, w)
                    | Some (Inr _, w) \<Rightarrow>
                        (case sockerr of OsErr _ \<Rightarrow> Some (Inl ecode, w)
                         | OsOk err \<Rightarrow> (if err \<noteq> 0 then Some (Inl (st_GetError err 0 junk), w) else Some (Inr (), w)))))
        else connect_loop poll junk ins w)"

definition st_connect :: "'m cmap \<Rightarrow> pqid \<Rightarrow> nid option \<Rightarrow> utime \<Rightarrow> int
    \<Rightarrow> (unit osres \<times> (('m, 'z) netw_scheme \<Rightarrow> ('m, 'z) netw_scheme option) \<times> int osres) list \<Rightarrow> ('m, 'z) netw_scheme
    \<Rightarrow> ((int + unit) \<times> ('m, 'z) netw_scheme) option" where
  "st_connect ops p nf timeout junk ins w =
    (case nf of None \<Rightarrow> Some (Inr (), w)
     | Some i \<Rightarrow> connect_loop (st_netfd_poll ops p (Some i) POLLOUT timeout) junk ins w)"

text \<open>The Windows build of \<open>st_accept\<close> does not wait: a listening socket with no connection yields \<open>ETIME\<close>.\<close>

fun accept_loop :: "int osres list \<Rightarrow> (int + int) option" where
  "accept_loop [] = None"
| "accept_loop (OsOk osfd # ins) = Some (Inr osfd)"
| "accept_loop (OsErr c # ins) =
    (let ecode = st_GetError 0 c 0
     in if ecode = errno_num EINTR then accept_loop ins
        else if \<not> IO_NOT_READY_ERROR ecode then Some (Inl ecode)
        else Some (Inl (errno_num ETIME)))"

text \<open>The descriptor object (\<open>None\<close> for \<open>NULL\<close>) and the \<open>errno\<close> the function sets, if it sets one.\<close>

definition st_accept :: "nid option \<Rightarrow> int osres list \<Rightarrow> nid option \<Rightarrow> ('m, 'z) netw_scheme
    \<Rightarrow> (nid option \<times> int option \<times> ('m, 'z) netw_scheme) option" where
  "st_accept nf ins alloc w =
    (case nf of None \<Rightarrow> Some (None, None, w)
     | Some i \<Rightarrow>
        (case accept_loop ins of None \<Rightarrow> None
         | Some (Inl e) \<Rightarrow> Some (None, Some e, w)
         | Some (Inr osfd) \<Rightarrow> (let (r, w) = st_netfd_new osfd alloc w in Some (r, None, w))))"

fun open_loop :: "int osres list \<Rightarrow> (int + int) option" where
  "open_loop [] = None"
| "open_loop (OsOk osfd # ins) = Some (Inr osfd)"
| "open_loop (OsErr c # ins) =
    (let ecode = st_GetError 0 c 0
     in if ecode \<noteq> errno_num EINTR then Some (Inl ecode) else open_loop ins)"

definition st_open :: "int osres list \<Rightarrow> nid option \<Rightarrow> int \<Rightarrow> ('m, 'z) netw_scheme
    \<Rightarrow> (nid option \<times> int option \<times> ('m, 'z) netw_scheme) option" where
  "st_open ins alloc last_err w =
    (case open_loop ins of None \<Rightarrow> None
     | Some (Inl e) \<Rightarrow> Some (None, Some e, w)
     | Some (Inr osfd) \<Rightarrow>
        (case st_netfd_new osfd alloc w of
           (None, w) \<Rightarrow> Some (None, Some (st_GetError 0 last_err 0), w)
         | (Some i, w) \<Rightarrow> Some (Some i, None, w)))"

text \<open>\<open>_st_io_init\<close> starts winsock and always succeeds.\<close>

definition st_io_init :: "int + unit" where
  "st_io_init = Inr ()"


section \<open>Loops over a poll function\<close>

definition retry_code :: "int \<Rightarrow> bool" where
  "retry_code c \<longleftrightarrow> st_GetError 0 c 0 = errno_num EINTR \<or> IO_NOT_READY_ERROR (st_GetError 0 c 0)"

text \<open>
  Scripts in which the peer makes progress: the system call never transfers more than it is asked for, fails only
  for reasons that are retried, and all \<open>n\<close> bytes get through in the end (or, when reading, the peer closes).
\<close>

fun accepts :: "(nat osres \<times> 'o) list \<Rightarrow> nat \<Rightarrow> bool" where
  "accepts [] n \<longleftrightarrow> n = 0"
| "accepts ((OsOk k, _) # ins) n \<longleftrightarrow> n = 0 \<or> k = n \<or> k < n \<and> accepts ins (n - k)"
| "accepts ((OsErr c, _) # ins) n \<longleftrightarrow> n = 0 \<or> retry_code c \<and> accepts ins n"

fun delivers :: "(byte list osres \<times> 'o) list \<Rightarrow> nat \<Rightarrow> bool" where
  "delivers [] n \<longleftrightarrow> n = 0"
| "delivers ((OsOk bs, _) # ins) n \<longleftrightarrow>
     n = 0 \<or> length bs = n \<or> bs = [] \<or> length bs < n \<and> delivers ins (n - length bs)"
| "delivers ((OsErr c, _) # ins) n \<longleftrightarrow> n = 0 \<or> retry_code c \<and> delivers ins n"

text \<open>The stream the peer sends, cut at \<open>n\<close> bytes or at the end of the stream.\<close>

fun stream :: "(byte list osres \<times> 'o) list \<Rightarrow> nat \<Rightarrow> byte list" where
  "stream [] n = []"
| "stream ((OsOk bs, _) # ins) n = (if n = 0 \<or> bs = [] then [] else take n bs @ stream ins (n - length bs))"
| "stream ((OsErr c, _) # ins) n = stream ins n"

lemma stream_0 [simp]: "stream ins 0 = []"
  by (induction ins "0::nat" rule: stream.induct) auto

fun hits_end :: "(byte list osres \<times> 'o) list \<Rightarrow> bool" where
  "hits_end [] \<longleftrightarrow> False"
| "hits_end ((OsOk bs, _) # ins) \<longleftrightarrow> bs = [] \<or> hits_end ins"
| "hits_end ((OsErr c, _) # ins) \<longleftrightarrow> hits_end ins"

text \<open>The decisive attempt of a script of system calls: the first one that is not retried.\<close>

fun decisive :: "('a osres \<times> 'o) list \<Rightarrow> 'a osres option" where
  "decisive [] = None"
| "decisive ((OsOk a, _) # ins) = Some (OsOk a)"
| "decisive ((OsErr c, _) # ins) = (if retry_code c then decisive ins else Some (OsErr c))"

lemma io_retry_decides:
  "io_retry poll ins w = Some (Inr a, w') \<Longrightarrow> decisive ins = Some (OsOk a)"
proof (induction ins arbitrary: w)
  case (Cons x ins)
  show ?case
  proof (cases x)
    case (Pair r oth)
    then show ?thesis using Cons
      by (cases r) (auto simp: Let_def retry_code_def split: option.splits sum.splits if_splits)
  qed
qed simp

lemma decisive_None: "decisive ins = None \<longleftrightarrow> (\<forall>x \<in> set ins. \<exists>c. fst x = OsErr c \<and> retry_code c)"
  by (induction ins rule: decisive.induct) auto

text \<open>
  What the loops need of the function that waits: from a state that satisfies \<open>inv\<close>, with other threads that behave,
  it returns to such a state.
\<close>

locale waiting_poll =
  fixes poll :: "'o \<Rightarrow> 'w \<Rightarrow> ((int + unit) \<times> 'w) option"
    and inv :: "'w \<Rightarrow> bool"
    and good :: "'o \<Rightarrow> bool"
  assumes poll_ok: "inv w \<Longrightarrow> good oth \<Longrightarrow> \<exists>r w'. poll oth w = Some (r, w') \<and> inv w'"
begin

lemma poll_cases:
  assumes "inv w" and "good oth"
  obtains (fail) e w' where "poll oth w = Some (Inl e, w')" and "inv w'"
    | (ok) w' where "poll oth w = Some (Inr (), w')" and "inv w'"
proof -
  obtain r w' where r: "poll oth w = Some (r, w')" "inv w'" using poll_ok [OF assms] by blast
  then show thesis using fail [of _ w'] ok [of w'] by (cases r) auto
qed

lemma retry_ok:
  "inv w \<Longrightarrow> \<forall>x \<in> set ins. good (snd x) \<Longrightarrow>
    (\<exists>r w'. io_retry poll ins w = Some (r, w') \<and> inv w') \<or>
    io_retry poll ins w = None \<and> (\<forall>x \<in> set ins. \<exists>c. fst x = OsErr c \<and> retry_code c)"
proof (induction ins arbitrary: w)
  case (Cons x ins)
  obtain r oth where x: "x = (r, oth)" by (cases x)
  have g: "good oth" "\<forall>x \<in> set ins. good (snd x)" using Cons.prems(2) x by auto
  show ?case
  proof (cases r)
    case (OsOk a)
    then show ?thesis using Cons.prems(1) x by auto
  next
    case (OsErr c)
    show ?thesis
      by (rule poll_cases [OF Cons.prems(1) g(1)])
        (use Cons.IH [OF _ g(2)] Cons.prems(1) x OsErr in \<open>auto simp: Let_def retry_code_def\<close>)
  qed
qed simp

lemma write_ok:
  "inv w \<Longrightarrow> \<forall>x \<in> set ins. good (snd x) \<Longrightarrow> accepts ins (length buf) \<Longrightarrow>
    \<exists>r out w'. write_loop poll ins nbyte buf sent w = Some (r, out, w') \<and> inv w' \<and>
      (case r of Inr n \<Rightarrow> n = nbyte \<and> out = sent @ buf | Inl e \<Rightarrow> \<exists>k. out = sent @ take k buf)"
proof (induction ins arbitrary: w buf sent)
  case (Cons x ins)
  obtain r oth where x: "x = (r, oth)" by (cases x)
  have g: "good oth" "\<forall>x \<in> set ins. good (snd x)" using Cons.prems(2) x by auto
  show ?case
  proof (cases "buf = []")
    case True
    then show ?thesis using Cons.prems(1) x by simp
  next
    case buf: False
    show ?thesis
    proof (cases r)
      case (OsErr c)
      then have a: "retry_code c" "accepts ins (length buf)" using Cons.prems(3) buf x by auto
      have none: "sent = sent @ take 0 buf" by simp
      note IH = Cons.IH [OF _ g(2) a(2), of _ sent]
      show ?thesis
      proof (rule poll_cases [OF Cons.prems(1) g(1)])
        fix e w' assume p: "poll oth w = Some (Inl e, w')" "inv w'"
        show ?thesis using IH [OF Cons.prems(1)] p OsErr a(1) buf x none
          by (cases "st_GetError 0 c 0 = errno_num EINTR") (auto simp: Let_def retry_code_def)
      next
        fix w' assume p: "poll oth w = Some (Inr (), w')" "inv w'"
        show ?thesis using IH [OF Cons.prems(1)] IH [OF p(2)] p(1) OsErr a(1) buf x
          by (cases "st_GetError 0 c 0 = errno_num EINTR") (auto simp: Let_def retry_code_def)
      qed
    next
      case (OsOk n)
      show ?thesis
      proof (cases "n = length buf")
        case True
        then show ?thesis using Cons.prems(1) OsOk buf x by auto
      next
        case False
        then have n: "n < length buf" "accepts ins (length (drop n buf))" using Cons.prems(3) OsOk buf x by auto
        have e: "write_loop poll (x # ins) nbyte buf sent w = (case poll oth w of None \<Rightarrow> None
            | Some (Inl e, w) \<Rightarrow> Some (Inl e, sent @ take n buf, w)
            | Some (Inr _, w) \<Rightarrow> write_loop poll ins nbyte (drop n buf) (sent @ take n buf) w)"
          using n(1) OsOk buf x by (auto simp: Let_def)
        show ?thesis
        proof (rule poll_cases [OF Cons.prems(1) g(1)])
          fix e' w' assume "poll oth w = Some (Inl e', w')" "inv w'"
          then show ?thesis unfolding e by auto
        next
          fix w' assume p: "poll oth w = Some (Inr (), w')" "inv w'"
          obtain r out w2 where r: "write_loop poll ins nbyte (drop n buf) (sent @ take n buf) w' = Some (r, out, w2)" "inv w2"
              "case r of Inr m \<Rightarrow> m = nbyte \<and> out = (sent @ take n buf) @ drop n buf | Inl e \<Rightarrow> \<exists>k. out = (sent @ take n buf) @ take k (drop n buf)"
            using Cons.IH [OF p(2) g(2) n(2), of "sent @ take n buf"] by blast
          have "take n buf @ take k (drop n buf) = take (n + k) buf" for k by (simp add: take_add)
          then show ?thesis unfolding e using r p(1) by (auto split: sum.splits)
        qed
      qed
    qed
  qed
qed auto

lemma read_fully_ok:
  "inv w \<Longrightarrow> \<forall>x \<in> set ins. good (snd x) \<Longrightarrow> delivers ins nleft \<Longrightarrow>
    \<exists>r w'. read_fully_loop poll ins nleft acc w = Some (r, w') \<and> inv w' \<and>
      (case r of Inr bs \<Rightarrow> bs = acc @ stream ins nleft | Inl e \<Rightarrow> True)"
proof (induction ins arbitrary: w nleft acc)
  case (Cons x ins)
  obtain r oth where x: "x = (r, oth)" by (cases x)
  have g: "good oth" "\<forall>x \<in> set ins. good (snd x)" using Cons.prems(2) x by auto
  show ?case
  proof (cases "nleft = 0")
    case True
    then show ?thesis using Cons.prems(1) x by simp
  next
    case nl: False
    show ?thesis
    proof (cases r)
      case (OsErr c)
      then have a: "retry_code c" "delivers ins nleft" using Cons.prems(3) nl x by auto
      note IH = Cons.IH [OF _ g(2) a(2), of _ acc]
      show ?thesis
      proof (rule poll_cases [OF Cons.prems(1) g(1)])
        fix e w' assume p: "poll oth w = Some (Inl e, w')" "inv w'"
        show ?thesis using IH [OF Cons.prems(1)] p OsErr a(1) nl x
          by (cases "st_GetError 0 c 0 = errno_num EINTR") (auto simp: Let_def retry_code_def split: sum.splits)
      next
        fix w' assume p: "poll oth w = Some (Inr (), w')" "inv w'"
        show ?thesis using IH [OF Cons.prems(1)] IH [OF p(2)] p(1) OsErr a(1) nl x
          by (cases "st_GetError 0 c 0 = errno_num EINTR") (auto simp: Let_def retry_code_def split: sum.splits)
      qed
    next
      case (OsOk bs)
      show ?thesis
      proof (cases "length bs = nleft \<or> bs = []")
        case True
        then show ?thesis using Cons.prems(1) OsOk nl x by auto
      next
        case False
        then have n: "length bs < nleft" "delivers ins (nleft - length bs)" using Cons.prems(3) OsOk nl x by auto
        have e: "read_fully_loop poll (x # ins) nleft acc w = (case poll oth w of None \<Rightarrow> None
            | Some (Inl e, w) \<Rightarrow> Some (Inl e, w)
            | Some (Inr _, w) \<Rightarrow> read_fully_loop poll ins (nleft - length bs) (acc @ bs) w)"
          "acc @ stream (x # ins) nleft = (acc @ bs) @ stream ins (nleft - length bs)"
          using n(1) False OsOk nl x by (auto simp: Let_def)
        show ?thesis
        proof (rule poll_cases [OF Cons.prems(1) g(1)])
          fix e' w' assume "poll oth w = Some (Inl e', w')" "inv w'"
          then show ?thesis unfolding e by auto
        next
          fix w' assume p: "poll oth w = Some (Inr (), w')" "inv w'"
          show ?thesis unfolding e using Cons.IH [OF p(2) g(2) n(2), of "acc @ bs"] p(1) by simp
        qed
      qed
    qed
  qed
qed auto

end

section \<open>The callers of st\_poll\<close>

text \<open>
  \<open>caller_ready\<close>: thread \<open>me\<close> is running, the state is consistent and its poll request \<open>p\<close> is on no queue.
  \<open>others_ok\<close>: while the caller waits, the other threads keep the state consistent, do not touch the caller's array of
  descriptors except for \<open>revents\<close>, and the caller is resumed in the end, notified or not.
\<close>

definition caller_ready :: "'m cmap \<Rightarrow> pqid \<Rightarrow> tid \<Rightarrow> ('m, 'z) iow_scheme \<Rightarrow> bool" where
  "caller_ready ops p me w \<longleftrightarrow> cmap_ok ops \<and> this_thread (vpst w) = Some me \<and>
     state (thr (vpst w) me) = ST_ST_RUNNING \<and> idle_thread (vpst w) \<noteq> Some me \<and>
     (\<exists>rq qs. io_base ops w rq qs \<and> p \<notin> set qs)"

definition others_ok :: "'m cmap \<Rightarrow> pqid \<Rightarrow> tid \<Rightarrow> (('m, 'z) iow_scheme \<Rightarrow> ('m, 'z) iow_scheme option) \<Rightarrow> bool" where
  "others_ok ops p me oth \<longleftrightarrow> (\<forall>w1 rq1 qs1. io_base ops w1 rq1 (qs1 @ [p]) \<longrightarrow> pq_thread (pq w1 p) = me \<longrightarrow>
     on_ioq (pq w1 p) \<longrightarrow> state (thr (vpst w1) me) = ST_ST_IO_WAIT \<longrightarrow>
     (\<exists>w2 rq2 us vs. oth w1 = Some w2 \<and> this_thread (vpst w2) = Some me \<and> state (thr (vpst w2) me) = ST_ST_RUNNING \<and>
        idle_thread (vpst w2) \<noteq> Some me \<and> p \<notin> set (us @ vs) \<and> length (pds (pq w2 p)) = length (pds (pq w1 p)) \<and>
        io_base ops w2 rq2 (if on_ioq (pq w2 p) then us @ p # vs else us @ vs)))"


lemma caller_ready_cong:
  assumes "caller_ready ops p me w" and "io_base ops w' rq qs" and "p \<notin> set qs"
    and "same_globals (vpst w) (vpst w')" and "state (thr (vpst w') me) = ST_ST_RUNNING"
  shows "caller_ready ops p me w'"
  using assms by (auto simp: caller_ready_def same_globals_def)

lemma io_base_flags:
  "io_base ops w rq qs \<Longrightarrow> io_base ops (w\<lparr>vpst := clr_flags t ST_FL_INTERRUPT (vpst w)\<rparr>) rq qs"
  using sched_inv_or_flags(3) by (simp add: io_base_def pending_def ioq_def clr_flags_def)

text \<open>\<open>st_poll\<close> returns to a running caller, whatever wakes it.\<close>

lemma st_poll_total:
  assumes r: "caller_ready ops p me w" and ok: "others_ok ops p me oth"
  shows "\<exists>res w'. st_poll ops p ps timeout oth w = Some (res, w') \<and> caller_ready ops p me w' \<and>
    (\<not> has_flag (vpst w) me ST_FL_INTERRUPT \<longrightarrow> (\<exists>w1 w2. oth w1 = Some w2 \<and>
       (\<not> has_flag (vpst w2) me ST_FL_INTERRUPT \<longrightarrow> \<not> has_flag (vpst w') me ST_FL_INTERRUPT \<and>
          (if on_ioq (pq w2 p) then res = Inr 0
           else res = Inr (int (length (filter (\<lambda>pd. revents pd \<noteq> 0) (pds (pq w2 p))))) \<and> w' = w2))))"
proof -
  obtain rq qs where c: "cmap_ok ops" "io_base ops w rq qs" "p \<notin> set qs" "this_thread (vpst w) = Some me"
      "state (thr (vpst w) me) = ST_ST_RUNNING" "idle_thread (vpst w) \<noteq> Some me"
    using r by (auto simp: caller_ready_def)
  show ?thesis
  proof (cases "has_flag (vpst w) me ST_FL_INTERRUPT")
    case True
    have "caller_ready ops p me (w\<lparr>vpst := clr_flags me ST_FL_INTERRUPT (vpst w)\<rparr>)"
      by (rule caller_ready_cong [OF r io_base_flags [OF c(2)] c(3)]) (use c(5) in \<open>simp_all add: same_globals_def clr_flags_def\<close>)
    then show ?thesis using True c(4) by (simp add: st_poll_def)
  next
    case False
    obtain w1 rq1 where w1: "io_base ops w1 rq1 (qs @ [p])" "pq w1 p = \<lparr>pq_thread = me, pds = ps, on_ioq = True\<rparr>"
        "state (thr (vpst w1) me) = ST_ST_IO_WAIT"
      and leave: "\<forall>w2 rq2 us vs. oth w1 = Some w2 \<longrightarrow> on_ioq (pq w2 p) \<longrightarrow> io_base ops w2 rq2 (us @ p # vs) \<longrightarrow>
       (\<exists>w3. st_poll ops p ps timeout oth w =
           Some (if has_flag (vpst w2) me ST_FL_INTERRUPT then Inl EINTR else Inr 0, w3) \<and>
         io_base ops w3 rq2 (us @ vs) \<and> \<not> has_flag (vpst w3) me ST_FL_INTERRUPT \<and>
         same_globals (vpst w2) (vpst w3) \<and> (\<forall>u. state (thr (vpst w3) u) = state (thr (vpst w2) u)))"
      and off: "\<forall>w2. oth w1 = Some w2 \<longrightarrow> \<not> on_ioq (pq w2 p) \<longrightarrow> st_poll ops p ps timeout oth w =
         Some (if has_flag (vpst w2) me ST_FL_INTERRUPT
               then (Inl EINTR, w2\<lparr>vpst := clr_flags me ST_FL_INTERRUPT (vpst w2)\<rparr>)
               else (Inr (int (length (filter (\<lambda>pd. revents pd \<noteq> 0) (pds (pq w2 p))))), w2))"
      using st_poll_ok [OF c(1-6) False, of ps timeout oth] by blast
    obtain w2 rq2 us vs where w2: "oth w1 = Some w2" "this_thread (vpst w2) = Some me" "state (thr (vpst w2) me) = ST_ST_RUNNING"
        "idle_thread (vpst w2) \<noteq> Some me" "p \<notin> set (us @ vs)"
        "io_base ops w2 rq2 (if on_ioq (pq w2 p) then us @ p # vs else us @ vs)"
      using ok w1 unfolding others_ok_def by fastforce
    show ?thesis
    proof (cases "on_ioq (pq w2 p)")
      case True
      then obtain w3 where "st_poll ops p ps timeout oth w =
           Some (if has_flag (vpst w2) me ST_FL_INTERRUPT then Inl EINTR else Inr 0, w3)"
          "io_base ops w3 rq2 (us @ vs)" "same_globals (vpst w2) (vpst w3)" "state (thr (vpst w3) me) = state (thr (vpst w2) me)"
          "\<not> has_flag (vpst w3) me ST_FL_INTERRUPT"
        using leave w2(1,6) by fastforce
      moreover from this have "caller_ready ops p me w3" using w2(2-5) c(1) unfolding caller_ready_def same_globals_def by metis
      ultimately show ?thesis using True w2(1) by fastforce
    next
      case off_q: False
      have b: "io_base ops w2 rq2 (us @ vs)" using w2(6) off_q by simp
      have "caller_ready ops p me w2" using w2(2-5) c(1) b unfolding caller_ready_def by blast
      moreover from this have "caller_ready ops p me (w2\<lparr>vpst := clr_flags me ST_FL_INTERRUPT (vpst w2)\<rparr>)"
        by (rule caller_ready_cong [OF _ io_base_flags [OF b] w2(5)]) (use w2(3) in \<open>simp_all add: same_globals_def clr_flags_def\<close>)
      ultimately show ?thesis using off w2(1) off_q by (cases "has_flag (vpst w2) me ST_FL_INTERRUPT") fastforce+
    qed
  qed
qed

text \<open>Opening and closing descriptors leaves the scheduler and the pending requests as they are.\<close>

lemma caller_ready_fields [simp]:
  "caller_ready ops p me (w\<lparr>nfd := f\<rparr>) = caller_ready ops p me w"
  "caller_ready ops p me (w\<lparr>netfd_freelist := l\<rparr>) = caller_ready ops p me w"
  "caller_ready ops p me (w\<lparr>nf_dcalls := cs\<rparr>) = caller_ready ops p me w"
  by (simp_all add: caller_ready_def io_base_def pending_def)

lemma fd_close_evs:
  assumes "cmap_ok ops" and "evs_ok x ops ev ps"
  shows "evs_ok x ops (snd (st_select_fd_close ops osfd ev)) ps"
proof -
  obtain b ev' where a: "any_cnt ops osfd kinds ev = (b, ev')" by (cases "any_cnt ops osfd kinds ev")
  then have "evs_ok x ops ev' ps" using any_cnt_eq [OF assms(1) a] assms(2) by (simp add: evs_ok_def counts_ok_def)
  then show ?thesis using assms(2) a by (simp add: st_select_fd_close_def split: bool.splits)
qed

lemma netfd_free_ready [simp]: "caller_ready ops p me (st_netfd_free nf w) = caller_ready ops p me w"
  by (auto simp: st_netfd_free_def st_netfd_free_aux_data_def Let_def upd_nf_def split: option.splits)

lemma caller_ready_evd:
  "caller_ready ops p me w \<Longrightarrow> (\<And>ps. cmap_ok ops \<Longrightarrow> evs_ok False ops (evd w) ps \<Longrightarrow> evs_ok False ops ev ps) \<Longrightarrow>
    caller_ready ops p me (w\<lparr>evd := ev\<rparr>)"
  by (fastforce simp: caller_ready_def io_base_def pending_def)

lemma caller_ready_close:
  assumes "caller_ready ops p me w"
  shows "caller_ready ops p me (snd (st_netfd_close ops nf e w))"
proof (cases nf)
  case (Some i)
  obtain r ev where c: "st_select_fd_close ops (nf_osfd (nfd w i)) (evd w) = (r, ev)" by (cases "st_select_fd_close ops (nf_osfd (nfd w i)) (evd w)")
  have "caller_ready ops p me (w\<lparr>evd := ev\<rparr>)"
    by (rule caller_ready_evd [OF assms]) (use fd_close_evs [of ops False "evd w" _ "nf_osfd (nfd w i)"] c in auto)
  then show ?thesis using Some c by (auto simp: st_netfd_close_def Let_def split: sum.splits)
qed (use assms in \<open>simp add: st_netfd_close_def\<close>)

lemma caller_ready_open: "caller_ready ops p me (snd (st_netfd_open_socket sock alloc w)) = caller_ready ops p me w"
  by (auto simp: st_netfd_open_socket_def st_netfd_new_def st_select_fd_new_def upd_nf_def Let_def split: option.splits)

interpretation np: waiting_poll "st_netfd_poll ops p nf how timeout" "caller_ready ops p me"
    "others_ok ops p me :: (('m, 'z) netw_scheme \<Rightarrow> ('m, 'z) netw_scheme option) \<Rightarrow> bool"
  for ops :: "'m cmap" and p nf how timeout me
proof
  fix w :: "('m, 'z) netw_scheme" and oth :: "('m, 'z) netw_scheme \<Rightarrow> ('m, 'z) netw_scheme option"
  assume w: "caller_ready ops p me w" "others_ok ops p me oth"
  show "\<exists>r w'. st_netfd_poll ops p nf how timeout oth w = Some (r, w') \<and> caller_ready ops p me w'"
  proof (cases nf)
    case None
    then show ?thesis using w(1) by (simp add: st_netfd_poll_def)
  next
    case (Some i)
    obtain res w' where s: "st_poll ops p [\<lparr>fd = nf_osfd (nfd w i), events = how, revents = 0\<rparr>] timeout oth w = Some (res, w')"
        "caller_ready ops p me w'"
      using st_poll_total [OF w] by blast
    then show ?thesis using Some by (cases res) (auto simp: st_netfd_poll_def)
  qed
qed


text \<open>Other threads that do not interrupt the caller, and a notification that does not report a bad descriptor.\<close>

definition quiet :: "'m cmap \<Rightarrow> pqid \<Rightarrow> tid \<Rightarrow> (('m, 'z) iow_scheme \<Rightarrow> ('m, 'z) iow_scheme option) \<Rightarrow> bool" where
  "quiet ops p me oth \<longleftrightarrow> others_ok ops p me oth \<and> (\<forall>w1 w2. oth w1 = Some w2 \<longrightarrow>
     \<not> has_flag (vpst w2) me ST_FL_INTERRUPT \<and> (\<forall>pd \<in> set (pds (pq w2 p)). revents pd AND POLLNVAL = 0))"

definition calm :: "'m cmap \<Rightarrow> pqid \<Rightarrow> tid \<Rightarrow> ('m, 'z) iow_scheme \<Rightarrow> bool" where
  "calm ops p me w \<longleftrightarrow> caller_ready ops p me w \<and> \<not> has_flag (vpst w) me ST_FL_INTERRUPT"

lemma netfd_poll_quiet:
  assumes "calm ops p me w" and "quiet ops p me oth"
  shows "\<exists>w'. st_netfd_poll ops p nf how timeout oth w = Some (Inr (), w') \<and> calm ops p me w'"
proof (cases nf)
  case None
  then show ?thesis using assms(1) by (simp add: st_netfd_poll_def)
next
  case (Some i)
  have r: "caller_ready ops p me w" "others_ok ops p me oth" using assms by (auto simp: calm_def quiet_def)
  obtain res w' w1 w2 where s: "st_poll ops p [\<lparr>fd = nf_osfd (nfd w i), events = how, revents = 0\<rparr>] timeout oth w = Some (res, w')"
      "caller_ready ops p me w'" "oth w1 = Some w2" "\<not> has_flag (vpst w2) me ST_FL_INTERRUPT \<longrightarrow>
        \<not> has_flag (vpst w') me ST_FL_INTERRUPT \<and> (if on_ioq (pq w2 p) then res = Inr 0
           else res = Inr (int (length (filter (\<lambda>pd. revents pd \<noteq> 0) (pds (pq w2 p))))) \<and> w' = w2)"
    using st_poll_total [OF r] assms(1) unfolding calm_def by blast
  then have q: "\<not> has_flag (vpst w2) me ST_FL_INTERRUPT" "\<forall>pd \<in> set (pds (pq w2 p)). revents pd AND POLLNVAL = 0"
    using assms(2) by (auto simp: quiet_def)
  then have "revents (hd (pds (pq w2 p))) AND POLLNVAL = 0" if "length (filter (\<lambda>pd. revents pd \<noteq> 0) (pds (pq w2 p))) \<noteq> 0"
    using that by (cases "pds (pq w2 p)") auto
  then show ?thesis using s Some q(1) by (auto simp: st_netfd_poll_def calm_def split: if_splits)
qed

lemma io_retry_skip:
  assumes "\<And>oth w. good oth \<Longrightarrow> I w \<Longrightarrow> \<exists>w'. poll oth w = Some (Inr (), w') \<and> I w'"
  shows "I w \<Longrightarrow> \<forall>x \<in> set pre. good (snd x) \<and> (\<exists>c. fst x = OsErr c \<and> retry_code c) \<Longrightarrow>
    \<exists>w'. I w' \<and> (\<forall>ins. io_retry poll (pre @ ins) w = io_retry poll ins w')"
proof (induction pre arbitrary: w)
  case (Cons x pre)
  then obtain c oth where x: "x = (OsErr c, oth)" "retry_code c" "good oth" by (cases x) auto
  obtain w1 where w1: "poll oth w = Some (Inr (), w1)" "I w1" using assms x(3) Cons.prems(1) by blast
  have pre: "\<forall>x \<in> set pre. good (snd x) \<and> (\<exists>c. fst x = OsErr c \<and> retry_code c)" using Cons.prems(2) by simp
  show ?case
    using Cons.IH [OF Cons.prems(1) pre] Cons.IH [OF w1(2) pre] w1(1) x(2)
    by (cases "st_GetError 0 c 0 = errno_num EINTR") (auto simp: x(1) Let_def retry_code_def)
qed auto


section \<open>The free list\<close>

fun nf_chain :: "(nid \<Rightarrow> netfd) \<Rightarrow> nid option \<Rightarrow> nid list \<Rightarrow> bool" where
  "nf_chain m h [] \<longleftrightarrow> h = None"
| "nf_chain m h (i # is) \<longleftrightarrow> h = Some i \<and> nf_chain m (nf_next (m i)) is"

definition nf_clean :: "netfd \<Rightarrow> bool" where
  "nf_clean x \<longleftrightarrow> \<not> nf_inuse x \<and> nf_private x = 0 \<and> nf_destructor x = 0 \<and> nf_aux x = 0"

definition netfd_ok :: "('m, 'z) netw_scheme \<Rightarrow> nid list \<Rightarrow> bool" where
  "netfd_ok w fl \<longleftrightarrow> nf_chain (nfd w) (netfd_freelist w) fl \<and> distinct fl \<and> (\<forall>i \<in> set fl. nf_clean (nfd w i))"

lemma nf_chain_cong: "(\<And>i. i \<in> set is \<Longrightarrow> nf_next (m i) = nf_next (m' i)) \<Longrightarrow> nf_chain m h is = nf_chain m' h is"
  by (induction "is" arbitrary: h) auto

lemma free_fields:
  assumes "nf_inuse (nfd w i)"
  shows "nfd (st_netfd_free (Some i) w) = (nfd w)(i := (nfd w i)\<lparr>nf_inuse := False, nf_aux := 0, nf_private := 0,
      nf_destructor := 0, nf_next := netfd_freelist w\<rparr>)"
    and "netfd_freelist (st_netfd_free (Some i) w) = Some i"
    and "nf_dcalls (st_netfd_free (Some i) w) = nf_dcalls w @
      (if nf_private (nfd w i) \<noteq> 0 \<and> nf_destructor (nfd w i) \<noteq> 0 then [(nf_destructor (nfd w i), nf_private (nfd w i))] else [])"
  using assms by (auto simp: st_netfd_free_def st_netfd_free_aux_data_def upd_nf_def Let_def)

lemma netfd_free_ok:
  assumes ok: "netfd_ok w fl" and i: "nf_inuse (nfd w i)"
  shows "netfd_ok (st_netfd_free (Some i) w) (i # fl)"
proof -
  have n: "i \<notin> set fl" using ok i by (auto simp: netfd_ok_def nf_clean_def)
  have "nf_chain (nfd (st_netfd_free (Some i) w)) (netfd_freelist w) fl = nf_chain (nfd w) (netfd_freelist w) fl"
    by (rule nf_chain_cong) (use n in \<open>auto simp: free_fields(1) [OF i]\<close>)
  then show ?thesis using ok n by (auto simp: netfd_ok_def free_fields [OF i] nf_clean_def)
qed

lemma netfd_new_ok:
  assumes ok: "netfd_ok w fl" and a: "\<And>j. alloc = Some j \<Longrightarrow> j \<notin> set fl" and new: "st_netfd_new osfd alloc w = (Some i, w')"
  shows "netfd_ok w' (if fl = [] then [] else tl fl)" "i = (if fl = [] then the alloc else hd fl)"
    and "nfd w' i = \<lparr>nf_osfd = osfd, nf_inuse = True, nf_private = 0, nf_destructor = 0, nf_aux = 0, nf_next = None\<rparr>"
    and "\<forall>j. j \<noteq> i \<longrightarrow> nfd w' j = nfd w j"
proof -
  note d = st_netfd_new_def st_select_fd_new_def upd_nf_def Let_def
  consider "fl = []" "netfd_freelist w = None" | f gs where "fl = f # gs" "netfd_freelist w = Some f"
    using ok by (cases fl) (auto simp: netfd_ok_def)
  then have "netfd_ok w' (if fl = [] then [] else tl fl) \<and> i = (if fl = [] then the alloc else hd fl) \<and>
      nfd w' i = \<lparr>nf_osfd = osfd, nf_inuse = True, nf_private = 0, nf_destructor = 0, nf_aux = 0, nf_next = None\<rparr> \<and>
      (\<forall>j. j \<noteq> i \<longrightarrow> nfd w' j = nfd w j)"
  proof cases
    case 1
    then show ?thesis using new by (auto simp: d netfd_ok_def split: option.splits)
  next
    case 2
    have w': "i = f" "nfd w' = (nfd w)(f := (nfd w f)\<lparr>nf_osfd := osfd, nf_inuse := True, nf_next := None\<rparr>)"
        "netfd_freelist w' = nf_next (nfd w f)"
      using new 2 by (auto simp: d)
    have "f \<notin> set gs" "nf_clean (nfd w f)" "nf_chain (nfd w) (nf_next (nfd w f)) gs" using ok 2 by (auto simp: netfd_ok_def)
    moreover from this have "nf_chain (nfd w') h gs = nf_chain (nfd w) h gs" for h
      by (intro nf_chain_cong) (auto simp: w'(2))
    ultimately show ?thesis using ok 2 w' by (auto simp: netfd_ok_def nf_clean_def)
  qed
  then show "netfd_ok w' (if fl = [] then [] else tl fl)" "i = (if fl = [] then the alloc else hd fl)"
    "nfd w' i = \<lparr>nf_osfd = osfd, nf_inuse = True, nf_private = 0, nf_destructor = 0, nf_aux = 0, nf_next = None\<rparr>"
    "\<forall>j. j \<noteq> i \<longrightarrow> nfd w' j = nfd w j" by blast+
qed

section \<open>Properties\<close>

lemma getError_table: "st_GetError 0 c j = (if c < WSABASEERR then c else case map_of wsa_table c of None \<Rightarrow> c | Some e \<Rightarrow> errno_num e)"
  by (simp add: st_GetError_def)

text \<open>
  C19: Which failures of a system call the I/O functions retry: \<open>_st_GetError\<close> reports \<open>EINTR\<close> exactly for the winsock codes
  \<open>WSAEINTR\<close>, \<open>WSAEINPROGRESS\<close> and \<open>WSAEALREADY\<close> (and the plain code 4), and a not-ready error exactly for
  \<open>WSAEWOULDBLOCK\<close> (and the plain codes 11 and 140); a translated code is always below
  \<open>WSABASEERR\<close>, and the value does not depend on the uninitialised variable unless \<open>err\<close> is given.
\<close>

theorem GetError_retry_codes:
  "(st_GetError 0 c j = errno_num EINTR \<longleftrightarrow> c \<in> {4, 10004, 10036, 10037}) \<and>
   (IO_NOT_READY_ERROR (st_GetError 0 c j) \<longleftrightarrow> c \<in> {11, 140, 10035}) \<and>
   (c \<in> fst ` set wsa_table \<longrightarrow> st_GetError 0 c j < WSABASEERR) \<and>
   (c \<notin> fst ` set wsa_table \<longrightarrow> st_GetError 0 c j = c) \<and>
   (err \<noteq> 0 \<longrightarrow> st_GetError err c j = st_GetError 0 j j)"
proof (cases "c \<in> fst ` set wsa_table")
  case True
  then have "c \<in> {10004, 10009, 10013, 10014, 10022, 10024, 10035, 10036, 10037, 10038, 10039, 10040, 10041, 10042,
      10045, 10048, 10049, 10053, 10054, 10056, 10057, 10060, 10061, 10065}" by (auto simp: wsa_table_def)
  then show ?thesis
    by (auto simp: st_GetError_def WSABASEERR_def wsa_table_def IO_NOT_READY_ERROR_def EWOULDBLOCK_num_def)
next
  case False
  then have n: "map_of wsa_table c = None" by (simp add: map_of_eq_None_iff)
  have "c \<noteq> 10004 \<and> c \<noteq> 10036 \<and> c \<noteq> 10037 \<and> c \<noteq> 10035" using False by (auto simp: wsa_table_def)
  then show ?thesis using False n
    by (auto simp: st_GetError_def IO_NOT_READY_ERROR_def EWOULDBLOCK_num_def)
qed

theorem GetError_retry_codes_witness:
  "IO_NOT_READY_ERROR (st_GetError 0 10035 7) \<and> st_GetError 0 10054 7 < WSABASEERR \<and> st_GetError 3 10054 10004 = errno_num EINTR"
proof -
  have "(10054 :: int) \<in> fst ` set wsa_table" by (simp add: wsa_table_def)
  then show ?thesis
    using GetError_retry_codes [of 10035 7 0] GetError_retry_codes [of 10054 7 0] GetError_retry_codes [of 10054 10004 3]
      GetError_retry_codes [of 10004 10004 0] by simp
qed


text \<open>
  The life of a descriptor object. Freeing an object in use calls its destructor once, with the data it holds, clears
  it and puts it at the head of the free list; freeing it again does nothing; the next object
  that is opened is this one, with the new descriptor and no private data, and the free list is what it was before.
\<close>

theorem netfd_free_reuse:
  assumes "netfd_ok w fl" and "nf_inuse (nfd w i)"
  defines "w1 \<equiv> st_netfd_free (Some i) w"
  shows "netfd_ok w1 (i # fl) \<and> st_netfd_free (Some i) w1 = w1 \<and>
    nf_dcalls w1 = nf_dcalls w @ (if nf_private (nfd w i) \<noteq> 0 \<and> nf_destructor (nfd w i) \<noteq> 0
      then [(nf_destructor (nfd w i), nf_private (nfd w i))] else []) \<and>
    (\<exists>w2. st_netfd_new osfd alloc w1 = (Some i, w2) \<and> netfd_ok w2 fl \<and>
       st_netfd_fileno (Some i) w2 = osfd \<and> nf_inuse (nfd w2 i) \<and> st_netfd_getspecific (Some i) w2 = 0)"
proof -
  have ok: "netfd_ok w1 (i # fl)" unfolding w1_def by (rule netfd_free_ok [OF assms(1,2)])
  note f = free_fields [OF assms(2), folded w1_def]
  have again: "st_netfd_free (Some i) w1 = w1" using f(1) by (simp add: st_netfd_free_def)
  obtain w2 where new: "st_netfd_new osfd alloc w1 = (Some i, w2)"
    using f(2) by (auto simp: st_netfd_new_def st_select_fd_new_def Let_def)
  have "netfd_ok w2 fl \<and> nfd w2 i = \<lparr>nf_osfd = osfd, nf_inuse = True, nf_private = 0, nf_destructor = 0, nf_aux = 0, nf_next = None\<rparr>"
  proof -
    note d = st_netfd_new_def st_select_fd_new_def upd_nf_def Let_def
    have n: "i \<notin> set fl" "nf_chain (nfd w1) (netfd_freelist w) fl" "nf_clean (nfd w1 i)"
      using ok f(1) by (auto simp: netfd_ok_def)
    have w2: "nfd w2 = (nfd w1)(i := (nfd w1 i)\<lparr>nf_osfd := osfd, nf_inuse := True, nf_next := None\<rparr>)"
        "netfd_freelist w2 = netfd_freelist w" using new f(1,2) by (auto simp: d)
    have "nf_chain (nfd w2) h fl = nf_chain (nfd w1) h fl" for h
      by (rule nf_chain_cong) (use n(1) in \<open>auto simp: w2(1)\<close>)
    then show ?thesis using ok n w2 by (auto simp: netfd_ok_def nf_clean_def)
  qed
  then show ?thesis using ok again new f(3) by (auto simp: st_netfd_fileno_def st_netfd_getspecific_def)
qed

text \<open>A descriptor object 2 in use with private data, and the state of the virtual processor of \<open>demo_iow\<close>.\<close>

definition demo_netw :: "(int \<Rightarrow> int option) netw" where
  "demo_netw = \<lparr>vpst = vpst demo_iow, evd = evd demo_iow, pq = pq demo_iow,
     nfd = (\<lambda>_. \<lparr>nf_osfd = 30, nf_inuse = True, nf_private = 77, nf_destructor = 88, nf_aux = 0, nf_next = None\<rparr>),
     netfd_freelist = None, nf_dcalls = []\<rparr>"

theorem netfd_free_reuse_witness:
  "netfd_ok (st_netfd_free (Some 2) demo_netw) [2] \<and> nf_dcalls (st_netfd_free (Some 2) demo_netw) = [(88, 77)]"
proof -
  have "netfd_ok demo_netw []" "nf_inuse (nfd demo_netw 2)" by (simp_all add: netfd_ok_def demo_netw_def)
  note netfd_free_reuse [OF this]
  then show ?thesis by (simp add: demo_netw_def)
qed

text \<open>
  Other threads that let the deadline of the caller pass and then resume it.
\<close>

definition time_out :: "tid \<Rightarrow> ('m, 'z) iow_scheme \<Rightarrow> ('m, 'z) iow_scheme option" where
  "time_out me w = map_option (\<lambda>s. w\<lparr>vpst := (set_state me ST_ST_RUNNING s)\<lparr>this_thread := Some me\<rparr>\<rparr>)
     (if has_flag (vpst w) me ST_FL_ON_SLEEPQ then st_del_sleep_q me (vpst w) else Some (vpst w))"

lemma resume_inv:
  assumes inv: "sched_inv s rq" and t: "state (thr s t) = ST_ST_IO_WAIT" "t \<notin> sleepers (heap s)"
  shows "sched_inv ((set_state t ST_ST_RUNNING s)\<lparr>this_thread := Some t\<rparr>) rq"
proof -
  let ?s = "(set_state t ST_ST_RUNNING s)\<lparr>this_thread := Some t\<rparr>"
  have f: "links ?s = links s" "heap ?s = heap s" "idle_thread ?s = idle_thread s"
    "thr ?s = (thr s)(t := (thr s t)\<lparr>state := ST_ST_RUNNING\<rparr>)" by (simp_all add: set_state_def)
  have fl: "has_flag ?s u m = has_flag s u m" for u m unfolding has_flag_def f by simp
  have "t \<notin> set rq" using sched_invD(6) [OF inv, of t] t by auto
  then show ?thesis
  proof (intro sched_invI, goal_cases)
    case 1
    show ?case using sched_invD(1) [OF inv] by (simp add: runq_def f)
  next
    case (3 u)
    show ?case unfolding f fl by (rule sched_invD(4) [OF inv])
  next
    case (6 u)
    then show ?case using sched_invD(7) [OF inv, of u] unfolding f by (auto split: if_splits)
  next
    case (7 u)
    then show ?case using sched_invD(8) [OF inv, of u] t unfolding f by auto
  next
    case (8 u)
    then show ?case using sched_invD(9) [OF inv, of u] unfolding f fl by simp
  qed (use sched_invD(2,5,6) [OF inv] t in \<open>auto simp: f\<close>)
qed

lemma time_out_ok: "others_ok ops p me (time_out me)"
  unfolding others_ok_def
proof (intro allI impI)
  fix w1 :: "('a, 'b) iow_scheme" and rq1 qs1
  assume b: "io_base ops w1 rq1 (qs1 @ [p])" and on: "on_ioq (pq w1 p)" and st: "state (thr (vpst w1) me) = ST_ST_IO_WAIT"
  have i: "sched_inv (vpst w1) rq1" "ioq (vpst w1) (qs1 @ [p])" using b by (auto simp: io_base_def)
  obtain s where s: "(if has_flag (vpst w1) me ST_FL_ON_SLEEPQ then st_del_sleep_q me (vpst w1) else Some (vpst w1)) = Some s"
      "sched_inv s rq1" "me \<notin> sleepers (heap s)" "state (thr s me) = ST_ST_IO_WAIT" "links s = links (vpst w1)"
      "idle_thread s = idle_thread (vpst w1)"
  proof (cases "me \<in> sleepers (heap (vpst w1))")
    case True
    then obtain h' where h: "st_del_sleep_q me (vpst w1) = Some (clr_flags me ST_FL_ON_SLEEPQ ((vpst w1)\<lparr>heap := h'\<rparr>))"
        "sched_inv (clr_flags me ST_FL_ON_SLEEPQ ((vpst w1)\<lparr>heap := h'\<rparr>)) rq1" "sleepers h' = sleepers (heap (vpst w1)) - {me}"
      using del_sleep_q_ok [OF i(1)] by metis
    show thesis
      by (rule that [OF _ h(2)]) (use True h(1,3) st sched_invD(4) [OF i(1), of me] in \<open>simp_all add: clr_flags_def\<close>)
  next
    case False
    then show thesis using that [of "vpst w1"] i(1) st sched_invD(4) [OF i(1), of me] by simp
  qed
  let ?w = "w1\<lparr>vpst := (set_state me ST_ST_RUNNING s)\<lparr>this_thread := Some me\<rparr>\<rparr>"
  have "io_base ops ?w rq1 (qs1 @ [p])"
    using b i(2) resume_inv [OF s(2,4,3)] by (simp add: io_base_def ioq_def pending_def s(5) set_state_def)
  moreover have "idle_thread (vpst w1) \<noteq> Some me" using sched_invD(8) [OF i(1), of me] st by auto
  moreover have "p \<notin> set qs1" using ioq_distinct [OF i(2)] by simp
  ultimately show "\<exists>w2 rq2 us vs. time_out me w1 = Some w2 \<and> this_thread (vpst w2) = Some me \<and> state (thr (vpst w2) me) = ST_ST_RUNNING \<and>
        idle_thread (vpst w2) \<noteq> Some me \<and> p \<notin> set (us @ vs) \<and> length (pds (pq w2 p)) = length (pds (pq w1 p)) \<and>
        io_base ops w2 rq2 (if on_ioq (pq w2 p) then us @ p # vs else us @ vs)"
    using s(1,6) on by (intro exI [of _ ?w] exI [of _ rq1] exI [of _ qs1] exI [of _ "[]"]) (simp add: time_out_def set_state_def)
qed

lemma demo_caller: "caller_ready fun_cmap 8 5 demo_netw"
proof -
  have "io_base fun_cmap demo_netw [4] [9]" using demo_io_base by (simp add: io_base_def demo_netw_def pending_def)
  moreover have "this_thread (vpst demo_netw) = Some 5" "state (thr (vpst demo_netw) 5) = ST_ST_RUNNING"
      "idle_thread (vpst demo_netw) \<noteq> Some 5"
    using demo_fields by (auto simp: demo_netw_def demo_iow_def ST_ADD_IOQ_def demo_thr_def)
  ultimately show ?thesis unfolding caller_ready_def using fun_cmap_ok by fastforce
qed




lemma stream_props:
  "delivers ins n \<Longrightarrow> length (stream ins n) \<le> n \<and> (length (stream ins n) = n \<or> hits_end ins)"
proof (induction ins n rule: stream.induct)
  case (2 bs oth ins n)
  then show ?case by (cases "n = 0 \<or> bs = [] \<or> length bs = n") auto
qed auto



text \<open>
  Other threads that let the caller time out and leave it without a pending interrupt and without events.
\<close>

definition idle_out :: "pqid \<Rightarrow> tid \<Rightarrow> ('m, 'z) iow_scheme \<Rightarrow> ('m, 'z) iow_scheme option" where
  "idle_out p me w = (case time_out me w of None \<Rightarrow> None
     | Some w \<Rightarrow> Some (set_pds p (map (\<lambda>pd. pd\<lparr>revents := 0\<rparr>) (pds (pq w p))) (w\<lparr>vpst := clr_flags me ST_FL_INTERRUPT (vpst w)\<rparr>)))"

lemma io_base_set_pds:
  assumes b: "io_base ops w rq qs" and k: "map fd ps = map fd (pds (pq w p))" "map events ps = map events (pds (pq w p))"
  shows "io_base ops (set_pds p ps w) rq qs"
proof -
  have m: "map fd (pending (set_pds p ps w) qs) = map fd (pending w qs)"
    "map events (pending (set_pds p ps w) qs) = map events (pending w qs)"
    using k by (induction qs) (auto simp: set_pds_def)
  show ?thesis using b unfolding io_base_def evs_ok_key [OF m] by (simp add: evs_ok_key [OF m])
qed

lemma idle_out_others: "others_ok ops p me (idle_out p me)"
  unfolding others_ok_def
proof (intro allI impI)
  fix w1 :: "('a, 'b) iow_scheme" and rq1 qs1
  assume "io_base ops w1 rq1 (qs1 @ [p])" "pq_thread (pq w1 p) = me" "on_ioq (pq w1 p)" "state (thr (vpst w1) me) = ST_ST_IO_WAIT"
  then obtain w2 rq2 us vs where w2: "time_out me w1 = Some w2" "this_thread (vpst w2) = Some me"
      "state (thr (vpst w2) me) = ST_ST_RUNNING" "idle_thread (vpst w2) \<noteq> Some me" "p \<notin> set (us @ vs)"
      "length (pds (pq w2 p)) = length (pds (pq w1 p))" "io_base ops w2 rq2 (if on_ioq (pq w2 p) then us @ p # vs else us @ vs)"
    using time_out_ok [of ops p me] unfolding others_ok_def by blast
  define w3 where "w3 = set_pds p (map (\<lambda>pd. pd\<lparr>revents := 0\<rparr>) (pds (pq w2 p))) (w2\<lparr>vpst := clr_flags me ST_FL_INTERRUPT (vpst w2)\<rparr>)"
  have "io_base ops w3 rq2 (if on_ioq (pq w2 p) then us @ p # vs else us @ vs)"
    unfolding w3_def by (rule io_base_set_pds [OF io_base_flags [OF w2(7)]]) (simp_all add: o_def)
  moreover have "idle_out p me w1 = Some w3" by (simp add: idle_out_def w2(1) w3_def)
  moreover have "this_thread (vpst w3) = Some me" "state (thr (vpst w3) me) = ST_ST_RUNNING" "idle_thread (vpst w3) \<noteq> Some me"
      "length (pds (pq w3 p)) = length (pds (pq w1 p))" "on_ioq (pq w3 p) = on_ioq (pq w2 p)"
    using w2(2-4,6) by (simp_all add: w3_def clr_flags_def)
  ultimately show "\<exists>w2 rq2 us vs. idle_out p me w1 = Some w2 \<and> this_thread (vpst w2) = Some me \<and>
      state (thr (vpst w2) me) = ST_ST_RUNNING \<and> idle_thread (vpst w2) \<noteq> Some me \<and> p \<notin> set (us @ vs) \<and>
      length (pds (pq w2 p)) = length (pds (pq w1 p)) \<and>
      io_base ops w2 rq2 (if on_ioq (pq w2 p) then us @ p # vs else us @ vs)"
    using w2(5) by (intro exI [of _ w3] exI [of _ rq2] exI [of _ us] exI [of _ vs]) simp
qed

text \<open>
  What \<open>st_read\<close> makes of timeouts. As long as nobody interrupts the caller, a wait that ends with the timeout looks to it
  like one that ends with an event: after any number of retried failures the result is that of the first
  attempt that is not retried (the data, or its error code), and while every attempt says not ready \<open>st_read\<close> goes on
  waiting; it never reports \<open>ETIME\<close> for an expired timeout.
\<close>

theorem st_read_retries:
  assumes "calm ops p me w" and "\<forall>x \<in> set pre. quiet ops p me (snd x) \<and> (\<exists>c. fst x = OsErr c \<and> retry_code c)"
  shows "\<exists>w'. calm ops p me w' \<and>
    st_read ops p (Some i) timeout (pre @ (OsOk bs, oth) # ins) w = Some (Inr bs, w') \<and>
    (\<not> retry_code c \<longrightarrow> st_read ops p (Some i) timeout (pre @ (OsErr c, oth) # ins) w = Some (Inl (st_GetError 0 c 0), w')) \<and>
    st_read ops p (Some i) timeout pre w = None"
proof -
  obtain w' where w': "calm ops p me w'" "\<forall>ins. io_retry (st_netfd_poll ops p (Some i) POLLIN timeout) (pre @ ins) w =
      io_retry (st_netfd_poll ops p (Some i) POLLIN timeout) ins w'"
    using io_retry_skip [where poll = "st_netfd_poll ops p (Some i) POLLIN timeout" and good = "quiet ops p me" and I = "calm ops p me",
        OF netfd_poll_quiet assms] by blast
  show ?thesis using w' w'(2) [rule_format, of "[]"]
    by (intro exI [of _ w']) (simp add: st_read_def Let_def retry_code_def)
qed

lemma idle_out_quiet: "quiet ops p me (idle_out p me)"
proof -
  have "\<not> has_flag (vpst w2) me ST_FL_INTERRUPT \<and> (\<forall>pd \<in> set (pds (pq w2 p)). revents pd AND POLLNVAL = 0)"
    if "idle_out p me w1 = Some w2" for w1 w2 :: "('a, 'b) iow_scheme"
    using that by (auto simp: idle_out_def clr_flags_def has_flag_def flag_simps split: option.splits)
  then show ?thesis using idle_out_others unfolding quiet_def by blast
qed

theorem st_read_retries_witness:
  "\<exists>w'. st_read fun_cmap 8 (Some 2) 100 [(OsErr 10035, idle_out 8 5), (OsErr 10004, idle_out 8 5), (OsOk [7], idle_out 8 5)] demo_netw =
      Some (Inr [7], w')"
proof -
  let ?pre = "[(OsErr 10035, idle_out 8 5), (OsErr 10004, idle_out 8 5)]
    :: (byte list osres \<times> ((int \<Rightarrow> int option) netw \<Rightarrow> (int \<Rightarrow> int option) netw option)) list"
  have "calm fun_cmap 8 5 demo_netw"
    using demo_caller demo_fields(2) by (simp add: calm_def demo_netw_def demo_iow_def ST_ADD_IOQ_def demo_thr_def has_flag_def)
  moreover have "\<forall>x \<in> set ?pre. quiet fun_cmap 8 5 (snd x) \<and> (\<exists>c. fst x = OsErr c \<and> retry_code c)"
    by (simp add: idle_out_quiet retry_code_def st_GetError_def WSABASEERR_def wsa_table_def IO_NOT_READY_ERROR_def EWOULDBLOCK_num_def)
  ultimately show ?thesis using st_read_retries [of fun_cmap 8 5 demo_netw ?pre 2 100 "[7]" "idle_out 8 5" "[]"] by auto
qed

lemma connect_loop_skip:
  "\<forall>x \<in> set pre. \<exists>c. fst x = OsErr c \<and> st_GetError 0 c 0 \<in> {errno_num EAGAIN, errno_num EINTR} \<Longrightarrow>
    connect_loop poll junk (pre @ ins) w = connect_loop poll junk ins w"
  by (induction pre) (auto simp: Let_def)

lemma accept_loop_skip:
  "\<forall>x \<in> set pre. \<exists>c. x = OsErr c \<and> st_GetError 0 c 0 = errno_num EINTR \<Longrightarrow> accept_loop (pre @ ins) = accept_loop ins"
  by (induction pre) (auto simp: Let_def)

text \<open>
  \<open>st_connect\<close> and \<open>st_accept\<close> do not wait. Whatever the timeout, the other threads and \<open>SO_ERROR\<close>, \<open>st_connect\<close> spins on
  \<open>connect\<close> while it fails with \<open>EAGAIN\<close> or \<open>EINTR\<close>, without yielding, and the first other result decides: success, or
  already connected, is success, and any other error is returned; the state is never touched, so its branch that polls the
  socket is dead. \<open>st_accept\<close> repeats interrupted calls only, and reports \<open>ETIME\<close> at once when no connection is
  pending.
\<close>

theorem connect_accept_no_wait:
  assumes "\<forall>x \<in> set pre. \<exists>c. fst x = OsErr c \<and> st_GetError 0 c 0 \<in> {errno_num EAGAIN, errno_num EINTR}"
    and "st_GetError 0 c 0 \<notin> {errno_num EAGAIN, errno_num EINTR}"
    and "\<forall>x \<in> set apre. \<exists>c. x = OsErr c \<and> st_GetError 0 c 0 = errno_num EINTR"
  shows "st_connect ops p (Some i) timeout junk (pre @ (OsOk (), oth, se) # ins) w = Some (Inr (), w) \<and>
    st_connect ops p (Some i) timeout junk (pre @ (OsErr c, oth, se) # ins) w =
      Some (if st_GetError 0 c 0 = errno_num EISCONN then Inr () else Inl (st_GetError 0 c 0), w) \<and>
    st_connect ops p (Some i) timeout junk pre w = None \<and>
    st_accept (Some i) (apre @ OsErr c # ains) alloc w =
      Some (None, Some (if IO_NOT_READY_ERROR (st_GetError 0 c 0) then errno_num ETIME else st_GetError 0 c 0), w) \<and>
    st_accept (Some i) (apre @ OsErr 10035 # ains) alloc w = Some (None, Some (errno_num ETIME), w)"
proof -
  have "st_GetError 0 10035 0 = errno_num EAGAIN" by (simp add: st_GetError_def WSABASEERR_def wsa_table_def)
  then show ?thesis
    using assms(2) connect_loop_skip [OF assms(1), of _ _ "[]"]
    by (auto simp: st_connect_def st_accept_def connect_loop_skip [OF assms(1)] accept_loop_skip [OF assms(3)] Let_def
        IO_NOT_READY_ERROR_def)
qed

theorem connect_accept_no_wait_witness:
  "st_connect fun_cmap 8 (Some 2) 100 0 ([(OsErr 10035, time_out 5, OsOk 0)] @ (OsErr 10061, time_out 5, OsOk 0) # []) demo_netw =
     Some (Inl (errno_num ECONNREFUSED), demo_netw) \<and>
   st_accept (Some 2) ([OsErr 10004] @ OsErr 10035 # []) None demo_netw = Some (None, Some (errno_num ETIME), demo_netw)"
proof -
  have "st_GetError 0 10035 0 = errno_num EAGAIN" "st_GetError 0 10004 0 = errno_num EINTR"
    "st_GetError 0 10061 0 = errno_num ECONNREFUSED"
    by (simp_all add: st_GetError_def WSABASEERR_def wsa_table_def)
  then show ?thesis
    using connect_accept_no_wait [of "[(OsErr 10035, time_out 5, OsOk 0)]" 10061 "[OsErr 10004]" fun_cmap 8 2 100 0 "time_out 5" "OsOk 0" "[]"
        demo_netw "[]" None] by simp
qed

section \<open>Transfers after retried attempts\<close>

type_synonym ('m, 'z) net_others = "('m, 'z) netw_scheme \<Rightarrow> ('m, 'z) netw_scheme option"

text \<open>Attempts that fail with a code that is retried, each with the wait that follows.\<close>

definition attempts :: "(int \<times> 'o) list \<Rightarrow> ('a osres \<times> 'o) list" where
  "attempts cs = map (\<lambda>(c, oth). (OsErr c, oth)) cs"

definition attempts_ok :: "'m cmap \<Rightarrow> pqid \<Rightarrow> tid \<Rightarrow> (int \<times> ('m, 'z) net_others) list \<Rightarrow> bool" where
  "attempts_ok ops p me cs \<longleftrightarrow> (\<forall>(c, oth) \<in> set cs. retry_code c \<and> quiet ops p me oth)"

lemma write_skip:
  assumes "\<And>oth w. good oth \<Longrightarrow> I w \<Longrightarrow> \<exists>w'. poll oth w = Some (Inr (), w') \<and> I w'"
  shows "I w \<Longrightarrow> \<forall>(c, oth) \<in> set cs. retry_code c \<and> good oth \<Longrightarrow> buf \<noteq> [] \<Longrightarrow>
    \<exists>w'. I w' \<and> (\<forall>ins. write_loop poll (attempts cs @ ins) nbyte buf sent w = write_loop poll ins nbyte buf sent w')"
proof (induction cs arbitrary: w)
  case (Cons x cs)
  obtain c oth where x: "x = (c, oth)" by (cases x)
  have "good oth" using Cons.prems(2) x by simp
  then obtain w1 where w1: "poll oth w = Some (Inr (), w1)" "I w1" using assms Cons.prems(1) by blast
  show ?case
    using Cons.IH [OF Cons.prems(1)] Cons.IH [OF w1(2)] Cons.prems(2,3) w1(1)
    by (cases "st_GetError 0 c 0 = errno_num EINTR") (auto simp: x attempts_def Let_def retry_code_def)
qed (auto simp: attempts_def)

lemma send_command:
  assumes "calm ops p me w" and "attempts_ok ops p me cs" and "length buf = n" and "n > 0"
  shows "\<exists>w'. st_write ops p (Some i) buf timeout (attempts cs @ [(OsOk n, oth)]) w = Some (Inr n, buf, w') \<and> calm ops p me w'"
proof -
  obtain w' where "calm ops p me w'" "\<forall>ins. write_loop (st_netfd_poll ops p (Some i) POLLOUT timeout) (attempts cs @ ins) n buf [] w =
      write_loop (st_netfd_poll ops p (Some i) POLLOUT timeout) ins n buf [] w'"
    using write_skip [where poll = "st_netfd_poll ops p (Some i) POLLOUT timeout" and good = "quiet ops p me" and I = "calm ops p me",
        OF netfd_poll_quiet assms(1)] assms(2-4) unfolding attempts_ok_def by blast
  then show ?thesis using assms(3,4) by (auto simp: st_write_def)
qed

lemma read_answer:
  assumes "calm ops p me w" and "attempts_ok ops p me cs"
  shows "\<exists>w'. st_read ops p (Some i) timeout (attempts cs @ [(OsOk bs, oth)]) w = Some (Inr bs, w') \<and> calm ops p me w'"
  using st_read_retries [OF assms(1), of "attempts cs" i timeout bs oth "[]"] assms(2)
  by (fastforce simp: attempts_def attempts_ok_def)

end
