(* ===== verification/Lrucache.thy ===== *)
theory Lrucache
  imports Clist "HOL-Library.Monad_Syntax"
begin

text \<open>
  extensions/lrucache.c: a cache of reference-counted entries, found through a chained hash table and evicted in
  least-recently-used order. Entries live in an explicit memory \<open>ent\<close>, where a freed entry is absent, and are linked by
  \<open>next\<close> and by \<open>pthis\<close>, the address of the pointer that points to the entry. An operation yields \<open>None\<close> when it
  would use freed memory, follow a \<open>NULL\<close> link or divide by zero.

  \<open>size_t\<close> has 64 bits and \<open>unsigned long\<close> 32, as in the x64 build of the project; reference counts are natural numbers (the code
  keeps them in an \<open>int\<close>, so the model stands for fewer than \<open>2\<^sup>3\<^sup>1\<close> references to an entry). The cleanup function
  of the application is represented by the log of its calls, and keys and data are values of type \<open>'k\<close> and \<open>'d\<close>.
\<close>

section \<open>Entries and caches\<close>

type_synonym eid = nat
type_synonym size_t = "64 word"
type_synonym ulong = "32 word"

datatype pptr = Bucket nat | NextOf eid
datatype lnode = LruList | LruLink eid

record ('k, 'd) centry =
  ce_key :: 'k
  ce_data :: 'd
  ce_weight :: size_t
  ce_next :: "eid option"
  ce_pthis :: "pptr option"
  ce_ref :: nat
  ce_pending :: bool

record ('k, 'd) cache =
  max_size :: size_t
  cur_size :: size_t
  max_weight :: size_t
  cur_weight :: size_t
  hash_size :: size_t
  table :: "eid option list"
  lru :: "lnode links"
  hits :: ulong
  lookups :: ulong
  inserts :: ulong
  deletes :: ulong
  key_hash_fn :: "'k \<Rightarrow> ulong"
  key_cmp_fn :: "'k \<Rightarrow> 'k \<Rightarrow> int"
  cleanup_fn :: bool
  ent :: "eid \<Rightarrow> ('k, 'd) centry option"
  cleanups :: "('k \<times> 'd) list"

definition STX_CACHE_ENTRY_PTR :: "lnode \<Rightarrow> eid option" where
  "STX_CACHE_ENTRY_PTR q = (case q of LruLink e \<Rightarrow> Some e | LruList \<Rightarrow> None)"

definition upd_ent :: "eid \<Rightarrow> (('k, 'd) centry \<Rightarrow> ('k, 'd) centry) \<Rightarrow> ('k, 'd) cache \<Rightarrow> ('k, 'd) cache option" where
  "upd_ent e f c = map_option (\<lambda>x. c\<lparr>ent := (ent c)(e \<mapsto> f x)\<rparr>) (ent c e)"

text \<open>\<open>*p = v\<close>\<close>

definition write_pp :: "pptr \<Rightarrow> eid option \<Rightarrow> ('k, 'd) cache \<Rightarrow> ('k, 'd) cache option" where
  "write_pp p v c = (case p of
      Bucket b \<Rightarrow> if b < length (table c) then Some (c\<lparr>table := (table c)[b := v]\<rparr>) else None
    | NextOf e \<Rightarrow> upd_ent e (\<lambda>x. x\<lparr>ce_next := v\<rparr>) c)"

text \<open>
  \<open>stx_cache_create\<close> starts from the memory \<open>m\<close> of entries and the links \<open>h\<close>; \<open>ok1\<close> and \<open>ok2\<close> say whether the two
  allocations succeed.
\<close>

definition stx_cache_create :: "size_t \<Rightarrow> size_t \<Rightarrow> size_t \<Rightarrow> ('k \<Rightarrow> ulong) \<Rightarrow> ('k \<Rightarrow> 'k \<Rightarrow> int) \<Rightarrow> bool
    \<Rightarrow> bool \<Rightarrow> bool \<Rightarrow> (eid \<Rightarrow> ('k, 'd) centry option) \<Rightarrow> lnode links \<Rightarrow> ('k, 'd) cache option" where
  "stx_cache_create maxsz maxw hsize hash cmp cleanup ok1 ok2 m h =
    (if \<not> ok1 then None
     else if \<not> ok2 then None
     else Some \<lparr>max_size = maxsz, cur_size = 0, max_weight = maxw, cur_weight = 0, hash_size = hsize,
       table = replicate (unat hsize) None, lru = STX_CLIST_INIT_CLIST LruList h, hits = 0, lookups = 0, inserts = 0, deletes = 0,
       key_hash_fn = hash, key_cmp_fn = cmp, cleanup_fn = cleanup, ent = m, cleanups = []\<rparr>)"

text \<open>\<open>alloc\<close> is what \<open>calloc\<close> returns.\<close>

definition stx_cache_entry_create :: "'k \<Rightarrow> 'd \<Rightarrow> size_t \<Rightarrow> eid option \<Rightarrow> ('k, 'd) cache \<Rightarrow> eid option \<times> ('k, 'd) cache" where
  "stx_cache_entry_create key data weight alloc c =
    (case alloc of None \<Rightarrow> (None, c)
     | Some e \<Rightarrow> (Some e, c\<lparr>ent := (ent c)(e \<mapsto> \<lparr>ce_key = key, ce_data = data, ce_weight = weight, ce_next = None, ce_pthis = None,
           ce_ref = 0, ce_pending = False\<rparr>),
         lru := set_prev (LruLink e) None (set_next (LruLink e) None (lru c))\<rparr>))"

text \<open>Taking an entry out of its chain, lines 153--156.\<close>

definition unlink_entry :: "eid \<Rightarrow> pptr \<Rightarrow> ('k, 'd) cache \<Rightarrow> ('k, 'd) cache option" where
  "unlink_entry e pthis c = do {
     x \<leftarrow> ent c e;
     c \<leftarrow> write_pp pthis (ce_next x) c;
     x \<leftarrow> ent c e;
     case ce_next x of None \<Rightarrow> Some c
     | Some n \<Rightarrow> upd_ent n (\<lambda>y. y\<lparr>ce_pthis := ce_pthis x\<rparr>) c
   }"

definition stx_cache_entry_delete :: "('k, 'd) cache \<Rightarrow> eid \<Rightarrow> ('k, 'd) cache option" where
  "stx_cache_entry_delete c e = do {
     c \<leftarrow> upd_ent e (\<lambda>x. x\<lparr>ce_pending := True\<rparr>) c;
     x \<leftarrow> ent c e;
     if ce_ref x > 0 then Some c
     else do {
       c \<leftarrow> (case ce_pthis x of None \<Rightarrow> Some c
            | Some pthis \<Rightarrow> do {
                c \<leftarrow> unlink_entry e pthis c;
                let c = c\<lparr>cur_size := cur_size c - 1, cur_weight := cur_weight c - ce_weight x, deletes := deletes c + 1\<rparr>;
                h \<leftarrow> STX_CLIST_REMOVE_LINK (LruLink e) (lru c);
                Some (c\<lparr>lru := h\<rparr>)
              });
       let c = (if cleanup_fn c then c\<lparr>cleanups := cleanups c @ [(ce_key x, ce_data x)]\<rparr> else c);
       Some (c\<lparr>ent := (ent c)(e := None)\<rparr>)
     }
   }"

definition live_match :: "('k, 'd) cache \<Rightarrow> 'k \<Rightarrow> eid \<Rightarrow> bool" where
  "live_match c key e \<longleftrightarrow> (case ent c e of None \<Rightarrow> False | Some x \<Rightarrow> \<not> ce_pending x \<and> key_cmp_fn c key (ce_key x) = 0)"

text \<open>The search loop of \<open>stx_cache_entry_lookup\<close> and \<open>stx_cache_entry_insert\<close>, from the entry \<open>p\<close> on.\<close>

partial_function (option) chain_find :: "('k, 'd) cache \<Rightarrow> 'k \<Rightarrow> eid option \<Rightarrow> eid option option" where
  "chain_find c key p =
    (case p of None \<Rightarrow> Some None
     | Some e \<Rightarrow> (case ent c e of None \<Rightarrow> None
         | Some x \<Rightarrow> if live_match c key e then Some (Some e) else chain_find c key (ce_next x)))"

definition bucket_of :: "('k, 'd) cache \<Rightarrow> 'k \<Rightarrow> nat" where
  "bucket_of c key = unat ((ucast (key_hash_fn c key) :: size_t) mod hash_size c)"

definition find_entry :: "('k, 'd) cache \<Rightarrow> 'k \<Rightarrow> eid option option" where
  "find_entry c key = (if hash_size c = 0 then None else chain_find c key (table c ! bucket_of c key))"

definition stx_cache_entry_lookup :: "('k, 'd) cache \<Rightarrow> 'k \<Rightarrow> (eid option \<times> ('k, 'd) cache) option" where
  "stx_cache_entry_lookup c key = do {
     let c = c\<lparr>lookups := lookups c + 1\<rparr>;
     r \<leftarrow> find_entry c key;
     case r of None \<Rightarrow> Some (None, c)
     | Some e \<Rightarrow> do {
         let c = c\<lparr>hits := hits c + 1\<rparr>;
         x \<leftarrow> ent c e;
         h \<leftarrow> (if ce_ref x = 0 then STX_CLIST_REMOVE_LINK (LruLink e) (lru c) else Some (lru c));
         c \<leftarrow> upd_ent e (\<lambda>x. x\<lparr>ce_ref := ce_ref x + 1\<rparr>) (c\<lparr>lru := h\<rparr>);
         Some (Some e, c)
       }
   }"

definition stx_cache_entry_release :: "('k, 'd) cache \<Rightarrow> eid \<Rightarrow> ('k, 'd) cache option" where
  "stx_cache_entry_release c e = do {
     x \<leftarrow> ent c e;
     if ce_ref x = 0 then Some c
     else do {
       c \<leftarrow> upd_ent e (\<lambda>x. x\<lparr>ce_ref := ce_ref x - 1\<rparr>) c;
       x \<leftarrow> ent c e;
       if ce_ref x = 0
       then do {
         h \<leftarrow> STX_CLIST_APPEND_LINK (LruLink e) LruList (lru c);
         let c = c\<lparr>lru := h\<rparr>;
         if ce_pending x then stx_cache_entry_delete c e else Some c
       }
       else Some c
     }
   }"

definition stx_cache_entry_getlru :: "('k, 'd) cache \<Rightarrow> eid option option" where
  "stx_cache_entry_getlru c =
    (if STX_CLIST_IS_EMPTY LruList (lru c) then Some None
     else (case STX_CLIST_HEAD LruList (lru c) of None \<Rightarrow> None
           | Some q \<Rightarrow> map_option Some (STX_CACHE_ENTRY_PTR q)))"

text \<open>The eviction loop of \<open>stx_cache_entry_insert\<close>; the result says whether there is room now.\<close>

partial_function (option) evict_loop :: "('k, 'd) cache \<Rightarrow> eid \<Rightarrow> (bool \<times> ('k, 'd) cache) option" where
  "evict_loop c e =
    (case ent c e of None \<Rightarrow> None
     | Some x \<Rightarrow>
        if cur_weight c + ce_weight x > max_weight c
        then (case stx_cache_entry_getlru c of None \<Rightarrow> None
              | Some None \<Rightarrow> Some (False, c)
              | Some (Some old) \<Rightarrow>
                  (case stx_cache_entry_delete c old of None \<Rightarrow> None | Some c \<Rightarrow> evict_loop c e))
        else Some (True, c))"

text \<open>Making room for one more entry, lines 222--229.\<close>

definition evict_one :: "('k, 'd) cache \<Rightarrow> (bool \<times> ('k, 'd) cache) option" where
  "evict_one c =
    (if cur_size c \<ge> max_size c
     then do {
       r \<leftarrow> stx_cache_entry_getlru c;
       case r of None \<Rightarrow> Some (False, c)
       | Some old \<Rightarrow> do { c \<leftarrow> stx_cache_entry_delete c old; Some (True, c) }
     }
     else Some (True, c))"

text \<open>Putting the entry at the front of its chain, lines 242--247.\<close>

definition link_entry :: "eid \<Rightarrow> nat \<Rightarrow> ('k, 'd) cache \<Rightarrow> ('k, 'd) cache option" where
  "link_entry e bucket c = do {
     let first = table c ! bucket;
     c \<leftarrow> upd_ent e (\<lambda>x. x\<lparr>ce_next := first\<rparr>) c;
     c \<leftarrow> write_pp (Bucket bucket) (Some e) c;
     c \<leftarrow> upd_ent e (\<lambda>x. x\<lparr>ce_pthis := Some (Bucket bucket)\<rparr>) c;
     case first of None \<Rightarrow> Some c
     | Some n \<Rightarrow> upd_ent n (\<lambda>y. y\<lparr>ce_pthis := Some (NextOf e)\<rparr>) c
   }"

text \<open>\<open>False\<close> is the return value \<open>-1\<close>.\<close>

definition stx_cache_entry_insert :: "('k, 'd) cache \<Rightarrow> eid \<Rightarrow> (bool \<times> ('k, 'd) cache) option" where
  "stx_cache_entry_insert c e = do {
     (room, c) \<leftarrow> evict_loop c e;
     if \<not> room then Some (False, c)
     else do {
       (room, c) \<leftarrow> evict_one c;
       if \<not> room then Some (False, c)
       else do {
         x \<leftarrow> ent c e;
         old \<leftarrow> find_entry c (ce_key x);
         c \<leftarrow> (case old of None \<Rightarrow> Some c | Some old \<Rightarrow> stx_cache_entry_delete c old);
         c \<leftarrow> link_entry e (bucket_of c (ce_key x)) c;
         c \<leftarrow> upd_ent e (\<lambda>x. x\<lparr>ce_ref := ce_ref x + 1\<rparr>) c;
         Some (True, c\<lparr>inserts := inserts c + 1, cur_size := cur_size c + 1, cur_weight := cur_weight c + ce_weight x\<rparr>)
       }
     }
   }"

partial_function (option) empty_chain :: "('k, 'd) cache \<Rightarrow> eid option \<Rightarrow> ('k, 'd) cache option" where
  "empty_chain c p =
    (case p of None \<Rightarrow> Some c
     | Some e \<Rightarrow> (case ent c e of None \<Rightarrow> None
         | Some x \<Rightarrow> (case stx_cache_entry_delete c e of None \<Rightarrow> None | Some c \<Rightarrow> empty_chain c (ce_next x))))"

fun empty_buckets :: "nat list \<Rightarrow> ('k, 'd) cache \<Rightarrow> ('k, 'd) cache option" where
  "empty_buckets [] c = Some c"
| "empty_buckets (i # is) c = do { c \<leftarrow> empty_chain c (table c ! i); empty_buckets is c }"

definition stx_cache_empty :: "('k, 'd) cache \<Rightarrow> ('k, 'd) cache option" where
  "stx_cache_empty c = empty_buckets [0..<unat (hash_size c)] c"

text \<open>The traversals, as the list of the arguments of the callback.\<close>

partial_function (option) traverse_chain :: "('k, 'd) cache \<Rightarrow> eid option \<Rightarrow> ('k \<times> 'd) list option" where
  "traverse_chain c p =
    (case p of None \<Rightarrow> Some []
     | Some e \<Rightarrow> (case ent c e of None \<Rightarrow> None
         | Some x \<Rightarrow> do {
             r \<leftarrow> traverse_chain c (ce_next x);
             Some (if ce_pending x then r else (ce_key x, ce_data x) # r)
           }))"

fun traverse_buckets :: "('k, 'd) cache \<Rightarrow> nat list \<Rightarrow> ('k \<times> 'd) list option" where
  "traverse_buckets c [] = Some []"
| "traverse_buckets c (i # is) = do { r \<leftarrow> traverse_chain c (table c ! i); rs \<leftarrow> traverse_buckets c is; Some (r @ rs) }"

definition stx_cache_traverse :: "('k, 'd) cache \<Rightarrow> ('k \<times> 'd) list option" where
  "stx_cache_traverse c = traverse_buckets c [0..<unat (hash_size c)]"

fun traverse_links :: "('k, 'd) cache \<Rightarrow> (lnode \<Rightarrow> lnode option) \<Rightarrow> nat \<Rightarrow> lnode option \<Rightarrow> ('k \<times> 'd) list option" where
  "traverse_links c go n q = (if n = 0 then Some [] else
     (case q of None \<Rightarrow> None
      | Some q \<Rightarrow> (if q = LruList then Some []
          else do {
            e \<leftarrow> STX_CACHE_ENTRY_PTR q;
            x \<leftarrow> ent c e;
            r \<leftarrow> traverse_links c go (n - 1) (go q);
            Some ((ce_key x, ce_data x) # r)
          })))"

definition stx_cache_traverse_lru :: "('k, 'd) cache \<Rightarrow> nat \<Rightarrow> ('k \<times> 'd) list option" where
  "stx_cache_traverse_lru c n = traverse_links c (lnext (lru c)) n (STX_CLIST_HEAD LruList (lru c))"

definition stx_cache_traverse_mru :: "('k, 'd) cache \<Rightarrow> nat \<Rightarrow> ('k \<times> 'd) list option" where
  "stx_cache_traverse_mru c n = traverse_links c (lprev (lru c)) n (STX_CLIST_TAIL LruList (lru c))"

definition stx_cache_getsize :: "('k, 'd) cache \<Rightarrow> size_t" where
  "stx_cache_getsize c = cur_size c"

definition stx_cache_getweight :: "('k, 'd) cache \<Rightarrow> size_t" where
  "stx_cache_getweight c = cur_weight c"

record cache_info =
  i_max_size :: size_t
  i_max_weight :: size_t
  i_hash_size :: size_t
  i_cur_size :: size_t
  i_cur_weight :: size_t
  i_hits :: ulong
  i_lookups :: ulong
  i_inserts :: ulong
  i_deletes :: ulong

definition stx_cache_getinfo :: "('k, 'd) cache \<Rightarrow> cache_info" where
  "stx_cache_getinfo c = \<lparr>i_max_size = max_size c, i_max_weight = max_weight c, i_hash_size = hash_size c,
     i_cur_size = cur_size c, i_cur_weight = cur_weight c, i_hits = hits c, i_lookups = lookups c, i_inserts = inserts c,
     i_deletes = deletes c\<rparr>"

definition stx_cache_entry_getdata :: "('k, 'd) cache \<Rightarrow> eid \<Rightarrow> 'd option" where
  "stx_cache_entry_getdata c e = map_option ce_data (ent c e)"

definition stx_cache_entry_getkey :: "('k, 'd) cache \<Rightarrow> eid \<Rightarrow> 'k option" where
  "stx_cache_entry_getkey c e = map_option ce_key (ent c e)"

definition stx_cache_entry_getweight :: "('k, 'd) cache \<Rightarrow> eid \<Rightarrow> size_t option" where
  "stx_cache_entry_getweight c e = map_option ce_weight (ent c e)"

section \<open>Chains\<close>

text \<open>
  A chain is doubly linked through \<open>next\<close> and \<open>pthis\<close>: \<open>r\<close> reads the pointer at an address, \<open>t\<close> the \<open>pthis\<close> field of an
  entry. \<open>seg r t p es p'\<close> says that from the address \<open>p\<close> on the entries \<open>es\<close> follow, up to the address \<open>p'\<close>.
\<close>

fun seg :: "(pptr \<Rightarrow> eid option) \<Rightarrow> (eid \<Rightarrow> pptr option) \<Rightarrow> pptr \<Rightarrow> eid list \<Rightarrow> pptr \<Rightarrow> bool" where
  "seg r t p [] p' \<longleftrightarrow> p' = p"
| "seg r t p (e # es) p' \<longleftrightarrow> r p = Some e \<and> t e = Some p \<and> seg r t (NextOf e) es p'"

definition chain :: "(pptr \<Rightarrow> eid option) \<Rightarrow> (eid \<Rightarrow> pptr option) \<Rightarrow> pptr \<Rightarrow> eid list \<Rightarrow> bool" where
  "chain r t p es \<longleftrightarrow> (\<exists>p'. seg r t p es p' \<and> r p' = None)"

lemma chain_simps [simp]:
  "chain r t p [] \<longleftrightarrow> r p = None"
  "chain r t p (e # es) \<longleftrightarrow> r p = Some e \<and> t e = Some p \<and> chain r t (NextOf e) es"
  by (auto simp: chain_def)

lemma chain_cong:
  assumes "\<And>e. e \<in> set es \<Longrightarrow> r' (NextOf e) = r (NextOf e) \<and> t' e = t e" and "r' p = r p"
  shows "chain r' t' p es \<longleftrightarrow> chain r t p es"
  using assms by (induction es arbitrary: p) auto

text \<open>What unlinking an entry and linking one at the front do to the two functions.\<close>

definition cut_next :: "eid \<Rightarrow> pptr \<Rightarrow> (pptr \<Rightarrow> eid option) \<Rightarrow> pptr \<Rightarrow> eid option" where
  "cut_next e p r = r(p := r (NextOf e))"

definition cut_this :: "eid \<Rightarrow> pptr \<Rightarrow> (pptr \<Rightarrow> eid option) \<Rightarrow> (eid \<Rightarrow> pptr option) \<Rightarrow> eid \<Rightarrow> pptr option" where
  "cut_this e p r t = (case r (NextOf e) of None \<Rightarrow> t | Some n \<Rightarrow> t(n := Some p))"

lemma chain_mem_next: "chain r t p es \<Longrightarrow> e \<in> set es \<Longrightarrow> r (NextOf e) = Some n \<Longrightarrow> n \<in> set es"
proof (induction es arbitrary: p)
  case (Cons a es)
  then show ?case by (cases es) auto
qed simp

lemma chain_mem_this: "chain r t p es \<Longrightarrow> e \<in> set es \<Longrightarrow> \<exists>q \<in> insert p (NextOf ` set es). t e = Some q"
  by (induction es arbitrary: p) auto

lemma chain_this_neq:
  "chain r t p es \<Longrightarrow> distinct es \<Longrightarrow> e \<in> set es \<Longrightarrow> p \<notin> NextOf ` set es \<Longrightarrow> t e \<noteq> Some (NextOf e)"
proof (induction es arbitrary: p)
  case (Cons a es)
  show ?case
  proof (cases "a = e")
    case False
    then show ?thesis using Cons.IH [of "NextOf a"] Cons.prems by auto
  qed (use Cons.prems in auto)
qed simp

lemma chain_cut:
  assumes "chain r t p es" and "distinct es" and "e \<in> set es" and "p \<notin> NextOf ` set es" and "t e = Some q"
  shows "chain (cut_next e q r) (cut_this e q r t) p (remove1 e es)"
  using assms
proof (induction es arbitrary: p)
  case (Cons a es)
  show ?case
  proof (cases "a = e")
    case True
    then have q: "q = p" "chain r t (NextOf e) es" "e \<notin> set es" "p \<notin> NextOf ` set es" using Cons.prems by auto
    show ?thesis
    proof (cases es)
      case Nil
      then show ?thesis using True q by (simp add: cut_next_def)
    next
      case (Cons n ns)
      then have n: "r (NextOf e) = Some n" "chain r t (NextOf n) ns" "n \<notin> set ns" "p \<notin> NextOf ` set ns" "p \<noteq> NextOf n"
        using q \<open>distinct (a # es)\<close> by auto
      have "chain (cut_next e q r) (cut_this e q r t) (NextOf n) ns = chain r t (NextOf n) ns"
        by (rule chain_cong) (use n q(1) in \<open>auto simp: cut_next_def cut_this_def\<close>)
      moreover have "cut_next e q r p = Some n" "cut_this e q r t n = Some p" using n(1) q(1) by (simp_all add: cut_next_def cut_this_def)
      ultimately show ?thesis using True n(2) by (simp add: Cons)
    qed
  next
    case False
    then have c: "chain r t (NextOf a) es" "distinct es" "e \<in> set es" "a \<notin> set es" using Cons.prems by auto
    have IH: "chain (cut_next e q r) (cut_this e q r t) (NextOf a) (remove1 e es)"
      using Cons.IH [OF c(1-3)] c(4) Cons.prems(5) by auto
    have "q \<in> insert (NextOf a) (NextOf ` set es)" using chain_mem_this [OF c(1,3)] Cons.prems(5) by auto
    then have "p \<noteq> q" using Cons.prems(4) by auto
    moreover have "cut_this e q r t a = t a"
      using chain_mem_next [OF c(1,3)] c(4) by (auto simp: cut_this_def split: option.splits)
    moreover have "cut_next e q r p = r p" using calculation(1) by (simp add: cut_next_def)
    ultimately show ?thesis using IH False Cons.prems(1) by simp
  qed
qed simp

lemma chain_cut_other:
  assumes "chain r t p es" and "chain r t p' es'" and "e \<in> set es" and "t e = Some q"
    and "set es \<inter> set es' = {}" and "p \<noteq> p'" and "p \<notin> NextOf ` set es'" and "p' \<notin> NextOf ` set es"
  shows "chain (cut_next e q r) (cut_this e q r t) p' es'"
proof -
  have q: "q \<in> insert p (NextOf ` set es)" using chain_mem_this [OF assms(1,3)] assms(4) by auto
  have n: "n \<notin> set es'" if "r (NextOf e) = Some n" for n
    using chain_mem_next [OF assms(1,3) that] assms(5) by auto
  have "chain (cut_next e q r) (cut_this e q r t) p' es' = chain r t p' es'"
    by (rule chain_cong) (use q n assms(5-8) in \<open>auto simp: cut_next_def cut_this_def split: option.splits\<close>)
  then show ?thesis using assms(2) by simp
qed

lemma chain_push:
  assumes "chain r t p es" and "e \<notin> set es" and "p \<notin> NextOf ` set (e # es)" and "distinct es"
    and "r' = r(NextOf e := r p, p := Some e)"
    and "t' = (case r p of None \<Rightarrow> t(e := Some p) | Some n \<Rightarrow> t(e := Some p, n := Some (NextOf e)))"
  shows "chain r' t' p (e # es)"
proof (cases es)
  case Nil
  then show ?thesis using assms by auto
next
  case (Cons n ns)
  then have n: "r p = Some n" "chain r t (NextOf n) ns" "n \<notin> set ns" using assms(1,4) by auto
  have "chain r' t' (NextOf n) ns = chain r t (NextOf n) ns"
    by (rule chain_cong) (use assms(2,3,5,6) n Cons in auto)
  then show ?thesis using assms(2,3,5,6) n Cons by auto
qed

lemma chain_push_other:
  assumes "chain r t p es" and "chain r t p' es'" and "e \<notin> set es'" and "set es \<inter> set es' = {}" and "p \<noteq> p'"
    and "p \<notin> NextOf ` set es'" and "p' \<noteq> NextOf e"
    and "r' = r(NextOf e := r p, p := Some e)"
    and "t' = (case r p of None \<Rightarrow> t(e := Some p) | Some n \<Rightarrow> t(e := Some p, n := Some (NextOf e)))"
  shows "chain r' t' p' es'"
proof -
  have n: "n \<notin> set es'" if "r p = Some n" for n using assms(1,4) that by (cases es) auto
  have "chain r' t' p' es' = chain r t p' es'"
    by (rule chain_cong) (use n assms(3,5-9) in \<open>auto split: option.splits\<close>)
  then show ?thesis using assms(2) by simp
qed

section \<open>The pointer structure of a cache\<close>

definition rd :: "('k, 'd) cache \<Rightarrow> pptr \<Rightarrow> eid option" where
  "rd c p = (case p of
      Bucket b \<Rightarrow> if b < length (table c) then table c ! b else None
    | NextOf e \<Rightarrow> (case ent c e of None \<Rightarrow> None | Some x \<Rightarrow> ce_next x))"

definition pt :: "('k, 'd) cache \<Rightarrow> eid \<Rightarrow> pptr option" where
  "pt c e = (case ent c e of None \<Rightarrow> None | Some x \<Rightarrow> ce_pthis x)"

text \<open>\<open>bs\<close> are the chains of the buckets and \<open>us\<close> the LRU list, least recently used entry first.\<close>

definition rep :: "('k, 'd) cache \<Rightarrow> eid list list \<Rightarrow> eid list \<Rightarrow> bool" where
  "rep c bs us \<longleftrightarrow> length bs = length (table c) \<and> (\<forall>b < length bs. chain (rd c) (pt c) (Bucket b) (bs ! b)) \<and>
     distinct (concat bs) \<and> (\<forall>e \<in> set (concat bs). ent c e \<noteq> None) \<and> (\<forall>e. e \<notin> set (concat bs) \<longrightarrow> pt c e = None) \<and>
     is_clist (lru c) LruList (map LruLink us) \<and> set us \<subseteq> set (concat bs)"

text \<open>The fields of an entry that are not pointers of the table.\<close>

definition core :: "('k, 'd) centry \<Rightarrow> ('k, 'd) centry" where
  "core x = x\<lparr>ce_next := None, ce_pthis := None\<rparr>"

definition cores :: "('k, 'd) cache \<Rightarrow> eid \<Rightarrow> ('k, 'd) centry option" where
  "cores c e = map_option core (ent c e)"

lemma repD:
  assumes "rep c bs us"
  shows "length bs = length (table c)" "b < length bs \<Longrightarrow> chain (rd c) (pt c) (Bucket b) (bs ! b)"
    "distinct (concat bs)" "e \<in> set (concat bs) \<Longrightarrow> \<exists>x. ent c e = Some x" "e \<notin> set (concat bs) \<Longrightarrow> pt c e = None"
    "is_clist (lru c) LruList (map LruLink us)" "set us \<subseteq> set (concat bs)"
  using assms unfolding rep_def by blast+

lemma distinct_concat_nth:
  "distinct (concat bs) \<Longrightarrow> b < length bs \<Longrightarrow> b' < length bs \<Longrightarrow> b \<noteq> b' \<Longrightarrow> set (bs ! b) \<inter> set (bs ! b') = {}"
proof (induction bs arbitrary: b b')
  case (Cons x xs)
  have "set x \<inter> set (xs ! j) = {}" if "j < length xs" for j
    using Cons.prems(1) nth_mem [OF that] by (auto simp del: nth_mem)
  then show ?case using Cons by (cases b; cases b') auto
qed simp

lemma concat_remove1: "distinct (concat bs) \<Longrightarrow> concat (map (remove1 e) bs) = remove1 e (concat bs)"
proof (induction bs)
  case (Cons x xs)
  then have d: "distinct (concat xs)" "set x \<inter> set (concat xs) = {}" by auto
  show ?case
  proof (cases "e \<in> set x")
    case True
    then have "e \<notin> set y" if "y \<in> set xs" for y using d(2) that by auto
    then have "map (remove1 e) xs = xs" by (auto intro: map_idI remove1_idem)
    then show ?thesis using True by (simp add: remove1_append)
  next
    case False
    then show ?thesis using Cons.IH [OF d(1)] by (simp add: remove1_append remove1_idem)
  qed
qed simp

lemma nth_concat_mem: "b < length bs \<Longrightarrow> e \<in> set (bs ! b) \<Longrightarrow> e \<in> set (concat bs)"
  by (auto simp: in_set_conv_nth) (metis nth_mem in_set_conv_nth)

lemma write_pp_ok:
  assumes "case p of Bucket b \<Rightarrow> b < length (table c) | NextOf e \<Rightarrow> ent c e \<noteq> None"
  obtains c' where "write_pp p v c = Some c'" and "rd c' = (rd c)(p := v)" and "pt c' = pt c" and "cores c' = cores c"
    and "c' = c\<lparr>ent := ent c', table := table c'\<rparr>" and "length (table c') = length (table c)"
    and "\<And>e. ent c' e = None \<longleftrightarrow> ent c e = None"
proof (cases p)
  case (Bucket b)
  show thesis
    by (rule that [of "c\<lparr>table := (table c)[b := v]\<rparr>"])
      (use assms Bucket in \<open>auto simp: write_pp_def rd_def pt_def cores_def fun_eq_iff nth_list_update split: pptr.splits\<close>)
next
  case (NextOf e)
  then obtain x where x: "ent c e = Some x" using assms by auto
  show thesis
    by (rule that [of "c\<lparr>ent := (ent c)(e \<mapsto> x\<lparr>ce_next := v\<rparr>)\<rparr>"])
      (use x NextOf in \<open>auto simp: write_pp_def upd_ent_def rd_def pt_def cores_def core_def fun_eq_iff split: pptr.splits option.splits\<close>)
qed

lemma set_this_ok:
  assumes "ent c e \<noteq> None"
  obtains c' where "upd_ent e (\<lambda>y. y\<lparr>ce_pthis := v\<rparr>) c = Some c'" and "rd c' = rd c" and "pt c' = (pt c)(e := v)" and "cores c' = cores c"
    and "c' = c\<lparr>ent := ent c', table := table c'\<rparr>" and "table c' = table c"
    and "\<And>e. ent c' e = None \<longleftrightarrow> ent c e = None"
proof -
  obtain x where x: "ent c e = Some x" using assms by auto
  show thesis
    by (rule that [of "c\<lparr>ent := (ent c)(e \<mapsto> x\<lparr>ce_pthis := v\<rparr>)\<rparr>"])
      (use x in \<open>auto simp: upd_ent_def rd_def pt_def cores_def core_def fun_eq_iff split: pptr.splits option.splits\<close>)
qed

lemma pthis_ok:
  assumes r: "rep c bs us" and e: "e \<in> set (concat bs)"
  obtains b p where "b < length bs" "e \<in> set (bs ! b)" "pt c e = Some p" "p \<in> insert (Bucket b) (NextOf ` set (bs ! b))"
    "case p of Bucket b \<Rightarrow> b < length (table c) | NextOf e \<Rightarrow> ent c e \<noteq> None"
proof -
  obtain b where b: "b < length bs" "e \<in> set (bs ! b)" using e by (metis concat_eq_concat_iff in_set_conv_nth set_concat UN_E)
  obtain p where p: "pt c e = Some p" "p \<in> insert (Bucket b) (NextOf ` set (bs ! b))"
    using chain_mem_this [OF repD(2) [OF r b(1)] b(2)] by blast
  have "case p of Bucket b \<Rightarrow> b < length (table c) | NextOf e \<Rightarrow> ent c e \<noteq> None"
    using p(2) b(1) repD(1) [OF r] repD(4) [OF r] nth_concat_mem [OF b(1)] by (auto split: pptr.splits)
  then show thesis using that b p by blast
qed

lemma unlink_ok:
  assumes r: "rep c bs us" and e: "e \<in> set (concat bs)"
  obtains p c' where "pt c e = Some p" "unlink_entry e p c = Some c'"
    and "\<forall>b < length bs. chain (rd c') (pt c') (Bucket b) (map (remove1 e) bs ! b)"
    and "cores c' = cores c" and "c' = c\<lparr>ent := ent c', table := table c'\<rparr>" and "length (table c') = length (table c)"
    and "\<And>a. a \<notin> set (concat bs) \<Longrightarrow> pt c' a = pt c a" and "\<And>e. ent c' e = None \<longleftrightarrow> ent c e = None"
proof -
  obtain b p where b: "b < length bs" "e \<in> set (bs ! b)" and p: "pt c e = Some p" "p \<in> insert (Bucket b) (NextOf ` set (bs ! b))"
    "case p of Bucket b \<Rightarrow> b < length (table c) | NextOf e \<Rightarrow> ent c e \<noteq> None"
    by (rule pthis_ok [OF r e])
  note ch = repD(2) [OF r b(1)]
  obtain x where x: "ent c e = Some x" using repD(4) [OF r e] by blast
  have nx: "rd c (NextOf e) = ce_next x" using x by (simp add: rd_def)
  obtain c1 where c1: "write_pp p (ce_next x) c = Some c1" "rd c1 = (rd c)(p := ce_next x)" "pt c1 = pt c" "cores c1 = cores c"
    "c1 = c\<lparr>ent := ent c1, table := table c1\<rparr>" "length (table c1) = length (table c)" "\<And>e. ent c1 e = None \<longleftrightarrow> ent c e = None"
    by (rule write_pp_ok [OF p(3)]) blast
  obtain x1 where x1: "ent c1 e = Some x1" using c1(7) x by (metis option.exhaust)
  have d: "distinct (bs ! b)" using repD(3) [OF r] b(1) by (simp add: distinct_concat_iff)
  have pe: "p \<noteq> NextOf e" using chain_this_neq [OF ch d b(2)] p(1) by auto
  have x1f: "ce_next x1 = ce_next x" "ce_pthis x1 = Some p"
    using fun_cong [OF c1(2), of "NextOf e"] fun_cong [OF c1(3), of e] pe x x1 p(1) by (simp_all add: rd_def pt_def)
  obtain c' where c': "unlink_entry e p c = Some c'" "rd c' = cut_next e p (rd c)" "pt c' = cut_this e p (rd c) (pt c)"
    "cores c' = cores c" "c' = c\<lparr>ent := ent c', table := table c'\<rparr>" "length (table c') = length (table c)"
    "\<And>e. ent c' e = None \<longleftrightarrow> ent c e = None"
  proof (cases "ce_next x")
    case None
    then have "unlink_entry e p c = Some c1" using c1(1) x x1 x1f by (simp add: unlink_entry_def)
    then show thesis by (rule that [OF _ _ _ c1(4-7)]) (use None nx c1(2,3) in \<open>simp_all add: cut_next_def cut_this_def\<close>)
  next
    case (Some n)
    have "n \<in> set (concat bs)" by (rule nth_concat_mem [OF b(1) chain_mem_next [OF ch b(2)]]) (simp add: nx Some)
    then have "ent c1 n \<noteq> None" using repD(4) [OF r, of n] c1(7) [of n] by auto
    then obtain c2 where c2: "upd_ent n (\<lambda>y. y\<lparr>ce_pthis := Some p\<rparr>) c1 = Some c2" "rd c2 = rd c1" "pt c2 = (pt c1)(n := Some p)" "cores c2 = cores c1"
      "c2 = c1\<lparr>ent := ent c2, table := table c2\<rparr>" "table c2 = table c1" "\<And>e. ent c2 e = None \<longleftrightarrow> ent c1 e = None"
      by (rule set_this_ok) blast
    have e1: "c2 = c\<lparr>ent := ent c2, table := table c2\<rparr>" by (subst c2(5), subst c1(5)) simp
    have e2: "unlink_entry e p c = Some c2" using c1(1) c2(1) x x1 x1f Some by (simp add: unlink_entry_def)
    show thesis
      by (rule that [OF e2 _ _ _ e1]) (use Some nx c1(2-4,6,7) c2(2-4,6,7) in \<open>simp_all add: cut_next_def cut_this_def\<close>)
  qed
  have "chain (rd c') (pt c') (Bucket b') (map (remove1 e) bs ! b')" if b': "b' < length bs" for b'
  proof (cases "b' = b")
    case True
    have "chain (rd c') (pt c') (Bucket b) (remove1 e (bs ! b))"
      unfolding c'(2,3) by (rule chain_cut [OF ch d b(2) _ p(1)]) auto
    then show ?thesis using True b' by simp
  next
    case False
    have dis: "set (bs ! b) \<inter> set (bs ! b') = {}" using distinct_concat_nth [OF repD(3) [OF r] b(1) b'] False by simp
    have "chain (rd c') (pt c') (Bucket b') (bs ! b')"
      unfolding c'(2,3) by (rule chain_cut_other [OF ch repD(2) [OF r b'] b(2) p(1) dis]) (use False in auto)
    moreover have "e \<notin> set (bs ! b')" using dis b(2) by auto
    ultimately show ?thesis using b' by (simp add: remove1_idem)
  qed
  moreover have "pt c' a = pt c a" if "a \<notin> set (concat bs)" for a
    using that chain_mem_next [OF ch b(2)] nth_concat_mem [OF b(1)] by (auto simp: c'(3) cut_this_def split: option.splits)
  ultimately show thesis using that p(1) c' by blast
qed

lemma rep_cong:
  assumes "rd c' = rd c" and "pt c' = pt c" and "length (table c') = length (table c)" and "lru c' = lru c"
    and "\<And>e. ent c' e = None \<longleftrightarrow> ent c e = None"
  shows "rep c' bs us \<longleftrightarrow> rep c bs us"
  using assms by (simp add: rep_def)

lemma rep_upd:
  assumes "ent c e = Some x" and "ce_next y = ce_next x" and "ce_pthis y = ce_pthis x"
  shows "rep (c\<lparr>ent := (ent c)(e \<mapsto> y)\<rparr>) bs us \<longleftrightarrow> rep c bs us"
  by (rule rep_cong) (use assms in \<open>auto simp: rd_def pt_def fun_eq_iff split: pptr.splits option.splits\<close>)

lemma rep_scalars:
  assumes "ent c' = ent c" and "table c' = table c" and "lru c' = lru c"
  shows "rep c' bs us \<longleftrightarrow> rep c bs us"
  by (rule rep_cong) (use assms in \<open>auto simp: rd_def pt_def fun_eq_iff split: pptr.splits\<close>)

definition logged :: "('k, 'd) centry \<Rightarrow> ('k, 'd) cache \<Rightarrow> ('k \<times> 'd) list" where
  "logged x c = (if cleanup_fn c then [(ce_key x, ce_data x)] else [])"

lemma delete_busy:
  "ent c e = Some x \<Longrightarrow> ce_ref x > 0 \<Longrightarrow>
    stx_cache_entry_delete c e = Some (c\<lparr>ent := (ent c)(e \<mapsto> x\<lparr>ce_pending := True\<rparr>)\<rparr>)"
  by (simp add: stx_cache_entry_delete_def upd_ent_def)

lemma delete_loose:
  "ent c e = Some x \<Longrightarrow> ce_ref x = 0 \<Longrightarrow> ce_pthis x = None \<Longrightarrow>
    stx_cache_entry_delete c e = Some (c\<lparr>ent := (ent c)(e := None), cleanups := cleanups c @ logged x c\<rparr>)"
  by (simp add: stx_cache_entry_delete_def upd_ent_def logged_def)

text \<open>The fields of a cache after an entry with the core \<open>x\<close> was deleted.\<close>

definition deleted :: "('k, 'd) centry \<Rightarrow> ('k, 'd) cache \<Rightarrow> ('k, 'd) cache \<Rightarrow> ('k, 'd) cache" where
  "deleted x c c' = c\<lparr>ent := ent c', table := table c', lru := lru c', cur_size := cur_size c - 1,
     cur_weight := cur_weight c - ce_weight x, deletes := deletes c + 1, cleanups := cleanups c @ logged x c\<rparr>"

lemma delete_idle:
  assumes r: "rep c bs us" and e: "e \<in> set us" and x: "ent c e = Some x" "ce_ref x = 0"
  obtains c' where "stx_cache_entry_delete c e = Some c'" and "rep c' (map (remove1 e) bs) (remove1 e us)"
    and "c' = deleted x c c'" and "cores c' = (cores c)(e := None)"
proof -
  let ?x = "x\<lparr>ce_pending := True\<rparr>"
  define c0 where "c0 = c\<lparr>ent := (ent c)(e \<mapsto> ?x)\<rparr>"
  have r0: "rep c0 bs us" unfolding c0_def using r by (simp add: rep_upd [OF x(1)])
  have eb: "e \<in> set (concat bs)" using e repD(7) [OF r] by blast
  obtain p c1 where c1: "pt c0 e = Some p" "unlink_entry e p c0 = Some c1"
      "\<forall>b < length bs. chain (rd c1) (pt c1) (Bucket b) (map (remove1 e) bs ! b)"
      "cores c1 = cores c0" "c1 = c0\<lparr>ent := ent c1, table := table c1\<rparr>" "length (table c1) = length (table c0)"
      "\<And>a. a \<notin> set (concat bs) \<Longrightarrow> pt c1 a = pt c0 a" "\<And>e. ent c1 e = None \<longleftrightarrow> ent c0 e = None"
    by (rule unlink_ok [OF r0 eb]) blast
  have "c1 = c\<lparr>ent := ent c1, table := table c1\<rparr>" by (subst c1(5)) (simp add: c0_def)
  then obtain m t where mt: "c1 = c\<lparr>ent := m, table := t\<rparr>" by blast
  then have l1: "lru c1 = lru c" "cleanup_fn c1 = cleanup_fn c" by simp_all
  have rm: "STX_CLIST_REMOVE_LINK (LruLink e) (lru c) = Some (ST_REMOVE_LINK (LruLink e) (lru c))"
    by (rule stx_remove_link [OF repD(6) [OF r]]) (use e in simp)
  have x0: "ce_pthis x = Some p" using c1(1) by (simp add: c0_def pt_def)
  define c' where "c' = c1\<lparr>cur_size := cur_size c1 - 1, cur_weight := cur_weight c1 - ce_weight x, deletes := deletes c1 + 1,
      lru := ST_REMOVE_LINK (LruLink e) (lru c), cleanups := cleanups c1 @ logged x c1, ent := (ent c1)(e := None)\<rparr>"
  have del: "stx_cache_entry_delete c e = Some c'"
    using x x0 c1(2) rm l1 by (simp add: stx_cache_entry_delete_def upd_ent_def c0_def c'_def logged_def Let_def)
  have "c' = deleted x c c'" unfolding c'_def deleted_def mt by (simp add: logged_def)
  moreover have "cores c' = (cores c)(e := None)"
    using fun_cong [OF c1(4)] by (auto simp: c'_def c0_def cores_def fun_eq_iff)
  moreover have "rep c' (map (remove1 e) bs) (remove1 e us)"
  proof -
    have conc: "concat (map (remove1 e) bs) = remove1 e (concat bs)" by (rule concat_remove1 [OF repD(3) [OF r]])
    then have mem: "set (concat (map (remove1 e) bs)) = set (concat bs) - {e}" using repD(3) [OF r] by (simp add: set_remove1_eq)
    have rde: "rd c' q = rd c1 q" if "q \<noteq> NextOf e" for q using that by (auto simp: rd_def c'_def split: pptr.splits)
    have pte: "pt c' a = pt c1 a" if "a \<noteq> e" for a using that by (auto simp: pt_def c'_def)
    have "chain (rd c') (pt c') (Bucket b) (map (remove1 e) bs ! b)" if b: "b < length bs" for b
    proof -
      have "e \<notin> set (map (remove1 e) bs ! b)" using nth_concat_mem [of b "map (remove1 e) bs" e] mem b by auto
      then have "chain (rd c') (pt c') (Bucket b) (map (remove1 e) bs ! b) = chain (rd c1) (pt c1) (Bucket b) (map (remove1 e) bs ! b)"
        by (intro chain_cong conjI rde pte) auto
      then show ?thesis using c1(3) b by simp
    qed
    moreover have "is_clist (lru c') LruList (map LruLink (remove1 e us))"
      using remove_link_clist [OF repD(6) [OF r], of "LruLink e"] e
      by (simp add: c'_def remove1_map_inj inj_def)
    moreover have "length bs = length (table c')" using repD(1) [OF r0] c1(6) by (simp add: c'_def)
    moreover have "ent c' a \<noteq> None" if "a \<in> set (concat (map (remove1 e) bs))" for a
    proof -
      have a: "a \<in> set (concat bs)" "a \<noteq> e" using that unfolding mem by auto
      then show ?thesis using repD(4) [OF r0 a(1)] c1(8) [of a] by (simp add: c'_def)
    qed
    moreover have "pt c' a = None" if "a \<notin> set (concat (map (remove1 e) bs))" for a
    proof (cases "a = e")
      case False
      then have "a \<notin> set (concat bs)" using that unfolding mem by simp
      then show ?thesis using pte [OF False] c1(7) [of a] repD(5) [OF r0, of a] by simp
    qed (simp add: c'_def pt_def)
    moreover have "set (remove1 e us) \<subseteq> set (concat (map (remove1 e) bs))"
    proof -
      have "distinct us" using repD(6) [OF r] by (simp add: is_clist_def distinct_map)
      then show ?thesis using mem repD(7) [OF r] by (auto simp: set_remove1_eq)
    qed
    moreover have "distinct (concat (map (remove1 e) bs))" using repD(3) [OF r] conc by simp
    ultimately show ?thesis unfolding rep_def by simp
  qed
  ultimately show thesis using that del by blast
qed

lemma concat_push:
  assumes "b < length bs"
  obtains ps qs where "concat bs = ps @ qs" and "concat (bs[b := e # bs ! b]) = ps @ e # qs"
proof -
  have "bs = take b bs @ bs ! b # drop (Suc b) bs" using assms by (rule id_take_nth_drop)
  then have "concat bs = concat (take b bs) @ bs ! b @ concat (drop (Suc b) bs)" by (metis concat.simps(2) concat_append)
  then show thesis using that assms by (simp add: upd_conv_take_nth_drop)
qed

lemma link_ok:
  assumes r: "rep c bs us" and e: "e \<notin> set (concat bs)" "ent c e \<noteq> None" and b: "b < length bs"
  obtains c' where "link_entry e b c = Some c'" and "rep c' (bs[b := e # bs ! b]) us" and "cores c' = cores c"
    and "c' = c\<lparr>ent := ent c', table := table c'\<rparr>"
proof -
  have lt: "b < length (table c)" using b repD(1) [OF r] by simp
  have first: "table c ! b = rd c (Bucket b)" using lt by (simp add: rd_def)
  have up: "upd_ent e (\<lambda>x. x\<lparr>ce_next := v\<rparr>) c = write_pp (NextOf e) v c" for v by (simp add: write_pp_def)
  obtain c1 where c1: "write_pp (NextOf e) (table c ! b) c = Some c1" "rd c1 = (rd c)(NextOf e := table c ! b)" "pt c1 = pt c" "cores c1 = cores c"
      "c1 = c\<lparr>ent := ent c1, table := table c1\<rparr>" "length (table c1) = length (table c)" "\<And>e. ent c1 e = None \<longleftrightarrow> ent c e = None"
    by (rule write_pp_ok [of c "NextOf e" "table c ! b"]) (use e(2) in auto)
  obtain c2 where c2: "write_pp (Bucket b) (Some e) c1 = Some c2" "rd c2 = (rd c1)(Bucket b := Some e)" "pt c2 = pt c1" "cores c2 = cores c1"
      "c2 = c1\<lparr>ent := ent c2, table := table c2\<rparr>" "length (table c2) = length (table c1)" "\<And>e. ent c2 e = None \<longleftrightarrow> ent c1 e = None"
    by (rule write_pp_ok [of c1 "Bucket b" "Some e"]) (use lt c1(6) in auto)
  obtain c3 where c3: "upd_ent e (\<lambda>x. x\<lparr>ce_pthis := Some (Bucket b)\<rparr>) c2 = Some c3" "rd c3 = rd c2" "pt c3 = (pt c2)(e := Some (Bucket b))"
      "cores c3 = cores c2" "c3 = c2\<lparr>ent := ent c3, table := table c3\<rparr>" "table c3 = table c2" "\<And>e. ent c3 e = None \<longleftrightarrow> ent c2 e = None"
    by (rule set_this_ok [of c2 e "Some (Bucket b)"]) (use e(2) c1(7) c2(7) in auto)
  have dom3: "ent c3 a = None \<longleftrightarrow> ent c a = None" for a using c1(7) c2(7) c3(7) by simp
  have eq3: "c3 = c\<lparr>ent := ent c3, table := table c3\<rparr>" by (subst c3(5), subst c2(5), subst c1(5)) simp
  have rd3: "rd c3 = (rd c)(NextOf e := rd c (Bucket b), Bucket b := Some e)" by (simp add: c3(2) c2(2) c1(2) first)
  note steps = c1(1) c2(1) c3(1) first up
  obtain c' where c': "link_entry e b c = Some c'" "rd c' = rd c3" "cores c' = cores c" "c' = c\<lparr>ent := ent c', table := table c'\<rparr>"
      "table c' = table c3" "\<And>a. ent c' a = None \<longleftrightarrow> ent c a = None"
      "pt c' = (case rd c (Bucket b) of None \<Rightarrow> (pt c)(e := Some (Bucket b)) | Some n \<Rightarrow> (pt c)(e := Some (Bucket b), n := Some (NextOf e)))"
  proof (cases "rd c (Bucket b)")
    case None
    have "link_entry e b c = Some c3" using steps None by (simp add: link_entry_def Let_def)
    then show thesis by (rule that [OF _ _ _ eq3]) (use None dom3 c1(3,4) c2(3,4) c3(3,4) in simp_all)
  next
    case (Some n)
    have "n \<in> set (bs ! b)" using repD(2) [OF r b] Some by (cases "bs ! b") auto
    then have "ent c3 n \<noteq> None" using repD(4) [OF r nth_concat_mem [OF b]] dom3 [of n] by auto
    then obtain c4 where c4: "upd_ent n (\<lambda>x. x\<lparr>ce_pthis := Some (NextOf e)\<rparr>) c3 = Some c4" "rd c4 = rd c3" "pt c4 = (pt c3)(n := Some (NextOf e))"
        "cores c4 = cores c3" "c4 = c3\<lparr>ent := ent c4, table := table c4\<rparr>" "table c4 = table c3" "\<And>e. ent c4 e = None \<longleftrightarrow> ent c3 e = None"
      by (rule set_this_ok) blast
    have eq4: "c4 = c\<lparr>ent := ent c4, table := table c4\<rparr>" by (subst c4(5), subst eq3) simp
    have "link_entry e b c = Some c4" using steps Some c4(1) by (simp add: link_entry_def Let_def)
    then show thesis
      by (rule that [OF _ _ _ eq4]) (use Some dom3 c1(3,4) c2(3,4) c3(3,4) c4(2-4,6,7) in simp_all)
  qed
  let ?bs = "bs[b := e # bs ! b]"
  obtain ps qs where pq: "concat bs = ps @ qs" "concat ?bs = ps @ e # qs" by (rule concat_push [OF b])
  have mem: "set (concat ?bs) = insert e (set (concat bs))" unfolding pq by auto
  have d: "distinct (bs ! b)" using repD(3) [OF r] b by (simp add: distinct_concat_iff)
  have "chain (rd c') (pt c') (Bucket b') (?bs ! b')" if b': "b' < length bs" for b'
  proof (cases "b' = b")
    case True
    have "chain (rd c') (pt c') (Bucket b) (e # bs ! b)"
      by (rule chain_push [OF repD(2) [OF r b] _ _ d c'(2) [unfolded rd3] c'(7)]) (use e(1) nth_concat_mem [OF b] in auto)
    then show ?thesis using True b by simp
  next
    case False
    have dis: "set (bs ! b) \<inter> set (bs ! b') = {}" using distinct_concat_nth [OF repD(3) [OF r] b b'] False by simp
    have "chain (rd c') (pt c') (Bucket b') (bs ! b')"
      by (rule chain_push_other [OF repD(2) [OF r b] repD(2) [OF r b'] _ dis _ _ _ c'(2) [unfolded rd3] c'(7)])
        (use False e(1) nth_concat_mem [OF b'] in auto)
    then show ?thesis using False by simp
  qed
  moreover have "pt c' a = None" if "a \<notin> set (concat ?bs)" for a
  proof -
    have a: "a \<noteq> e" "a \<notin> set (concat bs)" using that unfolding mem by auto
    have "n \<noteq> a" if "rd c (Bucket b) = Some n" for n
      using repD(2) [OF r b] that nth_concat_mem [OF b, of n] a(2) by (cases "bs ! b") auto
    then show ?thesis using a repD(5) [OF r a(2)] by (auto simp: c'(7) split: option.splits)
  qed
  moreover have "ent c' a \<noteq> None" if "a \<in> set (concat ?bs)" for a
    using that repD(4) [OF r, of a] e(2) c'(6) [of a] unfolding mem by auto
  moreover have "lru c' = lru c" by (subst c'(4)) simp
  moreover have "length bs = length (table c')" using repD(1) [OF r] c1(6) c2(6) c3(6) c'(5) by simp
  moreover have "distinct (concat ?bs)" using repD(3) [OF r] e(1) unfolding pq by auto
  moreover have "set us \<subseteq> set (concat ?bs)" using repD(7) [OF r] unfolding mem by blast
  ultimately have "rep c' ?bs us" using repD(6) [OF r] unfolding rep_def by simp
  then show thesis using that c'(1,3,4) by blast
qed

lemma chain_find_ok:
  "chain (rd c) (pt c) p es \<Longrightarrow> \<forall>e \<in> set es. ent c e \<noteq> None \<Longrightarrow>
    chain_find c key (rd c p) = Some (List.find (live_match c key) es)"
proof (induction es arbitrary: p)
  case Nil
  then show ?case by (subst chain_find.simps) simp
next
  case (Cons e es)
  then obtain x where x: "ent c e = Some x" by auto
  then have "ce_next x = rd c (NextOf e)" by (simp add: rd_def)
  then show ?case using Cons.IH [of "NextOf e"] Cons.prems x by (subst chain_find.simps) auto
qed

lemma find_entry_ok:
  assumes "rep c bs us" and "hash_size c \<noteq> 0" and "bucket_of c key < length bs"
  shows "find_entry c key = Some (List.find (live_match c key) (bs ! bucket_of c key))"
proof -
  have "rd c (Bucket (bucket_of c key)) = table c ! bucket_of c key" using assms(3) repD(1) [OF assms(1)] by (simp add: rd_def)
  moreover have "\<forall>e \<in> set (bs ! bucket_of c key). ent c e \<noteq> None"
    using nth_concat_mem [OF assms(3)] repD(4) [OF assms(1)] by fastforce
  ultimately show ?thesis
    using chain_find_ok [OF repD(2) [OF assms(1,3)]] assms(2) by (simp add: find_entry_def)
qed

end
