(* ===== verification/Lrucache_Inv.thy ===== *)
theory Lrucache_Inv
  imports Lrucache
begin

text \<open>
  The invariant of the cache of extensions/lrucache.c and what every operation does to it: the table and the LRU list
  describe the same entries, live keys are unique, the idle entries are exactly those on the LRU list, and the
  counters hold the number and the total weight of the entries, within the capacity.
\<close>

section \<open>Hash and comparison functions\<close>

text \<open>What the cache relies on of the functions of the application.\<close>

locale key_fns =
  fixes hash :: "'k \<Rightarrow> ulong"
    and cmp :: "'k \<Rightarrow> 'k \<Rightarrow> int"
  assumes cmp_refl: "cmp a a = 0"
    and cmp_sym: "cmp a b = 0 \<Longrightarrow> cmp b a = 0"
    and cmp_trans: "cmp a b = 0 \<Longrightarrow> cmp b c = 0 \<Longrightarrow> cmp a c = 0"
    and cmp_hash: "cmp a b = 0 \<Longrightarrow> hash a = hash b"
begin

lemma cmp_left: "cmp a b = 0 \<Longrightarrow> cmp a c = 0 \<longleftrightarrow> cmp b c = 0"
  using cmp_sym cmp_trans by blast

end

section \<open>The invariant\<close>

text \<open>\<open>set (concat bs)\<close> are the entries of the table; it stays folded in the proofs below.\<close>

declare set_concat [simp del]

definition cr :: "('k, 'd) cache \<Rightarrow> eid \<Rightarrow> ('k, 'd) centry" where
  "cr c e = the (cores c e)"

definition weights :: "('k, 'd) cache \<Rightarrow> eid list \<Rightarrow> nat" where
  "weights c es = (\<Sum>e\<leftarrow>es. unat (ce_weight (cr c e)))"

definition keys_ok :: "('k, 'd) cache \<Rightarrow> eid list list \<Rightarrow> bool" where
  "keys_ok c bs \<longleftrightarrow> hash_size c \<noteq> 0 \<and> length bs = unat (hash_size c) \<and>
     (\<forall>b < length bs. \<forall>e \<in> set (bs ! b). bucket_of c (ce_key (cr c e)) = b) \<and>
     (\<forall>e \<in> set (concat bs). \<forall>e' \<in> set (concat bs). e \<noteq> e' \<longrightarrow> \<not> ce_pending (cr c e) \<longrightarrow> \<not> ce_pending (cr c e') \<longrightarrow>
        key_cmp_fn c (ce_key (cr c e)) (ce_key (cr c e')) \<noteq> 0)"

definition refs_ok :: "('k, 'd) cache \<Rightarrow> eid list list \<Rightarrow> eid list \<Rightarrow> bool" where
  "refs_ok c bs us \<longleftrightarrow> (\<forall>e \<in> set (concat bs). e \<in> set us \<longleftrightarrow> ce_ref (cr c e) = 0) \<and> (\<forall>e \<in> set us. \<not> ce_pending (cr c e)) \<and>
     (\<forall>e x. e \<notin> set (concat bs) \<longrightarrow> cores c e = Some x \<longrightarrow> ce_ref x = 0 \<and> \<not> ce_pending x)"

definition tallies_ok :: "('k, 'd) cache \<Rightarrow> eid list list \<Rightarrow> bool" where
  "tallies_ok c bs \<longleftrightarrow> unat (cur_size c) = length (concat bs) \<and> unat (cur_weight c) = weights c (concat bs) \<and>
     cur_size c \<le> max_size c \<and> cur_weight c \<le> max_weight c"

definition cache_inv :: "('k, 'd) cache \<Rightarrow> eid list list \<Rightarrow> eid list \<Rightarrow> bool" where
  "cache_inv c bs us \<longleftrightarrow> rep c bs us \<and> keys_ok c bs \<and> refs_ok c bs us \<and> tallies_ok c bs"

lemma cache_invD:
  assumes "cache_inv c bs us"
  shows "rep c bs us" "keys_ok c bs" "refs_ok c bs us" "tallies_ok c bs"
  using assms by (auto simp: cache_inv_def)

lemma cores_ent: "cores c e = None \<longleftrightarrow> ent c e = None"
  by (simp add: cores_def)

lemma core_fields [simp]:
  "ce_key (core x) = ce_key x" "ce_data (core x) = ce_data x" "ce_weight (core x) = ce_weight x"
  "ce_ref (core x) = ce_ref x" "ce_pending (core x) = ce_pending x" "core (core x) = core x"
  by (simp_all add: core_def)

lemma cr_ent: "ent c e = Some x \<Longrightarrow> cr c e = core x"
  by (simp add: cr_def cores_def)

text \<open>The part of a cache that no operation changes.\<close>

definition config :: "('k, 'd) cache \<Rightarrow> size_t \<times> size_t \<times> size_t \<times> ('k \<Rightarrow> ulong) \<times> ('k \<Rightarrow> 'k \<Rightarrow> int) \<times> bool" where
  "config c = (max_size c, max_weight c, hash_size c, key_hash_fn c, key_cmp_fn c, cleanup_fn c)"

lemma config_bucket: "config c' = config c \<Longrightarrow> bucket_of c' = bucket_of c"
  by (auto simp: config_def bucket_of_def)

lemma weights_cong: "(\<And>e. e \<in> set es \<Longrightarrow> cr c' e = cr c e) \<Longrightarrow> weights c' es = weights c es"
  by (induction es) (auto simp: weights_def)

text \<open>How the parts of the invariant carry over to a state whose entries have changed.\<close>

lemma keys_ok_cong:
  assumes ok: "keys_ok c bs" and conf: "config c' = config c"
    and eq: "\<And>a. a \<in> set (concat bs) \<Longrightarrow> ce_key (cr c' a) = ce_key (cr c a) \<and> (\<not> ce_pending (cr c' a) \<longrightarrow> \<not> ce_pending (cr c a))"
  shows "keys_ok c' bs"
proof -
  have "bucket_of c' (ce_key (cr c' e)) = b" if "b < length bs" "e \<in> set (bs ! b)" for b e
    using ok that eq [OF nth_concat_mem [OF that]] config_bucket [OF conf] unfolding keys_ok_def by simp
  moreover have "key_cmp_fn c' (ce_key (cr c' e)) (ce_key (cr c' e')) \<noteq> 0" if "e \<in> set (concat bs)" "e' \<in> set (concat bs)"
      "e \<noteq> e'" "\<not> ce_pending (cr c' e)" "\<not> ce_pending (cr c' e')" for e e'
    using ok that eq [of e] eq [of e'] conf unfolding keys_ok_def config_def by simp
  moreover have "hash_size c' \<noteq> 0" "length bs = unat (hash_size c')" using ok conf by (auto simp: keys_ok_def config_def)
  ultimately show ?thesis by (simp add: keys_ok_def)
qed

lemma refs_ok_cong:
  assumes ok: "refs_ok c bs us" "set us \<subseteq> set (concat bs)"
    and eq: "\<And>a. a \<in> set (concat bs) \<Longrightarrow> (ce_ref (cr c' a) = 0 \<longleftrightarrow> ce_ref (cr c a) = 0) \<and> (a \<in> set us \<longrightarrow> ce_pending (cr c' a) = ce_pending (cr c a))"
    and out: "\<And>a x. a \<notin> set (concat bs) \<Longrightarrow> cores c' a = Some x \<Longrightarrow> ce_ref x = 0 \<and> \<not> ce_pending x"
  shows "refs_ok c' bs us"
  unfolding refs_ok_def
proof (intro conjI ballI allI impI)
  show "(a \<in> set us) = (ce_ref (cr c' a) = 0)" if "a \<in> set (concat bs)" for a
    using ok(1) eq [OF that] that unfolding refs_ok_def by simp
  show "\<not> ce_pending (cr c' a)" if "a \<in> set us" for a
    using ok eq [of a] that unfolding refs_ok_def by blast
qed (use out in auto)

lemma tallies_ok_cong:
  assumes "tallies_ok c bs" and "config c' = config c" and "cur_size c' = cur_size c" and "cur_weight c' = cur_weight c"
    and "\<And>a. a \<in> set (concat bs) \<Longrightarrow> ce_weight (cr c' a) = ce_weight (cr c a)"
  shows "tallies_ok c' bs"
proof -
  have "weights c' (concat bs) = weights c (concat bs)" unfolding weights_def by (intro arg_cong [of _ _ sum_list] map_cong) (use assms(5) in auto)
  then show ?thesis using assms(1-4) by (auto simp: tallies_ok_def config_def)
qed

section \<open>Deleting\<close>

text \<open>The table without some entries.\<close>

definition without :: "eid set \<Rightarrow> eid list list \<Rightarrow> eid list list" where
  "without X bs = map (filter (\<lambda>e. e \<notin> X)) bs"

lemma without_simps [simp]:
  "length (without X bs) = length bs" "without {} bs = bs" "without X (without Y bs) = without (Y \<union> X) bs"
  "b < length bs \<Longrightarrow> without X bs ! b = filter (\<lambda>e. e \<notin> X) (bs ! b)"
  "concat (without X bs) = filter (\<lambda>e. e \<notin> X) (concat bs)"
  by (simp_all add: without_def filter_concat conj_commute map_idI)

lemma remove1_without:
  assumes "distinct (concat bs)"
  shows "map (remove1 e) bs = without {e} bs"
proof -
  have "remove1 e xs = filter (\<lambda>a. a \<notin> {e}) xs" if "xs \<in> set bs" for xs
  proof -
    have "distinct xs" using assms that by (simp add: distinct_concat_iff)
    then show ?thesis by (simp add: distinct_remove1_removeAll removeAll_filter_not_eq) (metis)
  qed
  then show ?thesis by (simp add: without_def)
qed

lemma deleted_fields:
  assumes "c' = deleted x c c'"
  shows "config c' = config c" "cur_size c' = cur_size c - 1" "cur_weight c' = cur_weight c - ce_weight x" "deletes c' = deletes c + 1"
    "cleanups c' = cleanups c @ logged x c" "inserts c' = inserts c" "lookups c' = lookups c" "hits c' = hits c"
  by (subst assms, simp add: deleted_def config_def)+

text \<open>
  A released entry that waits to be deleted is on the LRU list for a moment, the only pending one; so the
  condition on pending entries excepts the deleted entry.
\<close>

definition deletable :: "eid \<Rightarrow> ('k, 'd) cache \<Rightarrow> eid list list \<Rightarrow> eid list \<Rightarrow> bool" where
  "deletable e c bs us \<longleftrightarrow> rep c bs us \<and> keys_ok c bs \<and> tallies_ok c bs \<and>
     (\<forall>e \<in> set (concat bs). e \<in> set us \<longleftrightarrow> ce_ref (cr c e) = 0) \<and> (\<forall>a \<in> set us. a \<noteq> e \<longrightarrow> \<not> ce_pending (cr c a)) \<and>
     (\<forall>e x. e \<notin> set (concat bs) \<longrightarrow> cores c e = Some x \<longrightarrow> ce_ref x = 0 \<and> \<not> ce_pending x)"

lemma delete_linked_inv:
  assumes inv: "deletable e c bs us" and e: "e \<in> set us"
  obtains c' where "stx_cache_entry_delete c e = Some c'" and "cache_inv c' (without {e} bs) (remove1 e us)"
    and "c' = deleted (cr c e) c c'" and "cores c' = (cores c)(e := None)"
proof -
  have r: "rep c bs us" and keys: "keys_ok c bs" and tallies: "tallies_ok c bs"
    and refs: "\<forall>e \<in> set (concat bs). e \<in> set us \<longleftrightarrow> ce_ref (cr c e) = 0" "\<forall>a \<in> set us. a \<noteq> e \<longrightarrow> \<not> ce_pending (cr c a)"
      "\<forall>e x. e \<notin> set (concat bs) \<longrightarrow> cores c e = Some x \<longrightarrow> ce_ref x = 0 \<and> \<not> ce_pending x"
    using inv by (auto simp: deletable_def)
  have eb: "e \<in> set (concat bs)" using e repD(7) [OF r] by blast
  obtain x where x: "ent c e = Some x" using repD(4) [OF r eb] by blast
  have ref: "ce_ref x = 0" using refs(1) e eb by (auto simp: cr_ent [OF x])
  obtain c' where c': "stx_cache_entry_delete c e = Some c'" "rep c' (map (remove1 e) bs) (remove1 e us)"
      "c' = deleted x c c'" "cores c' = (cores c)(e := None)"
    by (rule delete_idle [OF r e x ref])
  have del: "deleted x c c' = deleted (cr c e) c c'" by (simp add: deleted_def logged_def cr_ent [OF x])
  note f = deleted_fields [OF c'(3) [unfolded del]]
  have cr': "cr c' a = cr c a" if "a \<noteq> e" for a using that by (simp add: cr_def c'(4))
  have mem: "set (concat (without {e} bs)) = set (concat bs) - {e}" by auto
  have du: "distinct us" using repD(6) [OF r] by (simp add: is_clist_def distinct_map)
  have "keys_ok c' (without {e} bs)"
    using keys config_bucket [OF f(1)] f(1) unfolding keys_ok_def config_def mem by (auto simp: cr')
  moreover have "refs_ok c' (without {e} bs) (remove1 e us)"
    using refs unfolding refs_ok_def mem set_remove1_eq [OF du] by (auto simp: cr' c'(4) split: if_splits)
  moreover have "tallies_ok c' (without {e} bs)"
  proof -
    have conc: "concat (without {e} bs) = remove1 e (concat bs)"
      using remove1_without [OF repD(3) [OF r]] concat_remove1 [OF repD(3) [OF r]] by metis
    have k: "unat (cur_size c) = length (concat bs)" "unat (cur_weight c) = weights c (concat bs)"
        "cur_size c \<le> max_size c" "cur_weight c \<le> max_weight c"
      using tallies by (auto simp: tallies_ok_def)
    have w: "weights c (concat bs) = unat (ce_weight (cr c e)) + weights c (remove1 e (concat bs))"
      unfolding weights_def by (rule sum_list_map_remove1 [OF eb])
    have "e \<notin> set (remove1 e (concat bs))" using repD(3) [OF r] by simp
    then have "weights c' (remove1 e (concat bs)) = weights c (remove1 e (concat bs))" by (intro weights_cong cr') auto
    moreover have "cur_size c \<noteq> 0" using k(1) eb by (metis length_pos_if_in_set less_nat_zero_code unat_0)
    then have "unat (cur_size c - 1) = unat (cur_size c) - 1" by (rule unat_minus_one)
    moreover have "ce_weight (cr c e) \<le> cur_weight c" using k(2) w by (simp add: word_le_nat_alt)
    then have "unat (cur_weight c - ce_weight (cr c e)) = unat (cur_weight c) - unat (ce_weight (cr c e))" by (rule unat_sub)
    moreover have "max_size c' = max_size c" "max_weight c' = max_weight c" using f(1) by (auto simp: config_def)
    ultimately show ?thesis unfolding tallies_ok_def conc word_le_nat_alt
      using k w length_remove1 [of e "concat bs"] eb by (simp add: f word_le_nat_alt)
  qed
  ultimately have "cache_inv c' (without {e} bs) (remove1 e us)"
    using c'(2) unfolding cache_inv_def remove1_without [OF repD(3) [OF r]] by simp
  then show thesis using that c'(1,3,4) del by simp
qed

lemma inv_deletable: "cache_inv c bs us \<Longrightarrow> deletable e c bs us"
  by (auto simp: cache_inv_def deletable_def refs_ok_def)

lemmas delete_idle_inv = delete_linked_inv [OF inv_deletable]

lemma referenced:
  assumes inv: "cache_inv c bs us" and x: "ent c e = Some x" "ce_ref x > 0"
  shows "e \<in> set (concat bs)" "e \<notin> set us"
proof -
  have "cores c e = Some (core x)" using x(1) by (simp add: cores_def)
  then show m: "e \<in> set (concat bs)" using cache_invD(3) [OF inv] x(2) by (fastforce simp: refs_ok_def)
  show "e \<notin> set us" using cache_invD(3) [OF inv] x m by (auto simp: refs_ok_def cr_ent [OF x(1)])
qed

text \<open>Changes of an entry that is in use and stays so.\<close>

lemma busy_upd_inv:
  assumes inv: "cache_inv c bs us" and x: "ent c e = Some x" "ce_ref x > 0"
    and y: "y = x\<lparr>ce_ref := n, ce_pending := p\<rparr>" "n > 0" "ce_pending x \<longrightarrow> p"
  shows "cache_inv (c\<lparr>ent := (ent c)(e \<mapsto> y)\<rparr>) bs us"
proof -
  let ?c = "c\<lparr>ent := (ent c)(e \<mapsto> y)\<rparr>"
  note eb = referenced [OF inv x]
  have cores': "cores ?c = (cores c)(e \<mapsto> core y)" by (auto simp: cores_def)
  have cr': "cr ?c a = (if a = e then core y else cr c a)" for a by (simp add: cr_def cores')
  have conf: "config ?c = config c" by (simp add: config_def)
  have yf: "ce_key y = ce_key x" "ce_weight y = ce_weight x" "ce_ref y = n" "ce_pending y = p" using y(1) by simp_all
  have "rep ?c bs us" using cache_invD(1) [OF inv] by (simp add: rep_upd [OF x(1)] y(1))
  moreover have "keys_ok ?c bs"
    by (rule keys_ok_cong [OF cache_invD(2) [OF inv] conf]) (use yf y(3) cr_ent [OF x(1)] in \<open>auto simp: cr'\<close>)
  moreover have "refs_ok ?c bs us"
  proof (rule refs_ok_cong [OF cache_invD(3) [OF inv] repD(7) [OF cache_invD(1) [OF inv]]])
    show "ce_ref z = 0 \<and> \<not> ce_pending z" if "a \<notin> set (concat bs)" "cores ?c a = Some z" for a z
      using cache_invD(3) [OF inv] that eb(1) unfolding refs_ok_def cores' by (auto split: if_splits)
  qed (use yf y(2) x(2) eb cr_ent [OF x(1)] in \<open>auto simp: cr'\<close>)
  moreover have "tallies_ok ?c bs"
    by (rule tallies_ok_cong [OF cache_invD(4) [OF inv] conf]) (use yf cr_ent [OF x(1)] in \<open>simp_all add: cr'\<close>)
  ultimately show ?thesis by (simp add: cache_inv_def)
qed

lemma delete_busy_inv:
  assumes "cache_inv c bs us" and "ent c e = Some x" and "ce_ref x > 0"
  shows "stx_cache_entry_delete c e = Some (c\<lparr>ent := (ent c)(e \<mapsto> x\<lparr>ce_pending := True\<rparr>)\<rparr>)"
    and "cache_inv (c\<lparr>ent := (ent c)(e \<mapsto> x\<lparr>ce_pending := True\<rparr>)\<rparr>) bs us"
  using delete_busy [OF assms(2,3)] busy_upd_inv [OF assms, where y = "x\<lparr>ce_pending := True\<rparr>" and n = "ce_ref x" and p = True] assms(3) by simp_all

lemma loose_upd_inv:
  assumes inv: "cache_inv c bs us" and e: "e \<notin> set (concat bs)" and y: "\<And>y. v = Some y \<Longrightarrow> ce_pthis y = None \<and> ce_ref y = 0 \<and> \<not> ce_pending y"
    and c': "ent c' = (ent c)(e := v)" "table c' = table c" "config c' = config c" "cur_size c' = cur_size c" "cur_weight c' = cur_weight c"
      "is_clist (lru c') LruList (map LruLink us)"
  shows "cache_inv c' bs us"
proof -
  note r = cache_invD(1) [OF inv]
  have cores': "cores c' = (cores c)(e := map_option core v)" using c'(1) by (auto simp: cores_def)
  have ne: "a \<noteq> e" if "a \<in> set (concat bs)" for a using that e by blast
  have cr': "cr c' a = cr c a" if "a \<in> set (concat bs)" for a using ne [OF that] by (simp add: cr_def cores')
  have rde: "rd c' q = rd c q" if "q \<noteq> NextOf e" for q using that c'(1,2) by (auto simp: rd_def split: pptr.splits)
  have pte: "pt c' a = pt c a" if "a \<noteq> e" for a using that c'(1) by (simp add: pt_def)
  have "chain (rd c') (pt c') (Bucket b) (bs ! b)" if b: "b < length bs" for b
  proof -
    have "chain (rd c') (pt c') (Bucket b) (bs ! b) = chain (rd c) (pt c) (Bucket b) (bs ! b)"
      by (intro chain_cong conjI rde pte) (use ne nth_concat_mem [OF b] in auto)
    then show ?thesis using repD(2) [OF r b] by simp
  qed
  moreover have "pt c' a = None" if "a \<notin> set (concat bs)" for a
    using that repD(5) [OF r that] pte [of a] y c'(1) by (cases "a = e") (auto simp: pt_def split: option.splits)
  moreover have "\<forall>a \<in> set (concat bs). ent c' a \<noteq> None" using repD(4) [OF r] ne c'(1) by fastforce
  ultimately have "rep c' bs us" using repD(1,3,7) [OF r] c'(2,6) unfolding rep_def by simp
  moreover have "keys_ok c' bs" by (rule keys_ok_cong [OF cache_invD(2) [OF inv] c'(3)]) (simp add: cr')
  moreover have "refs_ok c' bs us"
  proof (rule refs_ok_cong [OF cache_invD(3) [OF inv] repD(7) [OF r]])
    show "ce_ref z = 0 \<and> \<not> ce_pending z" if "a \<notin> set (concat bs)" "cores c' a = Some z" for a z
      using cache_invD(3) [OF inv] that y unfolding refs_ok_def cores' by (auto split: if_splits)
  qed (simp add: cr')
  moreover have "tallies_ok c' bs"
    by (rule tallies_ok_cong [OF cache_invD(4) [OF inv] c'(3-5)]) (simp add: cr')
  ultimately show ?thesis by (simp add: cache_inv_def)
qed

lemma delete_loose_inv:
  assumes inv: "cache_inv c bs us" and e: "e \<notin> set (concat bs)" and x: "ent c e = Some x"
  shows "stx_cache_entry_delete c e = Some (c\<lparr>ent := (ent c)(e := None), cleanups := cleanups c @ logged x c\<rparr>)"
    and "cache_inv (c\<lparr>ent := (ent c)(e := None), cleanups := cleanups c @ logged x c\<rparr>) bs us"
proof -
  have "cores c e = Some (core x)" using x by (simp add: cores_def)
  then have "ce_ref x = 0" using cache_invD(3) [OF inv] e by (fastforce simp: refs_ok_def)
  moreover have "ce_pthis x = None" using repD(5) [OF cache_invD(1) [OF inv] e] x by (simp add: pt_def)
  ultimately show "stx_cache_entry_delete c e = Some (c\<lparr>ent := (ent c)(e := None), cleanups := cleanups c @ logged x c\<rparr>)"
    using delete_loose [OF x] by simp
  show "cache_inv (c\<lparr>ent := (ent c)(e := None), cleanups := cleanups c @ logged x c\<rparr>) bs us"
    by (rule loose_upd_inv [OF inv e, of None]) (use repD(6) [OF cache_invD(1) [OF inv]] in \<open>simp_all add: config_def\<close>)
qed

section \<open>Looking up and releasing\<close>

lemma deletable_inv: "deletable e c bs us \<Longrightarrow> (e \<in> set us \<longrightarrow> \<not> ce_pending (cr c e)) \<Longrightarrow> cache_inv c bs us"
  by (auto simp: cache_inv_def deletable_def refs_ok_def)

text \<open>A change of the reference count, with the entry on the LRU list exactly if it is 0.\<close>

lemma ref_upd:
  assumes inv: "cache_inv c bs us" and e: "e \<in> set (concat bs)" "ent c e = Some x"
    and c': "ent c' = (ent c)(e \<mapsto> x\<lparr>ce_ref := n\<rparr>)" "table c' = table c" "config c' = config c" "cur_size c' = cur_size c"
      "cur_weight c' = cur_weight c" "is_clist (lru c') LruList (map LruLink us')"
    and us': "set us' = (if n = 0 then insert e (set us) else set us - {e})"
  shows "deletable e c' bs us'"
proof -
  note r = cache_invD(1) [OF inv]
  have cores': "cores c' = (cores c)(e \<mapsto> core (x\<lparr>ce_ref := n\<rparr>))" using c'(1) by (auto simp: cores_def)
  have cr': "cr c' a = (if a = e then core (x\<lparr>ce_ref := n\<rparr>) else cr c a)" for a by (simp add: cr_def cores')
  have rdpt: "rd c' = rd c" "pt c' = pt c"
    using c'(1,2) e(2) by (auto simp: rd_def pt_def fun_eq_iff split: pptr.splits option.splits)
  have sub: "set us' \<subseteq> set (concat bs)" using repD(7) [OF r] e(1) us' by auto
  have "\<forall>a \<in> set (concat bs). ent c' a \<noteq> None" using repD(4) [OF r] c'(1) by fastforce
  then have "rep c' bs us'" using repD(1-3,5) [OF r] c'(2,6) sub unfolding rep_def by (simp add: rdpt)
  moreover have "keys_ok c' bs"
    by (rule keys_ok_cong [OF cache_invD(2) [OF inv] c'(3)]) (use cr_ent [OF e(2)] in \<open>simp add: cr'\<close>)
  moreover have "tallies_ok c' bs"
    by (rule tallies_ok_cong [OF cache_invD(4) [OF inv] c'(3-5)]) (use cr_ent [OF e(2)] in \<open>simp add: cr'\<close>)
  moreover have "(a \<in> set us') = (ce_ref (cr c' a) = 0)" if "a \<in> set (concat bs)" for a
    using cache_invD(3) [OF inv] that us' by (cases "a = e") (auto simp: refs_ok_def cr')
  moreover have "\<not> ce_pending (cr c' a)" if "a \<in> set us'" "a \<noteq> e" for a
    using cache_invD(3) [OF inv] that us' by (auto simp: refs_ok_def cr' split: if_splits)
  moreover have "ce_ref z = 0 \<and> \<not> ce_pending z" if "a \<notin> set (concat bs)" "cores c' a = Some z" for a z
    using cache_invD(3) [OF inv] that e(1) unfolding refs_ok_def cores' by (auto split: if_splits)
  ultimately show ?thesis by (simp add: deletable_def)
qed

text \<open>The entry a lookup finds: the live one with the key, if there is one.\<close>

lemma bucket_less: "keys_ok c bs \<Longrightarrow> bucket_of c key < length bs"
  by (simp add: keys_ok_def bucket_of_def unat_mod unat_gt_0)

definition found :: "('k, 'd) cache \<Rightarrow> eid list list \<Rightarrow> 'k \<Rightarrow> eid \<Rightarrow> bool" where
  "found c bs key e \<longleftrightarrow> e \<in> set (concat bs) \<and> \<not> ce_pending (cr c e) \<and> key_cmp_fn c key (ce_key (cr c e)) = 0"

lemma live_match_cr: "ent c e \<noteq> None \<Longrightarrow> live_match c key e \<longleftrightarrow> \<not> ce_pending (cr c e) \<and> key_cmp_fn c key (ce_key (cr c e)) = 0"
  by (auto simp: live_match_def cr_ent split: option.splits)

lemma found_unique:
  assumes inv: "cache_inv c bs us" and fns: "key_fns (key_hash_fn c) (key_cmp_fn c)" and "found c bs key e" and "found c bs key e'"
  shows "e = e'"
proof (rule ccontr)
  assume "e \<noteq> e'"
  then have "key_cmp_fn c (ce_key (cr c e)) (ce_key (cr c e')) \<noteq> 0"
    using cache_invD(2) [OF inv] assms(3,4) by (simp add: keys_ok_def found_def)
  then show False using assms(3,4) key_fns.cmp_left [OF fns, of key "ce_key (cr c e)"] by (simp add: found_def)
qed

lemma found_bucket:
  assumes inv: "cache_inv c bs us" and fns: "key_fns (key_hash_fn c) (key_cmp_fn c)"
  shows "found c bs key e \<longleftrightarrow> e \<in> set (bs ! bucket_of c key) \<and> live_match c key e"
proof -
  note r = cache_invD(1) [OF inv] and k = cache_invD(2) [OF inv]
  have b: "bucket_of c key < length bs" by (rule bucket_less [OF k])
  show ?thesis
  proof
    assume f: "found c bs key e"
    then obtain b' where b': "b' < length bs" "e \<in> set (bs ! b')" unfolding found_def set_concat by (metis UN_E in_set_conv_nth)
    have "key_hash_fn c key = key_hash_fn c (ce_key (cr c e))" using f key_fns.cmp_hash [OF fns] by (simp add: found_def)
    then have "b' = bucket_of c key" using k b' unfolding keys_ok_def bucket_of_def by simp
    then show "e \<in> set (bs ! bucket_of c key) \<and> live_match c key e"
      using b' f repD(4) [OF r, of e] by (auto simp: found_def live_match_cr)
  next
    assume e: "e \<in> set (bs ! bucket_of c key) \<and> live_match c key e"
    then have m: "e \<in> set (concat bs)" using nth_concat_mem [OF b] by blast
    have "ent c e \<noteq> None" using repD(4) [OF r m] by blast
    from e live_match_cr [OF this] m show "found c bs key e" by (simp add: found_def)
  qed
qed

lemma find_found:
  assumes inv: "cache_inv c bs us" and fns: "key_fns (key_hash_fn c) (key_cmp_fn c)"
  obtains r where "find_entry c key = Some r" and "\<And>e. r = Some e \<longleftrightarrow> found c bs key e"
proof -
  note k = cache_invD(2) [OF inv]
  have f: "find_entry c key = Some (List.find (live_match c key) (bs ! bucket_of c key))"
    by (rule find_entry_ok [OF cache_invD(1) [OF inv] _ bucket_less [OF k]]) (use k in \<open>simp add: keys_ok_def\<close>)
  have "List.find (live_match c key) (bs ! bucket_of c key) = Some e \<longleftrightarrow> found c bs key e" for e
  proof
    assume "List.find (live_match c key) (bs ! bucket_of c key) = Some e"
    then show "found c bs key e" by (auto simp: find_Some_iff found_bucket [OF inv fns])
  next
    assume e: "found c bs key e"
    then obtain e' where e': "List.find (live_match c key) (bs ! bucket_of c key) = Some e'"
      by (cases "List.find (live_match c key) (bs ! bucket_of c key)") (auto simp: find_None_iff found_bucket [OF inv fns])
    then have "found c bs key e'" by (auto simp: find_Some_iff found_bucket [OF inv fns])
    then show "List.find (live_match c key) (bs ! bucket_of c key) = Some e" using e' found_unique [OF inv fns e] by simp
  qed
  then show thesis using that f by blast
qed

lemma inv_scalars:
  assumes "cache_inv c bs us" and "ent c' = ent c" "table c' = table c" "lru c' = lru c" "config c' = config c" "cur_size c' = cur_size c"
    "cur_weight c' = cur_weight c"
  shows "cache_inv c' bs us"
proof -
  have cr': "cr c' = cr c" "cores c' = cores c" using assms(2) by (auto simp: cr_def cores_def fun_eq_iff)
  have "rep c' bs us" using cache_invD(1) [OF assms(1)] rep_scalars [of c' c] assms(2-4) by blast
  moreover have "keys_ok c' bs" by (rule keys_ok_cong [OF cache_invD(2) [OF assms(1)] assms(5)]) (simp add: cr')
  moreover have "tallies_ok c' bs" by (rule tallies_ok_cong [OF cache_invD(4) [OF assms(1)] assms(5-7)]) (simp add: cr')
  moreover have "refs_ok c' bs us" using cache_invD(3) [OF assms(1)] by (simp add: refs_ok_def cr')
  ultimately show ?thesis by (simp add: cache_inv_def)
qed

lemma lru_distinct: "cache_inv c bs us \<Longrightarrow> distinct us"
  using repD(6) [OF cache_invD(1)] by (fastforce simp: is_clist_def distinct_map)

lemma lookup_ok:
  assumes inv: "cache_inv c bs us" and fns: "key_fns (key_hash_fn c) (key_cmp_fn c)"
  obtains (miss) c' where "stx_cache_entry_lookup c key = Some (None, c')" and "\<forall>e. \<not> found c bs key e"
      and "cache_inv c' bs us" and "c' = c\<lparr>lookups := lookups c + 1\<rparr>"
    | (hit) e c' where "stx_cache_entry_lookup c key = Some (Some e, c')" and "found c bs key e"
      and "cache_inv c' bs (remove1 e us)" and "c' = c\<lparr>lookups := lookups c + 1, hits := hits c + 1, ent := ent c', lru := lru c'\<rparr>"
      and "cores c' = (cores c)(e \<mapsto> (cr c e)\<lparr>ce_ref := ce_ref (cr c e) + 1\<rparr>)"
proof -
  let ?c = "c\<lparr>lookups := lookups c + 1\<rparr>"
  have inv1: "cache_inv ?c bs us" by (rule inv_scalars [OF inv]) (simp_all add: config_def)
  obtain r where r: "find_entry ?c key = Some r" "\<And>e. r = Some e \<longleftrightarrow> found ?c bs key e"
    by (rule find_found [OF inv1, of key]) (use fns in auto)
  have fd: "found ?c bs key e = found c bs key e" for e by (simp add: found_def cr_def cores_def)
  show thesis
  proof (cases r)
    case None
    have "stx_cache_entry_lookup c key = Some (None, ?c)" using r(1) None by (simp add: stx_cache_entry_lookup_def Let_def)
    then show thesis using r(2) fd None inv1 by (intro miss) auto
  next
    case (Some e)
    then have f: "found c bs key e" using r(2) fd by simp
    then have e: "e \<in> set (concat bs)" by (simp add: found_def)
    obtain x where x: "ent c e = Some x" using repD(4) [OF cache_invD(1) [OF inv] e] by blast
    have idle: "e \<in> set us \<longleftrightarrow> ce_ref x = 0" using cache_invD(3) [OF inv] e by (simp add: refs_ok_def cr_ent [OF x])
    define h where "h = (if ce_ref x = 0 then ST_REMOVE_LINK (LruLink e) (lru c) else lru c)"
    define c' where "c' = ?c\<lparr>hits := hits c + 1, lru := h, ent := (ent c)(e \<mapsto> x\<lparr>ce_ref := ce_ref x + 1\<rparr>)\<rparr>"
    note clist = repD(6) [OF cache_invD(1) [OF inv]]
    have "STX_CLIST_REMOVE_LINK (LruLink e) (lru c) = Some h" if "ce_ref x = 0"
      using that stx_remove_link [OF clist, of "LruLink e"] idle by (simp add: h_def)
    then have look: "stx_cache_entry_lookup c key = Some (Some e, c')"
      using r(1) Some x by (cases "ce_ref x = 0") (simp_all add: stx_cache_entry_lookup_def Let_def upd_ent_def c'_def h_def)
    have "is_clist h LruList (map LruLink (remove1 e us))"
      using remove_link_clist [OF clist, of "LruLink e"] clist idle
      by (cases "e \<in> set us") (simp_all add: h_def remove1_map_inj inj_def remove1_idem)
    then have "deletable e c' bs (remove1 e us)"
      by (intro ref_upd [OF inv e x, of c' "ce_ref x + 1"])
        (simp_all add: c'_def config_def set_remove1_eq [OF lru_distinct [OF inv]])
    then have "cache_inv c' bs (remove1 e us)"
      by (rule deletable_inv) (simp add: set_remove1_eq [OF lru_distinct [OF inv]])
    then show thesis
      by (rule hit [OF look f]) (auto simp: c'_def cores_def cr_ent [OF x] core_def x fun_eq_iff)
  qed
qed

text \<open>What a release does depends on the number of references and on a pending delete.\<close>

lemma release_more:
  assumes inv: "cache_inv c bs us" and x: "ent c e = Some x" "ce_ref x > 1"
  shows "stx_cache_entry_release c e = Some (c\<lparr>ent := (ent c)(e \<mapsto> x\<lparr>ce_ref := ce_ref x - 1\<rparr>)\<rparr>)"
    and "cache_inv (c\<lparr>ent := (ent c)(e \<mapsto> x\<lparr>ce_ref := ce_ref x - 1\<rparr>)\<rparr>) bs us"
proof -
  show "stx_cache_entry_release c e = Some (c\<lparr>ent := (ent c)(e \<mapsto> x\<lparr>ce_ref := ce_ref x - 1\<rparr>)\<rparr>)"
    using x by (simp add: stx_cache_entry_release_def upd_ent_def)
  show "cache_inv (c\<lparr>ent := (ent c)(e \<mapsto> x\<lparr>ce_ref := ce_ref x - 1\<rparr>)\<rparr>) bs us"
    by (rule busy_upd_inv [OF inv x(1), where n = "ce_ref x - 1" and p = "ce_pending x"]) (use x(2) in auto)
qed

lemma release_last:
  assumes inv: "cache_inv c bs us" and x: "ent c e = Some x" "ce_ref x = 1"
  obtains c1 where "stx_cache_entry_release c e = (if ce_pending x then stx_cache_entry_delete c1 e else Some c1)"
    and "deletable e c1 bs (us @ [e])" and "c1 = c\<lparr>ent := (ent c)(e \<mapsto> x\<lparr>ce_ref := 0\<rparr>), lru := lru c1\<rparr>"
proof -
  have e: "e \<in> set (concat bs)" "e \<notin> set us" using referenced [OF inv x(1)] x(2) by auto
  note clist = repD(6) [OF cache_invD(1) [OF inv]]
  have app: "STX_CLIST_APPEND_LINK (LruLink e) LruList (lru c) = Some (ST_APPEND_LINK (LruLink e) LruList (lru c))"
    by (rule stx_append_link [OF clist]) (use e(2) in auto)
  define c1 where "c1 = c\<lparr>ent := (ent c)(e \<mapsto> x\<lparr>ce_ref := 0\<rparr>), lru := ST_APPEND_LINK (LruLink e) LruList (lru c)\<rparr>"
  have "deletable e c1 bs (us @ [e])"
    by (rule ref_upd [OF inv e(1) x(1), of c1 0])
      (use append_link_clist [OF clist, of "LruLink e"] e(2) in \<open>auto simp: c1_def config_def\<close>)
  moreover have "stx_cache_entry_release c e = (if ce_pending x then stx_cache_entry_delete c1 e else Some c1)"
    using x app by (simp add: stx_cache_entry_release_def upd_ent_def c1_def Let_def)
  ultimately show thesis using that by (simp add: c1_def)
qed

lemma release_idle:
  assumes inv: "cache_inv c bs us" and x: "ent c e = Some x" "ce_ref x = 1" "\<not> ce_pending x"
  obtains c' where "stx_cache_entry_release c e = Some c'" and "cache_inv c' bs (us @ [e])"
    and "c' = c\<lparr>ent := (ent c)(e \<mapsto> x\<lparr>ce_ref := 0\<rparr>), lru := lru c'\<rparr>"
proof -
  obtain c1 where c1: "stx_cache_entry_release c e = (if ce_pending x then stx_cache_entry_delete c1 e else Some c1)"
      "deletable e c1 bs (us @ [e])" "c1 = c\<lparr>ent := (ent c)(e \<mapsto> x\<lparr>ce_ref := 0\<rparr>), lru := lru c1\<rparr>"
    by (rule release_last [OF inv x(1,2)])
  have "ent c1 e = Some (x\<lparr>ce_ref := 0\<rparr>)" by (subst c1(3)) simp
  then have "cache_inv c1 bs (us @ [e])" using deletable_inv [OF c1(2)] x(3) by (simp add: cr_ent)
  then show thesis using that c1(1,3) x(3) by simp
qed

lemma release_pending:
  assumes inv: "cache_inv c bs us" and x: "ent c e = Some x" "ce_ref x = 1" "ce_pending x"
  obtains c' where "stx_cache_entry_release c e = Some c'" and "cache_inv c' (without {e} bs) us"
    and "c' = deleted (cr c e) c c'" and "cores c' = (cores c)(e := None)"
proof -
  obtain c1 where c1: "stx_cache_entry_release c e = (if ce_pending x then stx_cache_entry_delete c1 e else Some c1)"
      "deletable e c1 bs (us @ [e])" "c1 = c\<lparr>ent := (ent c)(e \<mapsto> x\<lparr>ce_ref := 0\<rparr>), lru := lru c1\<rparr>"
    by (rule release_last [OF inv x(1,2)])
  obtain h where c1h: "c1 = c\<lparr>ent := (ent c)(e \<mapsto> x\<lparr>ce_ref := 0\<rparr>), lru := h\<rparr>" using c1(3) by blast
  obtain c' where c': "stx_cache_entry_delete c1 e = Some c'" "cache_inv c' (without {e} bs) (remove1 e (us @ [e]))"
      "c' = deleted (cr c1 e) c1 c'" "cores c' = (cores c1)(e := None)"
    by (rule delete_linked_inv [OF c1(2)]) auto
  have "remove1 e (us @ [e]) = us" using referenced(2) [OF inv x(1)] x(2) by (simp add: remove1_append remove1_idem)
  moreover have "ent c1 e = Some (x\<lparr>ce_ref := 0\<rparr>)" by (simp add: c1h)
  then have "deleted (cr c1 e) c1 c' = deleted (cr c e) c c'"
    by (simp add: deleted_def logged_def cr_ent [OF x(1)] cr_ent c1h)
  moreover have "(cores c1)(e := None) = (cores c)(e := None)" by (auto simp: c1h cores_def)
  ultimately show thesis using that c1(1) c' x(3) by simp
qed

section \<open>Inserting\<close>

text \<open>
  The eviction policy: entries leave in LRU order until the total weight, which includes the new entry, fits. The result says
  whether it fits in the end, which entries leave and which idle ones stay.
\<close>

fun evict :: "(eid \<Rightarrow> nat) \<Rightarrow> nat \<Rightarrow> nat \<Rightarrow> eid list \<Rightarrow> bool \<times> eid list \<times> eid list" where
  "evict wt need lim [] = (need \<le> lim, [], [])"
| "evict wt need lim (u # us) =
    (if need \<le> lim then (True, [], u # us)
     else (let (ok, out, rest) = evict wt (need - wt u) lim us in (ok, u # out, rest)))"

lemma getlru_ok:
  assumes "rep c bs us"
  shows "stx_cache_entry_getlru c = Some (case us of [] \<Rightarrow> None | u # _ \<Rightarrow> Some u)"
  using is_clist_head [OF repD(6) [OF assms]] by (cases us) (auto simp: stx_cache_entry_getlru_def STX_CLIST_IS_EMPTY_def STX_CLIST_HEAD_def STX_CACHE_ENTRY_PTR_def)

text \<open>The effect of deleting the idle entries \<open>out\<close> one after the other.\<close>

definition evicted :: "eid list \<Rightarrow> ('k, 'd) cache \<Rightarrow> ('k, 'd) cache \<Rightarrow> bool" where
  "evicted out c c' \<longleftrightarrow> config c' = config c \<and> cores c' = (\<lambda>a. if a \<in> set out then None else cores c a) \<and>
     cleanups c' = cleanups c @ concat (map (\<lambda>u. logged (cr c u) c) out) \<and>
     lookups c' = lookups c \<and> hits c' = hits c \<and> inserts c' = inserts c"

lemma evicted_refl [simp]: "evicted [] c c"
  by (simp add: evicted_def)

lemma evicted_Cons:
  assumes "c1 = deleted (cr c u) c c1" and "cores c1 = (cores c)(u := None)" and "evicted out c1 c2" and "u \<notin> set out"
  shows "evicted (u # out) c c2"
proof -
  note f = deleted_fields [OF assms(1)]
  have "logged (cr c1 a) c1 = logged (cr c a) c" if "a \<in> set out" for a
    using that assms(2,4) f(1) by (auto simp: logged_def cr_def config_def)
  then have l: "concat (map (\<lambda>a. logged (cr c1 a) c1) out) = concat (map (\<lambda>a. logged (cr c a) c) out)" by (simp cong: map_cong)
  show ?thesis using assms(2,3) f unfolding evicted_def l by (auto simp: fun_eq_iff)
qed

lemma evict_cong: "(\<And>a. a \<in> set us \<Longrightarrow> cr c' a = cr c a) \<Longrightarrow>
    evict (\<lambda>a. unat (ce_weight (cr c' a))) n l us = evict (\<lambda>a. unat (ce_weight (cr c a))) n l us"
  by (induction us arbitrary: n) auto

lemma weight_le:
  assumes "cache_inv c bs us" and "e \<in> set (concat bs)"
  shows "unat (ce_weight (cr c e)) \<le> unat (cur_weight c)"
  using cache_invD(4) [OF assms(1)] assms(2) by (auto simp: tallies_ok_def weights_def intro: member_le_sum_list)

lemma evict_loop_ok:
  assumes "evict (\<lambda>a. unat (ce_weight (cr c a))) (unat (cur_weight c) + unat w) (unat (max_weight c)) us = (ok, out, rest)"
    and "cache_inv c bs us" and "e \<notin> set (concat bs)" and "cores c e = Some x" and "ce_weight x = w"
    and "unat (max_weight c) + unat w < 2 ^ 64"
  shows "\<exists>c'. evict_loop c e = Some (ok, c') \<and> cache_inv c' (without (set out) bs) rest \<and> evicted out c c' \<and> us = out @ rest \<and>
    (ok \<longrightarrow> unat (cur_weight c') + unat w \<le> unat (max_weight c))"
  using assms
proof (induction us arbitrary: c bs ok out rest)
  case Nil
  note r = cache_invD(1) [OF Nil.prems(2)]
  obtain y where y: "ent c e = Some y" "ce_weight y = w" using Nil.prems(4,5) by (auto simp: cores_def)
  have "cur_weight c \<le> max_weight c" using cache_invD(4) [OF Nil.prems(2)] by (simp add: tallies_ok_def)
  then have "unat (cur_weight c + w) = unat (cur_weight c) + unat w"
    using Nil.prems(6) by (intro unat_add_lem [THEN iffD1]) (simp add: word_le_nat_alt)
  then have "evict_loop c e = Some (ok, c)"
    using Nil.prems(1) y getlru_ok [OF r] by (subst evict_loop.simps) (auto simp: word_less_nat_alt)
  then show ?case using Nil.prems(1,2) by (intro exI [of _ c]) auto
next
  case (Cons u us)
  note inv = Cons.prems(2)
  note r = cache_invD(1) [OF inv]
  obtain y where y: "ent c e = Some y" "ce_weight y = w" using Cons.prems(4,5) by (auto simp: cores_def)
  have le: "cur_weight c \<le> max_weight c" using cache_invD(4) [OF inv] by (simp add: tallies_ok_def)
  then have sum: "unat (cur_weight c + w) = unat (cur_weight c) + unat w"
    using Cons.prems(6) by (intro unat_add_lem [THEN iffD1]) (simp add: word_le_nat_alt)
  show ?case
  proof (cases "unat (cur_weight c) + unat w \<le> unat (max_weight c)")
    case True
    then have "evict_loop c e = Some (True, c)" using y sum by (subst evict_loop.simps) (simp add: word_less_nat_alt)
    then show ?thesis using Cons.prems(1,2) True by (intro exI [of _ c]) auto
  next
    case False
    obtain c1 where c1: "stx_cache_entry_delete c u = Some c1" "cache_inv c1 (without {u} bs) (remove1 u (u # us))"
        "c1 = deleted (cr c u) c c1" "cores c1 = (cores c)(u := None)"
      by (rule delete_idle_inv [OF inv, of u]) auto
    note f = deleted_fields [OF c1(3)]
    obtain out' where o: "evict (\<lambda>a. unat (ce_weight (cr c a))) (unat (cur_weight c) + unat w - unat (ce_weight (cr c u))) (unat (max_weight c)) us = (ok, out', rest)"
        "out = u # out'"
      using Cons.prems(1) False by (auto split: prod.splits)
    have ub: "u \<in> set (concat bs)" using repD(7) [OF r] by auto
    have un: "u \<notin> set us" using lru_distinct [OF inv] by simp
    have "cr c1 a = cr c a" if "a \<in> set us" for a using that un by (auto simp: cr_def c1(4))
    then have same: "evict (\<lambda>a. unat (ce_weight (cr c1 a))) n l us = evict (\<lambda>a. unat (ce_weight (cr c a))) n l us" for n l
      by (rule evict_cong)
    have "unat (ce_weight (cr c u)) \<le> unat (cur_weight c)" by (rule weight_le [OF inv ub])
    then have "unat (cur_weight c1) = unat (cur_weight c) - unat (ce_weight (cr c u))"
      unfolding f(3) by (intro unat_sub) (simp add: word_le_nat_alt)
    with \<open>unat (ce_weight (cr c u)) \<le> unat (cur_weight c)\<close>
    have need: "unat (cur_weight c1) + unat w = unat (cur_weight c) + unat w - unat (ce_weight (cr c u))" by simp
    have mw: "max_weight c1 = max_weight c" using f(1) by (simp add: config_def)
    have "e \<noteq> u" using ub Cons.prems(3) by auto
    then obtain c' where c': "evict_loop c1 e = Some (ok, c')" "cache_inv c' (without (set out') (without {u} bs)) rest" "evicted out' c1 c'"
        "us = out' @ rest" "ok \<longrightarrow> unat (cur_weight c') + unat w \<le> unat (max_weight c1)"
      using Cons.IH [of c1 ok out' rest "without {u} bs"] o(1) c1(2,4) Cons.prems(3-6) by (auto simp: same need mw)
    have "evict_loop c e = Some (ok, c')"
      using y sum False getlru_ok [OF r] c1(1) c'(1) by (subst evict_loop.simps) (simp add: word_less_nat_alt)
    moreover have "evicted out c c'" unfolding o(2) by (rule evicted_Cons [OF c1(3,4) c'(3)]) (use un c'(4) in auto)
    ultimately show ?thesis using c'(2,4,5) o(2) mw by auto
  qed
qed

text \<open>The whole policy: after the weight, the number of entries; at most one more entry leaves for it.\<close>

definition make_room :: "(eid \<Rightarrow> nat) \<Rightarrow> nat \<Rightarrow> nat \<Rightarrow> nat \<Rightarrow> nat \<Rightarrow> eid list \<Rightarrow> bool \<times> eid list \<times> eid list" where
  "make_room wt need lim num maxnum us =
    (let (ok, out, rest) = evict wt need lim us
     in if \<not> ok \<or> num - length out < maxnum then (ok, out, rest)
        else (case rest of [] \<Rightarrow> (False, out, []) | u # rest \<Rightarrow> (True, out @ [u], rest)))"

lemma evict_one_ok:
  assumes inv: "cache_inv c bs us"
  shows "\<exists>c'. (case us of
      [] \<Rightarrow> evict_one c = Some (cur_size c < max_size c, c') \<and> c' = c
    | u # us' \<Rightarrow> evict_one c = Some (True, c') \<and>
        (if cur_size c < max_size c then c' = c
         else cache_inv c' (without {u} bs) us' \<and> c' = deleted (cr c u) c c' \<and> cores c' = (cores c)(u := None) \<and> cur_size c' < max_size c'))"
proof (cases us)
  case Nil
  then show ?thesis using getlru_ok [OF cache_invD(1) [OF inv]] by (auto simp: evict_one_def not_less)
next
  case (Cons u us')
  show ?thesis
  proof (cases "cur_size c < max_size c")
    case True
    then show ?thesis using Cons by (auto simp: evict_one_def not_less [symmetric])
  next
    case False
    obtain c1 where c1: "stx_cache_entry_delete c u = Some c1" "cache_inv c1 (without {u} bs) (remove1 u us)"
        "c1 = deleted (cr c u) c c1" "cores c1 = (cores c)(u := None)"
      by (rule delete_idle_inv [OF inv, of u]) (use Cons in auto)
    note f = deleted_fields [OF c1(3)]
    have k: "unat (cur_size c) = length (concat bs)" "cur_size c \<le> max_size c" using cache_invD(4) [OF inv] by (auto simp: tallies_ok_def)
    have "u \<in> set (concat bs)" using repD(7) [OF cache_invD(1) [OF inv]] Cons by auto
    then have "cur_size c \<noteq> 0" using k(1) by (metis length_pos_if_in_set less_nat_zero_code unat_0)
    then have "unat (cur_size c1) = unat (cur_size c) - 1" "unat (cur_size c) > 0" by (simp_all add: f(2) unat_minus_one unat_gt_0)
    moreover have "max_size c1 = max_size c" using f(1) by (simp add: config_def)
    ultimately have "cur_size c1 < max_size c1" using k(2) unfolding word_less_nat_alt word_le_nat_alt by simp
    moreover have "evict_one c = Some (True, c1)"
      using False Cons c1(1) getlru_ok [OF cache_invD(1) [OF inv]] by (simp add: evict_one_def not_less)
    ultimately show ?thesis using c1(2-4) Cons False by auto
  qed
qed

lemma evicted_weight:
  assumes "c' = deleted (cr c u) c c'" and "cache_inv c bs us" and "u \<in> set (concat bs)"
  shows "unat (cur_weight c') \<le> unat (cur_weight c)"
proof -
  have "unat (cur_weight c - ce_weight (cr c u)) = unat (cur_weight c) - unat (ce_weight (cr c u))"
    by (rule unat_sub) (use weight_le [OF assms(2,3)] in \<open>simp add: word_le_nat_alt\<close>)
  then show ?thesis using deleted_fields(3) [OF assms(1)] by simp
qed

lemma evicted_snoc:
  assumes "evicted out c c1" and "c2 = deleted (cr c1 u) c1 c2" and "cores c2 = (cores c1)(u := None)" and "u \<notin> set out"
  shows "evicted (out @ [u]) c c2"
proof -
  note f = deleted_fields [OF assms(2)]
  have "cr c1 u = cr c u" "cleanup_fn c1 = cleanup_fn c" using assms(1,4) by (auto simp: evicted_def cr_def config_def)
  then have "logged (cr c1 u) c1 = logged (cr c u) c" by (simp add: logged_def)
  then show ?thesis using assms(1,3) f unfolding evicted_def by (auto simp: fun_eq_iff)
qed

text \<open>The first half of an insertion.\<close>

lemma make_room_ok:
  assumes room: "make_room (\<lambda>a. unat (ce_weight (cr c a))) (unat (cur_weight c) + unat w) (unat (max_weight c))
      (unat (cur_size c)) (unat (max_size c)) us = (ok, out, rest)"
    and inv: "cache_inv c bs us" and e: "e \<notin> set (concat bs)" "cores c e = Some x" "ce_weight x = w"
    and fits: "unat (max_weight c) + unat w < 2 ^ 64"
  shows "\<exists>c'. (do { (room, c) \<leftarrow> evict_loop c e; if \<not> room then Some (False, c) else evict_one c }) = Some (ok, c') \<and>
    cache_inv c' (without (set out) bs) rest \<and> evicted out c c' \<and> us = out @ rest \<and>
    (ok \<longrightarrow> unat (cur_weight c') + unat w \<le> unat (max_weight c') \<and> cur_size c' < max_size c')"
proof -
  obtain ok1 out1 rest1 where ev: "evict (\<lambda>a. unat (ce_weight (cr c a))) (unat (cur_weight c) + unat w) (unat (max_weight c)) us = (ok1, out1, rest1)"
    by (metis prod_cases3)
  obtain c1 where c1: "evict_loop c e = Some (ok1, c1)" "cache_inv c1 (without (set out1) bs) rest1" "evicted out1 c c1" "us = out1 @ rest1"
      "ok1 \<longrightarrow> unat (cur_weight c1) + unat w \<le> unat (max_weight c)"
    using evict_loop_ok [OF ev inv e fits] by blast
  have conf: "max_weight c1 = max_weight c" "max_size c1 = max_size c" using c1(3) by (auto simp: evicted_def config_def)
  have cnt: "unat (cur_size c1) = unat (cur_size c) - length out1"
  proof -
    have u: "distinct us" "set us \<subseteq> set (concat bs)" "distinct (concat bs)"
      using lru_distinct [OF inv] repD(3,7) [OF cache_invD(1) [OF inv]] by auto
    have "length (filter (\<lambda>a. a \<notin> set out1) (concat bs)) = card (set (concat bs) - set out1)"
      using distinct_card [of "filter (\<lambda>a. a \<notin> set out1) (concat bs)"] u(3) by (simp add: set_diff_eq)
    also have "\<dots> = length (concat bs) - length out1"
      using u c1(4) by (subst card_Diff_subset) (auto simp: distinct_card)
    finally show ?thesis using cache_invD(4) [OF inv] cache_invD(4) [OF c1(2)] by (simp add: tallies_ok_def)
  qed
  show ?thesis
  proof (cases "\<not> ok1 \<or> unat (cur_size c) - length out1 < unat (max_size c)")
    case True
    then have eq: "ok = ok1" "out = out1" "rest = rest1" using room ev by (auto simp: make_room_def)
    have "cur_size c1 < max_size c1" if ok1 using True that cnt conf by (simp add: word_less_nat_alt)
    moreover from this have "evict_one c1 = Some (True, c1)" if ok1 using that by (simp add: evict_one_def not_less [symmetric])
    ultimately show ?thesis using c1 conf by (intro exI [of _ c1]) (auto simp: eq)
  next
    case False
    then have full: "\<not> cur_size c1 < max_size c1" "ok1" using cnt conf by (auto simp: word_less_nat_alt)
    show ?thesis
    proof (cases rest1)
      case Nil
      then have eq: "ok = False" "out = out1" "rest = []" using room ev False by (auto simp: make_room_def)
      have "evict_one c1 = Some (False, c1)" using evict_one_ok [OF c1(2)] full(1) Nil by simp
      then show ?thesis using c1 full(2) Nil by (intro exI [of _ c1]) (auto simp: eq)
    next
      case (Cons u rest2)
      then have eq: "ok = True" "out = out1 @ [u]" "rest = rest2" using room ev False by (auto simp: make_room_def)
      obtain c2 where c2: "evict_one c1 = Some (True, c2)" "cache_inv c2 (without {u} (without (set out1) bs)) rest2"
          "c2 = deleted (cr c1 u) c1 c2" "cores c2 = (cores c1)(u := None)" "cur_size c2 < max_size c2"
        using evict_one_ok [OF c1(2)] full(1) Cons by auto
      have "u \<in> set (concat (without (set out1) bs))" using repD(7) [OF cache_invD(1) [OF c1(2)]] Cons by auto
      then have "unat (cur_weight c2) \<le> unat (cur_weight c1)" by (rule evicted_weight [OF c2(3) c1(2)])
      moreover have "max_weight c2 = max_weight c" using deleted_fields(1) [OF c2(3)] conf by (simp add: config_def)
      moreover have "u \<notin> set out1" using lru_distinct [OF inv] c1(4) Cons by auto
      then have "evicted out c c2" unfolding eq by (rule evicted_snoc [OF c1(3) c2(3,4)])
      ultimately show ?thesis using c1 c2 full(2) Cons by (intro exI [of _ c2]) (auto simp: eq)
    qed
  qed
qed

text \<open>An older entry with the same key leaves the cache, or is marked when it is in use.\<close>

definition replaced :: "('k, 'd) cache \<Rightarrow> eid list list \<Rightarrow> 'k \<Rightarrow> ('k, 'd) cache \<Rightarrow> eid list list \<Rightarrow> eid list \<Rightarrow> eid list \<Rightarrow> bool" where
  "replaced c bs key c' bs' us us' \<longleftrightarrow> config c' = config c \<and> (\<forall>a. \<not> found c bs key a \<longrightarrow> cores c' a = cores c a) \<and>
     (\<forall>a. found c bs key a \<longrightarrow> cores c' a = (if ce_ref (cr c a) = 0 then None else Some ((cr c a)\<lparr>ce_pending := True\<rparr>))) \<and>
     bs' = without {a. found c bs key a \<and> ce_ref (cr c a) = 0} bs \<and> us' = filter (\<lambda>a. \<not> found c bs key a) us \<and>
     cur_size c' \<le> cur_size c \<and> cur_weight c' \<le> cur_weight c"

lemma drop_old:
  assumes inv: "cache_inv c bs us" and fns: "key_fns (key_hash_fn c) (key_cmp_fn c)"
  obtains r c' bs' us' where "find_entry c key = Some r"
    and "(case r of None \<Rightarrow> Some c | Some old \<Rightarrow> stx_cache_entry_delete c old) = Some c'"
    and "cache_inv c' bs' us'" and "replaced c bs key c' bs' us us'" and "\<forall>a. \<not> found c' bs' key a"
proof -
  obtain r where r: "find_entry c key = Some r" "\<And>e. r = Some e \<longleftrightarrow> found c bs key e" by (rule find_found [OF inv fns, of key]) blast
  show thesis
  proof (cases r)
    case None
    then have n: "\<not> found c bs key a" for a using r(2) by simp
    have "replaced c bs key c bs us us" by (simp add: replaced_def n)
    then show thesis using that [OF r(1), of c bs us] None inv n by simp
  next
    case (Some old)
    then have old: "found c bs key a \<longleftrightarrow> a = old" for a using r(2) [of a] by auto
    then have f: "found c bs key old" by simp
    have ob: "old \<in> set (concat bs)" using f by (simp add: found_def)
    obtain x where x: "ent c old = Some x" using repD(4) [OF cache_invD(1) [OF inv] ob] by blast
    have idle: "old \<in> set us \<longleftrightarrow> ce_ref x = 0" using cache_invD(3) [OF inv] ob by (simp add: refs_ok_def cr_ent [OF x])
    have fil: "filter (\<lambda>a. \<not> found c bs key a) us = remove1 old us"
      using lru_distinct [OF inv] by (simp add: old distinct_remove1_removeAll removeAll_filter_not_eq) (metis)
    show thesis
    proof (cases "ce_ref x = 0")
      case True
      obtain c' where c': "stx_cache_entry_delete c old = Some c'" "cache_inv c' (without {old} bs) (remove1 old us)"
          "c' = deleted (cr c old) c c'" "cores c' = (cores c)(old := None)"
        by (rule delete_idle_inv [OF inv, of old]) (use True idle in auto)
      note d = deleted_fields [OF c'(3)]
      have "cur_size c \<noteq> 0" using cache_invD(4) [OF inv] ob by (metis length_pos_if_in_set less_nat_zero_code tallies_ok_def unat_0)
      then have "cur_size c' \<le> cur_size c" by (simp add: d(2) word_le_nat_alt unat_minus_one)
      moreover have "cur_weight c' \<le> cur_weight c" using evicted_weight [OF c'(3) inv ob] by (simp add: word_le_nat_alt)
      moreover have "{a. found c bs key a \<and> ce_ref (cr c a) = 0} = {old}" using old True cr_ent [OF x] by auto
      ultimately have "replaced c bs key c' (without {old} bs) us (remove1 old us)"
        using d(1) c'(4) True fil by (simp add: replaced_def old cr_ent [OF x])
      moreover have "\<not> found c' (without {old} bs) key a" for a
        using old [of a] d(1) by (auto simp: found_def cr_def c'(4) config_def)
      ultimately show thesis using that [OF r(1)] c'(1,2) Some by simp
    next
      case False
      let ?c = "c\<lparr>ent := (ent c)(old \<mapsto> x\<lparr>ce_pending := True\<rparr>)\<rparr>"
      have del: "stx_cache_entry_delete c old = Some ?c" "cache_inv ?c bs us" using delete_busy_inv [OF inv x] False by auto
      have cores': "cores ?c = (cores c)(old \<mapsto> (core x)\<lparr>ce_pending := True\<rparr>)" by (auto simp: cores_def core_def)
      have none: "{a. a = old \<and> ce_ref (cr c a) = 0} = {}" using False cr_ent [OF x] by auto
      have "remove1 old us = us" using idle False by (simp add: remove1_idem)
      then have "replaced c bs key ?c bs us us"
        using fil False by (simp add: replaced_def old cr_ent [OF x] cores' config_def none)
      moreover have "\<not> found ?c bs key a" for a using old [of a] by (cases "a = old") (auto simp: found_def cr_def cores')
      ultimately show thesis using that [OF r(1)] del Some by simp
    qed
  qed
qed

text \<open>The second half: linking the new entry.\<close>

definition finish_insert :: "eid \<Rightarrow> ('k, 'd) centry \<Rightarrow> ('k, 'd) cache \<Rightarrow> ('k, 'd) cache option" where
  "finish_insert e x c = do {
     c \<leftarrow> link_entry e (bucket_of c (ce_key x)) c;
     c \<leftarrow> upd_ent e (\<lambda>x. x\<lparr>ce_ref := ce_ref x + 1\<rparr>) c;
     Some (c\<lparr>inserts := inserts c + 1, cur_size := cur_size c + 1, cur_weight := cur_weight c + ce_weight x\<rparr>)
   }"

lemma unat_lt64: "unat (w :: size_t) < 2 ^ 64"
  using unsigned_less [of w] by simp

lemma finish_insert_ok:
  assumes inv: "cache_inv c bs us" and fns: "key_fns (key_hash_fn c) (key_cmp_fn c)"
    and e: "e \<notin> set (concat bs)" "ent c e = Some x" and new: "\<forall>a. \<not> found c bs (ce_key x) a"
    and room: "cur_size c < max_size c" "unat (cur_weight c) + unat (ce_weight x) \<le> unat (max_weight c)"
  obtains c' where "finish_insert e x c = Some c'"
    and "cache_inv c' (bs[bucket_of c (ce_key x) := e # bs ! bucket_of c (ce_key x)]) us"
    and "config c' = config c" and "cores c' = (cores c)(e \<mapsto> (core x)\<lparr>ce_ref := 1\<rparr>)" and "cleanups c' = cleanups c"
proof -
  let ?b = "bucket_of c (ce_key x)"
  let ?bs = "bs[?b := e # bs ! ?b]"
  note keys = cache_invD(2) [OF inv]
  have b: "?b < length bs" by (rule bucket_less [OF keys])
  obtain c1 where c1: "link_entry e ?b c = Some c1" "rep c1 ?bs us" "cores c1 = cores c" "c1 = c\<lparr>ent := ent c1, table := table c1\<rparr>"
    by (rule link_ok [OF cache_invD(1) [OF inv] e(1) _ b]) (use e(2) in auto)
  obtain m t where mt: "c1 = c\<lparr>ent := m, table := t\<rparr>" using c1(4) by blast
  have ref: "ce_ref x = 0" "\<not> ce_pending x"
    using cache_invD(3) [OF inv] e by (auto simp: refs_ok_def cores_def)
  obtain y where y: "ent c1 e = Some y" "core y = core x"
    using fun_cong [OF c1(3), of e] e(2) by (auto simp: cores_def)
  then have yf: "ce_ref y = 0" "ce_weight y = ce_weight x" "ce_key y = ce_key x" using ref(1) core_fields by metis+
  define c' where "c' = c1\<lparr>ent := (ent c1)(e \<mapsto> y\<lparr>ce_ref := 1\<rparr>), inserts := inserts c1 + 1, cur_size := cur_size c1 + 1,
      cur_weight := cur_weight c1 + ce_weight x\<rparr>"
  have fin: "finish_insert e x c = Some c'" using c1(1) y(1) yf(1) by (simp add: finish_insert_def upd_ent_def c'_def)
  have conf: "config c' = config c" by (simp add: c'_def mt config_def)
  have "core (y\<lparr>ce_ref := 1\<rparr>) = (core x)\<lparr>ce_ref := 1\<rparr>" unfolding y(2) [symmetric] by (simp add: core_def)
  then have cores': "cores c' = (cores c)(e \<mapsto> (core x)\<lparr>ce_ref := 1\<rparr>)" using c1(3) by (auto simp: c'_def cores_def fun_eq_iff)
  have cr': "cr c' a = (if a = e then (core x)\<lparr>ce_ref := 1\<rparr> else cr c a)" for a by (simp add: cr_def cores')
  obtain ps qs where pq: "concat bs = ps @ qs" "concat ?bs = ps @ e # qs" by (rule concat_push [OF b])
  have mem: "set (concat ?bs) = insert e (set (concat bs))" unfolding pq by auto
  have ne: "a \<noteq> e" if "a \<in> set (concat bs)" for a using that e(1) by blast
  have "rep (c1\<lparr>ent := (ent c1)(e \<mapsto> y\<lparr>ce_ref := 1\<rparr>)\<rparr>) ?bs us" using c1(2) by (simp add: rep_upd [OF y(1)])
  then have "rep c' ?bs us" by (rule rep_scalars [THEN iffD1, rotated -1]) (simp_all add: c'_def)
  moreover have "keys_ok c' ?bs"
  proof -
    have "bucket_of c' (ce_key (cr c' a)) = i" if "i < length bs" "a \<in> set (?bs ! i)" for i a
    proof (cases "a = e")
      case True
      then have "i = ?b" using that e(1) nth_concat_mem [OF that(1)] by (cases "i = ?b") auto
      then show ?thesis using True config_bucket [OF conf] by (simp add: cr')
    next
      case False
      then have "a \<in> set (bs ! i)" using that by (cases "i = ?b") auto
      then show ?thesis using keys that(1) False config_bucket [OF conf] by (simp add: keys_ok_def cr')
    qed
    moreover have "key_cmp_fn c (ce_key x) (ce_key (cr c a)) \<noteq> 0 \<and> key_cmp_fn c (ce_key (cr c a)) (ce_key x) \<noteq> 0"
      if "a \<in> set (concat bs)" "\<not> ce_pending (cr c a)" for a
      using new that key_fns.cmp_sym [OF fns] by (auto simp: found_def)
    then have "\<forall>a \<in> set (concat ?bs). \<forall>a' \<in> set (concat ?bs). a \<noteq> a' \<longrightarrow> \<not> ce_pending (cr c' a) \<longrightarrow> \<not> ce_pending (cr c' a') \<longrightarrow>
        key_cmp_fn c (ce_key (cr c' a)) (ce_key (cr c' a')) \<noteq> 0"
      using keys unfolding keys_ok_def mem by (simp add: cr')
    moreover have "key_cmp_fn c' = key_cmp_fn c" "hash_size c' = hash_size c" using conf by (auto simp: config_def)
    ultimately show ?thesis using keys by (simp add: keys_ok_def)
  qed
  moreover have "refs_ok c' ?bs us"
  proof -
    have "e \<notin> set us" using e(1) repD(7) [OF cache_invD(1) [OF inv]] by blast
    then show ?thesis using cache_invD(3) [OF inv] ne unfolding refs_ok_def mem cores' by (auto simp: cr')
  qed
  moreover have "tallies_ok c' ?bs"
  proof -
    have "weights c' (concat bs) = weights c (concat bs)" by (intro weights_cong) (use ne in \<open>auto simp: cr'\<close>)
    then have "weights c' (concat ?bs) = weights c (concat bs) + unat (ce_weight x)" unfolding pq by (simp add: weights_def cr')
    moreover have lt: "unat (max_size c) < 2 ^ 64" "unat (max_weight c) < 2 ^ 64" by (rule unat_lt64)+
    then have "unat (cur_size c + 1) = unat (cur_size c) + 1"
      using room(1) unat_add_lem [of "cur_size c" 1] by (simp add: word_less_nat_alt)
    moreover have "unat (cur_weight c + ce_weight x) = unat (cur_weight c) + unat (ce_weight x)"
      using room(2) lt(2) unat_add_lem [of "cur_weight c" "ce_weight x"] by simp
    moreover have "cur_size c' = cur_size c + 1" "cur_weight c' = cur_weight c + ce_weight x" by (simp_all add: c'_def mt)
    moreover have "max_size c' = max_size c" "max_weight c' = max_weight c" using conf by (auto simp: config_def)
    moreover have "length (concat ?bs) = length (concat bs) + 1" unfolding pq by simp
    ultimately show ?thesis
      using cache_invD(4) [OF inv] room unfolding tallies_ok_def word_le_nat_alt word_less_nat_alt by simp
  qed
  ultimately have "cache_inv c' ?bs us" by (simp add: cache_inv_def)
  then show thesis using that fin conf cores' by (simp add: c'_def mt)
qed

lemma insert_unfold:
  "stx_cache_entry_insert c e = do {
     (room, c) \<leftarrow> (do { (room, c) \<leftarrow> evict_loop c e; if \<not> room then Some (False, c) else evict_one c });
     if \<not> room then Some (False, c)
     else do {
       x \<leftarrow> ent c e;
       old \<leftarrow> find_entry c (ce_key x);
       c \<leftarrow> (case old of None \<Rightarrow> Some c | Some old \<Rightarrow> stx_cache_entry_delete c old);
       c \<leftarrow> finish_insert e x c;
       Some (True, c)
     }
   }"
  unfolding stx_cache_entry_insert_def finish_insert_def by (auto split: Option.bind_splits)

text \<open>The memory after a successful insertion: \<open>out\<close> were evicted, \<open>e\<close> has one reference, an older entry with the key is gone or pending.\<close>

definition inserted :: "eid list \<Rightarrow> eid \<Rightarrow> ('k, 'd) centry \<Rightarrow> ('k, 'd) cache \<Rightarrow> eid list list \<Rightarrow> eid \<Rightarrow> ('k, 'd) centry option" where
  "inserted out e x c bs = (\<lambda>a.
     if a = e then Some (x\<lparr>ce_ref := 1\<rparr>)
     else if a \<in> set out then None
     else if found c bs (ce_key x) a then (if ce_ref (cr c a) = 0 then None else Some ((cr c a)\<lparr>ce_pending := True\<rparr>))
     else cores c a)"

lemma insert_ok:
  assumes room: "make_room (\<lambda>a. unat (ce_weight (cr c a))) (unat (cur_weight c) + unat (ce_weight x)) (unat (max_weight c))
      (unat (cur_size c)) (unat (max_size c)) us = (ok, out, rest)"
    and inv: "cache_inv c bs us" and fns: "key_fns (key_hash_fn c) (key_cmp_fn c)"
    and e: "e \<notin> set (concat bs)" "cores c e = Some x"
    and fits: "unat (max_weight c) + unat (ce_weight x) < 2 ^ 64"
  shows "\<exists>c' bs' us'. stx_cache_entry_insert c e = Some (ok, c') \<and> cache_inv c' bs' us' \<and> config c' = config c \<and> us = out @ rest \<and>
    (\<not> ok \<longrightarrow> evicted out c c' \<and> bs' = without (set out) bs \<and> us' = rest) \<and>
    (ok \<longrightarrow> cores c' = inserted out e x c bs \<and> us' = filter (\<lambda>a. \<not> found c bs (ce_key x) a) rest \<and>
       set (concat bs') = insert e (set (concat bs) - set out - {a. found c bs (ce_key x) a \<and> ce_ref (cr c a) = 0}))"
proof -
  obtain c1 where c1: "(do { (room, c) \<leftarrow> evict_loop c e; if \<not> room then Some (False, c) else evict_one c }) = Some (ok, c1)"
      "cache_inv c1 (without (set out) bs) rest" "evicted out c c1" "us = out @ rest"
      "ok \<longrightarrow> unat (cur_weight c1) + unat (ce_weight x) \<le> unat (max_weight c1) \<and> cur_size c1 < max_size c1"
    using make_room_ok [OF room inv e refl fits] by blast
  show ?thesis
  proof (cases ok)
    case False
    then have "stx_cache_entry_insert c e = Some (False, c1)" using c1(1) by (simp add: insert_unfold)
    moreover have "config c1 = config c" using c1(3) by (simp add: evicted_def)
    ultimately show ?thesis using False c1(2-4) by (intro exI [of _ c1] exI [of _ "without (set out) bs"] exI [of _ rest]) simp
  next
    case True
    let ?bs = "without (set out) bs"
    have out: "set out \<subseteq> set (concat bs)" using repD(7) [OF cache_invD(1) [OF inv]] c1(4) by auto
    then have eo: "e \<notin> set out" using e(1) by blast
    have conf1: "config c1 = config c" and cores1: "cores c1 = (\<lambda>a. if a \<in> set out then None else cores c a)"
      using c1(3) by (auto simp: evicted_def)
    have cr1: "cr c1 a = cr c a" if "a \<notin> set out" for a using that by (simp add: cr_def cores1)
    have fns1: "key_fns (key_hash_fn c1) (key_cmp_fn c1)" using fns conf1 by (simp add: config_def)
    obtain y where y: "ent c1 e = Some y" "core y = x" using e(2) eo fun_cong [OF cores1, of e] by (auto simp: cores_def)
    have kw: "ce_key y = ce_key x" "ce_weight y = ce_weight x" using y(2) by auto
    have f1: "found c1 ?bs (ce_key x) a \<longleftrightarrow> a \<notin> set out \<and> found c bs (ce_key x) a" for a
      using conf1 cr1 [of a] by (auto simp: found_def config_def)
    obtain r c2 bs2 us2 where c2: "find_entry c1 (ce_key x) = Some r"
        "(case r of None \<Rightarrow> Some c1 | Some old \<Rightarrow> stx_cache_entry_delete c1 old) = Some c2"
        "cache_inv c2 bs2 us2" "replaced c1 ?bs (ce_key x) c2 bs2 rest us2" "\<forall>a. \<not> found c2 bs2 (ce_key x) a"
      by (rule drop_old [OF c1(2) fns1, of "ce_key x"]) blast
    note rep = c2(4) [unfolded replaced_def]
    have nf: "\<not> found c1 ?bs (ce_key x) e" using e(1) by (simp add: found_def)
    have "cores c2 e = Some x" using rep nf y by (simp add: cores_def)
    then obtain z where z: "ent c2 e = Some z" "core z = x" by (auto simp: cores_def)
    have kz: "ce_key z = ce_key x" "ce_weight z = ce_weight x" using z(2) by auto
    have bs2: "set (concat bs2) = set (concat bs) - set out - {a. found c bs (ce_key x) a \<and> ce_ref (cr c a) = 0}"
      using rep f1 cr1 by auto
    have conf2: "config c2 = config c" using rep conf1 by simp
    have fns2: "key_fns (key_hash_fn c2) (key_cmp_fn c2)" using fns conf2 by (simp add: config_def)
    have lim: "max_size c1 = max_size c2" "max_weight c1 = max_weight c2" using conf1 conf2 by (auto simp: config_def)
    have sz: "cur_size c2 < max_size c2" "unat (cur_weight c2) + unat (ce_weight z) \<le> unat (max_weight c2)"
    proof -
      have "cur_size c2 \<le> cur_size c1" "unat (cur_weight c2) \<le> unat (cur_weight c1)" using rep by (auto simp: word_le_nat_alt)
      then show "cur_size c2 < max_size c2" "unat (cur_weight c2) + unat (ce_weight z) \<le> unat (max_weight c2)"
        using c1(5) True lim kz by auto
    qed
    have e2: "e \<notin> set (concat bs2)" using bs2 e(1) by blast
    let ?b = "bucket_of c2 (ce_key z)"
    obtain c' where c': "finish_insert e z c2 = Some c'" "cache_inv c' (bs2[?b := e # bs2 ! ?b]) us2" "config c' = config c2"
        "cores c' = (cores c2)(e \<mapsto> (core z)\<lparr>ce_ref := 1\<rparr>)"
      by (rule finish_insert_ok [OF c2(3) fns2 e2 z(1) _ sz]) (use c2(5) kz in auto)
    have fi: "finish_insert e y c2 = finish_insert e z c2" by (simp add: finish_insert_def kw kz)
    have ins: "stx_cache_entry_insert c e = Some (True, c')"
      unfolding insert_unfold c1(1) using True y(1) c2(1,2) c'(1) by (simp add: kw(1) fi)
    obtain ps qs where "concat bs2 = ps @ qs" "concat (bs2[?b := e # bs2 ! ?b]) = ps @ e # qs"
      by (rule concat_push [OF bucket_less [OF cache_invD(2) [OF c2(3)], of "ce_key z"]])
    then have mem: "set (concat (bs2[?b := e # bs2 ! ?b])) = insert e (set (concat bs2))" by auto
    have "cores c' = inserted out e x c bs"
    proof
      fix a
      show "cores c' a = inserted out e x c bs a"
        using rep f1 [of a] cr1 [of a] z(2) by (auto simp: c'(4) inserted_def cores1)
    qed
    moreover have "us2 = filter (\<lambda>a. \<not> found c bs (ce_key x) a) rest"
    proof -
      have "set out \<inter> set rest = {}" using lru_distinct [OF inv] c1(4) by auto
      then have "filter (\<lambda>a. \<not> found c1 ?bs (ce_key x) a) rest = filter (\<lambda>a. \<not> found c bs (ce_key x) a) rest"
        by (intro filter_cong) (auto simp: f1)
      then show ?thesis using rep by simp
    qed
    ultimately show ?thesis
      using True ins c'(2,3) conf2 c1(4) mem bs2
      by (intro exI [of _ c'] exI [of _ "bs2[?b := e # bs2 ! ?b]"] exI [of _ us2]) simp
  qed
qed

end
