(* ===== verification/Lrucache_Spec.thy ===== *)
theory Lrucache_Spec
  imports Lrucache_Inv
begin

text \<open>
  Creation, traversal and emptying of the cache of extensions/lrucache.c, the sequences of operations its clients may
  perform, and the properties of the cache.
\<close>

section \<open>Creating\<close>

definition fresh_memory :: "(eid \<Rightarrow> ('k, 'd) centry option) \<Rightarrow> bool" where
  "fresh_memory m \<longleftrightarrow> (\<forall>e x. m e = Some x \<longrightarrow> ce_pthis x = None \<and> ce_ref x = 0 \<and> \<not> ce_pending x)"

lemma create_inv:
  assumes "stx_cache_create maxsz maxw hs hash cmp cl ok1 ok2 m h = Some c" and "hs \<noteq> 0" and "fresh_memory m"
  shows "cache_inv c (replicate (unat hs) []) []"
proof -
  have c: "c = \<lparr>max_size = maxsz, cur_size = 0, max_weight = maxw, cur_weight = 0, hash_size = hs,
       table = replicate (unat hs) None, lru = STX_CLIST_INIT_CLIST LruList h, hits = 0, lookups = 0, inserts = 0, deletes = 0,
       key_hash_fn = hash, key_cmp_fn = cmp, cleanup_fn = cl, ent = m, cleanups = []\<rparr>"
    using assms(1) by (auto simp: stx_cache_create_def split: if_splits)
  have none: "concat (replicate (unat hs) []) = []" by simp
  have "rep c (replicate (unat hs) []) []"
    using assms(3) by (auto simp: rep_def c rd_def pt_def STX_CLIST_INIT_CLIST_def fresh_memory_def split: option.splits)
  then show ?thesis
    using assms(2,3) unfolding cache_inv_def keys_ok_def refs_ok_def tallies_ok_def weights_def none
    by (auto simp: c cores_def fresh_memory_def)
qed

lemma entry_create_inv:
  assumes inv: "cache_inv c bs us" and new: "ent c e = None"
  shows "cache_inv (snd (stx_cache_entry_create key data w (Some e) c)) bs us"
proof -
  let ?x = "\<lparr>ce_key = key, ce_data = data, ce_weight = w, ce_next = None, ce_pthis = None, ce_ref = 0, ce_pending = False\<rparr>"
  note r = cache_invD(1) [OF inv]
  have e: "e \<notin> set (concat bs)" using repD(4) [OF r, of e] new by auto
  then have "LruLink e \<notin> set (LruList # map LruLink us)" using repD(7) [OF r] by auto
  then have "is_clist (set_prev (LruLink e) None (set_next (LruLink e) None (lru c))) LruList (map LruLink us)"
    using repD(6) [OF r] by (subst is_clist_cong [of _ _ _ "lru c"]) auto
  then show ?thesis by (intro loose_upd_inv [OF inv e, of "Some ?x"]) (auto simp: stx_cache_entry_create_def config_def)
qed

section \<open>Traversals\<close>

definition kd :: "('k, 'd) cache \<Rightarrow> eid \<Rightarrow> 'k \<times> 'd" where
  "kd c e = (ce_key (cr c e), ce_data (cr c e))"

lemma traverse_chain_ok:
  "chain (rd c) (pt c) p es \<Longrightarrow> \<forall>e \<in> set es. ent c e \<noteq> None \<Longrightarrow>
    traverse_chain c (rd c p) = Some (map (kd c) (filter (\<lambda>e. \<not> ce_pending (cr c e)) es))"
proof (induction es arbitrary: p)
  case Nil
  then show ?case by (subst traverse_chain.simps) simp
next
  case (Cons e es)
  then obtain x where x: "ent c e = Some x" by auto
  have "traverse_chain c (ce_next x) = Some (map (kd c) (filter (\<lambda>e. \<not> ce_pending (cr c e)) es))"
    using Cons.IH [of "NextOf e"] Cons.prems x by (simp add: rd_def)
  then show ?case using Cons.prems x by (subst traverse_chain.simps) (simp add: kd_def cr_ent)
qed

lemma traverse_buckets_ok:
  assumes r: "rep c bs us"
  shows "\<forall>i \<in> set is. i < length bs \<Longrightarrow>
    traverse_buckets c is = Some (map (kd c) (filter (\<lambda>e. \<not> ce_pending (cr c e)) (concat (map (\<lambda>i. bs ! i) is))))"
proof (induction "is")
  case (Cons i "is")
  have "rd c (Bucket i) = table c ! i" using Cons.prems repD(1) [OF r] by (simp add: rd_def)
  moreover have "\<forall>e \<in> set (bs ! i). ent c e \<noteq> None" using nth_concat_mem [of i bs] repD(4) [OF r] Cons.prems by fastforce
  moreover have "chain (rd c) (pt c) (Bucket i) (bs ! i)" using repD(2) [OF r] Cons.prems by simp
  ultimately show ?case using Cons traverse_chain_ok [of c "Bucket i" "bs ! i"] by simp
qed simp

lemma traverse_ok:
  assumes inv: "cache_inv c bs us"
  shows "stx_cache_traverse c = Some (map (kd c) (filter (\<lambda>e. \<not> ce_pending (cr c e)) (concat bs)))"
proof -
  have "unat (hash_size c) = length bs" using cache_invD(2) [OF inv] by (simp add: keys_ok_def)
  then show ?thesis using traverse_buckets_ok [OF cache_invD(1) [OF inv], of "[0..<length bs]"] by (simp add: stx_cache_traverse_def map_nth)
qed

lemma traverse_links_ok:
  assumes "\<forall>i < length qs. go (LruLink (qs ! i)) = Some (if Suc i < length qs then LruLink (qs ! Suc i) else LruList)"
    and "\<forall>e \<in> set qs. ent c e \<noteq> None" and "q = Some (case qs of [] \<Rightarrow> LruList | e # _ \<Rightarrow> LruLink e)"
  shows "traverse_links c go n q = Some (map (kd c) (take n qs))"
  using assms
proof (induction qs arbitrary: n q)
  case Nil
  then show ?case by (cases n) auto
next
  case (Cons e es)
  obtain x where x: "ent c e = Some x" using Cons.prems(2) by auto
  have "go (LruLink e) = Some (case es of [] \<Rightarrow> LruList | e # _ \<Rightarrow> LruLink e)"
    using Cons.prems(1) [rule_format, of 0] by (cases es) auto
  moreover have "\<forall>i < length es. go (LruLink (es ! i)) = Some (if Suc i < length es then LruLink (es ! Suc i) else LruList)"
    using Cons.prems(1) [rule_format, of "Suc _"] by auto
  ultimately have "traverse_links c go m (go (LruLink e)) = Some (map (kd c) (take m es))" for m
    using Cons.IH [of "go (LruLink e)" m] Cons.prems(2) by auto
  then show ?case using Cons.prems(3) x by (cases n) (auto simp: STX_CACHE_ENTRY_PTR_def kd_def cr_ent)
qed

lemma is_clist_nth:
  assumes "is_clist h q xs" and "i < length xs"
  shows "lnext h (xs ! i) = Some (if Suc i < length xs then xs ! Suc i else q)"
    and "lprev h (xs ! i) = Some (if i = 0 then q else xs ! (i - 1))"
proof -
  have xs: "xs = take i xs @ xs ! i # drop (Suc i) xs" by (rule id_take_nth_drop [OF assms(2)])
  then have c: "is_clist h q (take i xs @ xs ! i # drop (Suc i) xs)" using assms(1) by simp
  show "lnext h (xs ! i) = Some (if Suc i < length xs then xs ! Suc i else q)"
    using is_clist_next [OF c] by (simp add: hd_append hd_drop_conv_nth)
  show "lprev h (xs ! i) = Some (if i = 0 then q else xs ! (i - 1))"
    using is_clist_prev [OF c] assms(2) by (auto simp: last_conv_nth)
qed

lemma traverse_lru_ok:
  assumes inv: "cache_inv c bs us"
  shows "stx_cache_traverse_lru c n = Some (map (kd c) (take n us))"
    and "stx_cache_traverse_mru c n = Some (map (kd c) (take n (rev us)))"
proof -
  note r = cache_invD(1) [OF inv]
  note cl = repD(6) [OF r]
  have al: "\<forall>e \<in> set us. ent c e \<noteq> None" using repD(4,7) [OF r] by fastforce
  have "\<forall>i < length us. lnext (lru c) (LruLink (us ! i)) = Some (if Suc i < length us then LruLink (us ! Suc i) else LruList)"
    using is_clist_nth(1) [OF cl] by simp
  then show "stx_cache_traverse_lru c n = Some (map (kd c) (take n us))"
    unfolding stx_cache_traverse_lru_def STX_CLIST_HEAD_def
    by (rule traverse_links_ok [OF _ al]) (use is_clist_head [OF cl] in \<open>cases us; simp\<close>)
  have "lprev (lru c) (LruLink (rev us ! i)) = Some (if Suc i < length (rev us) then LruLink (rev us ! Suc i) else LruList)"
    if i: "i < length (rev us)" for i
    using is_clist_nth(2) [OF cl, of "length us - Suc i"] i by (auto simp: rev_nth)
  then show "stx_cache_traverse_mru c n = Some (map (kd c) (take n (rev us)))"
    unfolding stx_cache_traverse_mru_def STX_CLIST_TAIL_def
    by (intro traverse_links_ok) (use al is_clist_tail [OF cl] in \<open>auto simp: last_map hd_rev split: list.splits\<close>)
qed

section \<open>Deleting and emptying\<close>

definition kill :: "('k, 'd) cache \<Rightarrow> eid \<Rightarrow> ('k, 'd) centry option" where
  "kill c e = (if ce_ref (cr c e) = 0 then None else Some ((cr c e)\<lparr>ce_pending := True\<rparr>))"

definition idle_of :: "('k, 'd) cache \<Rightarrow> eid set \<Rightarrow> eid set" where
  "idle_of c X = {e \<in> X. ce_ref (cr c e) = 0}"

lemma delete_any:
  assumes inv: "cache_inv c bs us" and e: "e \<in> set (concat bs)"
  obtains c' where "stx_cache_entry_delete c e = Some c'" and "cache_inv c' (without (idle_of c {e}) bs) (remove1 e us)"
    and "cores c' = (cores c)(e := kill c e)" and "config c' = config c"
    and "cleanups c' = cleanups c @ (if ce_ref (cr c e) = 0 then logged (cr c e) c else [])"
proof -
  obtain x where x: "ent c e = Some x" using repD(4) [OF cache_invD(1) [OF inv] e] by blast
  have idle: "e \<in> set us \<longleftrightarrow> ce_ref x = 0" using cache_invD(3) [OF inv] e by (simp add: refs_ok_def cr_ent [OF x])
  show thesis
  proof (cases "ce_ref x = 0")
    case True
    then have ie: "idle_of c {e} = {e}" "kill c e = None" by (auto simp: idle_of_def kill_def cr_ent [OF x])
    obtain c' where c': "stx_cache_entry_delete c e = Some c'" "cache_inv c' (without {e} bs) (remove1 e us)"
        "c' = deleted (cr c e) c c'" "cores c' = (cores c)(e := None)"
      by (rule delete_idle_inv [OF inv, of e]) (use True idle in auto)
    show thesis by (rule that [OF c'(1)]) (use c'(2,4) deleted_fields [OF c'(3)] ie True in \<open>simp_all add: cr_ent [OF x]\<close>)
  next
    case False
    then have ie: "idle_of c {e} = {}" "kill c e = Some ((core x)\<lparr>ce_pending := True\<rparr>)" by (auto simp: idle_of_def kill_def cr_ent [OF x])
    have d: "stx_cache_entry_delete c e = Some (c\<lparr>ent := (ent c)(e \<mapsto> x\<lparr>ce_pending := True\<rparr>)\<rparr>)"
      "cache_inv (c\<lparr>ent := (ent c)(e \<mapsto> x\<lparr>ce_pending := True\<rparr>)\<rparr>) bs us"
      using delete_busy_inv [OF inv x] False by auto
    show thesis
      by (rule that [OF d(1)]) (use d(2) ie False idle in \<open>auto simp: cores_def core_def config_def remove1_idem cr_ent [OF x]\<close>)
  qed
qed

lemma chain_next: "chain r t p (ks @ e # es) \<Longrightarrow> r (NextOf e) = (case es of [] \<Rightarrow> None | n # _ \<Rightarrow> Some n)"
  by (induction ks arbitrary: p) (auto split: list.splits)

text \<open>The entries \<open>X\<close> have been deleted: the idle ones are gone, the others pending.\<close>

definition emptied :: "eid set \<Rightarrow> ('k, 'd) cache \<Rightarrow> ('k, 'd) cache \<Rightarrow> bool" where
  "emptied X c c' \<longleftrightarrow> config c' = config c \<and> cores c' = (\<lambda>a. if a \<in> X then kill c a else cores c a)"

lemma emptied_trans:
  assumes "emptied X c c1" and "emptied Y c1 c2" and "X \<inter> Y = {}"
  shows "emptied (X \<union> Y) c c2" and "idle_of c1 Y = idle_of c Y"
proof -
  have "cr c1 a = cr c a" if "a \<in> Y" for a using assms(1,3) that by (auto simp: emptied_def cr_def)
  then have k: "kill c1 a = kill c a" "ce_ref (cr c1 a) = ce_ref (cr c a)" if "a \<in> Y" for a using that by (simp_all add: kill_def)
  then show "emptied (X \<union> Y) c c2" using assms by (auto simp: emptied_def fun_eq_iff)
  show "idle_of c1 Y = idle_of c Y" using k(2) by (auto simp: idle_of_def)
qed

lemma empty_chain_ok:
  "cache_inv c bs us \<Longrightarrow> b < length bs \<Longrightarrow> bs ! b = ks @ es \<Longrightarrow> p = (case es of [] \<Rightarrow> None | e # _ \<Rightarrow> Some e) \<Longrightarrow>
    \<exists>c'. empty_chain c p = Some c' \<and> cache_inv c' (without (idle_of c (set es)) bs) (filter (\<lambda>a. a \<notin> set es) us) \<and> emptied (set es) c c'"
proof (induction es arbitrary: c bs us ks p)
  case Nil
  then show ?case by (subst empty_chain.simps) (simp add: idle_of_def emptied_def fun_eq_iff)
next
  case (Cons e es)
  note r = cache_invD(1) [OF Cons.prems(1)]
  have eb: "e \<in> set (concat bs)" by (rule nth_concat_mem [OF Cons.prems(2)]) (simp add: Cons.prems(3))
  obtain x where x: "ent c e = Some x" using repD(4) [OF r eb] by blast
  have "distinct (bs ! b)" using repD(3) [OF r] Cons.prems(2) by (simp add: distinct_concat_iff)
  then have d: "e \<notin> set ks" "e \<notin> set es" using Cons.prems(3) by auto
  have nx: "ce_next x = (case es of [] \<Rightarrow> None | n # _ \<Rightarrow> Some n)"
    using chain_next [of "rd c" "pt c" "Bucket b" ks e es] repD(2) [OF r Cons.prems(2)] Cons.prems(3) x by (simp add: rd_def)
  obtain c1 where c1: "stx_cache_entry_delete c e = Some c1" "cache_inv c1 (without (idle_of c {e}) bs) (remove1 e us)"
      "cores c1 = (cores c)(e := kill c e)" "config c1 = config c"
    by (rule delete_any [OF Cons.prems(1) eb])
  have em: "emptied {e} c c1" using c1(3,4) by (auto simp: emptied_def)
  have "\<exists>ks'. without (idle_of c {e}) bs ! b = ks' @ es"
  proof (cases "ce_ref (cr c e) = 0")
    case True
    have f: "filter (\<lambda>a. a \<notin> idle_of c {e}) zs = zs" if "e \<notin> set zs" for zs using that by (auto simp: idle_of_def filter_id_conv)
    show ?thesis using True Cons.prems(2,3) f [OF d(1)] f [OF d(2)] by (intro exI [of _ ks]) (simp add: idle_of_def)
  next
    case False
    then have "idle_of c {e} = {}" by (auto simp: idle_of_def)
    then show ?thesis using Cons.prems(3) by (intro exI [of _ "ks @ [e]"]) simp
  qed
  then obtain ks' where ks': "without (idle_of c {e}) bs ! b = ks' @ es" by blast
  obtain c' where c': "empty_chain c1 (ce_next x) = Some c'"
      "cache_inv c' (without (idle_of c1 (set es)) (without (idle_of c {e}) bs)) (filter (\<lambda>a. a \<notin> set es) (remove1 e us))"
      "emptied (set es) c1 c'"
    using Cons.IH [OF c1(2) _ ks' nx] Cons.prems(2) by auto
  have tr: "emptied (set (e # es)) c c'" "idle_of c1 (set es) = idle_of c (set es)"
    using emptied_trans [OF em c'(3)] d(2) by auto
  have un: "idle_of c {e} \<union> idle_of c (set es) = idle_of c (set (e # es))" by (auto simp: idle_of_def)
  have fu: "filter (\<lambda>a. a \<notin> set es) (remove1 e us) = filter (\<lambda>a. a \<notin> set (e # es)) us"
    using lru_distinct [OF Cons.prems(1)] by (simp add: distinct_remove1_removeAll removeAll_filter_not_eq) (metis)
  have "empty_chain c p = Some c'" using Cons.prems(4) x c1(1) c'(1) by (subst empty_chain.simps) simp
  moreover have "cache_inv c' (without (idle_of c (set (e # es))) bs) (filter (\<lambda>a. a \<notin> set (e # es)) us)"
    using c'(2) unfolding tr(2) fu without_simps un .
  ultimately show ?case using tr(1) by blast
qed

lemma empty_buckets_ok:
  "cache_inv c bs us \<Longrightarrow> distinct is \<Longrightarrow> \<forall>i \<in> set is. i < length bs \<Longrightarrow> X = (\<Union>i \<in> set is. set (bs ! i)) \<Longrightarrow>
    \<exists>c'. empty_buckets is c = Some c' \<and> cache_inv c' (without (idle_of c X) bs) (filter (\<lambda>a. a \<notin> X) us) \<and> emptied X c c'"
proof (induction "is" arbitrary: c bs us X)
  case Nil
  then show ?case by (simp add: idle_of_def emptied_def fun_eq_iff)
next
  case (Cons i "is")
  note r = cache_invD(1) [OF Cons.prems(1)]
  have i: "i < length bs" using Cons.prems(3) by simp
  have "table c ! i = rd c (Bucket i)" using i repD(1) [OF r] by (simp add: rd_def)
  then have p: "table c ! i = (case bs ! i of [] \<Rightarrow> None | e # _ \<Rightarrow> Some e)"
    using repD(2) [OF r i] by (cases "bs ! i") auto
  obtain c1 where c1: "empty_chain c (table c ! i) = Some c1"
      "cache_inv c1 (without (idle_of c (set (bs ! i))) bs) (filter (\<lambda>a. a \<notin> set (bs ! i)) us)" "emptied (set (bs ! i)) c c1"
    using empty_chain_ok [OF Cons.prems(1) i _ p, of "[]"] by auto
  let ?Y = "\<Union>j \<in> set is. set (bs ! j)"
  have dis: "set (bs ! i) \<inter> set (bs ! j) = {}" if "j \<in> set is" for j
    using distinct_concat_nth [OF repD(3) [OF r] i] Cons.prems(2,3) that by auto
  have Y: "?Y = (\<Union>j \<in> set is. set (without (idle_of c (set (bs ! i))) bs ! j))"
    using dis Cons.prems(3) by (fastforce simp: idle_of_def)
  obtain c' where c': "empty_buckets is c1 = Some c'"
      "cache_inv c' (without (idle_of c1 ?Y) (without (idle_of c (set (bs ! i))) bs)) (filter (\<lambda>a. a \<notin> ?Y) (filter (\<lambda>a. a \<notin> set (bs ! i)) us))"
      "emptied ?Y c1 c'"
    using Cons.IH [OF c1(2) _ _ Y] Cons.prems(2,3) by auto
  have tr: "emptied (set (bs ! i) \<union> ?Y) c c'" "idle_of c1 ?Y = idle_of c ?Y"
    using emptied_trans [OF c1(3) c'(3)] dis by auto
  have X: "X = set (bs ! i) \<union> ?Y" using Cons.prems(4) by auto
  have un: "idle_of c (set (bs ! i)) \<union> idle_of c ?Y = idle_of c X" by (auto simp: idle_of_def X)
  have fu: "filter (\<lambda>a. a \<notin> ?Y) (filter (\<lambda>a. a \<notin> set (bs ! i)) us) = filter (\<lambda>a. a \<notin> X) us" unfolding X by (simp add: conj_commute)
  have "cache_inv c' (without (idle_of c X) bs) (filter (\<lambda>a. a \<notin> X) us)" using c'(2) unfolding tr(2) fu without_simps un .
  moreover have "emptied X c c'" using tr(1) unfolding X .
  ultimately show ?case using c1(1) c'(1) by simp
qed

lemma empty_ok:
  assumes inv: "cache_inv c bs us"
  obtains c' where "stx_cache_empty c = Some c'" and "cache_inv c' (without (idle_of c (set (concat bs))) bs) []"
    and "emptied (set (concat bs)) c c'"
proof -
  have n: "unat (hash_size c) = length bs" using cache_invD(2) [OF inv] by (simp add: keys_ok_def)
  have "(\<Union>i \<in> set [0..<length bs]. set (bs ! i)) = set (concat bs)"
    using arg_cong [OF map_nth [of bs], of "\<lambda>xs. set (concat xs)"] by (simp add: set_concat)
  moreover have "filter (\<lambda>a. a \<notin> set (concat bs)) us = []" using repD(7) [OF cache_invD(1) [OF inv]] by (auto simp: filter_empty_conv)
  ultimately show thesis
    using empty_buckets_ok [OF inv, of "[0..<length bs]"] that unfolding stx_cache_empty_def n by auto
qed

section \<open>Sequences of operations\<close>

text \<open>
  The operations clients may perform in any order. Pointers must be valid, an entry is inserted only once, and its
  weight together with the capacity fits a \<open>size_t\<close>.
\<close>

inductive cache_step :: "('k, 'd) cache \<Rightarrow> ('k, 'd) cache \<Rightarrow> bool" where
  create: "ent c e = None \<Longrightarrow> cache_step c (snd (stx_cache_entry_create key data w (Some e) c))"
| insert: "ent c e = Some x \<Longrightarrow> ce_pthis x = None \<Longrightarrow> unat (max_weight c) + unat (ce_weight x) < 2 ^ 64 \<Longrightarrow>
    stx_cache_entry_insert c e = Some (ok, c') \<Longrightarrow> cache_step c c'"
| lookup: "stx_cache_entry_lookup c key = Some (r, c') \<Longrightarrow> cache_step c c'"
| release: "ent c e \<noteq> None \<Longrightarrow> stx_cache_entry_release c e = Some c' \<Longrightarrow> cache_step c c'"
| delete: "ent c e \<noteq> None \<Longrightarrow> stx_cache_entry_delete c e = Some c' \<Longrightarrow> cache_step c c'"
| clear: "stx_cache_empty c = Some c' \<Longrightarrow> cache_step c c'"

inductive_cases cache_stepE: "cache_step c c'"

definition cache_good :: "('k, 'd) cache \<Rightarrow> bool" where
  "cache_good c \<longleftrightarrow> key_fns (key_hash_fn c) (key_cmp_fn c) \<and> (\<exists>bs us. cache_inv c bs us)"

lemma loose_iff:
  assumes inv: "cache_inv c bs us" and x: "ent c e = Some x"
  shows "ce_pthis x = None \<longleftrightarrow> e \<notin> set (concat bs)"
proof
  assume n: "ce_pthis x = None"
  show "e \<notin> set (concat bs)"
  proof
    assume "e \<in> set (concat bs)"
    then obtain b p where "pt c e = Some p" by (rule pthis_ok [OF cache_invD(1) [OF inv]]) blast
    then show False using x n by (simp add: pt_def)
  qed
next
  assume "e \<notin> set (concat bs)"
  then have "pt c e = None" by (rule repD(5) [OF cache_invD(1) [OF inv]])
  then show "ce_pthis x = None" using x by (simp add: pt_def)
qed

text \<open>Every operation on a good cache returns, and the cache stays good.\<close>

definition keeps_good :: "('k, 'd) cache \<Rightarrow> ('k, 'd) cache option \<Rightarrow> bool" where
  "keeps_good c r \<longleftrightarrow> (\<exists>c'. r = Some c' \<and> cache_good c' \<and> config c' = config c)"

lemma keeps_goodI:
  assumes "cache_good c" and "r = Some c'" and "cache_inv c' bs us" and "config c' = config c"
  shows "keeps_good c r"
  using assms by (auto simp: keeps_good_def cache_good_def config_def)

lemma lookup_good:
  assumes "cache_good c"
  shows "keeps_good c (map_option snd (stx_cache_entry_lookup c key))"
proof -
  obtain bs us where inv: "cache_inv c bs us" and fns: "key_fns (key_hash_fn c) (key_cmp_fn c)" using assms by (auto simp: cache_good_def)
  show ?thesis
  proof (rule lookup_ok [OF inv fns, of key])
    fix c' assume l: "stx_cache_entry_lookup c key = Some (None, c')" "cache_inv c' bs us" and c': "c' = c\<lparr>lookups := lookups c + 1\<rparr>"
    show ?thesis by (rule keeps_goodI [OF assms _ l(2)]) (use l(1) in simp, simp add: c' config_def)
  next
    fix e c' assume l: "stx_cache_entry_lookup c key = Some (Some e, c')" "cache_inv c' bs (remove1 e us)"
      and c': "c' = c\<lparr>lookups := lookups c + 1, hits := hits c + 1, ent := ent c', lru := lru c'\<rparr>"
    have "config c' = config c" by (subst c') (simp add: config_def)
    then show ?thesis using l(1) by (intro keeps_goodI [OF assms _ l(2)]) simp_all
  qed
qed

lemma release_good:
  assumes "cache_good c" and "ent c e \<noteq> None"
  shows "keeps_good c (stx_cache_entry_release c e)"
proof -
  obtain bs us where inv: "cache_inv c bs us" using assms by (auto simp: cache_good_def)
  obtain x where x: "ent c e = Some x" using assms(2) by auto
  consider "ce_ref x = 0" | "ce_ref x > 1" | "ce_ref x = 1" "ce_pending x" | "ce_ref x = 1" "\<not> ce_pending x" by linarith
  then show ?thesis
  proof cases
    case 1
    then have "stx_cache_entry_release c e = Some c" using x by (simp add: stx_cache_entry_release_def)
    then show ?thesis using assms(1) by (simp add: keeps_good_def)
  next
    case 2
    show ?thesis by (rule keeps_goodI [OF assms(1) release_more [OF inv x 2]]) (simp add: config_def)
  next
    case 3
    obtain c' where c': "stx_cache_entry_release c e = Some c'" "cache_inv c' (without {e} bs) us" "c' = deleted (cr c e) c c'"
      by (rule release_pending [OF inv x 3])
    show ?thesis by (rule keeps_goodI [OF assms(1) c'(1,2)]) (rule deleted_fields(1) [OF c'(3)])
  next
    case 4
    obtain c' where c': "stx_cache_entry_release c e = Some c'" "cache_inv c' bs (us @ [e])"
        "c' = c\<lparr>ent := (ent c)(e \<mapsto> x\<lparr>ce_ref := 0\<rparr>), lru := lru c'\<rparr>"
      by (rule release_idle [OF inv x 4])
    show ?thesis by (rule keeps_goodI [OF assms(1) c'(1,2)]) (subst c'(3), simp add: config_def)
  qed
qed

lemma delete_good:
  assumes "cache_good c" and "ent c e \<noteq> None"
  shows "keeps_good c (stx_cache_entry_delete c e)"
proof -
  obtain bs us where inv: "cache_inv c bs us" using assms by (auto simp: cache_good_def)
  obtain x where x: "ent c e = Some x" using assms(2) by auto
  show ?thesis
  proof (cases "e \<in> set (concat bs)")
    case True
    obtain c' where c': "stx_cache_entry_delete c e = Some c'" "cache_inv c' (without (idle_of c {e}) bs) (remove1 e us)" "config c' = config c"
      by (rule delete_any [OF inv True])
    show ?thesis by (rule keeps_goodI [OF assms(1) c'])
  next
    case False
    show ?thesis by (rule keeps_goodI [OF assms(1) delete_loose_inv [OF inv False x]]) (simp add: config_def)
  qed
qed

lemma insert_good:
  assumes good: "cache_good c" and x: "ent c e = Some x" "ce_pthis x = None" "unat (max_weight c) + unat (ce_weight x) < 2 ^ 64"
  shows "keeps_good c (map_option snd (stx_cache_entry_insert c e))"
proof -
  obtain bs us where inv: "cache_inv c bs us" and fns: "key_fns (key_hash_fn c) (key_cmp_fn c)" using good by (auto simp: cache_good_def)
  have e: "e \<notin> set (concat bs)" using loose_iff [OF inv x(1)] x(2) by simp
  have cx: "cores c e = Some (core x)" using x(1) by (simp add: cores_def)
  obtain ok out rest where room: "make_room (\<lambda>a. unat (ce_weight (cr c a))) (unat (cur_weight c) + unat (ce_weight (core x))) (unat (max_weight c))
      (unat (cur_size c)) (unat (max_size c)) us = (ok, out, rest)" by (metis prod_cases3)
  obtain c' bs' us' where c': "stx_cache_entry_insert c e = Some (ok, c')" "cache_inv c' bs' us'" "config c' = config c"
    using insert_ok [OF room inv fns e cx] x(3) by auto
  show ?thesis by (rule keeps_goodI [OF good _ c'(2,3)]) (simp add: c'(1))
qed

lemma empty_good:
  assumes "cache_good c"
  shows "keeps_good c (stx_cache_empty c)"
proof -
  obtain bs us where inv: "cache_inv c bs us" using assms by (auto simp: cache_good_def)
  obtain c' where c': "stx_cache_empty c = Some c'" "cache_inv c' (without (idle_of c (set (concat bs))) bs) []" "emptied (set (concat bs)) c c'"
    by (rule empty_ok [OF inv])
  show ?thesis by (rule keeps_goodI [OF assms c'(1,2)]) (use c'(3) in \<open>simp add: emptied_def\<close>)
qed

lemma step_good: "cache_step c c' \<Longrightarrow> cache_good c \<Longrightarrow> cache_good c' \<and> config c' = config c"
proof (induction rule: cache_step.induct)
  case (create c e key data w)
  then obtain bs us where c: "cache_inv c bs us" "key_fns (key_hash_fn c) (key_cmp_fn c)" by (auto simp: cache_good_def)
  let ?c = "snd (stx_cache_entry_create key data w (Some e) c)"
  have "config ?c = config c" by (simp add: stx_cache_entry_create_def config_def)
  moreover have "cache_inv ?c bs us" by (rule entry_create_inv [OF c(1) create(1)])
  ultimately show ?case using c(2) unfolding cache_good_def config_def by auto
next
  case (insert c e x ok c')
  then show ?case using insert_good [OF _ insert(1-3)] by (auto simp: keeps_good_def)
next
  case (lookup c key r c')
  then show ?case using lookup_good [of c key] by (auto simp: keeps_good_def)
next
  case (release c e c')
  then show ?case using release_good [of c e] by (auto simp: keeps_good_def)
next
  case (delete c e c')
  then show ?case using delete_good [of c e] by (auto simp: keeps_good_def)
next
  case (clear c c')
  then show ?case using empty_good [of c] by (auto simp: keeps_good_def)
qed

lemma steps_good: "cache_step\<^sup>*\<^sup>* c c' \<Longrightarrow> cache_good c \<Longrightarrow> cache_good c' \<and> config c' = config c"
  by (induction rule: rtranclp_induct) (use step_good in fastforce)+

section \<open>Properties\<close>


text \<open>A cache of two entries and weight 10 with numbers as keys, and two entries of weight 4 and 8 that are not yet in it.\<close>

definition nat_hash :: "nat \<Rightarrow> ulong" where "nat_hash k = of_nat k"
definition nat_cmp :: "nat \<Rightarrow> nat \<Rightarrow> int" where "nat_cmp a b = int a - int b"

lemma nat_key_fns: "key_fns nat_hash nat_cmp"
  by unfold_locales (auto simp: nat_cmp_def)

definition demo_entry :: "nat \<Rightarrow> string \<Rightarrow> size_t \<Rightarrow> (nat, string) centry" where
  "demo_entry k d w = \<lparr>ce_key = k, ce_data = d, ce_weight = w, ce_next = None, ce_pthis = None, ce_ref = 0, ce_pending = False\<rparr>"

definition demo_memory :: "eid \<Rightarrow> (nat, string) centry option" where
  "demo_memory = [1 \<mapsto> demo_entry 5 ''a'' 4, 2 \<mapsto> demo_entry 6 ''b'' 8]"

definition demo_cache :: "(nat, string) cache" where
  "demo_cache = the (stx_cache_create 2 10 4 nat_hash nat_cmp True True True demo_memory \<lparr>lnext = (\<lambda>_. None), lprev = (\<lambda>_. None)\<rparr>)"

lemma demo_memory_fresh: "fresh_memory demo_memory"
  by (auto simp: fresh_memory_def demo_memory_def demo_entry_def split: if_splits)

lemma demo_create: "stx_cache_create 2 10 4 nat_hash nat_cmp True True True demo_memory \<lparr>lnext = (\<lambda>_. None), lprev = (\<lambda>_. None)\<rparr> = Some demo_cache"
  by (simp add: demo_cache_def stx_cache_create_def)

lemma demo_cache_inv: "cache_inv demo_cache (replicate 4 []) []"
  using create_inv [OF demo_create _ demo_memory_fresh] by simp

lemma demo_cache_fields:
  "key_hash_fn demo_cache = nat_hash" "key_cmp_fn demo_cache = nat_cmp" "ent demo_cache = demo_memory" "max_weight demo_cache = 10"
  "max_size demo_cache = 2" "cur_size demo_cache = 0" "cur_weight demo_cache = 0" "cleanup_fn demo_cache"
  by (simp_all add: demo_cache_def stx_cache_create_def)


text \<open>
  C23: Which entries \<open>stx_cache_entry_insert\<close> evicts. They leave in LRU order, the shortest prefix of the LRU list that makes
  room for the weight of the new entry and then at most one more for its place; no entry in use is evicted. If idle entries
  do not suffice the call fails, with the evicted entries gone and the new one not in the table. On success the table holds
  the new entry with one reference and everything else it held, except the evicted entries and an idle older entry with the
  same key; one in use stays until it is released, but is marked as deleted.
\<close>

theorem insert_evicts_lru:
  assumes "cache_inv c bs us" and "key_fns (key_hash_fn c) (key_cmp_fn c)" and "e \<notin> set (concat bs)" and "cores c e = Some x"
    and "unat (max_weight c) + unat (ce_weight x) < 2 ^ 64"
    and "make_room (\<lambda>a. unat (ce_weight (cr c a))) (unat (cur_weight c) + unat (ce_weight x)) (unat (max_weight c))
      (unat (cur_size c)) (unat (max_size c)) us = (ok, out, rest)"
  shows "\<exists>c' bs' us'. stx_cache_entry_insert c e = Some (ok, c') \<and> cache_inv c' bs' us' \<and> config c' = config c \<and> us = out @ rest \<and>
    (\<not> ok \<longrightarrow> evicted out c c' \<and> bs' = without (set out) bs \<and> us' = rest) \<and>
    (ok \<longrightarrow> cores c' = inserted out e x c bs \<and> us' = filter (\<lambda>a. \<not> found c bs (ce_key x) a) rest \<and>
       set (concat bs') = insert e (set (concat bs) - set out - {a. found c bs (ce_key x) a \<and> ce_ref (cr c a) = 0}))"
  using insert_ok [OF assms(6,1-5)] .

theorem insert_evicts_lru_witness:
  "\<exists>c' bs' us'. stx_cache_entry_insert demo_cache 1 = Some (True, c') \<and> cache_inv c' bs' us' \<and> set (concat bs') = {1}"
proof -
  have e: "cores demo_cache 1 = Some (demo_entry 5 ''a'' 4)" by (simp add: cores_def demo_cache_fields demo_memory_def core_def demo_entry_def)
  have "make_room (\<lambda>a. unat (ce_weight (cr demo_cache a))) (unat (cur_weight demo_cache) + unat (ce_weight (demo_entry 5 ''a'' 4)))
      (unat (max_weight demo_cache)) (unat (cur_size demo_cache)) (unat (max_size demo_cache)) [] = (True, [], [])"
    by (simp add: make_room_def demo_cache_fields demo_entry_def)
  moreover have "concat (replicate 4 []) = ([] :: eid list)" by simp
  ultimately show ?thesis
    using insert_evicts_lru [OF demo_cache_inv _ _ e, of True "[]" "[]"] nat_key_fns
    by (auto simp: demo_cache_fields demo_entry_def)
qed

lemma found_iff_lookup:
  assumes "cache_inv c bs us" and "key_fns (key_hash_fn c) (key_cmp_fn c)" and "stx_cache_entry_lookup c key = Some (r, c')"
  shows "r = Some e \<longleftrightarrow> found c bs key e"
  by (rule lookup_ok [OF assms(1,2), of key]) (use assms(3) found_unique [OF assms(1,2)] in auto)

lemma found_after_insert:
  assumes inv: "cache_inv c bs us" and fns: "key_fns (key_hash_fn c) (key_cmp_fn c)" and e: "e \<notin> set (concat bs)" "cores c e = Some x"
    and c': "config c' = config c" "cores c' = inserted out e x c bs"
      "set (concat bs') = insert e (set (concat bs) - set out - {a. found c bs (ce_key x) a \<and> ce_ref (cr c a) = 0})"
  shows "found c' bs' k a \<longleftrightarrow> (if key_cmp_fn c k (ce_key x) = 0 then a = e else found c bs k a \<and> a \<notin> set out)"
proof -
  have cmp: "key_cmp_fn c' = key_cmp_fn c" using c'(1) by (simp add: config_def)
  have pe: "\<not> ce_pending x" using cache_invD(3) [OF inv] e by (auto simp: refs_ok_def)
  have tr: "key_cmp_fn c k (ce_key x) = 0" if "found c bs (ce_key x) b" "key_cmp_fn c k (ce_key (cr c b)) = 0" for b
    using that key_fns.cmp_sym [OF fns] key_fns.cmp_trans [OF fns] unfolding found_def by blast
  have rt: "found c bs (ce_key x) b \<longleftrightarrow> found c bs k b" if "key_cmp_fn c k (ce_key x) = 0" for b
    using that key_fns.cmp_left [OF fns] unfolding found_def by blast
  show ?thesis
  proof (cases "a = e")
    case True
    then have "cr c' a = x\<lparr>ce_ref := 1\<rparr>" by (simp add: cr_def c'(2) inserted_def)
    then show ?thesis using True pe e(1) by (simp add: found_def c'(3) cmp)
  next
    case ne: False
    show ?thesis
    proof (cases "found c bs (ce_key x) a")
      case True
      have "\<not> found c' bs' k a" using True ne by (auto simp: found_def c'(3) cr_def c'(2) inserted_def)
      moreover have "\<not> found c bs k a" if "key_cmp_fn c k (ce_key x) \<noteq> 0" using tr [OF True] that by (auto simp: found_def)
      ultimately show ?thesis using ne by auto
    next
      case False
      have "cr c' a = cr c a" if "a \<notin> set out" using that False ne by (simp add: cr_def c'(2) inserted_def)
      then have "found c' bs' k a \<longleftrightarrow> found c bs k a \<and> a \<notin> set out" using ne False by (auto simp: found_def c'(3) cmp)
      then show ?thesis using False rt ne by auto
    qed
  qed
qed

text \<open>
  C24: Insert and look up. After a successful insertion a lookup of an equal key returns the new entry with its data, now with two
  references (the one of the insertion and that of the lookup); a lookup of any other key returns what it would have returned
  before, unless that entry was idle and has been evicted.
\<close>

theorem insert_then_lookup:
  assumes inv: "cache_inv c bs us" and fns: "key_fns (key_hash_fn c) (key_cmp_fn c)" and e: "e \<notin> set (concat bs)" "cores c e = Some x"
    and fits: "unat (max_weight c) + unat (ce_weight x) < 2 ^ 64" and ins: "stx_cache_entry_insert c e = Some (True, c')"
  shows "(key_cmp_fn c k (ce_key x) = 0 \<longrightarrow> (\<exists>c2. stx_cache_entry_lookup c' k = Some (Some e, c2) \<and>
      stx_cache_entry_getdata c2 e = Some (ce_data x) \<and> ce_ref (cr c2 e) = 2)) \<and>
    (key_cmp_fn c k (ce_key x) \<noteq> 0 \<longrightarrow> (\<exists>r c1 r' c2. stx_cache_entry_lookup c k = Some (r, c1) \<and> stx_cache_entry_lookup c' k = Some (r', c2) \<and>
      (r' = r \<or> r' = None \<and> (\<exists>a \<in> set us. r = Some a))))"
proof -
  obtain out rest where room: "make_room (\<lambda>a. unat (ce_weight (cr c a))) (unat (cur_weight c) + unat (ce_weight x)) (unat (max_weight c))
      (unat (cur_size c)) (unat (max_size c)) us = (True, out, rest)"
  proof -
    obtain ok out rest where r: "make_room (\<lambda>a. unat (ce_weight (cr c a))) (unat (cur_weight c) + unat (ce_weight x)) (unat (max_weight c))
      (unat (cur_size c)) (unat (max_size c)) us = (ok, out, rest)" by (metis prod_cases3)
    then have "ok" using insert_ok [OF r inv fns e fits] ins by auto
    then show thesis using that r by simp
  qed
  obtain bs' us' where c': "cache_inv c' bs' us'" "config c' = config c" "us = out @ rest" "cores c' = inserted out e x c bs"
      "set (concat bs') = insert e (set (concat bs) - set out - {a. found c bs (ce_key x) a \<and> ce_ref (cr c a) = 0})"
    using insert_ok [OF room inv fns e fits] ins by auto
  note fa = found_after_insert [OF inv fns e c'(2,4,5)]
  have fns': "key_fns (key_hash_fn c') (key_cmp_fn c')" using fns c'(2) by (simp add: config_def)
  have ref: "cr c' e = x\<lparr>ce_ref := 1\<rparr>" by (simp add: cr_def c'(4) inserted_def)
  have "\<exists>c2. stx_cache_entry_lookup c' k = Some (Some e, c2) \<and> stx_cache_entry_getdata c2 e = Some (ce_data x) \<and> ce_ref (cr c2 e) = 2"
    if k: "key_cmp_fn c k (ce_key x) = 0"
  proof (rule lookup_ok [OF c'(1) fns', of k])
    fix a c2 assume l: "stx_cache_entry_lookup c' k = Some (Some a, c2)" "found c' bs' k a"
      "cores c2 = (cores c')(a \<mapsto> (cr c' a)\<lparr>ce_ref := ce_ref (cr c' a) + 1\<rparr>)"
    have a: "a = e" using fa [of k a] k l(2) by simp
    have c2e: "cores c2 e = Some (x\<lparr>ce_ref := 2\<rparr>)" using l(3) by (simp add: a ref)
    then obtain y where y: "ent c2 e = Some y" "core y = x\<lparr>ce_ref := 2\<rparr>" by (auto simp: cores_def)
    then have "ce_data y = ce_data x" using core_fields(2) [of y] by simp
    then show ?thesis using l(1) a y(1) c2e by (auto simp: stx_cache_entry_getdata_def cr_def)
  next
    assume "\<forall>a. \<not> found c' bs' k a"
    then show ?thesis using fa [of k e] k by simp
  qed
  moreover have "\<exists>r c1 r' c2. stx_cache_entry_lookup c k = Some (r, c1) \<and> stx_cache_entry_lookup c' k = Some (r', c2) \<and>
      (r' = r \<or> r' = None \<and> (\<exists>a \<in> set us. r = Some a))" if k: "key_cmp_fn c k (ce_key x) \<noteq> 0"
  proof -
    obtain r c1 where l: "stx_cache_entry_lookup c k = Some (r, c1)" by (rule lookup_ok [OF inv fns, of k])
    obtain r' c2 where l': "stx_cache_entry_lookup c' k = Some (r', c2)" by (rule lookup_ok [OF c'(1) fns', of k])
    have eq: "r' = Some a \<longleftrightarrow> r = Some a \<and> a \<notin> set out" for a
      using found_iff_lookup [OF inv fns l, of a] found_iff_lookup [OF c'(1) fns' l', of a] fa [of k a] k by simp
    have "r' = r \<or> r' = None \<and> (\<exists>a \<in> set us. r = Some a)"
    proof (cases r')
      case None
      then show ?thesis using eq [of "the r"] c'(3) by (cases r) auto
    qed (use eq [of "the r'"] in simp)
    then show ?thesis using l l' by blast
  qed
  ultimately show ?thesis by blast
qed

theorem insert_then_lookup_witness:
  "\<exists>c' c2. stx_cache_entry_insert demo_cache 1 = Some (True, c') \<and> stx_cache_entry_lookup c' 5 = Some (Some 1, c2) \<and>
     stx_cache_entry_getdata c2 1 = Some ''a''"
proof -
  have e: "cores demo_cache 1 = Some (demo_entry 5 ''a'' 4)" by (simp add: cores_def demo_cache_fields demo_memory_def core_def demo_entry_def)
  have "make_room (\<lambda>a. unat (ce_weight (cr demo_cache a))) (unat (cur_weight demo_cache) + unat (ce_weight (demo_entry 5 ''a'' 4)))
      (unat (max_weight demo_cache)) (unat (cur_size demo_cache)) (unat (max_size demo_cache)) [] = (True, [], [])"
    by (simp add: make_room_def demo_cache_fields demo_entry_def)
  then obtain c' where c': "stx_cache_entry_insert demo_cache 1 = Some (True, c')"
    using insert_ok [OF _ demo_cache_inv _ _ e, of True "[]" "[]"] nat_key_fns by (auto simp: demo_cache_fields demo_entry_def)
  show ?thesis
    using insert_then_lookup [OF demo_cache_inv _ _ e _ c', of 5] nat_key_fns c' by (auto simp: demo_cache_fields demo_entry_def nat_cmp_def)
qed

text \<open>\<open>n\<close> releases in a row.\<close>

primrec release_n :: "nat \<Rightarrow> ('k, 'd) cache \<Rightarrow> eid \<Rightarrow> ('k, 'd) cache option" where
  "release_n 0 c e = Some c"
| "release_n (Suc n) c e = do { c \<leftarrow> stx_cache_entry_release c e; release_n n c e }"

lemma release_n_snoc: "release_n (Suc n) c e = do { c \<leftarrow> release_n n c e; stx_cache_entry_release c e }"
proof (induction n arbitrary: c)
  case (Suc n)
  show ?case
  proof (cases "stx_cache_entry_release c e")
    case (Some c1)
    then have "release_n (Suc (Suc n)) c e = release_n (Suc n) c1 e" "release_n (Suc n) c e = release_n n c1 e" by simp_all
    then show ?thesis using Suc.IH [of c1] by simp
  qed simp
qed simp

lemma release_n_more:
  "cache_inv c bs us \<Longrightarrow> ent c e = Some x \<Longrightarrow> n < ce_ref x \<Longrightarrow>
    \<exists>c'. release_n n c e = Some c' \<and> cache_inv c' bs us \<and> c' = c\<lparr>ent := (ent c)(e \<mapsto> x\<lparr>ce_ref := ce_ref x - n\<rparr>)\<rparr>"
proof (induction n arbitrary: c x)
  case 0
  then show ?case by (simp add: map_upd_triv)
next
  case (Suc n)
  let ?x = "x\<lparr>ce_ref := ce_ref x - 1\<rparr>" let ?c = "c\<lparr>ent := (ent c)(e \<mapsto> x\<lparr>ce_ref := ce_ref x - 1\<rparr>)\<rparr>"
  have r: "stx_cache_entry_release c e = Some ?c" "cache_inv ?c bs us" using release_more [OF Suc.prems(1,2)] Suc.prems(3) by auto
  have x: "ent ?c e = Some ?x" "n < ce_ref ?x" using Suc.prems(3) by simp_all
  obtain c' where c': "release_n n ?c e = Some c'" "cache_inv c' bs us" "c' = ?c\<lparr>ent := (ent ?c)(e \<mapsto> ?x\<lparr>ce_ref := ce_ref ?x - n\<rparr>)\<rparr>"
    using Suc.IH [OF r(2) x] by blast
  have "c' = c\<lparr>ent := (ent c)(e \<mapsto> x\<lparr>ce_ref := ce_ref x - Suc n\<rparr>)\<rparr>" unfolding c'(3) by (rule cache.equality) auto
  moreover have "release_n (Suc n) c e = Some c'" using c'(1) r(1) by simp
  ultimately show ?case using c'(2) by blast
qed

text \<open>
  Deleting an entry that is in use is deferred. It returns at once, and no later lookup finds the entry, but its data stays
  readable and the cleanup function is not called until the last reference is released; that release calls the cleanup
  function exactly once, frees the entry and takes it off the size of the cache.
\<close>

theorem delete_deferred:
  assumes inv: "cache_inv c bs us" and fns: "key_fns (key_hash_fn c) (key_cmp_fn c)" and x: "ent c e = Some x" "ce_ref x > 0"
  shows "\<exists>c1. stx_cache_entry_delete c e = Some c1 \<and> cleanups c1 = cleanups c \<and>
    (\<forall>k r c2. stx_cache_entry_lookup c1 k = Some (r, c2) \<longrightarrow> r \<noteq> Some e) \<and>
    (\<forall>n < ce_ref x. \<exists>c2. release_n n c1 e = Some c2 \<and> stx_cache_entry_getdata c2 e = Some (ce_data x) \<and> cleanups c2 = cleanups c) \<and>
    (\<exists>c2. release_n (ce_ref x) c1 e = Some c2 \<and> ent c2 e = None \<and> cleanups c2 = cleanups c @ logged x c \<and>
       stx_cache_getsize c2 = stx_cache_getsize c - 1)"
proof -
  let ?x = "x\<lparr>ce_pending := True\<rparr>"
  define c1 where "c1 = c\<lparr>ent := (ent c)(e \<mapsto> ?x)\<rparr>"
  have d: "stx_cache_entry_delete c e = Some c1" "cache_inv c1 bs us" using delete_busy_inv [OF inv x] by (simp_all add: c1_def)
  have e1: "ent c1 e = Some ?x" by (simp add: c1_def)
  have fns1: "key_fns (key_hash_fn c1) (key_cmp_fn c1)" using fns by (simp add: c1_def)
  have "\<not> found c1 bs k e" for k using cr_ent [OF e1] by (simp add: found_def)
  then have "r \<noteq> Some e" if "stx_cache_entry_lookup c1 k = Some (r, c2)" for k r c2
    using found_iff_lookup [OF d(2) fns1 that] by simp
  moreover have rel: "\<exists>c2. release_n n c1 e = Some c2 \<and> cache_inv c2 bs us \<and> c2 = c1\<lparr>ent := (ent c1)(e \<mapsto> ?x\<lparr>ce_ref := ce_ref x - n\<rparr>)\<rparr>"
    if "n < ce_ref x" for n using release_n_more [OF d(2) e1, of n] that by simp
  then have "\<exists>c2. release_n n c1 e = Some c2 \<and> stx_cache_entry_getdata c2 e = Some (ce_data x) \<and> cleanups c2 = cleanups c"
    if "n < ce_ref x" for n using that by (fastforce simp: stx_cache_entry_getdata_def c1_def)
  moreover have "\<exists>c2. release_n (ce_ref x) c1 e = Some c2 \<and> ent c2 e = None \<and> cleanups c2 = cleanups c @ logged x c \<and>
       stx_cache_getsize c2 = stx_cache_getsize c - 1"
  proof -
    obtain c2 where c2: "release_n (ce_ref x - 1) c1 e = Some c2" "cache_inv c2 bs us" "c2 = c1\<lparr>ent := (ent c1)(e \<mapsto> ?x\<lparr>ce_ref := 1\<rparr>)\<rparr>"
      using rel [of "ce_ref x - 1"] x(2) by auto
    have e2: "ent c2 e = Some (?x\<lparr>ce_ref := 1\<rparr>)" by (simp add: c2(3))
    obtain c3 where c3: "stx_cache_entry_release c2 e = Some c3" "c3 = deleted (cr c2 e) c2 c3" "cores c3 = (cores c2)(e := None)"
      by (rule release_pending [OF c2(2) e2]) auto
    note f = deleted_fields [OF c3(2)]
    have "release_n (ce_ref x) c1 e = Some c3" using release_n_snoc [of "ce_ref x - 1" c1 e] c2(1) c3(1) x(2) by simp
    moreover have "ent c3 e = None" using fun_cong [OF c3(3), of e] cores_ent [of c3 e] by simp
    moreover have "logged (cr c2 e) c2 = logged x c" by (simp add: logged_def cr_ent [OF e2]) (simp add: c2(3) c1_def)
    ultimately show ?thesis using f by (auto simp: stx_cache_getsize_def c2(3) c1_def)
  qed
  ultimately show ?thesis using d(1) by (intro exI [of _ c1]) (simp add: c1_def)
qed

lemma demo_inserted:
  obtains c bs us x where "stx_cache_entry_insert demo_cache 1 = Some (True, c)" and "cache_inv c bs us" and "config c = config demo_cache"
    and "ent c 1 = Some x" and "ce_ref x = 1" and "ce_key x = 5" and "ce_data x = ''a''" and "\<not> ce_pending x"
proof -
  have e: "cores demo_cache 1 = Some (demo_entry 5 ''a'' 4)" by (simp add: cores_def demo_cache_fields demo_memory_def core_def demo_entry_def)
  have "make_room (\<lambda>a. unat (ce_weight (cr demo_cache a))) (unat (cur_weight demo_cache) + unat (ce_weight (demo_entry 5 ''a'' 4)))
      (unat (max_weight demo_cache)) (unat (cur_size demo_cache)) (unat (max_size demo_cache)) [] = (True, [], [])"
    by (simp add: make_room_def demo_cache_fields demo_entry_def)
  then obtain c bs us where c: "stx_cache_entry_insert demo_cache 1 = Some (True, c)" "cache_inv c bs us" "config c = config demo_cache"
      "cores c = inserted [] 1 (demo_entry 5 ''a'' 4) demo_cache (replicate 4 [])"
    using insert_ok [OF _ demo_cache_inv _ _ e, of True "[]" "[]"] nat_key_fns by (auto simp: demo_cache_fields demo_entry_def)
  obtain x where x: "ent c 1 = Some x" "core x = (demo_entry 5 ''a'' 4)\<lparr>ce_ref := 1\<rparr>"
    using fun_cong [OF c(4), of 1] by (auto simp: inserted_def cores_def)
  show thesis
    using that [OF c(1-3) x(1)] core_fields [of x] unfolding x(2) by (simp add: demo_entry_def)
qed

theorem delete_deferred_witness:
  "\<exists>c c1 c2. stx_cache_entry_insert demo_cache 1 = Some (True, c) \<and> stx_cache_entry_delete c 1 = Some c1 \<and> cleanups c1 = cleanups c \<and>
     release_n 1 c1 1 = Some c2 \<and> cleanups c2 = cleanups c @ [(5, ''a'')]"
proof -
  obtain c bs us x where c: "stx_cache_entry_insert demo_cache 1 = Some (True, c)" "cache_inv c bs us" "config c = config demo_cache"
      "ent c 1 = Some x" "ce_ref x = 1" "ce_key x = 5" "ce_data x = ''a''"
    by (rule demo_inserted)
  have "key_fns (key_hash_fn c) (key_cmp_fn c)" "cleanup_fn c" using c(3) nat_key_fns by (simp_all add: config_def demo_cache_fields)
  then show ?thesis using delete_deferred [OF c(2) _ c(4)] c(1,5-7) by (auto simp: logged_def)
qed

text \<open>
  The LRU list is ordered by the last release. A lookup takes an idle entry off the list and its release puts it at the end, the
  most recently used position, with everything else in its old order and no entry changed; the traversals report the entries in
  this order, from either end.
\<close>

theorem lookup_release_recency:
  assumes inv: "cache_inv c bs us" and fns: "key_fns (key_hash_fn c) (key_cmp_fn c)" and e: "e \<in> set us"
    and k: "key_cmp_fn c key (ce_key (cr c e)) = 0"
  shows "\<exists>c1 c2. stx_cache_entry_lookup c key = Some (Some e, c1) \<and> stx_cache_traverse_lru c1 n = Some (map (kd c) (take n (remove1 e us))) \<and>
    stx_cache_entry_release c1 e = Some c2 \<and> stx_cache_traverse_lru c2 n = Some (map (kd c) (take n (remove1 e us @ [e]))) \<and>
    stx_cache_traverse_mru c2 n = Some (map (kd c) (take n (e # rev (remove1 e us)))) \<and> cores c2 = cores c"
proof -
  have eb: "e \<in> set (concat bs)" using repD(7) [OF cache_invD(1) [OF inv]] e by blast
  have cr0: "ce_ref (cr c e) = 0" "\<not> ce_pending (cr c e)" using cache_invD(3) [OF inv] e eb by (auto simp: refs_ok_def)
  then have f: "found c bs key e" using eb k by (simp add: found_def)
  show ?thesis
  proof (rule lookup_ok [OF inv fns, of key])
    fix a c1 assume l: "stx_cache_entry_lookup c key = Some (Some a, c1)" "found c bs key a" "cache_inv c1 bs (remove1 a us)"
      "cores c1 = (cores c)(a \<mapsto> (cr c a)\<lparr>ce_ref := ce_ref (cr c a) + 1\<rparr>)"
    have a: "a = e" by (rule found_unique [OF inv fns l(2) f])
    obtain x where x: "ent c1 e = Some x" "core x = (cr c e)\<lparr>ce_ref := 1\<rparr>"
      using fun_cong [OF l(4), of e] cr0(1) by (auto simp: a cores_def)
    have xf: "ce_ref x = 1" "\<not> ce_pending x" using core_fields [of x] cr0(2) unfolding x(2) by auto
    obtain c2 where c2: "stx_cache_entry_release c1 e = Some c2" "cache_inv c2 bs (remove1 e us @ [e])"
        "c2 = c1\<lparr>ent := (ent c1)(e \<mapsto> x\<lparr>ce_ref := 0\<rparr>), lru := lru c2\<rparr>"
      by (rule release_idle [OF l(3) [unfolded a] x(1) xf])
    have some: "cores c e = Some (cr c e)" using repD(4) [OF cache_invD(1) [OF inv] eb] by (auto simp: cr_def cores_def)
    have "core (x\<lparr>ce_ref := 0\<rparr>) = (core x)\<lparr>ce_ref := 0\<rparr>" by (simp add: core_def)
    then have "core (x\<lparr>ce_ref := 0\<rparr>) = cr c e" using cr0(1) by (simp add: x(2))
    moreover have "ent c2 = (ent c1)(e \<mapsto> x\<lparr>ce_ref := 0\<rparr>)" by (subst c2(3)) simp
    ultimately have "cores c2 b = cores c b" for b
      using some fun_cong [OF l(4), of b] by (cases "b = e") (auto simp: a cores_def)
    then have co: "cores c2 = cores c" by blast
    have "kd c1 b = kd c b" for b by (cases "b = e") (simp_all add: kd_def cr_def l(4) a)
    moreover have "kd c2 b = kd c b" for b by (simp add: kd_def cr_def co)
    ultimately have kdeq: "kd c1 = kd c" "kd c2 = kd c" by blast+
    show ?thesis
      using l(1) c2(1) co traverse_lru_ok [OF l(3)] traverse_lru_ok [OF c2(2)] unfolding kdeq by (simp add: a)
  qed (use f in auto)
qed

theorem lookup_release_recency_witness:
  "\<exists>c c1 c2. stx_cache_entry_lookup c 5 = Some (Some 1, c1) \<and> stx_cache_entry_release c1 1 = Some c2 \<and>
     stx_cache_traverse_mru c2 1 = Some [(5 :: nat, ''a'')]"
proof -
  obtain c0 bs us x where c0: "stx_cache_entry_insert demo_cache 1 = Some (True, c0)" "cache_inv c0 bs us" "config c0 = config demo_cache"
      "ent c0 1 = Some x" "ce_ref x = 1" "ce_key x = 5" "ce_data x = ''a''" "\<not> ce_pending x"
    by (rule demo_inserted)
  obtain c where c: "stx_cache_entry_release c0 1 = Some c" "cache_inv c bs (us @ [1])"
      "c = c0\<lparr>ent := (ent c0)(1 \<mapsto> x\<lparr>ce_ref := 0\<rparr>), lru := lru c\<rparr>"
    by (rule release_idle [OF c0(2,4,5,8)])
  have e: "ent c 1 = Some (x\<lparr>ce_ref := 0\<rparr>)" by (subst c(3)) simp
  have "config c = config c0" by (subst c(3)) (simp add: config_def)
  then have "key_fns (key_hash_fn c) (key_cmp_fn c)" "key_cmp_fn c = nat_cmp"
    using c0(3) nat_key_fns by (auto simp: config_def demo_cache_fields)
  moreover have "ce_key (cr c 1) = 5" "kd c 1 = (5, ''a'')" using cr_ent [OF e] c0(6,7) by (simp_all add: kd_def)
  ultimately show ?thesis using lookup_release_recency [OF c(2), of 1 5 1] by (auto simp: nat_cmp_def)
qed

text \<open>
  \<open>stx_cache_empty\<close> removes everything that is not in use: afterwards no key is found, the traversals report nothing, the idle
  entries are freed, and exactly the entries in use are left, marked as deleted, and still counted.
\<close>

theorem cache_empty_clears:
  assumes inv: "cache_inv c bs us" and fns: "key_fns (key_hash_fn c) (key_cmp_fn c)"
  shows "\<exists>c'. stx_cache_empty c = Some c' \<and> stx_cache_traverse c' = Some [] \<and> stx_cache_traverse_lru c' n = Some [] \<and>
    (\<exists>c2. stx_cache_entry_lookup c' key = Some (None, c2)) \<and>
    (\<forall>e \<in> set (concat bs). ent c' e = None \<longleftrightarrow> ce_ref (cr c e) = 0) \<and>
    unat (stx_cache_getsize c') = length (filter (\<lambda>e. ce_ref (cr c e) > 0) (concat bs))"
proof -
  let ?bs = "without (idle_of c (set (concat bs))) bs"
  obtain c' where c': "stx_cache_empty c = Some c'" "cache_inv c' ?bs []" "emptied (set (concat bs)) c c'" by (rule empty_ok [OF inv])
  have k: "cores c' e = kill c e" if "e \<in> set (concat bs)" for e
    using c'(3) that by (auto simp: emptied_def)
  have conf: "config c' = config c" using c'(3) by (simp add: emptied_def)
  have fns': "key_fns (key_hash_fn c') (key_cmp_fn c')" using fns conf by (simp add: config_def)
  have mem: "concat ?bs = filter (\<lambda>e. ce_ref (cr c e) > 0) (concat bs)" by (auto simp: idle_of_def intro: filter_cong)
  have pend: "ce_pending (cr c' e)" if "e \<in> set (concat ?bs)" for e
    using that k [of e] unfolding mem by (auto simp: cr_def kill_def)
  have "stx_cache_traverse c' = Some []" using traverse_ok [OF c'(2)] pend by (fastforce simp: filter_empty_conv)
  moreover have "stx_cache_traverse_lru c' n = Some []" using traverse_lru_ok(1) [OF c'(2)] by simp
  moreover have "\<exists>c2. stx_cache_entry_lookup c' key = Some (None, c2)"
    by (rule lookup_ok [OF c'(2) fns', of key]) (use pend in \<open>auto simp: found_def\<close>)
  moreover have "ent c' e = None \<longleftrightarrow> ce_ref (cr c e) = 0" if "e \<in> set (concat bs)" for e
    using k [OF that] cores_ent [of c' e] by (auto simp: kill_def split: if_splits)
  moreover have "unat (stx_cache_getsize c') = length (concat ?bs)" using cache_invD(4) [OF c'(2)] by (simp add: tallies_ok_def stx_cache_getsize_def)
  ultimately show ?thesis using c'(1) mem by auto
qed

theorem cache_empty_clears_witness:
  "\<exists>c c'. stx_cache_entry_insert demo_cache 1 = Some (True, c) \<and> stx_cache_empty c = Some c' \<and> stx_cache_traverse c' = Some []"
proof -
  obtain c bs us where c: "stx_cache_entry_insert demo_cache 1 = Some (True, c)" "cache_inv c bs us" "config c = config demo_cache"
    by (rule demo_inserted)
  have "key_fns (key_hash_fn c) (key_cmp_fn c)" using c(3) nat_key_fns by (simp add: config_def demo_cache_fields)
  then show ?thesis using cache_empty_clears [OF c(2)] c(1) by blast
qed

end
