(* ===== verification/Dnscache.thy ===== *)
theory Dnscache
  imports Lrucache_Spec
begin

text \<open>
  extensions/dnscache.c: the address cache of the resolver, a client of the LRU cache. Host names are strings without
  \<open>NUL\<close>, addresses 32-bit words; a \<open>NULL\<close> key, data block or address array is \<open>None\<close>. The resolver
  \<open>_stx_dns_getaddrlist\<close>, which waits for network I/O, is an argument that takes and returns the whole state of the
  cache, because other threads run while it waits. The clock and the results of the allocator are arguments.
\<close>

section \<open>Data\<close>

type_synonym addr = "32 word"

record dns_data =
  d_addrs :: "addr list option"
  d_num :: nat
  d_cur :: nat
  d_expires :: int

type_synonym dns_cache = "(string option, dns_data option) cache"

definition MAX_HOST_ADDRS :: nat where "MAX_HOST_ADDRS = 1024"

text \<open>A \<open>char\<close> is signed in the Microsoft ABI.\<close>

definition schar :: "char \<Rightarrow> int" where
  "schar c = (let n = (of_char c :: int) in if n < 128 then n else n - 256)"

fun hash_loop :: "ulong \<Rightarrow> string \<Rightarrow> ulong" where
  "hash_loop hash [] = hash"
| "hash_loop hash (c # name) = hash_loop (push_bit 4 hash - hash + word_of_int (schar c)) name"

definition hash_hostname :: "string option \<Rightarrow> ulong" where
  "hash_hostname key = (case key of None \<Rightarrow> 0 | Some name \<Rightarrow> hash_loop 0 name)"

text \<open>\<open>strcmp\<close> compares as \<open>unsigned char\<close>; \<open>NULL\<close> keys are never compared, the value there only makes the function total.\<close>

fun strcmp :: "string \<Rightarrow> string \<Rightarrow> int" where
  "strcmp [] [] = 0"
| "strcmp [] (b # bs) = - of_char b - 1"
| "strcmp (a # as) [] = of_char a + 1"
| "strcmp (a # as) (b # bs) = (if a = b then strcmp as bs else of_char a - of_char b)"

definition key_strcmp :: "string option \<Rightarrow> string option \<Rightarrow> int" where
  "key_strcmp a b = (case (a, b) of (Some a, Some b) \<Rightarrow> strcmp a b | (None, None) \<Rightarrow> 0 | _ \<Rightarrow> 1)"

definition tolower :: "char \<Rightarrow> char" where
  "tolower c = (let n = (of_char c :: nat) in if 65 \<le> n \<and> n \<le> 90 then char_of (n + 32) else c)"

section \<open>Operations\<close>

definition nth_opt :: "'a list \<Rightarrow> nat \<Rightarrow> 'a option" where
  "nth_opt xs i = (if i < length xs then Some (xs ! i) else None)"

text \<open>Lines 54--67: what is copied to the caller, and the rotation of the cursor.\<close>

definition read_addrs :: "nat \<Rightarrow> bool \<Rightarrow> dns_data \<Rightarrow> (addr list \<times> dns_data) option" where
  "read_addrs num rot data = do {
     as \<leftarrow> d_addrs data;
     if num = 1
     then (if rot
           then do {
             a \<leftarrow> nth_opt as (d_cur data);
             let data = data\<lparr>d_cur := d_cur data + 1\<rparr>;
             Some ([a], if d_cur data \<ge> d_num data then data\<lparr>d_cur := 0\<rparr> else data)
           }
           else do { a \<leftarrow> nth_opt as 0; Some ([a], data) })
     else (let n = min num (d_num data) in if n \<le> length as then Some (take n as, data) else None)
   }"

text \<open>The addresses when the entry is found and has not expired, else \<open>None\<close>.\<close>

definition lookup_entry :: "string \<Rightarrow> nat \<Rightarrow> bool \<Rightarrow> int \<Rightarrow> dns_cache \<Rightarrow> (addr list option \<times> dns_cache) option" where
  "lookup_entry host num rot now c = do {
     (r, c) \<leftarrow> stx_cache_entry_lookup c (Some host);
     case r of None \<Rightarrow> Some (None, c)
     | Some entry \<Rightarrow> do {
         dp \<leftarrow> stx_cache_entry_getdata c entry;
         data \<leftarrow> dp;
         if now \<le> d_expires data
         then do {
           (out, data) \<leftarrow> read_addrs num rot data;
           c \<leftarrow> upd_ent entry (\<lambda>x. x\<lparr>ce_data := Some data\<rparr>) c;
           c \<leftarrow> stx_cache_entry_release c entry;
           Some (Some out, c)
         }
         else do {
           c \<leftarrow> stx_cache_entry_release c entry;
           c \<leftarrow> stx_cache_entry_delete c entry;
           Some (None, c)
         }
       }
   }"

text \<open>Sizes on x64: the data block has a pointer, two \<open>int\<close>s and a 64-bit time, the entry eight words.\<close>

definition sizeof_dns_data :: nat where "sizeof_dns_data = 24"
definition stx_cache_entry_sizeof :: nat where "stx_cache_entry_sizeof = 64"

record allocs =
  key_ok :: bool
  data_ok :: bool
  addrs_ok :: bool
  entry_at :: "eid option"

definition new_data :: "addr list \<Rightarrow> int \<Rightarrow> allocs \<Rightarrow> dns_data option" where
  "new_data addrs expires al = (if data_ok al
     then Some \<lparr>d_addrs = (if addrs_ok al then Some addrs else None), d_num = length addrs, d_cur = 0, d_expires = expires\<rparr> else None)"

definition entry_weight :: "string \<Rightarrow> addr list \<Rightarrow> size_t" where
  "entry_weight host addrs = of_nat (length host + 1 + sizeof_dns_data + length addrs * 4 + stx_cache_entry_sizeof)"

definition insert_entry :: "string \<Rightarrow> addr list \<Rightarrow> int \<Rightarrow> int \<Rightarrow> allocs \<Rightarrow> dns_cache \<Rightarrow> dns_cache option" where
  "insert_entry host addrs ttl now al c =
    (if ttl > 0
     then (let key = (if key_ok al then Some host else None);
               data = new_data addrs (now + ttl) al;
               (entry, c) = stx_cache_entry_create key data (entry_weight host addrs) (entry_at al) c
           in (case entry of
                 None \<Rightarrow> Some (c\<lparr>cleanups := cleanups c @ [(key, data)]\<rparr>)
               | Some e \<Rightarrow>
                   (if key_ok al \<and> data_ok al \<and> addrs_ok al
                    then do {
                      (ok, c) \<leftarrow> stx_cache_entry_insert c e;
                      if ok then stx_cache_entry_release c e else stx_cache_entry_delete c e
                    }
                    else stx_cache_entry_delete c e)))
     else Some c)"

text \<open>The cache, if it has been created, and the time to live of the last answer.\<close>

record dns_state =
  dns_cache :: "dns_cache option"
  dns_ttl :: int

type_synonym resolver = "string \<Rightarrow> nat \<Rightarrow> dns_state \<Rightarrow> (addr list option \<times> dns_state) option"

definition host_of :: "string \<Rightarrow> string" where
  "host_of hostname = map tolower (take 127 hostname)"

text \<open>\<open>now1\<close> and \<open>now2\<close> are the values of \<open>st_time\<close> before and after the resolver ran. The result \<open>None\<close> in the first component is \<open>-1\<close>.\<close>

definition stx_dns_cache_getaddrlist :: "resolver \<Rightarrow> string \<Rightarrow> nat \<Rightarrow> bool \<Rightarrow> int \<Rightarrow> int \<Rightarrow> allocs \<Rightarrow> dns_state
    \<Rightarrow> (addr list option \<times> dns_state) option" where
  "stx_dns_cache_getaddrlist getaddrlist hostname num rot now1 now2 al s =
    (case dns_cache s of None \<Rightarrow> getaddrlist hostname num s
     | Some c \<Rightarrow> do {
         let host = host_of hostname;
         (r, c) \<leftarrow> lookup_entry host num rot now1 c;
         let s = s\<lparr>dns_cache := Some c\<rparr>;
         case r of Some out \<Rightarrow> Some (Some out, s)
         | None \<Rightarrow> do {
             (r, s) \<leftarrow> getaddrlist host MAX_HOST_ADDRS s;
             case r of None \<Rightarrow> Some (None, s)
             | Some addrs \<Rightarrow> do {
                 let out = take (min num (length addrs)) addrs;
                 c \<leftarrow> dns_cache s;
                 c \<leftarrow> insert_entry host addrs (dns_ttl s) now2 al c;
                 Some (Some out, s\<lparr>dns_cache := Some c\<rparr>)
               }
           }
       })"

definition stx_dns_cache_init :: "size_t \<Rightarrow> size_t \<Rightarrow> size_t \<Rightarrow> bool \<Rightarrow> bool \<Rightarrow> lnode links \<Rightarrow> dns_state \<Rightarrow> bool \<times> dns_state" where
  "stx_dns_cache_init maxsz max_bytes hsize ok1 ok2 h s =
    (let c = stx_cache_create maxsz max_bytes hsize hash_hostname key_strcmp True ok1 ok2 (\<lambda>_. None) h
     in (c \<noteq> None, s\<lparr>dns_cache := c\<rparr>))"

definition stx_dns_cache_getinfo :: "dns_state \<Rightarrow> cache_info" where
  "stx_dns_cache_getinfo s = (case dns_cache s of Some c \<Rightarrow> stx_cache_getinfo c
     | None \<Rightarrow> \<lparr>i_max_size = 0, i_max_weight = 0, i_hash_size = 0, i_cur_size = 0, i_cur_weight = 0, i_hits = 0, i_lookups = 0,
         i_inserts = 0, i_deletes = 0\<rparr>)"

definition stx_dns_getaddrlist where
  "stx_dns_getaddrlist getaddrlist hostname num now1 now2 al s =
    stx_dns_cache_getaddrlist getaddrlist hostname num False now1 now2 al s"

definition stx_dns_getaddr where
  "stx_dns_getaddr getaddrlist hostname now1 now2 al s =
    stx_dns_cache_getaddrlist getaddrlist hostname 1 True now1 now2 al s"

section \<open>The keys of the cache\<close>

text \<open>The hash as a polynomial, with the constant 15 of the comment in the code.\<close>

lemma push_bit_15: "push_bit 4 h - h = h * 15" for h :: ulong
  by (simp add: push_bit_eq_mult algebra_simps)

lemma hash_loop_poly: "hash_loop h s = h * 15 ^ length s + (\<Sum>i<length s. word_of_int (schar (s ! i)) * 15 ^ (length s - 1 - i))"
proof (induction s arbitrary: h)
  case (Cons c s)
  have "(\<Sum>i<length (c # s). word_of_int (schar ((c # s) ! i)) * 15 ^ (length (c # s) - 1 - i)) =
      word_of_int (schar c) * 15 ^ length s + (\<Sum>i<length s. word_of_int (schar (s ! i)) * (15 :: ulong) ^ (length s - 1 - i))"
    by (simp add: sum.lessThan_Suc_shift del: sum.lessThan_Suc)
  then show ?case by (simp add: Cons push_bit_15 algebra_simps)
qed simp

lemma strcmp_0: "strcmp a b = 0 \<longleftrightarrow> a = b"
proof (induction a b rule: strcmp.induct)
  case (2 b bs)
  have "(of_char b :: int) \<ge> 0" by (metis of_char_of of_nat_0_le_iff of_nat_of_char)
  then show ?case by simp
next
  case (3 a as)
  have "(of_char a :: int) \<ge> 0" by (metis of_char_of of_nat_0_le_iff of_nat_of_char)
  then show ?case by simp
next
  case (4 a as b bs)
  then show ?case by (auto simp: of_char_eq_iff)
qed simp

interpretation dns: key_fns hash_hostname key_strcmp
  by unfold_locales (auto simp: key_strcmp_def strcmp_0 split: option.splits)

section \<open>The cache as the resolver uses it\<close>

text \<open>The data of an entry is opaque to the cache, and a release by one of several holders only counts.\<close>

lemma data_upd_inv:
  assumes inv: "cache_inv c bs us" and x: "ent c e = Some x"
  shows "cache_inv (c\<lparr>ent := (ent c)(e \<mapsto> x\<lparr>ce_data := d\<rparr>)\<rparr>) bs us"
proof -
  let ?c = "c\<lparr>ent := (ent c)(e \<mapsto> x\<lparr>ce_data := d\<rparr>)\<rparr>"
  have cores': "cores ?c = (cores c)(e \<mapsto> core (x\<lparr>ce_data := d\<rparr>))" by (auto simp: cores_def)
  have cr': "cr ?c a = (if a = e then core (x\<lparr>ce_data := d\<rparr>) else cr c a)" for a by (simp add: cr_def cores')
  have conf: "config ?c = config c" by (simp add: config_def)
  have "rep ?c bs us" using cache_invD(1) [OF inv] by (simp add: rep_upd [OF x])
  moreover have "keys_ok ?c bs" by (rule keys_ok_cong [OF cache_invD(2) [OF inv] conf]) (simp add: cr' cr_ent [OF x])
  moreover have "refs_ok ?c bs us"
  proof (rule refs_ok_cong [OF cache_invD(3) [OF inv] repD(7) [OF cache_invD(1) [OF inv]]])
    have "ce_ref x = 0 \<and> \<not> ce_pending x" if "e \<notin> set (concat bs)"
      using cache_invD(3) [OF inv] that x by (auto simp: refs_ok_def cores_def)
    then show "ce_ref z = 0 \<and> \<not> ce_pending z" if "a \<notin> set (concat bs)" "cores ?c a = Some z" for a z
      using cache_invD(3) [OF inv] that unfolding refs_ok_def cores' by (cases "a = e") auto
  qed (simp add: cr' cr_ent [OF x])
  moreover have "tallies_ok ?c bs" by (rule tallies_ok_cong [OF cache_invD(4) [OF inv] conf]) (simp_all add: cr' cr_ent [OF x])
  ultimately show ?thesis by (simp add: cache_inv_def)
qed

lemma release_live:
  assumes inv: "cache_inv c bs us" and x: "ent c e = Some x" "ce_ref x > 0" "\<not> ce_pending x"
  obtains c' us' where "stx_cache_entry_release c e = Some c'" and "cache_inv c' bs us'"
    and "cores c' = (cores c)(e \<mapsto> (core x)\<lparr>ce_ref := ce_ref x - 1\<rparr>)" and "config c' = config c"
proof (cases "ce_ref x = 1")
  case True
  obtain c' where c': "stx_cache_entry_release c e = Some c'" "cache_inv c' bs (us @ [e])"
      "c' = c\<lparr>ent := (ent c)(e \<mapsto> x\<lparr>ce_ref := 0\<rparr>), lru := lru c'\<rparr>"
    by (rule release_idle [OF inv x(1) True x(3)])
  have "ent c' = (ent c)(e \<mapsto> x\<lparr>ce_ref := 0\<rparr>)" by (subst c'(3)) simp
  moreover have "config c' = config c" by (subst c'(3)) (simp add: config_def)
  ultimately show thesis using that [OF c'(1,2)] True by (auto simp: cores_def core_def fun_eq_iff)
next
  case False
  then have "ce_ref x > 1" using x(2) by simp
  note r = release_more [OF inv x(1) this]
  show thesis by (rule that [OF r]) (auto simp: cores_def core_def config_def fun_eq_iff)
qed

text \<open>
  What the entries of the table look like: there are addresses, and the cursor is within them.
\<close>

definition data_ok_for :: "dns_data \<Rightarrow> bool" where
  "data_ok_for d \<longleftrightarrow> (\<exists>as. d_addrs d = Some as \<and> as \<noteq> [] \<and> d_num d = length as \<and> d_cur d < length as)"

definition dns_inv :: "dns_cache \<Rightarrow> eid list list \<Rightarrow> eid list \<Rightarrow> bool" where
  "dns_inv c bs us \<longleftrightarrow> cache_inv c bs us \<and> key_hash_fn c = hash_hostname \<and> key_cmp_fn c = key_strcmp \<and>
     (\<forall>e \<in> set (concat bs). \<exists>d. ce_data (cr c e) = Some d \<and> data_ok_for d)"

lemma dns_invD:
  assumes "dns_inv c bs us"
  shows "cache_inv c bs us" "key_fns (key_hash_fn c) (key_cmp_fn c)"
    and "e \<in> set (concat bs) \<Longrightarrow> \<exists>d. ce_data (cr c e) = Some d \<and> data_ok_for d"
  using assms dns.key_fns_axioms by (auto simp: dns_inv_def)

lemma dns_invI:
  assumes "dns_inv c bs us" and "cache_inv c' bs' us'" and "config c' = config c"
    and "\<And>e. e \<in> set (concat bs') \<Longrightarrow> \<exists>d. ce_data (cr c' e) = Some d \<and> data_ok_for d"
  shows "dns_inv c' bs' us'"
  using assms by (auto simp: dns_inv_def config_def)

lemma read_addrs_ok:
  assumes "data_ok_for d"
  obtains out d' where "read_addrs num rot d = Some (out, d')" and "data_ok_for d'" and "d_addrs d' = d_addrs d" and "d_expires d' = d_expires d"
    and "d_cur d' = (if num = 1 \<and> rot then Suc (d_cur d) mod d_num d else d_cur d)" and "d_num d' = d_num d"
    and "\<And>as. d_addrs d = Some as \<Longrightarrow> out = (if num = 1 then [as ! (if rot then d_cur d else 0)] else take num as)"
proof -
  obtain as where d: "d_addrs d = Some as" "as \<noteq> []" "d_num d = length as" "d_cur d < length as" using assms by (auto simp: data_ok_for_def)
  have "Suc (d_cur d) mod length as = (if Suc (d_cur d) \<ge> length as then 0 else Suc (d_cur d))"
    using d(4) by (auto simp: mod_if le_Suc_eq not_less_eq)
  then have m: "Suc (d_cur d) mod length as = 0 \<longleftrightarrow> Suc (d_cur d) \<ge> length as" "Suc (d_cur d) < length as \<Longrightarrow> Suc (d_cur d) mod length as = Suc (d_cur d)"
    by auto
  show thesis
  proof (cases "num = 1 \<and> rot")
    case True
    let ?d = "if Suc (d_cur d) \<ge> d_num d then d\<lparr>d_cur := 0\<rparr> else d\<lparr>d_cur := Suc (d_cur d)\<rparr>"
    show thesis
      by (rule that [of "[as ! d_cur d]" ?d]) (use d True m in \<open>auto simp: read_addrs_def nth_opt_def data_ok_for_def\<close>)
  next
    case False
    show thesis
      by (rule that [of "if num = 1 then [as ! 0] else take num as" d])
        (use d False assms in \<open>auto simp: read_addrs_def nth_opt_def Let_def min_def\<close>)
  qed
qed

text \<open>\<open>lookup_entry\<close>: nothing found; a live entry, whose cursor moves on if asked to; or an expired one, which is removed.\<close>

lemma lookup_entry_ok:
  assumes inv: "dns_inv c bs us"
  obtains (miss) c' where "lookup_entry host num rot now c = Some (None, c')" and "dns_inv c' bs us" and "cores c' = cores c"
      and "config c' = config c" and "\<forall>e. \<not> found c bs (Some host) e"
    | (hit) c' us' e d d' out where "lookup_entry host num rot now c = Some (Some out, c')" and "dns_inv c' bs us'"
      and "found c bs (Some host) e" and "ce_data (cr c e) = Some d" and "now \<le> d_expires d" and "read_addrs num rot d = Some (out, d')"
      and "cores c' = (cores c)(e \<mapsto> (cr c e)\<lparr>ce_data := Some d'\<rparr>)" and "config c' = config c"
    | (expired) c' bs' us' e d where "lookup_entry host num rot now c = Some (None, c')" and "dns_inv c' bs' us'"
      and "found c bs (Some host) e" and "ce_data (cr c e) = Some d" and "now > d_expires d"
      and "config c' = config c" and "cores c' = (cores c)(e := kill c e)" and "set (concat bs') \<subseteq> set (concat bs)"
proof -
  note ci = dns_invD(1) [OF inv] and fns = dns_invD(2) [OF inv]
  show thesis
  proof (rule lookup_ok [OF ci fns, of "Some host"])
    fix c1 assume l: "stx_cache_entry_lookup c (Some host) = Some (None, c1)" "\<forall>e. \<not> found c bs (Some host) e" "cache_inv c1 bs us"
      and c1: "c1 = c\<lparr>lookups := lookups c + 1\<rparr>"
    have co: "cores c1 = cores c" "config c1 = config c" by (auto simp: c1 cores_def config_def)
    have "dns_inv c1 bs us" by (rule dns_invI [OF inv l(3) co(2)]) (use dns_invD(3) [OF inv] in \<open>simp add: cr_def co(1)\<close>)
    moreover have "lookup_entry host num rot now c = Some (None, c1)" using l(1) by (simp add: lookup_entry_def)
    ultimately show thesis using miss l(2) co by blast
  next
    fix e c1 assume l: "stx_cache_entry_lookup c (Some host) = Some (Some e, c1)" "found c bs (Some host) e" "cache_inv c1 bs (remove1 e us)"
        "cores c1 = (cores c)(e \<mapsto> (cr c e)\<lparr>ce_ref := ce_ref (cr c e) + 1\<rparr>)"
      and c1: "c1 = c\<lparr>lookups := lookups c + 1, hits := hits c + 1, ent := ent c1, lru := lru c1\<rparr>"
    have eb: "e \<in> set (concat bs)" using l(2) by (simp add: found_def)
    have conf1: "config c1 = config c" by (subst c1) (simp add: config_def)
    obtain d where d: "ce_data (cr c e) = Some d" "data_ok_for d" using dns_invD(3) [OF inv eb] by blast
    obtain x where x: "ent c1 e = Some x" "core x = (cr c e)\<lparr>ce_ref := ce_ref (cr c e) + 1\<rparr>"
      using fun_cong [OF l(4), of e] by (auto simp: cores_def)
    have xf: "ce_data x = Some d" "ce_ref x = ce_ref (cr c e) + 1" "\<not> ce_pending x"
      using core_fields [of x] d(1) l(2) unfolding x(2) by (auto simp: found_def)
    have look: "stx_cache_entry_getdata c1 e = Some (Some d)" using x(1) xf(1) by (simp add: stx_cache_entry_getdata_def)
    have others: "\<exists>d. ce_data (cr c2 a) = Some d \<and> data_ok_for d" if "a \<in> set (concat bs)" "cores c2 a = cores c a" for a and c2 :: dns_cache
      using dns_invD(3) [OF inv that(1)] that(2) by (simp add: cr_def)
    show thesis
    proof (cases "now \<le> d_expires d")
      case True
      obtain out d' where rd: "read_addrs num rot d = Some (out, d')" "data_ok_for d'" by (rule read_addrs_ok [OF d(2)])
      let ?x = "x\<lparr>ce_data := Some d'\<rparr>" let ?c = "c1\<lparr>ent := (ent c1)(e \<mapsto> x\<lparr>ce_data := Some d'\<rparr>)\<rparr>"
      have i2: "cache_inv ?c bs (remove1 e us)" by (rule data_upd_inv [OF l(3) x(1)])
      obtain c2 us2 where c2: "stx_cache_entry_release ?c e = Some c2" "cache_inv c2 bs us2"
          "cores c2 = (cores ?c)(e \<mapsto> (core ?x)\<lparr>ce_ref := ce_ref ?x - 1\<rparr>)" "config c2 = config ?c"
        by (rule release_live [OF i2, of e ?x]) (use xf in auto)
      have "core ?x = (core x)\<lparr>ce_data := Some d'\<rparr>" by (simp add: core_def)
      then have "(core ?x)\<lparr>ce_ref := ce_ref ?x - 1\<rparr> = (cr c e)\<lparr>ce_data := Some d'\<rparr>" using xf(2) by (simp add: x(2))
      moreover have "cores ?c = (cores c1)(e \<mapsto> core ?x)" by (auto simp: cores_def)
      ultimately have co: "cores c2 = (cores c)(e \<mapsto> (cr c e)\<lparr>ce_data := Some d'\<rparr>)" by (simp add: c2(3) l(4))
      have conf: "config c2 = config c" using c2(4) conf1 by (simp add: config_def)
      have "dns_inv c2 bs us2"
      proof (rule dns_invI [OF inv c2(2) conf])
        fix a assume a: "a \<in> set (concat bs)"
        show "\<exists>d. ce_data (cr c2 a) = Some d \<and> data_ok_for d"
          using others [OF a, of c2] rd(2) by (cases "a = e") (simp_all add: co cr_def)
      qed
      moreover have "lookup_entry host num rot now c = Some (Some out, c2)"
        using l(1) look True rd(1) x(1) c2(1) by (simp add: lookup_entry_def upd_ent_def)
      ultimately show thesis using hit l(2) d(1) True rd(1) co conf by blast
    next
      case False
      obtain c2 us2 where c2: "stx_cache_entry_release c1 e = Some c2" "cache_inv c2 bs us2"
          "cores c2 = (cores c1)(e \<mapsto> (core x)\<lparr>ce_ref := ce_ref x - 1\<rparr>)" "config c2 = config c1"
        by (rule release_live [OF l(3) x(1)]) (use xf in auto)
      have "(core x)\<lparr>ce_ref := ce_ref x - 1\<rparr> = cr c e" using xf(2) by (simp add: x(2))
      then have co2: "cores c2 = (cores c)(e \<mapsto> cr c e)" by (simp add: c2(3) l(4))
      have cr2: "cr c2 e = cr c e" by (simp add: cr_def co2)
      obtain c3 where c3: "stx_cache_entry_delete c2 e = Some c3" "cache_inv c3 (without (idle_of c2 {e}) bs) (remove1 e us2)"
          "cores c3 = (cores c2)(e := kill c2 e)" "config c3 = config c2"
        by (rule delete_any [OF c2(2) eb])
      have co: "cores c3 = (cores c)(e := kill c e)" by (simp add: c3(3) co2 kill_def cr2)
      have conf: "config c3 = config c" using c3(4) c2(4) conf1 by simp
      have i3: "dns_inv c3 (without (idle_of c2 {e}) bs) (remove1 e us2)"
      proof (rule dns_invI [OF inv c3(2) conf])
        fix a assume a: "a \<in> set (concat (without (idle_of c2 {e}) bs))"
        show "\<exists>d. ce_data (cr c3 a) = Some d \<and> data_ok_for d"
        proof (cases "a = e")
          case True
          then have "ce_ref (cr c e) \<noteq> 0" using a by (simp add: idle_of_def cr2)
          then have "cr c3 e = (cr c e)\<lparr>ce_pending := True\<rparr>" by (simp add: cr_def [of c3] co kill_def)
          then show ?thesis using True d by simp
        qed (use others [of a c3] a in \<open>simp add: co\<close>)
      qed
      have l3: "lookup_entry host num rot now c = Some (None, c3)"
        using l(1) look False c2(1) c3(1) by (simp add: lookup_entry_def)
      show thesis by (rule expired [OF l3 i3 l(2) d(1) _ conf co]) (use False in auto)
    qed
  qed
qed

section \<open>Inserting answers\<close>

lemma evict_all:
  "need = sum_list (map wt us) + w \<Longrightarrow> w \<le> lim \<Longrightarrow> evict wt need lim us = (ok, out, rest) \<Longrightarrow> ok \<and> us = out @ rest"
proof (induction us arbitrary: need ok out rest)
  case (Cons u us)
  show ?case
  proof (cases "need \<le> lim")
    case False
    obtain ok' out' rest' where r: "evict wt (need - wt u) lim us = (ok', out', rest')" by (metis prod_cases3)
    have "ok' \<and> us = out' @ rest'" by (rule Cons.IH [OF _ Cons.prems(2) r]) (use Cons.prems(1) in simp)
    then show ?thesis using Cons.prems(3) r False by auto
  qed (use Cons.prems in auto)
qed auto

text \<open>When no entry is in use, an entry that fits the cache at all is never refused.\<close>

lemma make_room_idle:
  assumes inv: "cache_inv c bs us" and idle: "\<forall>e \<in> set (concat bs). ce_ref (cr c e) = 0" and w: "w \<le> max_weight c" "max_size c \<noteq> 0"
    and room: "make_room (\<lambda>a. unat (ce_weight (cr c a))) (unat (cur_weight c) + unat w) (unat (max_weight c))
      (unat (cur_size c)) (unat (max_size c)) us = (ok, out, rest)"
  shows ok
proof -
  have us: "set us = set (concat bs)" using cache_invD(3) [OF inv] repD(7) [OF cache_invD(1) [OF inv]] idle by (auto simp: refs_ok_def)
  have d: "distinct us" "distinct (concat bs)" using lru_distinct [OF inv] repD(3) [OF cache_invD(1) [OF inv]] by auto
  have len: "length us = length (concat bs)" using us d by (metis distinct_card)
  have "unat (cur_weight c) = (\<Sum>e \<in> set (concat bs). unat (ce_weight (cr c e)))"
    using cache_invD(4) [OF inv] d(2) by (simp add: tallies_ok_def weights_def sum_list_distinct_conv_sum_set)
  then have need: "unat (cur_weight c) + unat w = sum_list (map (\<lambda>a. unat (ce_weight (cr c a))) us) + unat w"
    using d(1) us by (simp add: sum_list_distinct_conv_sum_set)
  obtain ok1 out1 rest1 where ev: "evict (\<lambda>a. unat (ce_weight (cr c a))) (unat (cur_weight c) + unat w) (unat (max_weight c)) us = (ok1, out1, rest1)"
    by (metis prod_cases3)
  have e: "ok1" "us = out1 @ rest1" using evict_all [OF need _ ev] w(1) by (auto simp: word_le_nat_alt)
  have num: "unat (cur_size c) - length out1 = length rest1" using cache_invD(4) [OF inv] len e(2) by (simp add: tallies_ok_def)
  have "unat (max_size c) > 0" using w(2) by (simp add: unat_gt_0)
  then show ?thesis using room ev e(1) num by (auto simp: make_room_def split: if_splits list.splits)
qed

lemma insert_entry_ok:
  assumes inv: "dns_inv c bs us" and fresh: "\<And>e. entry_at al = Some e \<Longrightarrow> ent c e = None" and addrs: "ttl > 0 \<longrightarrow> addrs \<noteq> []"
    and fits: "unat (max_weight c) + unat (entry_weight host addrs) < 2 ^ 64"
  shows "\<exists>c' bs' us'. insert_entry host addrs ttl now al c = Some c' \<and> dns_inv c' bs' us' \<and> config c' = config c \<and>
    (ttl > 0 \<longrightarrow> key_ok al \<longrightarrow> data_ok al \<longrightarrow> addrs_ok al \<longrightarrow> entry_at al \<noteq> None \<longrightarrow>
      entry_weight host addrs \<le> max_weight c \<longrightarrow> max_size c \<noteq> 0 \<longrightarrow> (\<forall>e \<in> set (concat bs). ce_ref (cr c e) = 0) \<longrightarrow>
      (\<exists>e. found c' bs' (Some host) e \<and>
         ce_data (cr c' e) = Some \<lparr>d_addrs = Some addrs, d_num = length addrs, d_cur = 0, d_expires = now + ttl\<rparr>))"
proof (cases "ttl > 0")
  case False
  then show ?thesis using inv by (auto simp: insert_entry_def)
next
  case True
  let ?key = "if key_ok al then Some host else None"
  let ?data = "new_data addrs (now + ttl) al"
  let ?w = "entry_weight host addrs"
  note ci = dns_invD(1) [OF inv] and fns = dns_invD(2) [OF inv]
  show ?thesis
  proof (cases "entry_at al")
    case None
    let ?c = "c\<lparr>cleanups := cleanups c @ [(?key, ?data)]\<rparr>"
    have "cache_inv ?c bs us" by (rule inv_scalars [OF ci]) (simp_all add: config_def)
    moreover have "config ?c = config c" "cr ?c = cr c" by (simp_all add: config_def cr_def cores_def fun_eq_iff)
    ultimately have "dns_inv ?c bs us" using dns_invD(3) [OF inv] by (intro dns_invI [OF inv]) simp_all
    moreover have "insert_entry host addrs ttl now al c = Some ?c" using True None by (simp add: insert_entry_def stx_cache_entry_create_def Let_def)
    moreover have "config ?c = config c" by (simp add: config_def)
    ultimately show ?thesis using None by blast
  next
    case (Some e)
    note new = fresh [OF Some]
    define c1 where "c1 = snd (stx_cache_entry_create ?key ?data ?w (Some e) c)"
    let ?x = "\<lparr>ce_key = ?key, ce_data = ?data, ce_weight = ?w, ce_next = None, ce_pthis = None, ce_ref = 0, ce_pending = False\<rparr>"
    have cr: "stx_cache_entry_create ?key ?data ?w (entry_at al) c = (Some e, c1)" by (simp add: c1_def stx_cache_entry_create_def Some)
    have ci1: "cache_inv c1 bs us" unfolding c1_def by (rule entry_create_inv [OF ci new])
    have conf1: "config c1 = config c" by (simp add: c1_def stx_cache_entry_create_def config_def)
    have e1: "ent c1 e = Some ?x" "e \<notin> set (concat bs)"
      using repD(4) [OF cache_invD(1) [OF ci], of e] new by (auto simp: c1_def stx_cache_entry_create_def)
    have co1: "cores c1 = (cores c)(e \<mapsto> ?x)" by (auto simp: c1_def stx_cache_entry_create_def cores_def core_def)
    have cr1: "cr c1 a = cr c a" if "a \<in> set (concat bs)" for a using that e1(2) by (auto simp: cr_def co1)
    have "dns_inv c1 bs us" by (rule dns_invI [OF inv ci1 conf1]) (use dns_invD(3) [OF inv] cr1 in simp)
    note inv1 = this
    have fns1: "key_fns (key_hash_fn c1) (key_cmp_fn c1)" by (rule dns_invD(2) [OF inv1])
    have fits1: "unat (max_weight c1) + unat ?w < 2 ^ 64" using fits conf1 by (simp add: config_def)
    have drop: "\<exists>c'. stx_cache_entry_delete c2 e = Some c' \<and> dns_inv c' bs2 us2 \<and> config c' = config c2"
      if prem: "dns_inv c2 bs2 us2" "e \<notin> set (concat bs2)" "ent c2 e \<noteq> None" for c2 bs2 us2
    proof -
      obtain y where y: "ent c2 e = Some y" using prem(3) by blast
      note del = delete_loose_inv [OF dns_invD(1) [OF prem(1)] prem(2) y]
      have conf: "config (c2\<lparr>ent := (ent c2)(e := None), cleanups := cleanups c2 @ logged y c2\<rparr>) = config c2" by (simp add: config_def)
      have "cr (c2\<lparr>ent := (ent c2)(e := None), cleanups := cleanups c2 @ logged y c2\<rparr>) a = cr c2 a" if "a \<noteq> e" for a
        using that by (simp add: cr_def cores_def)
      then have "dns_inv (c2\<lparr>ent := (ent c2)(e := None), cleanups := cleanups c2 @ logged y c2\<rparr>) bs2 us2"
        using dns_invD(3) [OF prem(1)] prem(2) by (intro dns_invI [OF prem(1) del(2) conf]) metis
      then show ?thesis using del(1) conf by blast
    qed
    show ?thesis
    proof (cases "key_ok al \<and> data_ok al \<and> addrs_ok al")
      case False
      have ins: "insert_entry host addrs ttl now al c = stx_cache_entry_delete c1 e"
        using True cr False by (auto simp: insert_entry_def Let_def)
      obtain c' where "stx_cache_entry_delete c1 e = Some c'" "dns_inv c' bs us" "config c' = config c1"
        using drop [OF inv1 e1(2)] e1(1) by auto
      then show ?thesis using ins conf1 False by auto
    next
      case ok: True
      let ?d = "\<lparr>d_addrs = Some addrs, d_num = length addrs, d_cur = 0, d_expires = now + ttl\<rparr>"
      have d: "?data = Some ?d" "?key = Some host" using ok by (simp_all add: new_data_def)
      have dok: "data_ok_for ?d" using addrs True by (simp add: data_ok_for_def)
      have cx: "cores c1 e = Some ?x" by (simp add: co1)
      obtain room out rest where room: "make_room (\<lambda>a. unat (ce_weight (cr c1 a))) (unat (cur_weight c1) + unat (ce_weight ?x)) (unat (max_weight c1))
          (unat (cur_size c1)) (unat (max_size c1)) us = (room, out, rest)" by (metis prod_cases3)
      obtain c2 bs2 us2 where c2: "stx_cache_entry_insert c1 e = Some (room, c2)" "cache_inv c2 bs2 us2" "config c2 = config c1"
          "\<not> room \<longrightarrow> evicted out c1 c2 \<and> bs2 = without (set out) bs \<and> us2 = rest"
          "room \<longrightarrow> cores c2 = inserted out e ?x c1 bs \<and>
            set (concat bs2) = insert e (set (concat bs) - set out - {a. found c1 bs (ce_key ?x) a \<and> ce_ref (cr c1 a) = 0})"
          "us = out @ rest"
        using insert_ok [OF room ci1 fns1 e1(2) cx] fits1 by auto
      have out: "set out \<subseteq> set (concat bs)" using repD(7) [OF cache_invD(1) [OF ci1]] c2(6) by auto
      have ins: "insert_entry host addrs ttl now al c = (if room then stx_cache_entry_release c2 e else stx_cache_entry_delete c2 e)"
        using True cr ok c2(1) by (simp add: insert_entry_def)
      have conf2: "config c2 = config c" using c2(3) conf1 by simp
      show ?thesis
      proof (cases room)
        case False
        then have ev: "cores c2 = (\<lambda>a. if a \<in> set out then None else cores c1 a)" "bs2 = without (set out) bs" using c2(4) by (auto simp: evicted_def)
        have "dns_inv c2 bs2 us2"
          by (rule dns_invI [OF inv1 c2(2,3)]) (use dns_invD(3) [OF inv1] in \<open>auto simp: ev cr_def\<close>)
        moreover have "e \<notin> set (concat bs2)" "ent c2 e \<noteq> None"
          using e1(2) out fun_cong [OF ev(1), of e] cx cores_ent [of c2 e] by (auto simp: ev(2) split: if_splits)
        ultimately obtain c' where c': "stx_cache_entry_delete c2 e = Some c'" "dns_inv c' bs2 us2" "config c' = config c2"
          using drop by blast
        have lim: "max_weight c1 = max_weight c" "max_size c1 = max_size c" using conf1 by (auto simp: config_def)
        have room if "?w \<le> max_weight c" "max_size c \<noteq> 0" "\<forall>e \<in> set (concat bs). ce_ref (cr c e) = 0"
          by (rule make_room_idle [OF ci1 _ _ _ room]) (use that cr1 lim in simp_all)
        then show ?thesis using ins False c' conf2 by auto
      next
        case r: True
        have co2: "cores c2 = inserted out e ?x c1 bs" using c2(5) r by simp
        have "cores c2 e = Some (?x\<lparr>ce_ref := 1\<rparr>)" by (simp add: co2 inserted_def)
        then obtain y where y: "ent c2 e = Some y" "core y = ?x\<lparr>ce_ref := 1\<rparr>" by (auto simp: cores_def)
        have yf: "ce_ref y = 1" "\<not> ce_pending y" using core_fields [of y] unfolding y(2) by auto
        obtain c3 us3 where c3: "stx_cache_entry_release c2 e = Some c3" "cache_inv c3 bs2 us3"
            "cores c3 = (cores c2)(e \<mapsto> (core y)\<lparr>ce_ref := ce_ref y - 1\<rparr>)" "config c3 = config c2"
          by (rule release_live [OF c2(2) y(1)]) (use yf in auto)
        have cr3: "cr c3 e = ?x" using yf(1) by (simp add: cr_def c3(3) y(2))
        have "dns_inv c3 bs2 us3"
        proof (rule dns_invI [OF inv1 c3(2)])
          show "config c3 = config c1" using c3(4) c2(3) by simp
          fix a assume a: "a \<in> set (concat bs2)"
          show "\<exists>d. ce_data (cr c3 a) = Some d \<and> data_ok_for d"
          proof (cases "a = e")
            case True
            then show ?thesis using d(1) dok by (simp add: cr3)
          next
            case False
            then have ab: "a \<in> set (concat bs)" "a \<notin> set out" "\<not> (found c1 bs ?key a \<and> ce_ref (cr c1 a) = 0)"
              using a c2(5) r by auto
            then have "ce_data (cr c3 a) = ce_data (cr c1 a)" using False by (auto simp: cr_def c3(3) co2 inserted_def)
            then show ?thesis using dns_invD(3) [OF inv1 ab(1)] by simp
          qed
        qed
        moreover have "found c3 bs2 (Some host) e"
        proof -
          have "key_cmp_fn c3 = key_strcmp" using inv1 c3(4) c2(3) by (simp add: dns_inv_def config_def)
          then show ?thesis using c2(5) r d(2) by (simp add: found_def cr3 dns.cmp_refl)
        qed
        moreover have "ce_data (cr c3 e) = Some ?d" by (simp add: cr3 d(1))
        moreover have "insert_entry host addrs ttl now al c = Some c3" "config c3 = config c" using ins r c3(1,4) conf2 by auto
        ultimately show ?thesis by blast
      qed
    qed
  qed
qed

section \<open>The resolver's front end\<close>

definition dns_conf :: "dns_state \<Rightarrow> (size_t \<times> size_t \<times> size_t \<times> (string option \<Rightarrow> ulong) \<times> (string option \<Rightarrow> string option \<Rightarrow> int) \<times> bool) option" where
  "dns_conf s = map_option config (dns_cache s)"

definition dns_ok :: "dns_state \<Rightarrow> bool" where
  "dns_ok s \<longleftrightarrow> (\<forall>c. dns_cache s = Some c \<longrightarrow> (\<exists>bs us. dns_inv c bs us) \<and> unat (max_weight c) + 4312 < 2 ^ 64)"

text \<open>
  What the front end relies on of the resolver and of the allocator. The entry that is allocated after the resolution is not in
  use yet; the resolver returns with a good cache, whatever other threads did to it meanwhile, reports at most as many
  addresses as it was asked for, and with a positive time to live at least one.
\<close>

definition fresh_entry :: "allocs \<Rightarrow> dns_state \<Rightarrow> bool" where
  "fresh_entry al s \<longleftrightarrow> (\<forall>c e. dns_cache s = Some c \<longrightarrow> entry_at al = Some e \<longrightarrow> ent c e = None)"

definition resolver_ok :: "resolver \<Rightarrow> string \<Rightarrow> nat \<Rightarrow> allocs \<Rightarrow> dns_state \<Rightarrow> bool" where
  "resolver_ok res host num al s0 \<longleftrightarrow> (\<forall>s. dns_ok s \<longrightarrow> dns_conf s = dns_conf s0 \<longrightarrow> fresh_entry al s \<longrightarrow>
     (\<exists>r s'. res host num s = Some (r, s') \<and> dns_ok s' \<and> dns_conf s' = dns_conf s0 \<and> fresh_entry al s' \<and>
       (\<forall>addrs. r = Some addrs \<longrightarrow> length addrs \<le> num \<and> (dns_ttl s' > 0 \<longrightarrow> addrs \<noteq> []))))"

lemma resolver_okE:
  assumes "resolver_ok res host num al s0" and "dns_ok s" and "dns_conf s = dns_conf s0" and "fresh_entry al s"
  obtains r s' where "res host num s = Some (r, s')" and "dns_ok s'" and "dns_conf s' = dns_conf s0" and "fresh_entry al s'"
    and "\<And>addrs. r = Some addrs \<Longrightarrow> length addrs \<le> num" and "\<And>addrs. r = Some addrs \<Longrightarrow> dns_ttl s' > 0 \<Longrightarrow> addrs \<noteq> []"
  using assms(1) [unfolded resolver_ok_def, rule_format, of s] assms(2-4) by metis

lemma entry_weight_le: "length host \<le> 127 \<Longrightarrow> length addrs \<le> 1024 \<Longrightarrow> unat (entry_weight host addrs) \<le> 4312"
proof -
  assume a: "length host \<le> 127" "length addrs \<le> 1024"
  have "unat (of_nat n :: size_t) \<le> n" for n by (simp add: unat_of_nat)
  from this [of "length host + 1 + sizeof_dns_data + length addrs * 4 + stx_cache_entry_sizeof"] a
  show ?thesis by (simp add: entry_weight_def sizeof_dns_data_def stx_cache_entry_sizeof_def)
qed

lemma host_of_length: "length (host_of h) \<le> 127"
  by (simp add: host_of_def)

lemma dns_okI:
  assumes "dns_inv c' bs us" and "config c' = config c" and "unat (max_weight c) + 4312 < 2 ^ 64" and "dns_cache s' = Some c'"
  shows "dns_ok s'"
  using assms by (auto simp: dns_ok_def config_def)

lemma read_addrs_length:
  assumes "data_ok_for d" and "read_addrs num rot d = Some (out, d')"
  shows "length out \<le> num"
proof -
  obtain as where as: "d_addrs d = Some as" using assms(1) by (auto simp: data_ok_for_def)
  obtain out2 d2 where "read_addrs num rot d = Some (out2, d2)"
      "\<And>as. d_addrs d = Some as \<Longrightarrow> out2 = (if num = 1 then [as ! (if rot then d_cur d else 0)] else take num as)"
    by (rule read_addrs_ok [OF assms(1), of num rot]) blast
  then show ?thesis using assms(2) as by auto
qed

lemma getaddrlist_ok:
  assumes ok: "dns_ok s" and fresh: "fresh_entry al s" 
    and res: "resolver_ok res (if dns_cache s = None then hostname else host_of hostname) (if dns_cache s = None then num else MAX_HOST_ADDRS) al s"
  shows "\<exists>r s'. stx_dns_cache_getaddrlist res hostname num rot now1 now2 al s = Some (r, s') \<and> dns_ok s' \<and> dns_conf s' = dns_conf s \<and>
    (\<forall>out. r = Some out \<longrightarrow> length out \<le> num)"
proof (cases "dns_cache s")
  case None
  obtain r s' where "res hostname num s = Some (r, s')" "dns_ok s'" "dns_conf s' = dns_conf s" "\<And>addrs. r = Some addrs \<Longrightarrow> length addrs \<le> num"
    by (rule resolver_okE [of res hostname num al s s]) (use res ok fresh None in auto)
  then show ?thesis using None by (simp add: stx_dns_cache_getaddrlist_def)
next
  case (Some c)
  let ?host = "host_of hostname"
  obtain bs us where inv: "dns_inv c bs us" and fit: "unat (max_weight c) + 4312 < 2 ^ 64" using ok Some by (auto simp: dns_ok_def)
  have resolve: "\<exists>r s'. stx_dns_cache_getaddrlist res hostname num rot now1 now2 al s = Some (r, s') \<and> dns_ok s' \<and> dns_conf s' = dns_conf s \<and>
      (\<forall>out. r = Some out \<longrightarrow> length out \<le> num)"
    if l: "lookup_entry ?host num rot now1 c = Some (None, c1)" "dns_inv c1 bs1 us1" "config c1 = config c"
      "\<forall>e. ent c e = None \<longrightarrow> ent c1 e = None" for c1 bs1 us1
  proof -
    let ?s1 = "s\<lparr>dns_cache := Some c1\<rparr>"
    have "dns_ok ?s1" by (rule dns_okI [OF l(2,3) fit]) simp
    moreover have "dns_conf ?s1 = dns_conf s" using l(3) Some by (simp add: dns_conf_def)
    moreover have "fresh_entry al ?s1" using fresh Some l(4) by (auto simp: fresh_entry_def)
    ultimately obtain r s2 where r: "res ?host MAX_HOST_ADDRS ?s1 = Some (r, s2)" "dns_ok s2" "dns_conf s2 = dns_conf s" "fresh_entry al s2"
        "\<And>addrs. r = Some addrs \<Longrightarrow> length addrs \<le> MAX_HOST_ADDRS" "\<And>addrs. r = Some addrs \<Longrightarrow> dns_ttl s2 > 0 \<Longrightarrow> addrs \<noteq> []"
      using resolver_okE [of res ?host MAX_HOST_ADDRS al s ?s1] res Some by auto
    note conf = r(3)
    show ?thesis
    proof (cases r)
      case None
      then show ?thesis using l(1) r(1,2) conf Some by (simp add: stx_dns_cache_getaddrlist_def Let_def)
    next
      case (Some addrs)
      obtain c2 where c2: "dns_cache s2 = Some c2" "config c2 = config c" using conf \<open>dns_cache s = Some c\<close> by (auto simp: dns_conf_def)
      obtain bs2 us2 where inv2: "dns_inv c2 bs2 us2" using r(2) c2(1) by (auto simp: dns_ok_def)
      have "unat (entry_weight ?host addrs) \<le> 4312"
        by (rule entry_weight_le [OF host_of_length]) (use r(5) Some in \<open>simp add: MAX_HOST_ADDRS_def\<close>)
      then have fit2: "unat (max_weight c2) + unat (entry_weight ?host addrs) < 2 ^ 64" using fit c2(2) by (simp add: config_def)
      obtain c3 bs3 us3 where c3: "insert_entry ?host addrs (dns_ttl s2) now2 al c2 = Some c3" "dns_inv c3 bs3 us3" "config c3 = config c2"
        using insert_entry_ok [OF inv2 _ _ fit2, of al "dns_ttl s2" now2] r(4,6) c2(1) Some unfolding fresh_entry_def by metis
      let ?s3 = "s2\<lparr>dns_cache := Some c3\<rparr>"
      have "stx_dns_cache_getaddrlist res hostname num rot now1 now2 al s = Some (Some (take (min num (length addrs)) addrs), ?s3)"
        using l(1) r(1) Some \<open>dns_cache s = Some c\<close> c2(1) c3(1) by (simp add: stx_dns_cache_getaddrlist_def Let_def)
      moreover have "dns_ok ?s3" by (rule dns_okI [OF c3(2) _ fit]) (use c3(3) c2(2) in simp_all)
      moreover have "dns_conf ?s3 = dns_conf s" unfolding dns_conf_def \<open>dns_cache s = Some c\<close> by (simp add: c3(3) c2(2))
      ultimately show ?thesis by simp
    qed
  qed
  show ?thesis
  proof (rule lookup_entry_ok [OF inv, of ?host num rot now1])
    fix c1 us1 e d d' out
    assume l: "lookup_entry ?host num rot now1 c = Some (Some out, c1)" "dns_inv c1 bs us1" "found c bs (Some ?host) e"
      "ce_data (cr c e) = Some d" "read_addrs num rot d = Some (out, d')" "config c1 = config c"
    have "data_ok_for d" using dns_invD(3) [OF inv, of e] l(3,4) by (auto simp: found_def)
    then have "length out \<le> num" by (rule read_addrs_length [OF _ l(5)])
    moreover have "dns_ok (s\<lparr>dns_cache := Some c1\<rparr>)" by (rule dns_okI [OF l(2,6) fit]) simp
    ultimately show ?thesis using l(1,6) Some by (simp add: stx_dns_cache_getaddrlist_def Let_def dns_conf_def)
  next
    fix c1 assume l: "lookup_entry ?host num rot now1 c = Some (None, c1)" "dns_inv c1 bs us" "cores c1 = cores c" "config c1 = config c"
    have "ent c e = None \<longrightarrow> ent c1 e = None" for e using cores_ent [of c e] cores_ent [of c1 e] l(3) by simp
    then show ?thesis using resolve [OF l(1,2,4)] by blast
  next
    fix c1 bs1 us1 e d
    assume l: "lookup_entry ?host num rot now1 c = Some (None, c1)" "dns_inv c1 bs1 us1" "found c bs (Some ?host) e" "config c1 = config c"
      "cores c1 = (cores c)(e := kill c e)"
    have "cores c e \<noteq> None" using repD(4) [OF cache_invD(1) [OF dns_invD(1) [OF inv]], of e] l(3) cores_ent [of c e] by (auto simp: found_def)
    then have "ent c a = None \<longrightarrow> ent c1 a = None" for a using cores_ent [of c a] cores_ent [of c1 a] l(5) by (auto split: if_splits)
    then show ?thesis using resolve [OF l(1,2,4)] by blast
  qed
qed

section \<open>Properties\<close>

text \<open>
  The host name hash, computed with shifts, is the polynomial of the comment in the code: the characters, as signed bytes, are
  the coefficients and 15 is the base, modulo \<open>2\<^sup>3\<^sup>2\<close>.
\<close>

theorem hash_hostname_poly:
  "hash_hostname (Some name) = (\<Sum>i<length name. word_of_int (schar (name ! i)) * 15 ^ (length name - 1 - i))"
  using hash_loop_poly [of 0 name] by (simp add: hash_hostname_def)

text \<open>
  The cached resolver is safe. On a good cache, with a resolver that keeps its contract while other threads use the same cache,
  \<open>_stx_dns_cache_getaddrlist\<close> always returns, never touches freed memory or addresses outside an array, reports at most
  \<open>num_addrs\<close> addresses, and leaves a good cache: every entry in the table has addresses and a cursor within them, also after
  expired entries were removed, allocations failed, or the new entry did not fit.
\<close>

theorem dns_getaddrlist_safe:
  assumes "dns_ok s" and "fresh_entry al s"
    and "resolver_ok res (if dns_cache s = None then hostname else host_of hostname) (if dns_cache s = None then num else MAX_HOST_ADDRS) al s"
  shows "\<exists>r s'. stx_dns_cache_getaddrlist res hostname num rot now1 now2 al s = Some (r, s') \<and> dns_ok s' \<and> dns_conf s' = dns_conf s \<and>
    (\<forall>out. r = Some out \<longrightarrow> length out \<le> num)"
  by (rule getaddrlist_ok [OF assms])

text \<open>A fresh cache of four entries, and a resolver that knows three addresses and leaves the cache alone.\<close>

definition demo_dns :: dns_state where
  "demo_dns = snd (stx_dns_cache_init 4 10000 8 True True \<lparr>lnext = (\<lambda>_. None), lprev = (\<lambda>_. None)\<rparr> \<lparr>dns_cache = None, dns_ttl = 0\<rparr>)"

definition demo_resolver :: resolver where
  "demo_resolver host num s = Some (Some (take num [1, 2, 3]), s\<lparr>dns_ttl := if num = 0 then 0 else 60\<rparr>)"

lemma demo_dns_cache:
  obtains c where "dns_cache demo_dns = Some c" and "dns_inv c (replicate 8 []) []" and "max_weight c = 10000" and "max_size c = 4"
    and "ent c = (\<lambda>_. None)"
proof -
  obtain c :: dns_cache where c: "stx_cache_create 4 10000 8 hash_hostname key_strcmp True True True (\<lambda>_. None) \<lparr>lnext = (\<lambda>_. None), lprev = (\<lambda>_. None)\<rparr> = Some c"
    by (simp add: stx_cache_create_def)
  have "cache_inv c (replicate (unat (8 :: size_t)) []) []" by (rule create_inv [OF c]) (simp_all add: fresh_memory_def)
  moreover have "dns_cache demo_dns = Some c" by (simp add: demo_dns_def stx_dns_cache_init_def c)
  moreover have "key_hash_fn c = hash_hostname" "key_cmp_fn c = key_strcmp" "max_weight c = 10000" "max_size c = 4" "ent c = (\<lambda>_. None)"
    using c by (auto simp: stx_cache_create_def)
  ultimately show thesis using that by (simp add: dns_inv_def set_concat)
qed

lemma demo_dns_ok: "dns_ok demo_dns"
  by (rule demo_dns_cache) (auto simp: dns_ok_def)

definition demo_allocs :: allocs where
  "demo_allocs = \<lparr>key_ok = True, data_ok = True, addrs_ok = True, entry_at = Some 7\<rparr>"

lemma demo_fresh: "fresh_entry demo_allocs demo_dns"
  by (rule demo_dns_cache) (auto simp: fresh_entry_def)

theorem dns_getaddrlist_safe_witness:
  "\<exists>r s'. stx_dns_cache_getaddrlist demo_resolver ''Example.org'' 2 False 100 101 demo_allocs demo_dns = Some (r, s') \<and> dns_ok s' \<and>
     (\<forall>out. r = Some out \<longrightarrow> length out \<le> 2)"
proof -
  have "resolver_ok demo_resolver host num demo_allocs demo_dns" for host num
    unfolding resolver_ok_def by (simp add: demo_resolver_def dns_ok_def dns_conf_def fresh_entry_def)
  then show ?thesis using dns_getaddrlist_safe [OF demo_dns_ok demo_fresh] by blast
qed

lemma hit_call:
  assumes c: "dns_cache s = Some c" "dns_inv c bs us" and f: "found c bs (Some (host_of hostname)) e"
    and d: "ce_data (cr c e) = Some d" "now1 \<le> d_expires d" "d_addrs d = Some as"
  obtains c' us' d' where
    "stx_dns_cache_getaddrlist res hostname num rot now1 now2 al s =
       Some (Some (if num = 1 then [as ! (if rot then d_cur d else 0)] else take num as), s\<lparr>dns_cache := Some c'\<rparr>)"
    and "dns_inv c' bs us'" and "found c' bs (Some (host_of hostname)) e" and "ce_data (cr c' e) = Some d'" and "d_addrs d' = d_addrs d"
    and "d_expires d' = d_expires d" and "d_cur d' = (if num = 1 \<and> rot then Suc (d_cur d) mod length as else d_cur d)"
proof -
  note fu = found_unique [OF dns_invD(1,2) [OF c(2)] f]
  have dok: "data_ok_for d" using dns_invD(3) [OF c(2), of e] f d(1) by (auto simp: found_def)
  then have num: "d_num d = length as" using d(3) by (auto simp: data_ok_for_def)
  obtain out2 d2 where rd: "read_addrs num rot d = Some (out2, d2)" "d_addrs d2 = d_addrs d" "d_expires d2 = d_expires d"
      "d_cur d2 = (if num = 1 \<and> rot then Suc (d_cur d) mod d_num d else d_cur d)"
      "\<And>as. d_addrs d = Some as \<Longrightarrow> out2 = (if num = 1 then [as ! (if rot then d_cur d else 0)] else take num as)"
    by (rule read_addrs_ok [OF dok, of num rot]) blast
  show thesis
  proof (rule lookup_entry_ok [OF c(2), of "host_of hostname" num rot now1])
    fix c1 us1 e1 d1 d1' out
    assume l: "lookup_entry (host_of hostname) num rot now1 c = Some (Some out, c1)" "dns_inv c1 bs us1"
      "found c bs (Some (host_of hostname)) e1" "ce_data (cr c e1) = Some d1" "read_addrs num rot d1 = Some (out, d1')"
      "cores c1 = (cores c)(e1 \<mapsto> (cr c e1)\<lparr>ce_data := Some d1'\<rparr>)" "config c1 = config c"
    have e: "e1 = e" "d1 = d" using fu [OF l(3)] d(1) l(4) by auto
    have o: "out = out2" "d1' = d2" using rd(1) l(5) e by auto
    have "cr c1 e = (cr c e)\<lparr>ce_data := Some d2\<rparr>" by (simp add: cr_def [of c1] l(6) e o)
    moreover from this have "found c1 bs (Some (host_of hostname)) e" using f l(7) by (simp add: found_def config_def)
    ultimately show thesis
      using that [of c1 us1 d2] l(1,2) rd(2-5) d(3) num c(1) o by (simp add: stx_dns_cache_getaddrlist_def Let_def)
  next
    fix c1 assume "\<forall>e. \<not> found c bs (Some (host_of hostname)) e"
    then show thesis using f by blast
  next
    fix e1 d1 assume "found c bs (Some (host_of hostname)) e1" "ce_data (cr c e1) = Some d1" "now1 > d_expires d1"
    then show thesis using fu d(1,2) by fastforce
  qed
qed


lemma demo_hosts: "host_of ''EXAMPLE.org'' = host_of ''example.ORG''"
  by code_simp

lemma demo_weight: "entry_weight (host_of ''example.ORG'') [1, 2, 3] = 112"
  by (simp add: entry_weight_def host_of_def sizeof_dns_data_def stx_cache_entry_sizeof_def)


text \<open>Successive calls of \<open>stx_dns_getaddr\<close> at the given times.\<close>

fun successive :: "resolver \<Rightarrow> string \<Rightarrow> int list \<Rightarrow> allocs \<Rightarrow> dns_state \<Rightarrow> (addr list option list \<times> dns_state) option" where
  "successive res hostname [] al s = Some ([], s)"
| "successive res hostname (t # ts) al s = do {
     (r, s) \<leftarrow> stx_dns_getaddr res hostname t t al s;
     (rs, s) \<leftarrow> successive res hostname ts al s;
     Some (r # rs, s)
   }"

lemma successive_ok:
  "dns_cache s = Some c \<Longrightarrow> dns_inv c bs us \<Longrightarrow> found c bs (Some (host_of hostname)) e \<Longrightarrow> ce_data (cr c e) = Some d \<Longrightarrow>
    d_addrs d = Some as \<Longrightarrow> \<forall>t \<in> set ts. t \<le> d_expires d \<Longrightarrow>
    \<exists>s'. successive res hostname ts al s = Some (map (\<lambda>i. Some [as ! ((d_cur d + i) mod length as)]) [0..<length ts], s')"
proof (induction ts arbitrary: s c us d)
  case (Cons t ts)
  have "data_ok_for d" using dns_invD(3) [OF Cons.prems(2), of e] Cons.prems(3,4) by (auto simp: found_def)
  then have cur: "d_cur d < length as" using Cons.prems(5) by (auto simp: data_ok_for_def)
  obtain c' us' d' where c': "stx_dns_cache_getaddrlist res hostname 1 True t t al s = Some (Some (if (1::nat) = 1 then [as ! (if True then d_cur d else 0)] else take 1 as),
        s\<lparr>dns_cache := Some c'\<rparr>)" "dns_inv c' bs us'" "found c' bs (Some (host_of hostname)) e" "ce_data (cr c' e) = Some d'" "d_addrs d' = d_addrs d"
      "d_expires d' = d_expires d" "d_cur d' = (if (1::nat) = 1 \<and> True then Suc (d_cur d) mod length as else d_cur d)"
    by (rule hit_call [OF Cons.prems(1-4) _ Cons.prems(5), of t res 1 True t al]) (use Cons.prems(6) in auto)
  obtain s' where s': "successive res hostname ts al (s\<lparr>dns_cache := Some c'\<rparr>) =
      Some (map (\<lambda>i. Some [as ! ((d_cur d' + i) mod length as)]) [0..<length ts], s')"
    using Cons.IH [of "s\<lparr>dns_cache := Some c'\<rparr>" c' us' d'] c'(2-6) Cons.prems(5,6) by auto
  have "(d_cur d' + i) mod length as = (d_cur d + Suc i) mod length as" for i
    using c'(7) by (simp add: mod_simps)
  then have "map (\<lambda>i. Some [as ! ((d_cur d + i) mod length as)]) [0..<length (t # ts)] =
      Some [as ! d_cur d] # map (\<lambda>i. Some [as ! ((d_cur d' + i) mod length as)]) [0..<length ts]"
    using cur by (simp add: upt_conv_Cons map_Suc_upt [symmetric] o_def del: upt_Suc)
  then show ?case using c'(1) s' by (simp add: stx_dns_getaddr_def)
qed simp

text \<open>
  Rotation. While an answer is cached and valid, successive calls of \<open>stx_dns_getaddr\<close> for the host return its addresses in turn, starting
  at the cursor and going round, each call the next one, without asking the resolver.
\<close>

theorem dns_getaddr_rotates:
  assumes "dns_cache s = Some c" and "dns_inv c bs us" and "found c bs (Some (host_of hostname)) e" and "ce_data (cr c e) = Some d"
    and "d_addrs d = Some as" and "\<forall>t \<in> set ts. t \<le> d_expires d"
  shows "\<exists>s'. successive res hostname ts al s = Some (map (\<lambda>i. Some [as ! ((d_cur d + i) mod length as)]) [0..<length ts], s')"
  by (rule successive_ok [OF assms])

theorem dns_getaddr_rotates_witness:
  "\<exists>c s'. successive (\<lambda>_ _ _. None) ''EXAMPLE.org'' [110, 120, 130, 140] demo_allocs \<lparr>dns_cache = Some c, dns_ttl = 60\<rparr> =
      Some ([Some [1], Some [2], Some [3], Some [1]], s')"
proof -
  obtain c0 where c0: "dns_cache demo_dns = Some c0" "dns_inv c0 (replicate 8 []) []" "max_weight c0 = 10000" "max_size c0 = 4" "ent c0 = (\<lambda>_. None)"
    by (rule demo_dns_cache)
  obtain c bs us e where c: "dns_inv c bs us" "found c bs (Some (host_of ''example.ORG'')) e"
      "ce_data (cr c e) = Some \<lparr>d_addrs = Some [1, 2, 3], d_num = length [1, 2, 3 :: addr], d_cur = 0, d_expires = 101 + 60\<rparr>"
    using insert_entry_ok [OF c0(2), of demo_allocs 60 "[1, 2, 3]" "host_of ''example.ORG''" 101]
    by (auto simp: c0(3-5) demo_weight demo_allocs_def set_concat)
  have "\<exists>s'. successive (\<lambda>_ _ _. None) ''EXAMPLE.org'' [110, 120, 130, 140] demo_allocs \<lparr>dns_cache = Some c, dns_ttl = 60\<rparr> =
      Some (map (\<lambda>i. Some [[1, 2, 3] ! ((0 + i) mod length [1, 2, 3 :: addr])]) [0..<length [110, 120, 130, 140 :: int]], s')"
    using dns_getaddr_rotates [OF _ c(1) c(2) [folded demo_hosts] c(3), of _ "[1, 2, 3]" "[110, 120, 130, 140]" "\<lambda>_ _ _. None" demo_allocs] by simp
  moreover have "map (\<lambda>i. Some [[1, 2, 3] ! ((0 + i) mod length [1, 2, 3 :: addr])]) [0..<length [110, 120, 130, 140 :: int]] =
      [Some [1 :: addr], Some [2], Some [3], Some [1]]" by code_simp
  ultimately show ?thesis by auto
qed

end
