(* ===== verification/Dnsres.thy ===== *)
theory Dnsres
  imports Netio Dnscache
begin

text \<open>
  dnsres.c and res.c: the DNS resolver on top of the blocking I/O functions. The parser of answers works on offsets
  into the packet buffer, and an access outside of it yields \<open>None\<close>. The functions of the resolver library (\<open>res_mkquery\<close>,
  \<open>dn_skipname\<close>, \<open>dn_expand\<close> and the configuration \<open>_res\<close>) are arguments. Both files share the query and search
  code; they differ in the parser and in what they return.
\<close>

unbundle bit_operations_syntax

section \<open>Packets\<close>

definition MAXPACKET :: nat where "MAXPACKET = 1024"
definition HFIXEDSZ :: int where "HFIXEDSZ = 12"
definition QFIXEDSZ :: int where "QFIXEDSZ = 4"
definition T_A :: int where "T_A = 1"
definition T_CNAME :: int where "T_CNAME = 5"
definition MAXDNAME :: nat where "MAXDNAME = 1025"

datatype herr = HOST_NOT_FOUND | TRY_AGAIN | NO_RECOVERY | NO_DATA | NETDB_INTERNAL | NETDB_SUCCESS

text \<open>
  The state of the process: the I/O world, \<open>errno\<close>, \<open>h_errno\<close> and the globals of the DNS cache, \<open>_stx_dns_ttl\<close> among them.
\<close>

record 'm dnsw = "'m netw" +
  c_errno :: int
  h_errno :: herr
  dnss :: dns_state

text \<open>A byte of the buffer before \<open>eoa\<close>, and the macros \<open>_getshort\<close> and \<open>_getlong\<close>.\<close>

definition get8 :: "byte list \<Rightarrow> int \<Rightarrow> int \<Rightarrow> int option" where
  "get8 buf eoa cp = (if 0 \<le> cp \<and> cp < eoa \<and> nat cp < length buf then Some (uint (buf ! nat cp)) else None)"

definition getshort :: "byte list \<Rightarrow> int \<Rightarrow> int \<Rightarrow> int option" where
  "getshort buf eoa cp = do { a \<leftarrow> get8 buf eoa cp; b \<leftarrow> get8 buf eoa (cp + 1); Some (a * 256 + b) }"

definition getlong :: "byte list \<Rightarrow> int \<Rightarrow> int \<Rightarrow> int option" where
  "getlong buf eoa cp = do { a \<leftarrow> getshort buf eoa cp; b \<leftarrow> getshort buf eoa (cp + 2); Some (a * 65536 + b) }"

text \<open>The conversion to \<open>int\<close> when the time to live is stored.\<close>

definition to_int32 :: "int \<Rightarrow> int" where
  "to_int32 v = sint (word_of_int v :: 32 word)"

text \<open>The bytes that \<open>memcpy\<close> copies.\<close>

definition bytes_at :: "byte list \<Rightarrow> int \<Rightarrow> int \<Rightarrow> nat \<Rightarrow> byte list option" where
  "bytes_at buf eoa cp n =
    (if 0 \<le> cp \<and> cp + int n \<le> eoa \<and> nat cp + n \<le> length buf then Some (take n (drop (nat cp) buf)) else None)"

text \<open>
  A \<open>struct in_addr\<close> as the number its four bytes hold, the first byte the lowest; copying fewer bytes leaves the others.
\<close>

definition addr_of :: "byte list \<Rightarrow> addr" where
  "addr_of bs = horner_sum (\<lambda>b. (ucast b :: addr)) 256 bs"

definition addr_bytes :: "addr \<Rightarrow> byte list" where
  "addr_bytes a = map (\<lambda>k. (ucast (drop_bit (8 * k) a) :: byte)) [0..<4]"

definition put_bytes :: "addr \<Rightarrow> byte list \<Rightarrow> addr option" where
  "put_bytes a bs = (if length bs \<le> 4 then Some (addr_of (bs @ drop (length bs) (addr_bytes a))) else None)"

text \<open>The header fields the code reads; the counters after \<open>ntohs\<close>.\<close>

definition hdr_id :: "byte list \<Rightarrow> byte list" where
  "hdr_id buf = take 2 buf"

definition hdr_rcode :: "byte list \<Rightarrow> int" where
  "hdr_rcode buf = uint (buf ! 3 AND 15)"

definition be16 :: "byte list \<Rightarrow> nat \<Rightarrow> nat" where
  "be16 buf i = unat (buf ! i) * 256 + unat (buf ! (i + 1))"

definition hdr_qdcount :: "byte list \<Rightarrow> nat" where "hdr_qdcount buf = be16 buf 4"
definition hdr_ancount :: "byte list \<Rightarrow> nat" where "hdr_ancount buf = be16 buf 6"

section \<open>Parsing an answer\<close>

text \<open>
  \<open>skip\<close> and \<open>expand\<close> stand for \<open>dn_skipname\<close> and \<open>dn_expand\<close>, on offsets. The code counts the questions and answers down
  in the header itself; the model keeps the counters beside the packet.
\<close>

type_synonym dnfun = "byte list \<Rightarrow> int \<Rightarrow> int \<Rightarrow> int"

fun skip_questions :: "dnfun \<Rightarrow> byte list \<Rightarrow> int \<Rightarrow> nat \<Rightarrow> int \<Rightarrow> int" where
  "skip_questions skip buf eoa 0 cp = cp"
| "skip_questions skip buf eoa (Suc q) cp = skip_questions skip buf eoa q (cp + (skip buf eoa cp + QFIXEDSZ))"

fun answers_loop :: "dnfun \<Rightarrow> byte list \<Rightarrow> int \<Rightarrow> nat \<Rightarrow> nat \<Rightarrow> int \<Rightarrow> nat \<Rightarrow> addr list \<Rightarrow> int
    \<Rightarrow> (nat option \<times> addr list \<times> int) option" where
  "answers_loop expand buf eoa num_addrs 0 cp i arr ttl = Some (Some i, arr, ttl)"
| "answers_loop expand buf eoa num_addrs (Suc ancount) cp i arr ttl =
    (if \<not> (cp < eoa \<and> i < num_addrs) then Some (Some i, arr, ttl)
     else (let n = expand buf eoa cp
       in if n < 0 then Some (None, arr, ttl)
          else (let cp = cp + n
            in if cp + 4 + 4 + 2 \<ge> eoa then Some (None, arr, ttl)
               else do {
                 type \<leftarrow> getshort buf eoa cp;
                 let cp = cp + 4;
                 ttl \<leftarrow> (if type = T_A then map_option to_int32 (getlong buf eoa cp) else Some ttl);
                 let cp = cp + 4;
                 n \<leftarrow> getshort buf eoa cp;
                 let cp = cp + 2;
                 if type = T_A
                 then (if n > 4 \<or> cp + n > eoa then Some (None, arr, ttl)
                       else do {
                         bs \<leftarrow> bytes_at buf eoa cp (nat n);
                         a \<leftarrow> nth_opt arr i;
                         a \<leftarrow> put_bytes a bs;
                         answers_loop expand buf eoa num_addrs ancount (cp + n) (i + 1) (arr[i := a]) ttl
                       })
                 else answers_loop expand buf eoa num_addrs ancount (cp + n) i arr ttl
               })))"

text \<open>
  The array of addresses with the variable \<open>*num_addrs\<close>; a parser returns whether it succeeded (return value 0).
\<close>

type_synonym addr_out = "addr list \<times> nat"
type_synonym ('o, 'w) parser = "byte list \<Rightarrow> nat \<Rightarrow> 'o \<Rightarrow> 'w \<Rightarrow> (bool \<times> 'o \<times> 'w) option"

definition set_ttl :: "int \<Rightarrow> ('m, 'z) dnsw_scheme \<Rightarrow> ('m, 'z) dnsw_scheme" where
  "set_ttl t w = w\<lparr>dnss := (dnss w)\<lparr>dns_ttl := t\<rparr>\<rparr>"

definition parse_answer :: "dnfun \<Rightarrow> dnfun \<Rightarrow> (addr_out, ('m, 'z) dnsw_scheme) parser" where
  "parse_answer skip expand buf len out w =
    (let (arr, num_addrs) = out; eoa = int len; w = set_ttl (-1) (w\<lparr>h_errno := TRY_AGAIN\<rparr>);
         cp = skip_questions skip buf eoa (hdr_qdcount buf) HFIXEDSZ
     in (case answers_loop expand buf eoa num_addrs (hdr_ancount buf) cp 0 arr (-1) of None \<Rightarrow> None
         | Some (None, arr, ttl) \<Rightarrow> Some (False, (arr, num_addrs), set_ttl ttl w)
         | Some (Some i, arr, ttl) \<Rightarrow> Some (True, (arr, i), set_ttl ttl w)))"

text \<open>
  The parser of res.c: the first record that is not an alias is taken as the address, with no look at its type, its
  length or the end of the packet.
\<close>

fun first_answer :: "dnfun \<Rightarrow> byte list \<Rightarrow> int \<Rightarrow> nat \<Rightarrow> int \<Rightarrow> addr \<Rightarrow> addr option option" where
  "first_answer expand buf eoa 0 cp a = Some None"
| "first_answer expand buf eoa (Suc ancount) cp a =
    (if \<not> cp < eoa then Some None
     else (let n = expand buf eoa cp
       in if n < 0 then Some None
          else do {
            let cp = cp + n;
            type \<leftarrow> getshort buf (int MAXPACKET) cp;
            let cp = cp + 8;
            n \<leftarrow> getshort buf (int MAXPACKET) cp;
            let cp = cp + 2;
            if type = T_CNAME then first_answer expand buf eoa ancount (cp + n) a
            else do { bs \<leftarrow> bytes_at buf (int MAXPACKET) cp (nat n); a \<leftarrow> put_bytes a bs; Some (Some a) }
          }))"

definition res_parse_answer :: "dnfun \<Rightarrow> dnfun \<Rightarrow> (addr, ('m, 'z) dnsw_scheme) parser" where
  "res_parse_answer skip expand buf len a w =
    (let eoa = int len; cp = skip_questions skip buf eoa (hdr_qdcount buf) HFIXEDSZ
     in (case first_answer expand buf eoa (hdr_ancount buf) cp a of None \<Rightarrow> None
         | Some None \<Rightarrow> Some (False, a, w\<lparr>h_errno := TRY_AGAIN\<rparr>)
         | Some (Some a) \<Rightarrow> Some (True, a, w)))"

section \<open>Asking the name servers\<close>

text \<open>
  What one name server is met with: the identifier \<open>res_mkquery\<close> chooses, and the scripts of \<open>st_sendto\<close> and of the calls of
  \<open>st_recvfrom\<close> that follow. \<open>mkquery\<close> stands for \<open>res_mkquery\<close>; it yields the query, \<open>[]\<close> if it fails.
\<close>

record 'w attempt =
  at_id :: "16 word"
  at_send :: "(int osres \<times> ('w \<Rightarrow> 'w option)) list"
  at_replies :: "(byte list osres \<times> ('w \<Rightarrow> 'w option)) list list"

definition overlay :: "byte list \<Rightarrow> byte list \<Rightarrow> byte list option" where
  "overlay bs buf = (if length bs \<le> length buf then Some (bs @ drop (length bs) buf) else None)"

text \<open>Waiting for a reply with the identifier of the query; the length that is returned is \<open>-1\<close> after a failure.\<close>

fun recv_reply :: "'m cmap \<Rightarrow> pqid \<Rightarrow> nid option \<Rightarrow> utime \<Rightarrow> byte list
    \<Rightarrow> (byte list osres \<times> (('m, 'z) dnsw_scheme \<Rightarrow> ('m, 'z) dnsw_scheme option)) list list \<Rightarrow> byte list \<Rightarrow> ('m, 'z) dnsw_scheme
    \<Rightarrow> (int \<times> byte list \<times> ('m, 'z) dnsw_scheme) option" where
  "recv_reply ops p nf timeout ident [] buf w = None"
| "recv_reply ops p nf timeout ident (ins # rest) buf w =
    (case st_recvfrom ops p nf timeout ins w of None \<Rightarrow> None
     | Some (Inl e, w) \<Rightarrow> Some (-1, buf, w\<lparr>c_errno := e\<rparr>)
     | Some (Inr bs, w) \<Rightarrow> do {
         buf \<leftarrow> overlay bs buf;
         if bs = [] then Some (0, buf, w)
         else if ident \<noteq> hdr_id buf then recv_reply ops p nf timeout ident rest buf w
         else Some (int (length bs), buf, w)
       })"

definition rcode_herr :: "int \<Rightarrow> herr" where
  "rcode_herr rcode =
    (if rcode = 3 then HOST_NOT_FOUND
     else if rcode = 2 then TRY_AGAIN
     else if rcode = 0 then NO_DATA
     else NO_RECOVERY)"

text \<open>
  The loop over the \<open>n\<close> name servers that are left. It returns whether it succeeded, with the rest of the script, the result
  variables and the state; \<open>buf\<close> is the packet buffer.
\<close>

fun query_loop :: "'m cmap \<Rightarrow> pqid \<Rightarrow> nid option \<Rightarrow> utime \<Rightarrow> ('o, ('m, 'z) dnsw_scheme) parser \<Rightarrow> (16 word \<Rightarrow> byte list) \<Rightarrow> nat
    \<Rightarrow> ('m, 'z) dnsw_scheme attempt list \<Rightarrow> byte list \<Rightarrow> 'o \<Rightarrow> ('m, 'z) dnsw_scheme
    \<Rightarrow> (bool \<times> ('m, 'z) dnsw_scheme attempt list \<times> 'o \<times> ('m, 'z) dnsw_scheme) option" where
  "query_loop ops p nf timeout parse mk 0 atts buf out w = Some (False, atts, out, w)"
| "query_loop ops p nf timeout parse mk (Suc n) [] buf out w = None"
| "query_loop ops p nf timeout parse mk (Suc n) (a # atts) buf out w =
    (let q = mk (at_id a)
     in if q = [] then Some (False, atts, out, w\<lparr>h_errno := NO_RECOVERY\<rparr>)
        else do {
          buf \<leftarrow> overlay q buf;
          let ident = hdr_id buf;
          (r, w) \<leftarrow> st_sendto ops p nf timeout (at_send a) w;
          let w = (case r of Inl e \<Rightarrow> w\<lparr>c_errno := e\<rparr> | Inr _ \<Rightarrow> w);
          if r \<noteq> Inr (int (length q))
          then (let w = w\<lparr>h_errno := NETDB_INTERNAL\<rparr>
                in if c_errno w = errno_num EINTR then Some (False, atts, out, w)
                   else query_loop ops p nf timeout parse mk n atts buf out w)
          else do {
            (len, buf, w) \<leftarrow> recv_reply ops p nf timeout ident (at_replies a) buf w;
            if len < HFIXEDSZ
            then (let w = w\<lparr>h_errno := NETDB_INTERNAL\<rparr>
                  in if len \<ge> 0 then query_loop ops p nf timeout parse mk n atts buf out (w\<lparr>c_errno := errno_num EMSGSIZE\<rparr>)
                     else if c_errno w = errno_num EINTR then Some (False, atts, out, w)
                     else query_loop ops p nf timeout parse mk n atts buf out w)
            else if hdr_rcode buf \<noteq> 0 \<or> hdr_ancount buf = 0
            then query_loop ops p nf timeout parse mk n atts buf out (w\<lparr>h_errno := rcode_herr (hdr_rcode buf)\<rparr>)
            else do {
              (ok, out, w) \<leftarrow> parse buf (nat len) out w;
              if ok then Some (True, atts, out, w) else query_loop ops p nf timeout parse mk n atts buf out w
            }
          }
        })"

text \<open>The configuration \<open>_res\<close> of the resolver library.\<close>

record res_state =
  rs_usevc :: bool
  rs_defnames :: bool
  rs_dnsrch :: bool
  rs_ndots :: nat
  rs_nsservers :: nat
  rs_domains :: "string list"

text \<open>
  A query of the search below: the state is the script, the result variables and the world. \<open>junk\<close> is the packet buffer of the
  call, whose contents the code leaves uninitialised.
\<close>

type_synonym ('o, 'w) qstate = "'w attempt list \<times> 'o \<times> 'w"
type_synonym 's query = "string \<Rightarrow> 's \<Rightarrow> (bool \<times> 's) option"

definition query_domain :: "'m cmap \<Rightarrow> pqid \<Rightarrow> nid option \<Rightarrow> utime \<Rightarrow> ('o, ('m, 'z) dnsw_scheme) parser \<Rightarrow> (string \<Rightarrow> 16 word \<Rightarrow> byte list)
    \<Rightarrow> res_state \<Rightarrow> byte list \<Rightarrow> ('o, ('m, 'z) dnsw_scheme) qstate query" where
  "query_domain ops p nf timeout parse mkquery conf junk name s =
    (let (atts, out, w) = s
     in map_option (\<lambda>(ok, atts, out, w). (ok, (atts, out, w)))
          (query_loop ops p nf timeout parse (mkquery name) (rs_nsservers conf) atts junk out w))"

section \<open>Searching\<close>

text \<open>
  \<open>name\<close> is the array \<open>char name[MAXDNAME]\<close>. \<open>strncpy_at\<close> is \<open>strncpy (name + n, d, maxlen - n)\<close>: it fills up with zeros, and a
  negative length, which is a huge \<open>size_t\<close>, runs over the array. A query reads the array as a C string.
\<close>

definition maxlen :: nat where "maxlen = MAXDNAME - 1"

definition NUL :: char where "NUL = CHR 0x00"

definition strncpy_at :: "char list \<Rightarrow> nat \<Rightarrow> string \<Rightarrow> char list option" where
  "strncpy_at name n d =
    (if n \<le> maxlen then
       (let k = maxlen - n in Some (take n name @ take k (d @ replicate k NUL) @ drop maxlen name))
     else None)"

definition c_string :: "char list \<Rightarrow> string option" where
  "c_string name = (if NUL \<in> set name then Some (takeWhile (\<lambda>c. c \<noteq> NUL) name) else None)"

datatype outcome = Found | Stopped | Exhausted

fun try_domains :: "'s query \<Rightarrow> ('s \<Rightarrow> bool) \<Rightarrow> bool \<Rightarrow> char list \<Rightarrow> nat \<Rightarrow> string list \<Rightarrow> 's \<Rightarrow> (outcome \<times> 's) option" where
  "try_domains q stop dnsrch name n [] s = Some (Exhausted, s)"
| "try_domains q stop dnsrch name n (d # ds) s = do {
     name \<leftarrow> strncpy_at name n d;
     nm \<leftarrow> c_string name;
     (ok, s) \<leftarrow> q nm s;
     if ok then Some (Found, s)
     else if stop s then Some (Stopped, s)
     else if \<not> dnsrch then Some (Exhausted, s)
     else try_domains q stop dnsrch name n ds s
   }"

text \<open>
  The search of \<open>_stx_dns_getaddrlist\<close> and \<open>dns_getaddr\<close> for a query function \<open>q\<close>; \<open>stop\<close> tells that the thread was interrupted, and
  \<open>junk\<close> is the uninitialised array.
\<close>

definition dns_search :: "'s query \<Rightarrow> ('s \<Rightarrow> bool) \<Rightarrow> res_state \<Rightarrow> char list \<Rightarrow> string \<Rightarrow> 's \<Rightarrow> (bool \<times> 's) option" where
  "dns_search q stop conf junk host s =
    (let n = min (length host) maxlen;
         name = take n host @ drop n junk;
         dots = length (filter (\<lambda>c. c = CHR ''.'') (take n host));
         trailing_dot = (name ! (n - 1) = CHR ''.'');
         as_is = dots \<ge> rs_ndots conf
     in do {
       (r, s) \<leftarrow> (if as_is
          then do { (ok, s) \<leftarrow> q host s; Some (if ok then Found else if stop s then Stopped else Exhausted, s) }
          else Some (Exhausted, s));
       if r \<noteq> Exhausted then Some (r = Found, s)
       else do {
         (r, s) \<leftarrow> (if dots = 0 \<and> rs_defnames conf \<or> dots \<noteq> 0 \<and> \<not> trailing_dot \<and> rs_dnsrch conf
            then try_domains q stop (rs_dnsrch conf) (name[n := CHR ''.'']) (n + 1) (rs_domains conf) s
            else Some (Exhausted, s));
         if r \<noteq> Exhausted then Some (r = Found, s)
         else if \<not> as_is then q host s
         else Some (False, s)
       }
     })"

definition interrupted :: "('o, ('m, 'z) dnsw_scheme) qstate \<Rightarrow> bool" where
  "interrupted s \<longleftrightarrow> (case s of (_, _, w) \<Rightarrow> h_errno w = NETDB_INTERNAL \<and> c_errno w = errno_num EINTR)"

text \<open>
  What the process and the system hand to a call of the resolver: the configuration (\<open>None\<close> if \<open>res_init\<close> fails), the result of
  \<open>socket\<close>, the descriptor object \<open>calloc\<close> would return, the two uninitialised buffers and \<open>GetLastError()\<close> after the socket is closed.
\<close>

record res_env =
  e_conf :: "res_state option"
  e_socket :: "int osres"
  e_alloc :: "nid option"
  e_name :: "char list"
  e_buf :: "byte list"
  e_close :: int

text \<open>
  The function that \<open>_stx_dns_getaddrlist\<close> (dnsres.c) and \<open>dns_getaddr\<close> (res.c) share, for the \<open>query_domain\<close> function of either
  file. \<open>CLOSE_AND_RETURN\<close> keeps \<open>errno\<close> over the call of \<open>st_netfd_close\<close>. \<open>host\<close> is \<open>None\<close> for \<open>NULL\<close>.
\<close>

definition resolve :: "'m cmap \<Rightarrow> (nid \<Rightarrow> res_state \<Rightarrow> ('o, ('m, 'z) dnsw_scheme) qstate query) \<Rightarrow> res_env \<Rightarrow> string option
    \<Rightarrow> ('o, ('m, 'z) dnsw_scheme) qstate \<Rightarrow> (bool \<times> ('o, ('m, 'z) dnsw_scheme) qstate) option" where
  "resolve ops qd env host s =
    (let (atts, out, w) = s
     in (case e_conf env of None \<Rightarrow> Some (False, atts, out, w\<lparr>h_errno := NETDB_INTERNAL\<rparr>)
         | Some conf \<Rightarrow>
            (if rs_usevc conf then Some (False, atts, out, w\<lparr>h_errno := NETDB_INTERNAL, c_errno := errno_num ENOSYS\<rparr>)
             else if host = None \<or> host = Some [] then Some (False, atts, out, w\<lparr>h_errno := HOST_NOT_FOUND\<rparr>)
             else (case e_socket env of OsErr e \<Rightarrow> Some (False, atts, out, w\<lparr>h_errno := NETDB_INTERNAL, c_errno := e\<rparr>)
                   | OsOk sock \<Rightarrow>
                      (case st_netfd_open_socket sock (e_alloc env) w of
                         (None, w) \<Rightarrow> Some (False, atts, out, w\<lparr>h_errno := NETDB_INTERNAL\<rparr>)
                       | (Some nf, w) \<Rightarrow> do {
                           (ok, atts, out, w) \<leftarrow> dns_search (qd nf conf) interrupted conf (e_name env) (the host) (atts, out, w);
                           Some (ok, atts, out, snd (st_netfd_close ops (Some nf) (e_close env) w))
                         })))))"

definition stx_dns_getaddrlist_net where
  "stx_dns_getaddrlist_net ops p timeout skip expand mkquery env =
    resolve ops (\<lambda>nf conf. query_domain ops p (Some nf) timeout (parse_answer skip expand) mkquery conf (e_buf env)) env"

text \<open>The \<open>query_domain\<close> of res.c is the same loop around its own parser.\<close>

definition res_query_domain where
  "res_query_domain ops p nf timeout skip expand = query_domain ops p nf timeout (res_parse_answer skip expand)"

definition dns_getaddr where
  "dns_getaddr ops p timeout skip expand mkquery env =
    resolve ops (\<lambda>nf conf. res_query_domain ops p (Some nf) timeout skip expand mkquery conf (e_buf env)) env"

section \<open>The parser stays inside its buffers\<close>

lemma get8_ok:
  assumes "0 \<le> cp" and "cp < eoa" and "eoa \<le> int (length buf)"
  obtains v where "get8 buf eoa cp = Some v" and "0 \<le> v" and "v < 256"
proof -
  have "nat cp < length buf" using assms by linarith
  moreover have "uint (buf ! nat cp) < 256" using uint_lt2p [of "buf ! nat cp"] by simp
  ultimately show thesis using assms that [of "uint (buf ! nat cp)"] by (simp add: get8_def)
qed

lemma getshort_ok:
  assumes "0 \<le> cp" and "cp + 1 < eoa" and "eoa \<le> int (length buf)"
  obtains v where "getshort buf eoa cp = Some v" and "0 \<le> v" and "v < 65536"
proof -
  obtain a where a: "get8 buf eoa cp = Some a" "0 \<le> a" "a < 256" by (rule get8_ok [of cp eoa buf]) (use assms in auto)
  obtain b where b: "get8 buf eoa (cp + 1) = Some b" "0 \<le> b" "b < 256" by (rule get8_ok [of "cp + 1" eoa buf]) (use assms in auto)
  show thesis using that [of "a * 256 + b"] a b by (simp add: getshort_def)
qed

lemma getlong_ok:
  assumes "0 \<le> cp" and "cp + 3 < eoa" and "eoa \<le> int (length buf)"
  obtains v where "getlong buf eoa cp = Some v"
proof -
  obtain a where a: "getshort buf eoa cp = Some a" by (rule getshort_ok [of cp eoa buf]) (use assms in auto)
  obtain b where b: "getshort buf eoa (cp + 2) = Some b" by (rule getshort_ok [of "cp + 2" eoa buf]) (use assms in auto)
  show thesis using that [of "a * 65536 + b"] a b by (simp add: getlong_def)
qed

lemma bytes_at_ok:
  assumes "0 \<le> cp" and "cp + int n \<le> eoa" and "eoa \<le> int (length buf)"
  obtains bs where "bytes_at buf eoa cp n = Some bs" and "length bs = n"
proof -
  have "nat cp + n \<le> length buf" using assms by linarith
  then show thesis using assms that [of "take n (drop (nat cp) buf)"] by (simp add: bytes_at_def)
qed

lemma skip_questions_pos:
  assumes "\<And>b e c. skip b e c \<ge> -1"
  shows "0 \<le> cp \<Longrightarrow> cp \<le> skip_questions skip buf eoa q cp"
proof (induction q arbitrary: cp)
  case (Suc q)
  have "0 \<le> skip buf eoa cp + 1" using assms [of buf eoa cp] by simp
  then have "cp \<le> cp + (skip buf eoa cp + QFIXEDSZ)" by (simp add: QFIXEDSZ_def)
  then show ?case using Suc.IH [of "cp + (skip buf eoa cp + QFIXEDSZ)"] Suc.prems by simp
qed simp

definition same_from :: "nat \<Rightarrow> 'a list \<Rightarrow> 'a list \<Rightarrow> bool" where
  "same_from k xs ys \<longleftrightarrow> length ys = length xs \<and> drop k ys = drop k xs"

lemma same_from_upd: "same_from k (xs[i := x]) ys \<Longrightarrow> i < k \<Longrightarrow> same_from k xs ys"
  by (simp add: same_from_def)

lemma answers_loop_safe:
  "0 \<le> cp \<Longrightarrow> eoa \<le> int (length buf) \<Longrightarrow> n \<le> length arr \<Longrightarrow> i \<le> n \<Longrightarrow>
    \<exists>r arr' ttl'. answers_loop expand buf eoa n ancount cp i arr ttl = Some (r, arr', ttl') \<and> same_from n arr arr' \<and>
      (\<forall>j. r = Some j \<longrightarrow> i \<le> j \<and> j \<le> n \<and> (ttl' \<noteq> ttl \<longrightarrow> i < j))"
proof (induction ancount arbitrary: cp i arr ttl)
  case 0
  then show ?case by (simp add: same_from_def)
next
  case (Suc ancount)
  let ?e = "expand buf eoa cp"
  show ?case
  proof (cases "cp < eoa \<and> i < n \<and> 0 \<le> ?e \<and> cp + ?e + 10 < eoa")
    case False
    then show ?thesis using Suc.prems by (auto simp: same_from_def Let_def)
  next
    case True
    define c where "c = cp + ?e"
    have c: "0 \<le> c" "c + 10 < eoa" using True Suc.prems(1) by (auto simp: c_def)
    obtain type where t: "getshort buf eoa c = Some type" by (rule getshort_ok [of c eoa buf]) (use c Suc.prems(2) in auto)
    obtain tl where tl: "getlong buf eoa (c + 4) = Some tl" by (rule getlong_ok [of "c + 4" eoa buf]) (use c Suc.prems(2) in auto)
    obtain m where m: "getshort buf eoa (c + 8) = Some m" "0 \<le> m"
      by (rule getshort_ok [of "c + 8" eoa buf]) (use c Suc.prems(2) in auto)
    have step: "answers_loop expand buf eoa n (Suc ancount) cp i arr ttl =
        (if type = T_A
         then (if m > 4 \<or> c + 10 + m > eoa then Some (None, arr, to_int32 tl)
               else do { bs \<leftarrow> bytes_at buf eoa (c + 10) (nat m); a \<leftarrow> nth_opt arr i; a \<leftarrow> put_bytes a bs;
                         answers_loop expand buf eoa n ancount (c + 10 + m) (i + 1) (arr[i := a]) (to_int32 tl) })
         else answers_loop expand buf eoa n ancount (c + 10 + m) i arr ttl)"
      using True c t tl m(1) by (auto simp: Let_def c_def [symmetric] add.assoc)
    show ?thesis
    proof (cases "type = T_A \<and> m \<le> 4 \<and> c + 10 + m \<le> eoa")
      case False
      then show ?thesis
        using Suc.IH [of "c + 10 + m" arr i ttl] Suc.prems c m(2) unfolding step by (auto simp: same_from_def)
    next
      case A: True
      obtain bs where bs: "bytes_at buf eoa (c + 10) (nat m) = Some bs" "length bs = nat m"
        by (rule bytes_at_ok [of "c + 10" "nat m" eoa buf]) (use A c m(2) Suc.prems(2) in auto)
      obtain a where a: "nth_opt arr i = Some a" using True Suc.prems(3) by (simp add: nth_opt_def)
      have "length bs \<le> 4" using A bs(2) by (simp add: nat_le_iff)
      then obtain a' where a': "put_bytes a bs = Some a'" by (simp add: put_bytes_def)
      obtain r arr' ttl' where r: "answers_loop expand buf eoa n ancount (c + 10 + m) (i + 1) (arr[i := a']) (to_int32 tl) = Some (r, arr', ttl')"
          "same_from n (arr[i := a']) arr'" "\<forall>j. r = Some j \<longrightarrow> i + 1 \<le> j \<and> j \<le> n"
        using Suc.IH [of "c + 10 + m" "arr[i := a']" "i + 1" "to_int32 tl"] Suc.prems c m(2) True by auto
      show ?thesis using r same_from_upd [OF r(2)] A bs(1) a a' True unfolding step by auto
    qed
  qed
qed

lemma parse_answer_ok:
  assumes skip: "\<And>b e c. skip b e c \<ge> -1" and len: "len \<le> length buf" and arr: "n \<le> length arr"
  obtains ok arr' n' ttl where "parse_answer skip expand buf len (arr, n) w = Some (ok, (arr', n'), set_ttl ttl (w\<lparr>h_errno := TRY_AGAIN\<rparr>))"
    and "same_from n arr arr'" and "n' \<le> n" and "\<not> ok \<Longrightarrow> n' = n" and "ok \<Longrightarrow> ttl > 0 \<Longrightarrow> n' > 0"
proof -
  let ?cp = "skip_questions skip buf (int len) (hdr_qdcount buf) HFIXEDSZ"
  have "0 \<le> ?cp" using skip_questions_pos [where skip = skip and cp = HFIXEDSZ and buf = buf and eoa = "int len" and q = "hdr_qdcount buf", OF skip] by (simp add: HFIXEDSZ_def)
  then obtain r arr' ttl where r: "answers_loop expand buf (int len) n (hdr_ancount buf) ?cp 0 arr (-1) = Some (r, arr', ttl)"
      "same_from n arr arr'" "\<forall>j. r = Some j \<longrightarrow> j \<le> n \<and> (ttl \<noteq> -1 \<longrightarrow> 0 < j)"
    using answers_loop_safe [of ?cp "int len" buf n arr 0] len arr by force
  show thesis
    using that [of "r \<noteq> None" arr' "case r of None \<Rightarrow> n | Some j \<Rightarrow> j" ttl] r
    by (cases r) (auto simp: parse_answer_def Let_def set_ttl_def)
qed

end
