(* ===== verification/Dnsres_Spec.thy ===== *)
theory Dnsres_Spec
  imports Dnsres
begin

text \<open>
  The properties of the resolver: the parser stays inside its buffers on every packet and decodes well-formed answers; the search
  tries the names of the resolver configuration in order; a resolution returns once the servers have answered, and with it
  the DNS cache of \<open>Dnscache\<close> is safe.
\<close>

section \<open>Well-formed answers\<close>

text \<open>A resource record as RFC 1035 encodes it; names are kept as the bytes they occupy, compressed or not.\<close>

record rr =
  rr_name :: "byte list"
  rr_type :: nat
  rr_class :: nat
  rr_ttl :: nat
  rr_data :: "byte list"

definition enc16 :: "nat \<Rightarrow> byte list" where
  "enc16 n = [word_of_nat (n div 256), word_of_nat n]"

definition enc32 :: "nat \<Rightarrow> byte list" where
  "enc32 n = enc16 (n div 65536) @ enc16 n"

definition enc_rr :: "rr \<Rightarrow> byte list" where
  "enc_rr r = rr_name r @ enc16 (rr_type r) @ enc16 (rr_class r) @ enc32 (rr_ttl r) @ enc16 (length (rr_data r)) @ rr_data r"

definition rr_ok :: "rr \<Rightarrow> bool" where
  "rr_ok r \<longleftrightarrow> rr_type r < 65536 \<and> rr_ttl r < 2 ^ 32 \<and> rr_data r \<noteq> [] \<and> length (rr_data r) < 65536 \<and>
     (rr_type r = 1 \<longrightarrow> length (rr_data r) = 4)"

text \<open>A question: the name and its type and class.\<close>

type_synonym question = "byte list \<times> byte list"

definition enc_question :: "question \<Rightarrow> byte list" where
  "enc_question q = fst q @ snd q"

text \<open>What \<open>dn_skipname\<close> and \<open>dn_expand\<close> return at the names of a packet: their length.\<close>

fun names_at :: "dnfun \<Rightarrow> byte list \<Rightarrow> int \<Rightarrow> nat \<Rightarrow> rr list \<Rightarrow> bool" where
  "names_at f buf eoa cp [] \<longleftrightarrow> True"
| "names_at f buf eoa cp (r # rs) \<longleftrightarrow> f buf eoa (int cp) = int (length (rr_name r)) \<and> names_at f buf eoa (cp + length (enc_rr r)) rs"

fun questions_at :: "dnfun \<Rightarrow> byte list \<Rightarrow> int \<Rightarrow> nat \<Rightarrow> question list \<Rightarrow> bool" where
  "questions_at f buf eoa cp [] \<longleftrightarrow> True"
| "questions_at f buf eoa cp (q # qs) \<longleftrightarrow>
     f buf eoa (int cp) = int (length (fst q)) \<and> length (snd q) = 4 \<and> questions_at f buf eoa (cp + length (enc_question q)) qs"

lemma length_enc [simp]:
  "length (enc16 n) = 2" "length (enc32 n) = 4" "length (enc_rr r) = length (rr_name r) + 10 + length (rr_data r)"
  "length (enc_question q) = length (fst q) + length (snd q)"
  by (simp_all add: enc16_def enc32_def enc_rr_def enc_question_def)

lemma get8_mid: "length pre < nat eoa \<Longrightarrow> get8 (pre @ b # post) eoa (int (length pre)) = Some (uint b)"
  by (simp add: get8_def)

lemma getshort_enc_mod:
  assumes "length pre + 1 < nat eoa"
  shows "getshort (pre @ enc16 n @ post) eoa (int (length pre)) = Some (int (n mod 65536))"
proof -
  let ?a = "word_of_nat (n div 256) :: byte" and ?b = "word_of_nat n :: byte"
  have "get8 (pre @ enc16 n @ post) eoa (int (length pre)) = Some (uint ?a)"
    using get8_mid [of pre eoa ?a "?b # post"] assms by (simp add: enc16_def)
  moreover have "get8 (pre @ enc16 n @ post) eoa (int (length pre) + 1) = Some (uint ?b)"
    using get8_mid [of "pre @ [?a]" eoa ?b post] assms by (simp add: enc16_def add.commute)
  moreover have "uint ?a * 256 + uint ?b = int (n mod 65536)"
  proof -
    have "uint ?a = int (n div 256 mod 256)" "uint ?b = int (n mod 256)"
      by (simp_all add: uint_nat unat_of_nat take_bit_eq_mod)
    then show ?thesis using mod_mult2_eq [of n 256 256] by simp
  qed
  ultimately show ?thesis by (simp add: getshort_def)
qed

lemma getshort_enc:
  "n < 65536 \<Longrightarrow> length pre + 1 < nat eoa \<Longrightarrow> getshort (pre @ enc16 n @ post) eoa (int (length pre)) = Some (int n)"
  by (simp add: getshort_enc_mod)

lemma getlong_enc:
  assumes "n < 2 ^ 32" and "length pre + 3 < nat eoa"
  shows "getlong (pre @ enc32 n @ post) eoa (int (length pre)) = Some (int n)"
proof -
  have hi: "getshort (pre @ enc32 n @ post) eoa (int (length pre)) = Some (int (n div 65536))"
    using getshort_enc [of "n div 65536" pre eoa "enc16 n @ post"] assms by (simp add: enc32_def)
  have lo: "getshort (pre @ enc32 n @ post) eoa (int (length pre) + 2) = Some (int (n mod 65536))"
    using getshort_enc_mod [of "pre @ enc16 (n div 65536)" eoa n post] assms by (simp add: enc32_def add.commute)
  have "int (n div 65536) * 65536 + int (n mod 65536) = int n" by (metis div_mult_mod_eq of_nat_add of_nat_mult of_nat_numeral)
  then show ?thesis using hi lo by (simp add: getlong_def)
qed

lemma bytes_at_mid:
  "int (length pre + length bs) \<le> eoa \<Longrightarrow> bytes_at (pre @ bs @ post) eoa (int (length pre)) (length bs) = Some bs"
  by (simp add: bytes_at_def)

lemma length_addr_bytes: "length (addr_bytes a) = 4"
  by (simp add: addr_bytes_def)

lemma put_bytes_full: "length bs = 4 \<Longrightarrow> put_bytes a bs = Some (addr_of bs)"
  by (simp add: put_bytes_def length_addr_bytes)

definition is_addr :: "rr \<Rightarrow> bool" where
  "is_addr r \<longleftrightarrow> rr_type r = 1"

text \<open>The fields of a record inside a packet.\<close>

lemma rr_fields:
  assumes r: "rr_ok r" and buf: "buf = pre @ enc_rr r @ post" and eoa: "int (length pre + length (enc_rr r)) \<le> eoa"
  defines "c \<equiv> int (length pre) + int (length (rr_name r))"
  shows "getshort buf eoa c = Some (int (rr_type r))" "getlong buf eoa (c + 4) = Some (int (rr_ttl r))"
    "getshort buf eoa (c + 8) = Some (int (length (rr_data r)))"
    "bytes_at buf eoa (c + 10) (length (rr_data r)) = Some (rr_data r)"
proof -
  let ?n = "pre @ rr_name r" and ?t = "enc16 (rr_type r)" and ?k = "enc16 (rr_class r)" and ?l = "enc32 (rr_ttl r)"
    and ?d = "enc16 (length (rr_data r))"
  have b: "buf = ?n @ ?t @ (?k @ ?l @ ?d @ rr_data r @ post)" "buf = (?n @ ?t @ ?k) @ ?l @ (?d @ rr_data r @ post)"
    "buf = (?n @ ?t @ ?k @ ?l) @ ?d @ (rr_data r @ post)" "buf = (?n @ ?t @ ?k @ ?l @ ?d) @ rr_data r @ post"
    by (simp_all add: buf enc_rr_def)
  have c: "c = int (length ?n)" "c + 4 = int (length (?n @ ?t @ ?k))" "c + 8 = int (length (?n @ ?t @ ?k @ ?l))"
    "c + 10 = int (length (?n @ ?t @ ?k @ ?l @ ?d))" by (simp_all add: c_def)
  have e: "length pre + length (rr_name r) + 10 + length (rr_data r) \<le> nat eoa" using eoa by simp
  show "getshort buf eoa c = Some (int (rr_type r))" unfolding b(1) c(1) by (rule getshort_enc) (use e r in \<open>auto simp: rr_ok_def\<close>)
  show "getlong buf eoa (c + 4) = Some (int (rr_ttl r))" unfolding b(2) c(2) by (rule getlong_enc) (use e r in \<open>auto simp: rr_ok_def\<close>)
  show "getshort buf eoa (c + 8) = Some (int (length (rr_data r)))"
    unfolding b(3) c(3) by (rule getshort_enc) (use e r in \<open>auto simp: rr_ok_def\<close>)
  show "bytes_at buf eoa (c + 10) (length (rr_data r)) = Some (rr_data r)"
    unfolding b(4) c(4) by (rule bytes_at_mid) (use eoa in simp)
qed

text \<open>The time to live the parser leaves: that of the last address record it used.\<close>

definition last_ttl :: "int \<Rightarrow> rr list \<Rightarrow> int" where
  "last_ttl t rs = (if rs = [] then t else to_int32 (int (rr_ttl (last rs))))"

lemma answers_loop_decodes:
  "buf = pre @ concat (map enc_rr rs) @ tail \<Longrightarrow> eoa = int (length pre + length (concat (map enc_rr rs))) \<Longrightarrow>
    names_at expand buf eoa (length pre) rs \<Longrightarrow> \<forall>r \<in> set rs. rr_ok r \<Longrightarrow> i \<le> n \<Longrightarrow> n \<le> length arr \<Longrightarrow>
    as = take (n - i) (filter is_addr rs) \<Longrightarrow>
    answers_loop expand buf eoa n (length rs) (int (length pre)) i arr ttl =
      Some (Some (i + length as), take i arr @ map (\<lambda>r. addr_of (rr_data r)) as @ drop (i + length as) arr, last_ttl ttl as)"
proof (induction rs arbitrary: pre i arr ttl as)
  case Nil
  then show ?case by (simp add: last_ttl_def)
next
  case (Cons r rs)
  let ?post = "concat (map enc_rr rs) @ tail" and ?c = "int (length pre) + int (length (rr_name r))"
  have buf: "buf = pre @ enc_rr r @ ?post" using Cons.prems(1) by simp
  have eoa: "int (length pre + length (enc_rr r)) \<le> eoa" using Cons.prems(2) by simp
  have ok: "rr_ok r" "rr_data r \<noteq> []" using Cons.prems(4) by (auto simp: rr_ok_def)
  have e: "expand buf eoa (int (length pre)) = int (length (rr_name r))" using Cons.prems(3) by simp
  note f = rr_fields [OF ok(1) buf eoa]
  have pos: "0 < int (length (rr_data r))" using ok(2) by (cases "rr_data r") simp_all
  have e10: "int (length pre) + int (length (rr_name r)) + 10 + int (length (rr_data r)) \<le> eoa" using eoa by simp
  have room: "int (length pre) < eoa" "\<not> ?c + 4 + 4 + 2 \<ge> eoa" "?c + 10 + int (length (rr_data r)) \<le> eoa"
    using e10 pos by linarith+
  let ?next = "?c + 10 + int (length (rr_data r))"
  have nx: "?next = int (length (pre @ enc_rr r))" by simp
  note IH = Cons.IH [where pre = "pre @ enc_rr r", folded nx]
  show ?case
  proof (cases "i < n")
    case False
    then show ?thesis using Cons.prems(5,7) by (simp add: last_ttl_def)
  next
    case i: True
    show ?thesis
    proof (cases "is_addr r")
      case False
      then have "answers_loop expand buf eoa n (length (r # rs)) (int (length pre)) i arr ttl =
          answers_loop expand buf eoa n (length rs) ?next i arr ttl"
        using i room e f by (simp add: Let_def is_addr_def T_A_def add.assoc)
      then show ?thesis using IH [of i arr as ttl] Cons.prems False by simp
    next
      case True
      then have four: "length (rr_data r) = 4" "rr_type r = 1" using ok(1) by (auto simp: rr_ok_def is_addr_def)
      let ?arr = "arr[i := addr_of (rr_data r)]" and ?as = "take (n - Suc i) (filter is_addr rs)"
      have as: "as = r # ?as" using Cons.prems(7) True i by (simp add: take_Cons' Suc_diff_Suc [symmetric])
      have "answers_loop expand buf eoa n (length (r # rs)) (int (length pre)) i arr ttl =
          answers_loop expand buf eoa n (length rs) ?next (i + 1) ?arr (to_int32 (int (rr_ttl r)))"
        using i room e f four Cons.prems(6) by (simp add: Let_def T_A_def add.assoc put_bytes_full nth_opt_def)
      moreover have "answers_loop expand buf eoa n (length rs) ?next (i + 1) ?arr (to_int32 (int (rr_ttl r))) =
          Some (Some (i + 1 + length ?as), take (i + 1) ?arr @ map (\<lambda>r. addr_of (rr_data r)) ?as @ drop (i + 1 + length ?as) ?arr,
            last_ttl (to_int32 (int (rr_ttl r))) ?as)"
        by (rule IH) (use Cons.prems i in simp_all)
      moreover have "take (i + 1) ?arr = take i arr @ [addr_of (rr_data r)]"
        using i Cons.prems(6) by (simp add: take_Suc_conv_app_nth)
      ultimately show ?thesis unfolding as by (simp add: last_ttl_def)
    qed
  qed
qed

lemma skip_questions_at:
  "questions_at skip buf eoa cp qs \<Longrightarrow>
    skip_questions skip buf eoa (length qs) (int cp) = int (cp + length (concat (map enc_question qs)))"
proof (induction qs arbitrary: cp)
  case (Cons q qs)
  have "int cp + (skip buf eoa (int cp) + QFIXEDSZ) = int (cp + length (enc_question q))"
    using Cons.prems by (simp add: QFIXEDSZ_def)
  moreover have "questions_at skip buf eoa (cp + length (enc_question q)) qs" using Cons.prems by (simp only: questions_at.simps)
  ultimately show ?case using Cons.IH [of "cp + length (enc_question q)"] by simp
qed simp

section \<open>The parser\<close>

text \<open>
  C28: The parser of answers is memory safe. Whatever bytes a server sends, and whatever \<open>dn_expand\<close> returns, \<open>parse_answer\<close> ends, reads
  no byte at or behind the end of the packet, and writes only the first \<open>*num_addrs\<close> addresses of the caller's array. On failure
  \<open>*num_addrs\<close> keeps its value; on success it is at most that value, and positive if the time to live it leaves is positive.
\<close>

theorem parse_answer_safe:
  assumes "\<forall>b e c. skip b e c \<ge> -1" and "len \<le> length buf" and "n \<le> length arr"
  shows "\<exists>ok arr' n' w'. parse_answer skip expand buf len (arr, n) w = Some (ok, (arr', n'), w') \<and>
    length arr' = length arr \<and> drop n arr' = drop n arr \<and> n' \<le> n \<and> (\<not> ok \<longrightarrow> n' = n) \<and>
    (ok \<longrightarrow> dns_ttl (dnss w') > 0 \<longrightarrow> n' > 0)"
proof -
  obtain ok arr' n' ttl where "parse_answer skip expand buf len (arr, n) w = Some (ok, (arr', n'), set_ttl ttl (w\<lparr>h_errno := TRY_AGAIN\<rparr>))"
      "same_from n arr arr'" "n' \<le> n" "\<not> ok \<Longrightarrow> n' = n" "ok \<Longrightarrow> ttl > 0 \<Longrightarrow> n' > 0"
    by (rule parse_answer_ok [of skip len buf n arr expand w]) (use assms in auto)
  then show ?thesis by (auto simp: same_from_def set_ttl_def)
qed

text \<open>A name walker for the examples: labels, closed by a zero byte or a pointer; \<open>-1\<close> if the name is cut.\<close>

fun name_len :: "byte list \<Rightarrow> int" where
  "name_len [] = -1"
| "name_len (b # bs) =
    (if b = 0 then 1
     else if b \<ge> 192 then (if bs = [] then -1 else 2)
     else if length bs < unat b then -1
     else (let r = name_len (drop (unat b) bs) in if r < 0 then -1 else r + 1 + int (unat b)))"

definition demo_dn :: dnfun where
  "demo_dn buf eoa cp = name_len (drop (nat cp) (take (nat eoa) buf))"

lemma name_len_ge: "name_len bs \<ge> -1"
  by (induction bs rule: name_len.induct) (auto simp: Let_def)

definition demo_question :: question where
  "demo_question = ([1, 97, 0], [0, 1, 0, 1])"

definition demo_rrs :: "rr list" where
  "demo_rrs =
    [\<lparr>rr_name = [192, 12], rr_type = 5, rr_class = 1, rr_ttl = 60, rr_data = [1, 98, 0]\<rparr>,
     \<lparr>rr_name = [1, 98, 0], rr_type = 1, rr_class = 1, rr_ttl = 300, rr_data = [10, 0, 0, 7]\<rparr>]"

definition demo_header :: "byte list" where
  "demo_header = [0, 7, 129, 128, 0, 1, 0, 2, 0, 0, 0, 0]"

text \<open>A process with a running thread, no descriptor objects and a fresh DNS cache.\<close>

definition demo_dnsw :: "(int \<Rightarrow> int option) dnsw" where
  "demo_dnsw = netw.extend demo_netw (dnsw.fields 0 NETDB_SUCCESS demo_dns)"

definition demo_packet :: "byte list" where
  "demo_packet = demo_header @ concat (map enc_question [demo_question]) @ concat (map enc_rr demo_rrs)"

theorem parse_answer_safe_witness:
  "\<exists>ok arr' n' w'. parse_answer demo_dn demo_dn demo_packet 30 ([0, 0], 2) demo_dnsw = Some (ok, (arr', n'), w') \<and>
    length arr' = 2 \<and> drop 2 arr' = [] \<and> n' \<le> 2 \<and> (\<not> ok \<longrightarrow> n' = 2) \<and> (ok \<longrightarrow> dns_ttl (dnss w') > 0 \<longrightarrow> n' > 0)"
proof -
  have "\<forall>b e c. demo_dn b e c \<ge> -1" by (simp add: demo_dn_def name_len_ge)
  moreover have "30 \<le> length demo_packet"
    by (simp add: demo_packet_def demo_header_def demo_question_def demo_rrs_def)
  ultimately show ?thesis using parse_answer_safe [of demo_dn 30 demo_packet 2 "[0, 0]" demo_dn demo_dnsw] by (simp add: numeral_2_eq_2)
qed

text \<open>
  C29: The parser decodes well-formed answers. For a packet with a header, questions and resource records as RFC 1035 encodes them, if
  \<open>dn_skipname\<close> and \<open>dn_expand\<close> return the lengths of its names, \<open>parse_answer\<close> succeeds: the addresses are those of the A records, in
  their order and at most \<open>*num_addrs\<close> of them, records of other types are skipped, bytes behind the packet do not matter,
  and the time to live is that of the last A record used, \<open>-1\<close> if there is none.
\<close>

theorem parse_answer_decodes:
  assumes hdr: "length h = 12" "hdr_qdcount h = length qs" "hdr_ancount h = length rs"
    and pkt: "pkt = h @ concat (map enc_question qs) @ concat (map enc_rr rs)"
    and skip: "questions_at skip (pkt @ tail) (int (length pkt)) 12 qs"
    and expand: "names_at expand (pkt @ tail) (int (length pkt)) (12 + length (concat (map enc_question qs))) rs"
    and rs: "\<forall>r \<in> set rs. rr_ok r" and arr: "n \<le> length arr"
  shows "parse_answer skip expand (pkt @ tail) (length pkt) (arr, n) w =
    (let as = take n (filter is_addr rs)
     in Some (True, (map (\<lambda>r. addr_of (rr_data r)) as @ drop (length as) arr, length as),
          set_ttl (last_ttl (-1) as) (w\<lparr>h_errno := TRY_AGAIN\<rparr>)))"
proof -
  let ?pre = "h @ concat (map enc_question qs)"
  have h: "hdr_qdcount (pkt @ tail) = length qs" "hdr_ancount (pkt @ tail) = length rs"
    using hdr by (simp_all add: pkt hdr_qdcount_def hdr_ancount_def be16_def nth_append)
  have s: "skip_questions skip (pkt @ tail) (int (length pkt)) (length qs) HFIXEDSZ = int (length ?pre)"
    using skip_questions_at [OF skip] hdr(1) by (simp add: HFIXEDSZ_def)
  have e: "names_at expand (pkt @ tail) (int (length pkt)) (length ?pre) rs" using expand hdr(1) by simp
  have "answers_loop expand (pkt @ tail) (int (length pkt)) n (length rs) (int (length ?pre)) 0 arr (-1) =
      (let as = take n (filter is_addr rs)
       in Some (Some (length as), map (\<lambda>r. addr_of (rr_data r)) as @ drop (length as) arr, last_ttl (-1) as))"
    using answers_loop_decodes [OF _ _ e rs _ arr refl, of tail 0 "-1"] by (simp add: pkt Let_def)
  then show ?thesis by (simp add: parse_answer_def h s Let_def set_ttl_def)
qed

lemma demo_bytes:
  "demo_packet = [0, 7, 129, 128, 0, 1, 0, 2, 0, 0, 0, 0, 1, 97, 0, 0, 1, 0, 1,
     192, 12, 0, 5, 0, 1, 0, 0, 0, 60, 0, 3, 1, 98, 0, 1, 98, 0, 0, 1, 0, 1, 0, 0, 1, 44, 0, 4, 10, 0, 0, 7]"
  by (simp add: demo_packet_def demo_header_def demo_question_def demo_rrs_def enc_question_def enc_rr_def enc32_def enc16_def)

lemma demo_packet_evals:
  "length demo_packet = 51" "questions_at demo_dn (demo_packet @ [9]) 51 12 [demo_question]"
  "names_at demo_dn (demo_packet @ [9]) 51 19 demo_rrs" "hdr_qdcount demo_header = 1" "hdr_ancount demo_header = 2"
  "\<forall>r \<in> set demo_rrs. rr_ok r" "addr_of [10, 0, 0, 7] = 0x700000A" "to_int32 300 = 300"
  by (simp_all add: demo_bytes demo_question_def demo_rrs_def demo_dn_def hdr_qdcount_def hdr_ancount_def be16_def demo_header_def
      rr_ok_def addr_of_def to_int32_def enc_question_def word_le_nat_alt)

theorem parse_answer_decodes_witness:
  "parse_answer demo_dn demo_dn (demo_packet @ [9]) 51 ([0, 0], 2) demo_dnsw =
     Some (True, ([0x700000A, 0], 1), set_ttl 300 (demo_dnsw\<lparr>h_errno := TRY_AGAIN\<rparr>))"
proof -
  have "parse_answer demo_dn demo_dn (demo_packet @ [9]) (length demo_packet) ([0, 0], 2) demo_dnsw =
    (let as = take 2 (filter is_addr demo_rrs)
     in Some (True, (map (\<lambda>r. addr_of (rr_data r)) as @ drop (length as) [0, 0], length as),
          set_ttl (last_ttl (-1) as) (demo_dnsw\<lparr>h_errno := TRY_AGAIN\<rparr>)))"
    by (rule parse_answer_decodes [of demo_header "[demo_question]" demo_rrs demo_packet demo_dn "[9]" demo_dn 2 "[0, 0]" demo_dnsw])
      (use demo_packet_evals in \<open>simp_all add: demo_packet_def demo_header_def demo_question_def demo_rrs_def\<close>)
  then show ?thesis
    using demo_packet_evals(1,7,8) by (simp add: demo_rrs_def is_addr_def last_ttl_def)
qed

text \<open>
  The parser of res.c is not: a record that is no alias is copied over the four bytes of the address with the length the server
  gives, so a longer one, an IPv6 address for example, overruns it.
\<close>

lemma res_parse_overflow:
  assumes r: "rr_ok r" "rr_type r \<noteq> 5" "length (rr_data r) > 4" and buf: "buf = pre @ enc_rr r @ post" "length buf = MAXPACKET"
    and e: "expand buf eoa (int (length pre)) = int (length (rr_name r))" "int (length pre) < eoa"
  shows "first_answer expand buf eoa (Suc ancount) (int (length pre)) a = None"
proof -
  have "int (length pre + length (enc_rr r)) \<le> int MAXPACKET" using buf by simp
  note f = rr_fields [OF r(1) buf(1) this]
  have "put_bytes a (rr_data r) = None" using r(3) by (simp add: put_bytes_def)
  then show ?thesis using f e r(2) by (simp add: Let_def T_CNAME_def add.assoc)
qed

section \<open>The search\<close>

text \<open>
  The names that are asked for, in order, as the resolver configuration prescribes: a name with enough dots first as it is; then,
  unless it ends with a dot, with the domains of the search list (only the first one if \<open>RES_DNSRCH\<close> is off); and as it is
  at the end if that has not been done.
\<close>

definition dots :: "string \<Rightarrow> nat" where
  "dots host = length (filter (\<lambda>c. c = CHR ''.'') host)"

definition search_names :: "res_state \<Rightarrow> string \<Rightarrow> string list" where
  "search_names conf host =
    (if dots host \<ge> rs_ndots conf then [host] else []) @
    (if dots host = 0 \<and> rs_defnames conf \<or> dots host \<noteq> 0 \<and> last host \<noteq> CHR ''.'' \<and> rs_dnsrch conf
     then map (\<lambda>d. host @ ''.'' @ d) (if rs_dnsrch conf then rs_domains conf else take 1 (rs_domains conf)) else []) @
    (if dots host \<ge> rs_ndots conf then [] else [host])"

fun first_success :: "'s query \<Rightarrow> ('s \<Rightarrow> bool) \<Rightarrow> string list \<Rightarrow> 's \<Rightarrow> (bool \<times> 's) option" where
  "first_success q stop [] s = Some (False, s)"
| "first_success q stop (name # names) s =
    (case q name s of None \<Rightarrow> None
     | Some (ok, s) \<Rightarrow> if ok then Some (True, s) else if stop s then Some (False, s) else first_success q stop names s)"

text \<open>The same with the reason why it ended, to put searches together.\<close>

fun search_outcome :: "'s query \<Rightarrow> ('s \<Rightarrow> bool) \<Rightarrow> string list \<Rightarrow> 's \<Rightarrow> (outcome \<times> 's) option" where
  "search_outcome q stop [] s = Some (Exhausted, s)"
| "search_outcome q stop (name # names) s =
    (case q name s of None \<Rightarrow> None
     | Some (ok, s) \<Rightarrow> if ok then Some (Found, s) else if stop s then Some (Stopped, s) else search_outcome q stop names s)"

lemma first_success_append:
  "first_success q stop (xs @ ys) s =
    (case search_outcome q stop xs s of None \<Rightarrow> None
     | Some (r, s) \<Rightarrow> if r \<noteq> Exhausted then Some (r = Found, s) else first_success q stop ys s)"
  by (induction xs arbitrary: s) (auto split: option.splits)

text \<open>The array holds the candidate as a C string when it is short enough.\<close>

lemma name_string:
  assumes "NUL \<notin> set host" and "NUL \<notin> set d" and "length host + 1 + length d < maxlen"
    and name: "take (length host + 1) name = host @ ''.''" "length name = MAXDNAME"
  obtains name' where "strncpy_at name (length host + 1) d = Some name'" and "c_string name' = Some (host @ ''.'' @ d)"
    and "take (length host + 1) name' = host @ ''.''" and "length name' = MAXDNAME"
proof -
  let ?k = "maxlen - (length host + 1)"
  define name' where "name' = (host @ ''.'') @ take ?k (d @ replicate ?k NUL) @ drop maxlen name"
  have s: "strncpy_at name (length host + 1) d = Some name'"
    using assms(3) name by (simp add: strncpy_at_def name'_def Let_def)
  have "take ?k (d @ replicate ?k NUL) = d @ replicate (?k - length d) NUL" using assms(3) by simp
  moreover have "?k - length d = Suc (?k - length d - 1)" using assms(3) by linarith
  ultimately have "take ?k (d @ replicate ?k NUL) = d @ NUL # replicate (?k - length d - 1) NUL" by (metis replicate_Suc)
  then have n: "name' = (host @ ''.'' @ d) @ NUL # replicate (?k - length d - 1) NUL @ drop maxlen name"
    by (simp add: name'_def)
  have "c_string name' = Some (host @ ''.'' @ d)"
    using assms(1,2) by (simp add: c_string_def n takeWhile_append NUL_def)
  moreover have "length name' = MAXDNAME"
    using assms(3) name(2) by (simp add: n maxlen_def MAXDNAME_def)
  ultimately show thesis using that [OF s] by (simp add: n)
qed

lemma try_domains_outcome:
  assumes "NUL \<notin> set host"
  shows "\<forall>d \<in> set ds. NUL \<notin> set d \<and> length host + 1 + length d < maxlen \<Longrightarrow>
    take (length host + 1) name = host @ ''.'' \<Longrightarrow> length name = MAXDNAME \<Longrightarrow>
    try_domains q stop dnsrch name (length host + 1) ds s =
      search_outcome q stop (map (\<lambda>d. host @ ''.'' @ d) (if dnsrch then ds else take 1 ds)) s"
proof (induction ds arbitrary: name s)
  case (Cons d ds)
  obtain name' where n: "strncpy_at name (length host + 1) d = Some name'" "c_string name' = Some (host @ ''.'' @ d)"
      "take (length host + 1) name' = host @ ''.''" "length name' = MAXDNAME"
    by (rule name_string [of host d name]) (use Cons.prems assms in auto)
  show ?case using Cons.IH [OF _ n(3,4)] Cons.prems(1) n(1,2) by (cases dnsrch) (auto split: option.splits)
qed simp

lemma search_shape:
  "do {
     (r, s) \<leftarrow> (if as_is then do { (ok, s) \<leftarrow> q host s; Some (if ok then Found else if stop s then Stopped else Exhausted, s) }
        else Some (Exhausted, s));
     if r \<noteq> Exhausted then Some (r = Found, s)
     else do {
       (r, s) \<leftarrow> search_outcome q stop mid s;
       if r \<noteq> Exhausted then Some (r = Found, s) else if \<not> as_is then q host s else Some (False, s)
     }
   } = first_success q stop ((if as_is then [host] else []) @ mid @ (if as_is then [] else [host])) s"
proof (cases as_is)
  case True
  then show ?thesis
    using first_success_append [of q stop mid "[]"] by (cases "q host s") (auto split: option.splits)
next
  case False
  have "first_success q stop [host] s = q host s" for s by (auto split: option.splits)
  then show ?thesis using False by (simp add: first_success_append del: first_success.simps split: option.splits)
qed

lemma dns_search_eq:
  assumes host: "host \<noteq> []" "NUL \<notin> set host" "length host < maxlen"
    and ds: "\<forall>d \<in> set (rs_domains conf). NUL \<notin> set d \<and> length host + 1 + length d < maxlen" and junk: "length junk = MAXDNAME"
  shows "dns_search q stop conf junk host s = first_success q stop (search_names conf host) s"
proof -
  define name where "name = (host @ drop (length host) junk)[length host := CHR ''.'']"
  have n: "min (length host) maxlen = length host" using host(3) by simp
  have tk: "take (length host) host = host" by simp
  have len: "length name = MAXDNAME" using junk host(3) by (simp add: name_def maxlen_def)
  have "take (length host + 1) name = host @ ''.''"
    using junk host(3) by (simp add: name_def take_Suc_conv_app_nth list_update_append maxlen_def)
  note t = try_domains_outcome [OF host(2) ds this len, of q stop "rs_dnsrch conf"]
  have l: "(host @ drop (length host) junk) ! (length host - 1) = last host"
    using host(1) by (simp add: nth_append last_conv_nth)
  let ?as_is = "rs_ndots conf \<le> dots host"
    and ?more = "dots host = 0 \<and> rs_defnames conf \<or> dots host \<noteq> 0 \<and> last host \<noteq> CHR ''.'' \<and> rs_dnsrch conf"
    and ?cands = "map (\<lambda>d. host @ ''.'' @ d) (if rs_dnsrch conf then rs_domains conf else take 1 (rs_domains conf))"
  have mid: "(if ?more then search_outcome q stop ?cands s else Some (Exhausted, s)) = search_outcome q stop (if ?more then ?cands else []) s" for s
    by simp
  show ?thesis
    unfolding dns_search_def Let_def n tk l name_def [symmetric] dots_def [symmetric] t mid search_shape search_names_def by (rule refl)
qed

text \<open>
  C30: The search follows the resolver configuration. For every query function, \<open>_stx_dns_getaddrlist\<close> and \<open>dns_getaddr\<close> ask for the names of
  \<open>search_names\<close> in this order, stop at the first success, and give up at once when the thread is interrupted; the candidates are built
  in the fixed array without running over its end and are read back as they were meant, provided they fit.
\<close>

theorem dns_search_order:
  assumes "host \<noteq> []" and "NUL \<notin> set host" and "length host < maxlen"
    and "\<forall>d \<in> set (rs_domains conf). NUL \<notin> set d \<and> length host + 1 + length d < maxlen" and "length junk = MAXDNAME"
  shows "dns_search q stop conf junk host s = first_success q stop (search_names conf host) s"
  by (rule dns_search_eq [OF assms])

definition demo_conf :: res_state where
  "demo_conf = \<lparr>rs_usevc = False, rs_defnames = True, rs_dnsrch = True, rs_ndots = 1, rs_nsservers = 1,
     rs_domains = [''a.org'', ''b.org'']\<rparr>"

theorem dns_search_order_witness:
  "dns_search (\<lambda>nm asked. Some (nm = ''www.b.org'', asked @ [nm])) (\<lambda>_. False) demo_conf (replicate MAXDNAME CHR ''x'') ''www'' [] =
     Some (True, [''www.a.org'', ''www.b.org''])"
proof -
  have "dns_search (\<lambda>nm asked. Some (nm = ''www.b.org'', asked @ [nm])) (\<lambda>_. False) demo_conf (replicate MAXDNAME CHR ''x'') ''www'' [] =
      first_success (\<lambda>nm asked. Some (nm = ''www.b.org'', asked @ [nm])) (\<lambda>_. False) (search_names demo_conf ''www'') []"
    by (rule dns_search_order) (auto simp: demo_conf_def NUL_def maxlen_def MAXDNAME_def)
  moreover have "search_names demo_conf ''www'' = [''www.a.org'', ''www.b.org'', ''www'']"
    by (simp add: search_names_def dots_def demo_conf_def)
  ultimately show ?thesis by simp
qed

text \<open>
  The bound on the host is needed: from 1024 characters on, the length passed to \<open>strncpy\<close> is \<open>-1\<close>, and the first domain of the search
  list is written behind the array.
\<close>

lemma long_host_overflow:
  assumes "maxlen \<le> length host" and "dots (take maxlen host) = 0" and "rs_defnames conf" and "0 < rs_ndots conf" and "rs_domains conf \<noteq> []"
  shows "dns_search q stop conf junk host s = None"
proof -
  obtain d ds where d: "rs_domains conf = d # ds" using assms(5) by (cases "rs_domains conf") auto
  have n: "min (length host) maxlen = maxlen" using assms(1) by simp
  have "strncpy_at name (maxlen + 1) d = None" for name by (simp add: strncpy_at_def)
  then have "try_domains q stop b name (maxlen + 1) (rs_domains conf) s = None" for b name by (simp add: d)
  then show ?thesis using assms(2-4) unfolding dns_search_def Let_def n dots_def by simp
qed

section \<open>Resolutions return\<close>

text \<open>
  A resolution can only return when every system call it makes has a decisive attempt, and when after some replies with other
  identifiers the right one comes, or an empty one, or an error: the timeout of the I/O functions does not end a wait.
\<close>

definition replies_ok :: "byte list \<Rightarrow> (byte list osres \<times> 'o) list list \<Rightarrow> bool" where
  "replies_ok ident replies \<longleftrightarrow>
    (\<forall>ins \<in> set replies. decisive ins \<noteq> None \<and> (\<forall>bs. decisive ins = Some (OsOk bs) \<longrightarrow> length bs \<le> MAXPACKET)) \<and>
    (\<exists>ins \<in> set replies. case decisive ins of Some (OsOk bs) \<Rightarrow> bs = [] \<or> 2 \<le> length bs \<and> take 2 bs = ident | _ \<Rightarrow> True)"

definition attempt_ok :: "(16 word \<Rightarrow> byte list) \<Rightarrow> 'w attempt \<Rightarrow> bool" where
  "attempt_ok mk a \<longleftrightarrow> mk (at_id a) = [] \<or>
    2 \<le> length (mk (at_id a)) \<and> length (mk (at_id a)) \<le> MAXPACKET \<and> decisive (at_send a) \<noteq> None \<and>
    replies_ok (take 2 (mk (at_id a))) (at_replies a)"

definition attempt_scripts :: "'w attempt \<Rightarrow> ('w \<Rightarrow> 'w option) set" where
  "attempt_scripts a = snd ` set (at_send a) \<union> snd ` \<Union> (set ` set (at_replies a))"

text \<open>
  The state during a resolution: the caller is running and the globals of the DNS cache satisfy \<open>Q\<close>; the other threads
  keep it so.
\<close>

definition net_inv :: "'m cmap \<Rightarrow> pqid \<Rightarrow> tid \<Rightarrow> (dns_state \<Rightarrow> bool) \<Rightarrow> ('m, 'z) dnsw_scheme \<Rightarrow> bool" where
  "net_inv ops p me Q w \<longleftrightarrow> caller_ready ops p me w \<and> Q (dnss w)"

definition net_good :: "'m cmap \<Rightarrow> pqid \<Rightarrow> tid \<Rightarrow> (dns_state \<Rightarrow> bool) \<Rightarrow> (('m, 'z) dnsw_scheme \<Rightarrow> ('m, 'z) dnsw_scheme option) \<Rightarrow> bool" where
  "net_good ops p me Q oth \<longleftrightarrow> others_ok ops p me oth \<and> (\<forall>w w'. oth w = Some w' \<longrightarrow> Q (dnss w) \<longrightarrow> Q (dnss w'))"

lemma poll_enter_dnss: "poll_enter ops p ps timeout me w = Some w' \<Longrightarrow> dnss w' = dnss w"
  by (auto simp: poll_enter_def Let_def split: option.splits)

lemma poll_leave_dnss: "dnss (snd (poll_leave ops p me w)) = dnss w"
  by (simp add: poll_leave_def Let_def)

lemma st_poll_dnss:
  assumes "st_poll ops p ps timeout oth w = Some (r, w')" and "Q (dnss w)" and "\<forall>w w'. oth w = Some w' \<longrightarrow> Q (dnss w) \<longrightarrow> Q (dnss w')"
  shows "Q (dnss w')"
proof -
  have "Q (dnss w')" if "poll_enter ops p ps timeout me w = Some w1" "oth (w1\<lparr>vpst := s\<rparr>) = Some w2" "poll_leave ops p me w2 = (r, w')" for me w1 s w2
  proof -
    have "Q (dnss (w1\<lparr>vpst := s\<rparr>))" using assms(2) poll_enter_dnss [OF that(1)] by simp
    then have "Q (dnss w2)" using assms(3) that(2) by blast
    then show ?thesis using poll_leave_dnss [of ops p me w2] that(3) by simp
  qed
  then show ?thesis using assms(1,2) by (auto simp: st_poll_def split: option.splits if_splits)
qed

lemma netfd_poll_dnss:
  assumes "st_netfd_poll ops p nf how timeout oth w = Some (r, w')" and "Q (dnss w)"
    and "\<forall>w w'. oth w = Some w' \<longrightarrow> Q (dnss w) \<longrightarrow> Q (dnss w')"
  shows "Q (dnss w')"
  using assms(1,2) st_poll_dnss [where Q = Q, OF _ _ assms(3)]
  by (auto simp: st_netfd_poll_def split: option.splits sum.splits if_splits)

interpretation dp: waiting_poll "st_netfd_poll ops p nf how timeout" "net_inv ops p me Q"
    "net_good ops p me Q :: (('m, 'z) dnsw_scheme \<Rightarrow> ('m, 'z) dnsw_scheme option) \<Rightarrow> bool"
  for ops :: "'m cmap" and p nf how timeout me Q
proof
  fix w :: "('m, 'z) dnsw_scheme" and oth :: "('m, 'z) dnsw_scheme \<Rightarrow> ('m, 'z) dnsw_scheme option"
  assume w: "net_inv ops p me Q w" "net_good ops p me Q oth"
  then obtain r w' where r: "st_netfd_poll ops p nf how timeout oth w = Some (r, w')" "caller_ready ops p me w'"
    using np.poll_ok [of ops p me w oth nf how timeout] by (auto simp: net_inv_def net_good_def)
  moreover have "Q (dnss w')" using netfd_poll_dnss [where Q = Q, OF r(1)] w by (simp add: net_inv_def net_good_def)
  ultimately show "\<exists>r w'. st_netfd_poll ops p nf how timeout oth w = Some (r, w') \<and> net_inv ops p me Q w'"
    by (simp add: net_inv_def)
qed

lemma caller_ready_globals [simp]:
  "caller_ready ops p me (w\<lparr>c_errno := e\<rparr>) = caller_ready ops p me w" "caller_ready ops p me (w\<lparr>h_errno := h\<rparr>) = caller_ready ops p me w"
  "caller_ready ops p me (w\<lparr>dnss := d\<rparr>) = caller_ready ops p me w"
  by (simp_all add: caller_ready_def io_base_def pending_def)

lemma net_inv_errno [simp]:
  "net_inv ops p me Q (w\<lparr>c_errno := e\<rparr>) = net_inv ops p me Q w" "net_inv ops p me Q (w\<lparr>h_errno := h\<rparr>) = net_inv ops p me Q w"
  by (simp_all add: net_inv_def)

lemma retry_returns:
  assumes "net_inv ops p me Q w" and "\<forall>x \<in> set ins. net_good ops p me Q (snd x)" and "decisive ins \<noteq> None"
  obtains r w' where "io_retry (st_netfd_poll ops p nf how timeout) ins w = Some (r, w')" and "net_inv ops p me Q w'"
    and "\<And>a. r = Inr a \<Longrightarrow> decisive ins = Some (OsOk a)"
  using dp.retry_ok [OF assms(1,2), of nf how timeout] assms(3) io_retry_decides that unfolding decisive_None by metis

lemma overlay_ok:
  assumes "length buf = MAXPACKET" and "length bs \<le> MAXPACKET"
  obtains buf' where "overlay bs buf = Some buf'" and "length buf' = MAXPACKET" and "2 \<le> length bs \<Longrightarrow> hdr_id buf' = take 2 bs"
  using assms that [of "bs @ drop (length bs) buf"] by (simp add: overlay_def hdr_id_def)

text \<open>Waiting for the reply ends, with a packet of the right identifier if it is long enough to have one.\<close>

lemma recv_reply_ok:
  "net_inv ops p me Q w \<Longrightarrow> \<forall>ins \<in> set replies. \<forall>x \<in> set ins. net_good ops p me Q (snd x) \<Longrightarrow> replies_ok ident replies \<Longrightarrow>
    length buf = MAXPACKET \<Longrightarrow>
    \<exists>len buf' w'. recv_reply ops p (Some nf) timeout ident replies buf w = Some (len, buf', w') \<and> net_inv ops p me Q w' \<and>
      length buf' = MAXPACKET \<and> len \<le> int MAXPACKET \<and> (len > 0 \<longrightarrow> hdr_id buf' = ident)"
proof (induction replies arbitrary: w buf)
  case Nil
  then show ?case by (simp add: replies_ok_def)
next
  case (Cons ins replies)
  have ins: "decisive ins \<noteq> None" "\<And>bs. decisive ins = Some (OsOk bs) \<Longrightarrow> length bs \<le> MAXPACKET"
    using Cons.prems(3) by (auto simp: replies_ok_def)
  obtain r w1 where r: "io_retry (st_netfd_poll ops p (Some nf) POLLIN timeout) ins w = Some (r, w1)" "net_inv ops p me Q w1"
      "\<And>a. r = Inr a \<Longrightarrow> decisive ins = Some (OsOk a)"
    by (rule retry_returns [OF Cons.prems(1) _ ins(1), of "Some nf" POLLIN timeout]) (use Cons.prems(2) in auto)
  show ?case
  proof (cases r)
    case (Inl e)
    then show ?thesis using r(1,2) Cons.prems(4) by (simp add: st_recvfrom_def)
  next
    case (Inr bs)
    obtain buf' where b: "overlay bs buf = Some buf'" "length buf' = MAXPACKET" "2 \<le> length bs \<Longrightarrow> hdr_id buf' = take 2 bs"
      by (rule overlay_ok [OF Cons.prems(4), of bs]) (use ins(2) r(3) Inr in auto)
    show ?thesis
    proof (cases "bs = [] \<or> ident = hdr_id buf'")
      case True
      then show ?thesis using r(1,2) Inr b(1,2) ins(2) r(3) by (auto simp: st_recvfrom_def)
    next
      case False
      then have "replies_ok ident replies" using Cons.prems(3) r(3) Inr b(3) by (auto simp: replies_ok_def)
      then show ?thesis
        using Cons.IH [OF r(2) _ _ b(2)] Cons.prems(2) False r(1) Inr b(1) by (auto simp: st_recvfrom_def)
    qed
  qed
qed

text \<open>One round of the query loop: the query could not be sent, and it was sent and a reply came.\<close>

lemma query_loop_unsent:
  assumes "mk (at_id a) = q" and "q \<noteq> []" and "overlay q buf = Some buf1"
    and "st_sendto ops p nf timeout (at_send a) w = Some (r, w1)" and "r \<noteq> Inr (int (length q))"
  shows "query_loop ops p nf timeout parse mk (Suc n) (a # atts) buf out w =
    (let w = (case r of Inl e \<Rightarrow> w1\<lparr>c_errno := e\<rparr> | Inr _ \<Rightarrow> w1)\<lparr>h_errno := NETDB_INTERNAL\<rparr>
     in if c_errno w = errno_num EINTR then Some (False, atts, out, w)
        else query_loop ops p nf timeout parse mk n atts buf1 out w)"
  using assms by (simp add: Let_def)

lemma query_loop_sent:
  assumes "mk (at_id a) = q" and "q \<noteq> []" and "overlay q buf = Some buf1"
    and "st_sendto ops p nf timeout (at_send a) w = Some (Inr (int (length q)), w1)"
    and "recv_reply ops p nf timeout (hdr_id buf1) (at_replies a) buf1 w1 = Some (len, buf2, w2)"
  shows "query_loop ops p nf timeout parse mk (Suc n) (a # atts) buf out w =
    (if len < HFIXEDSZ
     then (let w = w2\<lparr>h_errno := NETDB_INTERNAL\<rparr>
           in if len \<ge> 0 then query_loop ops p nf timeout parse mk n atts buf2 out (w\<lparr>c_errno := errno_num EMSGSIZE\<rparr>)
              else if c_errno w = errno_num EINTR then Some (False, atts, out, w)
              else query_loop ops p nf timeout parse mk n atts buf2 out w)
     else if hdr_rcode buf2 \<noteq> 0 \<or> hdr_ancount buf2 = 0
     then query_loop ops p nf timeout parse mk n atts buf2 out (w2\<lparr>h_errno := rcode_herr (hdr_rcode buf2)\<rparr>)
     else (case parse buf2 (nat len) out w2 of None \<Rightarrow> None
           | Some (ok, out, w) \<Rightarrow>
               if ok then Some (True, atts, out, w) else query_loop ops p nf timeout parse mk n atts buf2 out w))"
  using assms by (simp add: Let_def split: option.splits)

text \<open>
  What the query code needs of a parser: on a packet in the buffer it returns, changing nothing but \<open>h_errno\<close> and the globals of the
  DNS cache; \<open>pre\<close> is what it needs of the result variables and \<open>post\<close> what a success promises.
\<close>

locale answer_parser =
  fixes parse :: "('o, ('m, 'z) dnsw_scheme) parser"
    and Q :: "dns_state \<Rightarrow> bool"
    and pre :: "'o \<Rightarrow> bool"
    and post :: "'o \<Rightarrow> dns_state \<Rightarrow> bool"
  assumes parse_ok: "length buf = MAXPACKET \<Longrightarrow> len \<le> MAXPACKET \<Longrightarrow> pre out \<Longrightarrow> Q (dnss w) \<Longrightarrow>
    \<exists>ok out' d h. parse buf len out w = Some (ok, out', w\<lparr>h_errno := h, dnss := d\<rparr>) \<and> Q d \<and> (if ok then post out' d else pre out')"
begin

definition finished :: "'m cmap \<Rightarrow> pqid \<Rightarrow> tid \<Rightarrow> bool \<Rightarrow> 'o \<Rightarrow> ('m, 'z) dnsw_scheme \<Rightarrow> bool" where
  "finished ops p me ok out w \<longleftrightarrow> net_inv ops p me Q w \<and> (if ok then post out (dnss w) else pre out)"

lemma query_loop_ok:
  "net_inv ops p me Q w \<Longrightarrow> pre out \<Longrightarrow> length buf = MAXPACKET \<Longrightarrow> n \<le> length atts \<Longrightarrow>
    \<forall>a \<in> set atts. attempt_ok mk a \<and> (\<forall>oth \<in> attempt_scripts a. net_good ops p me Q oth) \<Longrightarrow>
    \<exists>ok k out' w'. query_loop ops p (Some nf) timeout parse mk n atts buf out w = Some (ok, drop k atts, out', w') \<and> k \<le> n \<and>
      finished ops p me ok out' w'"
proof (induction n arbitrary: atts buf out w)
  case 0
  then show ?case by (intro exI [of _ False] exI [of _ 0]) (simp add: finished_def)
next
  case (Suc n)
  obtain a atts' where atts: "atts = a # atts'" using Suc.prems(4) by (cases atts) auto
  define q where "q = mk (at_id a)"
  have stop: "\<exists>ok k out' w'. Some (False, atts', out, w1) = Some (ok, drop k atts, out', w') \<and> k \<le> Suc n \<and> finished ops p me ok out' w'"
    if "net_inv ops p me Q w1" for w1
    by (rule exI [of _ False], rule exI [of _ 1]) (use that Suc.prems(2) in \<open>simp add: atts finished_def\<close>)
  have go: "\<exists>ok k out' w'. query_loop ops p (Some nf) timeout parse mk n atts' buf1 out1 w1 = Some (ok, drop k atts, out', w') \<and>
      k \<le> Suc n \<and> finished ops p me ok out' w'" if prem: "net_inv ops p me Q w1" "length buf1 = MAXPACKET" "pre out1" for w1 buf1 out1
  proof -
    obtain ok k out' w' where "query_loop ops p (Some nf) timeout parse mk n atts' buf1 out1 w1 = Some (ok, drop k atts', out', w')"
        "k \<le> n" "finished ops p me ok out' w'"
      using Suc.IH [OF prem(1,3,2), of atts'] Suc.prems(4,5) atts by auto
    then show ?thesis by (intro exI [of _ ok] exI [of _ "Suc k"]) (simp add: atts)
  qed
  show ?case
  proof (cases "q = []")
    case True
    then show ?thesis using stop [of "w\<lparr>h_errno := NO_RECOVERY\<rparr>"] Suc.prems(1) by (simp add: atts q_def Let_def)
  next
    case False
    have a: "2 \<le> length q" "length q \<le> MAXPACKET" "decisive (at_send a) \<noteq> None" "replies_ok (take 2 q) (at_replies a)"
      and good: "\<forall>x \<in> set (at_send a). net_good ops p me Q (snd x)"
        "\<forall>ins \<in> set (at_replies a). \<forall>x \<in> set ins. net_good ops p me Q (snd x)"
      using Suc.prems(5) False by (auto simp: atts attempt_ok_def q_def attempt_scripts_def)
    obtain buf1 where b: "overlay q buf = Some buf1" "length buf1 = MAXPACKET" "hdr_id buf1 = take 2 q"
      by (rule overlay_ok [OF Suc.prems(3) a(2)]) (use a(1) in auto)
    obtain r w1 where r: "io_retry (st_netfd_poll ops p (Some nf) POLLOUT timeout) (at_send a) w = Some (r, w1)" "net_inv ops p me Q w1"
      by (rule retry_returns [OF Suc.prems(1) good(1) a(3), of "Some nf" POLLOUT timeout])
    note r1 = r(1) [folded st_sendto_def [of ops p "Some nf", simplified]]
    show ?thesis
    proof (cases "r = Inr (int (length q))")
      case unsent: False
      let ?w = "(case r of Inl e \<Rightarrow> w1\<lparr>c_errno := e\<rparr> | Inr _ \<Rightarrow> w1)\<lparr>h_errno := NETDB_INTERNAL\<rparr>"
      have "net_inv ops p me Q ?w" using r(2) by (simp split: sum.splits)
      then show ?thesis
        using stop [of ?w] go [of ?w buf1 out] b(2) Suc.prems(2)
        unfolding atts query_loop_unsent [of mk a, OF q_def [symmetric] False b(1) r1 unsent] by (simp add: Let_def)
    next
      case True
      obtain len buf2 w3 where l: "recv_reply ops p (Some nf) timeout (hdr_id buf1) (at_replies a) buf1 w1 = Some (len, buf2, w3)"
          "net_inv ops p me Q w3" "length buf2 = MAXPACKET" "len \<le> int MAXPACKET"
        using recv_reply_ok [OF r(2) good(2) a(4) b(2), of nf timeout] b(3) by metis
      obtain ok out2 d h where pr: "parse buf2 (nat len) out w3 = Some (ok, out2, w3\<lparr>h_errno := h, dnss := d\<rparr>)" "Q d"
          "if ok then post out2 d else pre out2"
        using parse_ok [OF l(3) _ Suc.prems(2), of "nat len" w3] l(2,4) by (auto simp: net_inv_def nat_le_iff)
      have w4: "net_inv ops p me Q (w3\<lparr>h_errno := h, dnss := d\<rparr>)" using l(2) pr(2) by (simp add: net_inv_def)
      have fin: "\<exists>ok k out' w'. Some (True, atts', out2, w3\<lparr>h_errno := h, dnss := d\<rparr>) = Some (ok, drop k atts, out', w') \<and> k \<le> Suc n \<and>
          finished ops p me ok out' w'" if ok
        by (rule exI [of _ True], rule exI [of _ 1]) (use that w4 pr(3) in \<open>simp add: atts finished_def\<close>)
      show ?thesis
        using go [OF _ l(3) Suc.prems(2)] go [OF w4 l(3)] stop l(2) pr(1,3) fin
        unfolding atts query_loop_sent [of mk a, OF q_def [symmetric] False b(1) r1 [unfolded True] l(1)] Let_def by (auto split: if_splits)
    qed
  qed
qed

end

context answer_parser
begin

lemma first_success_ok:
  "net_inv ops p me Q w \<Longrightarrow> pre out \<Longrightarrow> length junk = MAXPACKET \<Longrightarrow> length names * rs_nsservers conf \<le> length atts \<Longrightarrow>
    \<forall>a \<in> set atts. (\<forall>nm \<in> set names. attempt_ok (mkquery nm) a) \<and> (\<forall>oth \<in> attempt_scripts a. net_good ops p me Q oth) \<Longrightarrow>
    \<exists>ok k out' w'. first_success (query_domain ops p (Some nf) timeout parse mkquery conf junk) interrupted names (atts, out, w) =
      Some (ok, drop k atts, out', w') \<and> finished ops p me ok out' w'"
proof (induction names arbitrary: atts out w)
  case Nil
  then show ?case by (intro exI [of _ False] exI [of _ 0]) (simp add: finished_def)
next
  case (Cons nm names)
  obtain ok k out1 w1 where q: "query_loop ops p (Some nf) timeout parse (mkquery nm) (rs_nsservers conf) atts junk out w =
      Some (ok, drop k atts, out1, w1)" "k \<le> rs_nsservers conf" "finished ops p me ok out1 w1"
    using query_loop_ok [OF Cons.prems(1-3), of "rs_nsservers conf" atts "mkquery nm" nf timeout] Cons.prems(4,5) by auto
  have d: "query_domain ops p (Some nf) timeout parse mkquery conf junk nm (atts, out, w) = Some (ok, drop k atts, out1, w1)"
    by (simp add: query_domain_def q(1))
  show ?case
  proof (cases "ok \<or> interrupted (drop k atts, out1, w1)")
    case True
    then show ?thesis using q(3) by (auto simp: d)
  next
    case False
    have "\<exists>ok' k' out' w'. first_success (query_domain ops p (Some nf) timeout parse mkquery conf junk) interrupted names (drop k atts, out1, w1) =
      Some (ok', drop k' (drop k atts), out', w') \<and> finished ops p me ok' out' w'"
      by (rule Cons.IH) (use q(2,3) False Cons.prems(3-5) in \<open>auto simp: finished_def dest: in_set_dropD\<close>)
    then show ?thesis using False by (auto simp: d)
  qed
qed

end

lemma netfd_dnss [simp]:
  "dnss (snd (st_netfd_close ops nf e w)) = dnss w" "dnss (snd (st_netfd_open_socket sock alloc w)) = dnss w"
proof -
  have f: "dnss (st_netfd_free nf w) = dnss w" for nf and w :: "('a, 'b) dnsw_scheme"
    by (auto simp: st_netfd_free_def st_netfd_free_aux_data_def Let_def upd_nf_def split: option.splits)
  show "dnss (snd (st_netfd_close ops nf e w)) = dnss w"
    by (auto simp: st_netfd_close_def f Let_def split: option.splits sum.splits prod.splits)
  show "dnss (snd (st_netfd_open_socket sock alloc w)) = dnss w"
    by (auto simp: st_netfd_open_socket_def st_netfd_new_def st_select_fd_new_def upd_nf_def Let_def split: option.splits)
qed

lemma net_inv_close: "net_inv ops p me Q w \<Longrightarrow> net_inv ops p me Q (snd (st_netfd_close ops nf e w))"
  by (simp add: net_inv_def caller_ready_close)

lemma net_inv_open: "net_inv ops p me Q (snd (st_netfd_open_socket sock alloc w)) = net_inv ops p me Q w"
  by (simp add: net_inv_def caller_ready_open)

text \<open>The host and the search domains fit the array.\<close>

definition names_fit :: "res_state \<Rightarrow> string \<Rightarrow> bool" where
  "names_fit conf host \<longleftrightarrow> host \<noteq> [] \<and> NUL \<notin> set host \<and> length host < maxlen \<and>
     (\<forall>d \<in> set (rs_domains conf). NUL \<notin> set d \<and> length host + 1 + length d < maxlen)"

text \<open>What a resolution of \<open>host\<close> meets: the buffers have their sizes and the name servers answer.\<close>

definition servers_answer :: "'m cmap \<Rightarrow> pqid \<Rightarrow> tid \<Rightarrow> (dns_state \<Rightarrow> bool) \<Rightarrow> (string \<Rightarrow> 16 word \<Rightarrow> byte list) \<Rightarrow> res_env \<Rightarrow> string
    \<Rightarrow> ('m, 'z) dnsw_scheme attempt list \<Rightarrow> bool" where
  "servers_answer ops p me Q mkquery env host atts \<longleftrightarrow>
    length (e_buf env) = MAXPACKET \<and> length (e_name env) = MAXDNAME \<and>
    (\<forall>conf. e_conf env = Some conf \<longrightarrow> names_fit conf host \<and>
       length (search_names conf host) * rs_nsservers conf \<le> length atts \<and>
       (\<forall>a \<in> set atts. (\<forall>nm \<in> set (search_names conf host). attempt_ok (mkquery nm) a) \<and> (\<forall>oth \<in> attempt_scripts a. net_good ops p me Q oth)))"

context answer_parser
begin

lemma resolve_ok:
  assumes w: "net_inv ops p me Q w" and out: "pre out" and env: "servers_answer ops p me Q mkquery env host atts"
  shows "\<exists>ok k out' w'. resolve ops (\<lambda>nf conf. query_domain ops p (Some nf) timeout parse mkquery conf (e_buf env)) env (Some host) (atts, out, w) = Some (ok, drop k atts, out', w') \<and>
    finished ops p me ok out' w'"
proof -
  have quit: "\<exists>ok k out' w'. Some (False, atts, out, w1) = Some (ok, drop k atts, out', w') \<and> finished ops p me ok out' w'"
    if "net_inv ops p me Q w1" for w1
    by (rule exI [of _ False], rule exI [of _ 0]) (use that out in \<open>simp add: finished_def\<close>)
  show ?thesis
  proof (cases "\<exists>conf sock nf w1. e_conf env = Some conf \<and> \<not> rs_usevc conf \<and> e_socket env = OsOk sock \<and>
      st_netfd_open_socket sock (e_alloc env) w = (Some nf, w1)")
    case False
    have o: "net_inv ops p me Q w1" if "st_netfd_open_socket sock (e_alloc env) w = (r, w1)" for sock r w1
      using net_inv_open [of ops p me Q sock "e_alloc env" w] w that by simp
    then show ?thesis
      unfolding resolve_def Let_def using False quit w
      by (auto split: option.splits osres.splits prod.splits)
  next
    case True
    then obtain conf sock nf w1 where c: "e_conf env = Some conf" "\<not> rs_usevc conf" "e_socket env = OsOk sock"
        "st_netfd_open_socket sock (e_alloc env) w = (Some nf, w1)" by blast
    have w1: "net_inv ops p me Q w1" using net_inv_open [of ops p me Q sock "e_alloc env" w] w c(4) by simp
    have e: "names_fit conf host" "length (search_names conf host) * rs_nsservers conf \<le> length atts"
        "length (e_buf env) = MAXPACKET" "length (e_name env) = MAXDNAME"
        "\<forall>a \<in> set atts. (\<forall>nm \<in> set (search_names conf host). attempt_ok (mkquery nm) a) \<and> (\<forall>oth \<in> attempt_scripts a. net_good ops p me Q oth)"
      using env c(1) by (auto simp: servers_answer_def)
    obtain ok k out' w2 where f: "first_success (query_domain ops p (Some nf) timeout parse mkquery conf (e_buf env)) interrupted
        (search_names conf host) (atts, out, w1) = Some (ok, drop k atts, out', w2)" "finished ops p me ok out' w2"
      using first_success_ok [OF w1 out e(3,2,5)] by blast
    have "dns_search (query_domain ops p (Some nf) timeout parse mkquery conf (e_buf env)) interrupted conf (e_name env) host (atts, out, w1) =
        Some (ok, drop k atts, out', w2)"
      using e(1,4) f(1) by (subst dns_search_eq) (auto simp: names_fit_def)
    then show ?thesis
      using c e(1) f(2) net_inv_close [of ops p me Q w2 "Some nf" "e_close env"]
      by (auto simp: resolve_def names_fit_def finished_def)
  qed
qed

end

section \<open>The resolver and the cache\<close>

text \<open>The contract for the parser of dnsres.c; \<open>dn_skipname\<close> returns at least \<open>-1\<close>.\<close>

interpretation ap: answer_parser "parse_answer (\<lambda>b e c. max (-1) (skip b e c)) expand :: (addr_out, ('m, 'z) dnsw_scheme) parser"
    "\<lambda>s. P (dns_cache s)" "\<lambda>out. snd out = n \<and> n \<le> length (fst out)"
    "\<lambda>out d. snd out \<le> n \<and> n \<le> length (fst out) \<and> (dns_ttl d > 0 \<longrightarrow> snd out > 0)"
  for skip expand P n
proof
  fix buf :: "byte list" and len :: nat and out :: addr_out and w :: "('m, 'z) dnsw_scheme"
  assume a: "length buf = MAXPACKET" "len \<le> MAXPACKET" "snd out = n \<and> n \<le> length (fst out)" "P (dns_cache (dnss w))"
  let ?parse = "parse_answer (\<lambda>b e c. max (-1) (skip b e c)) expand buf len (fst out, n) w"
  obtain ok arr' n' ttl where r: "?parse = Some (ok, (arr', n'), set_ttl ttl (w\<lparr>h_errno := TRY_AGAIN\<rparr>))" "same_from n (fst out) arr'"
      "n' \<le> n" "\<not> ok \<Longrightarrow> n' = n" "ok \<Longrightarrow> ttl > 0 \<Longrightarrow> n' > 0"
    by (rule parse_answer_ok [of "\<lambda>b e c. max (-1) (skip b e c)" len buf n "fst out" expand w]) (use a in auto)
  have o: "out = (fst out, n)" using a(3) by (cases out) simp
  have l: "n \<le> length arr'" using r(2) a(3) by (simp add: same_from_def)
  show "\<exists>ok out' d h. parse_answer (\<lambda>b e c. max (-1) (skip b e c)) expand buf len out w = Some (ok, out', w\<lparr>h_errno := h, dnss := d\<rparr>) \<and>
      P (dns_cache d) \<and> (if ok then snd out' \<le> n \<and> n \<le> length (fst out') \<and> (dns_ttl d > 0 \<longrightarrow> snd out' > 0)
        else snd out' = n \<and> n \<le> length (fst out'))"
    by (rule exI [of _ ok], rule exI [of _ "(arr', n')"], rule exI [of _ "(dnss w)\<lparr>dns_ttl := ttl\<rparr>"], rule exI [of _ TRY_AGAIN], subst o, subst r(1))
      (use r(3-5) a(4) l in \<open>auto simp: set_ttl_def\<close>)
qed

lemma getaddrlist_net_ok:
  assumes skip: "\<forall>b e c. skip b e c \<ge> -1" and w: "caller_ready ops p me w" "P (dns_cache (dnss w))" and arr: "n \<le> length arr"
    and env: "servers_answer ops p me (\<lambda>s. P (dns_cache s)) mkquery env host atts"
  shows "\<exists>ok k arr' n' w'. stx_dns_getaddrlist_net ops p timeout skip expand mkquery env (Some host) (atts, (arr, n), w) =
      Some (ok, drop k atts, (arr', n'), w') \<and> caller_ready ops p me w' \<and> P (dns_cache (dnss w')) \<and> n' \<le> n \<and> n \<le> length arr' \<and>
      (if ok then dns_ttl (dnss w') > 0 \<longrightarrow> n' > 0 else n' = n)"
proof -
  have s: "(\<lambda>b e c. max (-1) (skip b e c)) = skip" using skip by (intro ext) (simp add: max_def)
  have "net_inv ops p me (\<lambda>s. P (dns_cache s)) w" using w by (simp add: net_inv_def)
  then obtain ok k out' w' where r: "stx_dns_getaddrlist_net ops p timeout skip expand mkquery env (Some host) (atts, (arr, n), w) =
      Some (ok, drop k atts, out', w')"
      "answer_parser.finished (\<lambda>s. P (dns_cache s)) (\<lambda>out. snd out = n \<and> n \<le> length (fst out))
        (\<lambda>out d. snd out \<le> n \<and> n \<le> length (fst out) \<and> (dns_ttl d > 0 \<longrightarrow> snd out > 0)) ops p me ok out' w'"
    using ap.resolve_ok [of ops p me P w "(arr, n)" n mkquery env host atts timeout skip expand, unfolded s] arr env by (auto simp: stx_dns_getaddrlist_net_def)
  obtain arr' n' where o: "out' = (arr', n')" by (cases out')
  show ?thesis
    using r arr unfolding ap.finished_def o by (auto simp: net_inv_def split: if_splits)
qed

text \<open>
  C27: A resolution returns. With any number of retried failures and of replies to other queries in between, if the name servers'
  replies arrive in the end and the other threads keep the state consistent, \<open>_stx_dns_getaddrlist\<close> ends, to a running caller in a
  consistent state, whatever the replies contain; it has written at most \<open>*num_addrs\<close> addresses, and after a failure \<open>*num_addrs\<close>
  is what it was. What the other threads keep true of the DNS cache (\<open>P\<close>) still holds.
\<close>

theorem getaddrlist_net_returns:
  assumes "\<forall>b e c. skip b e c \<ge> -1" and "caller_ready ops p me w" and "P (dns_cache (dnss w))" and "n \<le> length arr"
    and "servers_answer ops p me (\<lambda>s. P (dns_cache s)) mkquery env host atts"
  shows "\<exists>ok k arr' n' w'. stx_dns_getaddrlist_net ops p timeout skip expand mkquery env (Some host) (atts, (arr, n), w) =
      Some (ok, drop k atts, (arr', n'), w') \<and> caller_ready ops p me w' \<and> P (dns_cache (dnss w')) \<and> n' \<le> n \<and> n \<le> length arr' \<and>
      (if ok then dns_ttl (dnss w') > 0 \<longrightarrow> n' > 0 else n' = n)"
  by (rule getaddrlist_net_ok [OF assms])

text \<open>A name server that is asked once answers, after a datagram of another query, with the packet of the example above.\<close>

definition demo_mkquery :: "string \<Rightarrow> 16 word \<Rightarrow> byte list" where
  "demo_mkquery nm i = [ucast (drop_bit 8 i), ucast i, 1, 0, 0, 1, 0, 0, 0, 0, 0, 0]"

definition demo_attempt :: "(int \<Rightarrow> int option) dnsw attempt" where
  "demo_attempt = \<lparr>at_id = 7, at_send = [(OsErr 10035, time_out 5), (OsOk 12, time_out 5)],
     at_replies = [[(OsErr 10035, time_out 5), (OsOk [0, 6, 0, 0], time_out 5)], [(OsOk demo_packet, time_out 5)]]\<rparr>"

definition demo_env :: res_env where
  "demo_env = \<lparr>e_conf = Some demo_conf, e_socket = OsOk 44, e_alloc = Some 3, e_name = replicate MAXDNAME CHR ''x'',
     e_buf = replicate MAXPACKET 0, e_close = 0\<rparr>"

lemma demo_dnsw_ready: "caller_ready fun_cmap 8 5 demo_dnsw"
  using demo_caller by (simp add: caller_ready_def io_base_def pending_def demo_dnsw_def netw.defs dnsw.defs)

lemma time_out_dnss: "time_out me w = Some w' \<Longrightarrow> dnss w' = dnss w"
  by (auto simp: time_out_def split: if_splits)

lemma demo_servers: "servers_answer fun_cmap 8 5 Q demo_mkquery demo_env ''www'' (replicate 3 demo_attempt)"
proof -
  have g: "net_good fun_cmap 8 5 Q (time_out 5 :: (int \<Rightarrow> int option) dnsw \<Rightarrow> (int \<Rightarrow> int option) dnsw option)"
    using time_out_ok time_out_dnss by (fastforce simp: net_good_def)
  have r: "retry_code 10035"
    by (simp add: retry_code_def st_GetError_def WSABASEERR_def wsa_table_def IO_NOT_READY_ERROR_def EWOULDBLOCK_num_def)
  have q: "demo_mkquery nm 7 = [0, 7, 1, 0, 0, 1, 0, 0, 0, 0, 0, 0]" for nm by (simp add: demo_mkquery_def)
  have "attempt_ok (demo_mkquery nm) demo_attempt" for nm
    by (simp add: attempt_ok_def demo_attempt_def q r replies_ok_def MAXPACKET_def demo_bytes)
  moreover have "\<forall>oth \<in> attempt_scripts demo_attempt. net_good fun_cmap 8 5 Q oth"
    using g by (auto simp: attempt_scripts_def demo_attempt_def)
  moreover have "names_fit demo_conf ''www''"
    by (simp add: names_fit_def demo_conf_def NUL_def maxlen_def MAXDNAME_def)
  moreover have "length (search_names demo_conf ''www'') * rs_nsservers demo_conf \<le> 3"
    by (simp add: search_names_def dots_def demo_conf_def)
  ultimately show ?thesis by (simp add: servers_answer_def demo_env_def)
qed

theorem getaddrlist_net_returns_witness:
  "\<exists>ok k arr' n' w'. stx_dns_getaddrlist_net fun_cmap 8 100 demo_dn demo_dn demo_mkquery demo_env (Some ''www'')
     (replicate 3 demo_attempt, ([0, 0], 2), demo_dnsw) = Some (ok, drop k (replicate 3 demo_attempt), (arr', n'), w') \<and>
     caller_ready fun_cmap 8 5 w' \<and> n' \<le> 2"
proof -
  have "\<forall>b e c. demo_dn b e c \<ge> -1" by (simp add: demo_dn_def name_len_ge)
  then show ?thesis
    using getaddrlist_net_returns [OF _ demo_dnsw_ready, of demo_dn "\<lambda>_. True" 2 "[0, 0]" demo_mkquery demo_env "''www''" "replicate 3 demo_attempt" 100 demo_dn]
      demo_servers by auto
qed

text \<open>The resolver of the DNS cache, built from the network resolver: the cache lives in the state of the process.\<close>

definition net_resolver :: "'m cmap \<Rightarrow> pqid \<Rightarrow> utime \<Rightarrow> dnfun \<Rightarrow> dnfun \<Rightarrow> (string \<Rightarrow> 16 word \<Rightarrow> byte list) \<Rightarrow> res_env \<Rightarrow> ('m, 'z) dnsw_scheme attempt list
    \<Rightarrow> addr list \<Rightarrow> ('m, 'z) dnsw_scheme \<Rightarrow> resolver" where
  "net_resolver ops p timeout skip expand mkquery env atts arr w host n s =
    map_option (\<lambda>(ok, _, (arr', n'), w'). (if ok then Some (take n' arr') else None, dnss w'))
      (stx_dns_getaddrlist_net ops p timeout skip expand mkquery env (Some host) (atts, (arr, n), w\<lparr>dnss := s\<rparr>))"

definition cache_good :: "allocs \<Rightarrow> dns_state \<Rightarrow> dns_cache option \<Rightarrow> bool" where
  "cache_good al s0 c \<longleftrightarrow> (\<exists>t. dns_ok \<lparr>dns_cache = c, dns_ttl = t\<rparr> \<and> dns_conf \<lparr>dns_cache = c, dns_ttl = t\<rparr> = dns_conf s0 \<and>
     fresh_entry al \<lparr>dns_cache = c, dns_ttl = t\<rparr>)"

lemma cache_good_iff: "cache_good al s0 (dns_cache s) \<longleftrightarrow> dns_ok s \<and> dns_conf s = dns_conf s0 \<and> fresh_entry al s"
  by (auto simp: cache_good_def dns_ok_def dns_conf_def fresh_entry_def)

text \<open>
  C26: The DNS cache over the network. \<open>stx_dns_getaddrlist\<close> and \<open>stx_dns_getaddr\<close> with a cache, resolving over the sockets of this library
  and cooperating with other threads that use the same cache meanwhile, always return, keep the cache good and report at most
  \<open>num_addrs\<close> addresses, whatever the name servers send: the network resolver meets the contract that the cache relies on.
\<close>

theorem dns_over_network_safe:
  assumes skip: "\<forall>b e c. skip b e c \<ge> -1" and w: "caller_ready ops p me w" and s: "dns_ok s" "fresh_entry al s" "dns_cache s \<noteq> None"
    and arr: "MAX_HOST_ADDRS \<le> length arr"
    and env: "servers_answer ops p me (\<lambda>s'. cache_good al s (dns_cache s')) mkquery env (host_of hostname) atts"
  shows "\<exists>r s'. stx_dns_cache_getaddrlist (net_resolver ops p timeout skip expand mkquery env atts arr w) hostname num_addrs rot now1 now2 al s = Some (r, s') \<and>
    dns_ok s' \<and> dns_conf s' = dns_conf s \<and> (\<forall>out. r = Some out \<longrightarrow> length out \<le> num_addrs)"
proof -
  have "resolver_ok (net_resolver ops p timeout skip expand mkquery env atts arr w) (host_of hostname) MAX_HOST_ADDRS al s"
    unfolding resolver_ok_def
  proof (intro allI impI)
    fix s1 assume "dns_ok s1" "dns_conf s1 = dns_conf s" "fresh_entry al s1"
    then have g: "cache_good al s (dns_cache (dnss (w\<lparr>dnss := s1\<rparr>)))" by (simp add: cache_good_iff)
    obtain ok k arr' n' w' where n: "stx_dns_getaddrlist_net ops p timeout skip expand mkquery env (Some (host_of hostname)) (atts, (arr, MAX_HOST_ADDRS), w\<lparr>dnss := s1\<rparr>) =
        Some (ok, drop k atts, (arr', n'), w')" "cache_good al s (dns_cache (dnss w'))" "n' \<le> MAX_HOST_ADDRS" "MAX_HOST_ADDRS \<le> length arr'"
        "if ok then dns_ttl (dnss w') > 0 \<longrightarrow> n' > 0 else n' = MAX_HOST_ADDRS"
      using getaddrlist_net_ok [OF skip, of ops p me "w\<lparr>dnss := s1\<rparr>" "cache_good al s" MAX_HOST_ADDRS arr mkquery env "host_of hostname" atts timeout expand]
        w g arr env by auto
    show "\<exists>r s'. net_resolver ops p timeout skip expand mkquery env atts arr w (host_of hostname) MAX_HOST_ADDRS s1 = Some (r, s') \<and> dns_ok s' \<and>
        dns_conf s' = dns_conf s \<and> fresh_entry al s' \<and>
        (\<forall>addrs. r = Some addrs \<longrightarrow> length addrs \<le> MAX_HOST_ADDRS \<and> (dns_ttl s' > 0 \<longrightarrow> addrs \<noteq> []))"
      using n by (auto simp: net_resolver_def cache_good_iff)
  qed
  then show ?thesis using getaddrlist_ok [OF s(1,2)] s(3) by simp
qed

theorem dns_over_network_safe_witness:
  "\<exists>r s'. stx_dns_cache_getaddrlist (net_resolver fun_cmap 8 100 demo_dn demo_dn demo_mkquery demo_env (replicate 3 demo_attempt)
      (replicate MAX_HOST_ADDRS 0) demo_dnsw) ''WWW'' 2 False 100 101 demo_allocs demo_dns = Some (r, s') \<and>
    dns_ok s' \<and> (\<forall>out. r = Some out \<longrightarrow> length out \<le> 2)"
proof -
  have "host_of ''WWW'' = ''www''" by code_simp
  then have "servers_answer fun_cmap 8 5 (\<lambda>s'. cache_good demo_allocs demo_dns (dns_cache s')) demo_mkquery demo_env (host_of ''WWW'') (replicate 3 demo_attempt)"
    using demo_servers by simp
  moreover have "\<forall>b e c. demo_dn b e c \<ge> -1" by (simp add: demo_dn_def name_len_ge)
  moreover have "dns_cache demo_dns \<noteq> None" by (rule demo_dns_cache) simp
  ultimately show ?thesis
    using dns_over_network_safe [OF _ demo_dnsw_ready demo_dns_ok demo_fresh, of demo_dn "replicate MAX_HOST_ADDRS 0" demo_mkquery demo_env "''WWW''"
        "replicate 3 demo_attempt" 100 demo_dn 2 False 100 101] by auto
qed

end
