(* ===== verification/Fiber.thy ===== *)
theory Fiber
  imports Sched
begin

text \<open>
  fiber/context.h and fiber/fiber.cpp: the guards that turn the process thread into a fiber and back, the \<open>Context\<close> objects, and
  switching between them, over the fiber functions of Windows. What these do is written out: \<open>ConvertThreadToFiber\<close> succeeds only for a
  thread that is not a fiber, and \<open>DeleteFiber\<close> on the fiber that runs ends the thread. Deleting an object twice and ending the thread
  yield \<open>None\<close>. The last part shows that \<open>swapFiber\<close> and \<open>swapOutFiber\<close> of the scheduler model describe this code.
\<close>

section \<open>State\<close>

text \<open>The native fiber of the thread, or one that \<open>CreateFiberEx\<close> made; pointers to \<open>Context\<close> objects are numbers, \<open>None\<close> is \<open>nullptr\<close>.\<close>

datatype fib = NativeFiber | Made nat

type_synonym ctxp = nat

record CtxTls =
  native :: "fib option"
  quote :: int

text \<open>
  \<open>tls\<close> is \<open>GetTlsContext()\<close>, \<open>current\<close> is \<open>CurrentContext()\<close>; \<open>contexts\<close> are the \<open>Context\<close> objects with their member \<open>ctx_\<close>, \<open>guards\<close> the number
  of \<open>FiberSG\<close> objects. \<open>cpu\<close> is the fiber that runs, \<open>None\<close> while the thread is not a fiber; \<open>made\<close> are the fibers that exist.
\<close>

record fibers =
  tls :: "CtxTls option"
  current :: "ctxp option"
  contexts :: "ctxp \<Rightarrow> fib option option"
  guards :: nat
  cpu :: "fib option"
  made :: "nat list"

definition fibers_start :: fibers where
  "fibers_start = \<lparr>tls = None, current = None, contexts = (\<lambda>_. None), guards = 0, cpu = None, made = []\<rparr>"

section \<open>Guards\<close>

text \<open>\<open>ok\<close> tells that the system has the resources for the conversion.\<close>

definition createFiberSG :: "bool \<Rightarrow> fibers \<Rightarrow> fibers" where
  "createFiberSG ok w =
    (let w = w\<lparr>guards := guards w + 1\<rparr>
     in (case tls w of
           None \<Rightarrow> (if ok \<and> cpu w = None then w\<lparr>tls := Some \<lparr>native = Some NativeFiber, quote = 1\<rparr>, cpu := Some NativeFiber\<rparr>
                    else w\<lparr>tls := Some \<lparr>native = None, quote = 1\<rparr>\<rparr>)
         | Some c \<Rightarrow> w\<lparr>tls := Some (c\<lparr>quote := quote c + 1\<rparr>)\<rparr>))"

text \<open>\<open>sg\<close> tells that the pointer is not null.\<close>

definition delFiberSG :: "bool \<Rightarrow> fibers \<Rightarrow> fibers option" where
  "delFiberSG sg w =
    (if \<not> sg then Some w
     else if guards w = 0 then None
     else (let w = w\<lparr>guards := guards w - 1\<rparr>
           in (case tls w of None \<Rightarrow> Some w
               | Some c \<Rightarrow>
                  (let c = c\<lparr>quote := quote c - 1\<rparr>
                   in if quote c \<le> 0 then Some (w\<lparr>tls := None, cpu := None\<rparr>) else Some (w\<lparr>tls := Some c\<rparr>)))))"

section \<open>Contexts\<close>

text \<open>
  Constructor and destructor of \<open>Context\<close>. The object has the address \<open>p\<close>; \<open>f\<close> is the new fiber, \<open>None\<close> when \<open>CreateFiberEx\<close> fails. \<open>del_null\<close>
  tells whether \<open>DeleteFiber\<close> accepts the null pointer, which its documentation leaves open.
\<close>

definition Context_new :: "ctxp \<Rightarrow> nat option \<Rightarrow> fibers \<Rightarrow> fibers" where
  "Context_new p f w =
    w\<lparr>contexts := (contexts w)(p \<mapsto> map_option Made f), made := (case f of None \<Rightarrow> made w | Some n \<Rightarrow> n # made w)\<rparr>"

definition Context_delete :: "bool \<Rightarrow> ctxp \<Rightarrow> fibers \<Rightarrow> fibers option" where
  "Context_delete del_null p w =
    (case contexts w p of
       Some (Some (Made n)) \<Rightarrow>
         (if cpu w = Some (Made n) then None else Some (w\<lparr>contexts := (contexts w)(p := None), made := remove1 n (made w)\<rparr>))
     | Some None \<Rightarrow> (if del_null then Some (w\<lparr>contexts := (contexts w)(p := None)\<rparr>) else None)
     | _ \<Rightarrow> None)"

definition createFiber :: "bool \<Rightarrow> ctxp \<Rightarrow> nat option \<Rightarrow> fibers \<Rightarrow> (ctxp option \<times> fibers) option" where
  "createFiber del_null p f w =
    (let w = Context_new p f w
     in if contexts w p = Some None
        then (case Context_delete del_null p w of None \<Rightarrow> None | Some w \<Rightarrow> Some (None, w))
        else Some (Some p, w))"

definition SwapIn :: "ctxp \<Rightarrow> fibers \<Rightarrow> fibers option" where
  "SwapIn p w =
    (case contexts w p of None \<Rightarrow> None
     | Some ctx \<Rightarrow>
        (let w = (if current w \<noteq> Some p then w\<lparr>current := Some p\<rparr> else w)
         in (case tls w of None \<Rightarrow> Some w
             | Some c \<Rightarrow> if native c \<noteq> None \<and> ctx \<noteq> None then Some (w\<lparr>cpu := ctx\<rparr>) else Some w)))"

definition SwapOut :: "fibers \<Rightarrow> fibers" where
  "SwapOut w =
    (if current w \<noteq> None
     then (let w = w\<lparr>current := None\<rparr>
           in (case tls w of None \<Rightarrow> w
               | Some c \<Rightarrow> if native c \<noteq> None then w\<lparr>cpu := native c\<rparr> else w))
     else w)"

text \<open>\<open>swapFiber\<close> and \<open>delFiber\<close> of fiber.cpp with a pointer that may be null.\<close>

definition swap_fiber :: "ctxp option \<Rightarrow> fibers \<Rightarrow> fibers option" where
  "swap_fiber ctx w = (case ctx of None \<Rightarrow> Some w | Some p \<Rightarrow> SwapIn p w)"

definition delFiber :: "bool \<Rightarrow> ctxp option \<Rightarrow> fibers \<Rightarrow> fibers option" where
  "delFiber del_null ctx w = (case ctx of None \<Rightarrow> Some w | Some p \<Rightarrow> Context_delete del_null p w)"

section \<open>Sequences of calls\<close>

inductive fiber_step :: "fibers \<Rightarrow> fibers \<Rightarrow> bool" where
  guard: "fiber_step w (createFiberSG ok w)"
| unguard: "delFiberSG sg w = Some w' \<Longrightarrow> fiber_step w w'"
| new_context: "contexts w p = None \<Longrightarrow> set_option f \<inter> set (made w) = {} \<Longrightarrow> createFiber del_null p f w = Some (r, w') \<Longrightarrow> fiber_step w w'"
| swap: "swap_fiber ctx w = Some w' \<Longrightarrow> fiber_step w w'"
| swap_out: "fiber_step w (SwapOut w)"
| delete: "delFiber del_null ctx w = Some w' \<Longrightarrow> fiber_step w w'"

inductive_cases fiber_stepE: "fiber_step w w'"

text \<open>
  The guards are counted, the thread is a fiber only while there is one, every \<open>Context\<close> has a fiber of its own, and what runs is the
  native fiber or one that exists.
\<close>

definition guards_ok :: "fibers \<Rightarrow> bool" where
  "guards_ok w \<longleftrightarrow> (case tls w of None \<Rightarrow> guards w = 0 \<and> cpu w = None
     | Some c \<Rightarrow> guards w > 0 \<and> quote c = int (guards w) \<and> (native c \<noteq> None \<longleftrightarrow> cpu w \<noteq> None) \<and> native c \<in> {None, Some NativeFiber})"

definition contexts_ok :: "fibers \<Rightarrow> bool" where
  "contexts_ok w \<longleftrightarrow> distinct (made w) \<and> (\<forall>n. cpu w = Some (Made n) \<longrightarrow> n \<in> set (made w)) \<and>
    (\<forall>p x. contexts w p = Some x \<longrightarrow> (\<exists>n \<in> set (made w). x = Some (Made n))) \<and>
    (\<forall>p q x. contexts w p = Some x \<longrightarrow> contexts w q = Some x \<longrightarrow> p = q)"

lemma contexts_okD:
  assumes "contexts_ok w"
  shows "cpu w = Some (Made n) \<Longrightarrow> n \<in> set (made w)"
    and "contexts w p = Some x \<Longrightarrow> \<exists>n \<in> set (made w). x = Some (Made n)"
    and "contexts w p = Some x \<Longrightarrow> contexts w q = Some x \<Longrightarrow> p = q"
    and "distinct (made w)"
  using assms by (auto simp: contexts_ok_def)

lemma contexts_okI:
  assumes "contexts_ok w" and "contexts w' = contexts w" and "made w' = made w" and "cpu w' \<in> {cpu w, None, Some NativeFiber} \<union> ran (contexts w)"
  shows "contexts_ok w'"
proof -
  have "\<exists>n \<in> set (made w). x = Some (Made n)" if "x \<in> ran (contexts w)" for x
    using that contexts_okD(2) [OF assms(1)] unfolding ran_def by blast
  then show ?thesis using assms unfolding contexts_ok_def by (metis UnE fib.distinct(1) fib.inject insertE option.distinct(1) option.inject singletonD)
qed

lemma guards_ok_contexts [simp]: "guards_ok (w\<lparr>contexts := cs, made := ns\<rparr>) = guards_ok w"
  by (cases "tls w") (simp_all add: guards_ok_def)

lemma createFiberSG_ok: "guards_ok w \<Longrightarrow> contexts_ok w \<Longrightarrow> guards_ok (createFiberSG ok w) \<and> contexts_ok (createFiberSG ok w)"
  by (cases "tls w") (auto simp: guards_ok_def createFiberSG_def Let_def intro: contexts_okI)

lemma delFiberSG_ok: "guards_ok w \<Longrightarrow> contexts_ok w \<Longrightarrow> delFiberSG sg w = Some w' \<Longrightarrow> guards_ok w' \<and> contexts_ok w'"
  by (cases "tls w") (auto simp: guards_ok_def delFiberSG_def Let_def intro: contexts_okI split: if_splits)

lemma SwapIn_ok:
  assumes "guards_ok w" and "contexts_ok w" and "SwapIn p w = Some w'"
  shows "guards_ok w' \<and> contexts_ok w'"
proof -
  obtain x where x: "contexts w p = Some x" using assms(3) by (cases "contexts w p") (auto simp: SwapIn_def)
  then obtain n where n: "x = Some (Made n)" using contexts_okD(2) [OF assms(2)] by blast
  have r: "Some (Made n) \<in> ran (contexts w)" using x n by (auto simp: ran_def)
  show ?thesis
    using assms x n r by (cases "tls w") (auto simp: guards_ok_def SwapIn_def Let_def intro: contexts_okI split: if_splits)
qed

lemma SwapOut_ok: "guards_ok w \<Longrightarrow> contexts_ok w \<Longrightarrow> guards_ok (SwapOut w) \<and> contexts_ok (SwapOut w)"
  by (cases "tls w") (auto simp: guards_ok_def SwapOut_def Let_def intro: contexts_okI)

text \<open>
  A failure of \<open>CreateFiberEx\<close> is reported by a null pointer only if \<open>DeleteFiber\<close> accepts one: the object without a fiber is deleted like any
  other.
\<close>

lemma createFiber_failed:
  "createFiber del_null p None w = (if del_null then Some (None, w\<lparr>contexts := (contexts w)(p := None)\<rparr>) else None)"
  by (simp add: createFiber_def Context_new_def Context_delete_def Let_def)

lemma createFiber_made:
  "createFiber del_null p (Some n) w = Some (Some p, w\<lparr>contexts := (contexts w)(p \<mapsto> Some (Made n)), made := n # made w\<rparr>)"
  by (simp add: createFiber_def Context_new_def Let_def)

lemma createFiber_ok:
  assumes "guards_ok w" and "contexts_ok w" and "contexts w p = None" and "set_option f \<inter> set (made w) = {}" and "createFiber del_null p f w = Some (r, w')"
  shows "guards_ok w' \<and> contexts_ok w'"
proof (cases f)
  case None
  have "w' = w"
    using assms(3,5) unfolding None createFiber_failed by (auto simp: fun_upd_idem split: if_splits)
  then show ?thesis using assms(1,2) by simp
next
  case (Some n)
  have fresh: "contexts w q \<noteq> Some (Some (Made n))" for q using contexts_okD(2) [OF assms(2), of q] assms(4) Some by auto
  have w': "w' = w\<lparr>contexts := (contexts w)(p \<mapsto> Some (Made n)), made := n # made w\<rparr>"
    using assms(5) unfolding Some createFiber_made by simp
  show ?thesis
    using assms(1-4) Some fresh contexts_okD [OF assms(2)] unfolding contexts_ok_def w' by auto
qed

lemma delFiber_ok:
  assumes g: "guards_ok w" and ok: "contexts_ok w" and d: "delFiber del_null ctx w = Some w'"
  shows "guards_ok w' \<and> contexts_ok w'"
proof (cases ctx)
  case None
  then show ?thesis using assms by (simp add: delFiber_def)
next
  case (Some p)
  obtain n where n: "contexts w p = Some (Some (Made n))" "cpu w \<noteq> Some (Made n)"
      "w' = w\<lparr>contexts := (contexts w)(p := None), made := remove1 n (made w)\<rparr>"
    using d Some ok by (auto simp: delFiber_def Context_delete_def dest: contexts_okD(2) split: option.splits fib.splits if_splits)
  note o = contexts_okD [OF ok]
  have "\<exists>m \<in> set (remove1 n (made w)). x = Some (Made m)" if "contexts w q = Some x" "q \<noteq> p" for q x
    using o(2) [OF that(1)] o(3) [OF that(1), of p] n(1) that(2) o(4) by auto
  then show ?thesis
    using g n(2) o unfolding contexts_ok_def n(3) by auto
qed

lemma fiber_step_ok: "fiber_step w w' \<Longrightarrow> guards_ok w \<Longrightarrow> contexts_ok w \<Longrightarrow> guards_ok w' \<and> contexts_ok w'"
  by (erule fiber_stepE)
    (auto simp: createFiberSG_ok SwapOut_ok swap_fiber_def dest: createFiber_ok delFiberSG_ok SwapIn_ok delFiber_ok split: option.splits)

lemma fibers_reachable:
  "fiber_step\<^sup>*\<^sup>* fibers_start w \<Longrightarrow> guards_ok w \<and> contexts_ok w"
proof (induction rule: rtranclp_induct)
  case base
  then show ?case by (simp add: guards_ok_def contexts_ok_def fibers_start_def)
qed (use fiber_step_ok in blast)


text \<open>
  C40: The guards are counted. In every state that calls of the fiber functions can reach, the thread-local block exists exactly while there is a
  guard and its counter is the number of guards, so the thread is turned back by the last guard and not before; without guards the thread is
  no fiber. Every \<open>Context\<close> object has a fiber that exists and that no other object has, and what runs is the native fiber or one that exists.
\<close>

theorem guards_counted:
  assumes "fiber_step\<^sup>*\<^sup>* fibers_start w"
  shows "(case tls w of None \<Rightarrow> guards w = 0 \<and> cpu w = None | Some c \<Rightarrow> guards w > 0 \<and> quote c = int (guards w)) \<and>
    (\<forall>n. cpu w = Some (Made n) \<longrightarrow> n \<in> set (made w)) \<and>
    (\<forall>p x. contexts w p = Some x \<longrightarrow> (\<exists>n \<in> set (made w). x = Some (Made n))) \<and>
    (\<forall>p q x. contexts w p = Some x \<longrightarrow> contexts w q = Some x \<longrightarrow> p = q)"
  using fibers_reachable [OF assms] contexts_okD [of w] by (cases "tls w") (auto simp: guards_ok_def)

definition demo_fibers :: fibers where
  "demo_fibers = \<lparr>tls = Some \<lparr>native = Some NativeFiber, quote = 1\<rparr>, current = None, contexts = (\<lambda>_. None)(5 \<mapsto> Some (Made 1)), guards = 1,
     cpu = Some NativeFiber, made = [1]\<rparr>"

lemma demo_fibers_reachable: "fiber_step\<^sup>*\<^sup>* fibers_start demo_fibers"
proof -
  let ?a = "createFiberSG True fibers_start"
  have e: "createFiber False 5 (Some 1) ?a = Some (Some 5, demo_fibers)"
    by (simp add: createFiber_made createFiberSG_def fibers_start_def demo_fibers_def Let_def)
  have "fiber_step fibers_start ?a" by (rule guard)
  moreover have "fiber_step ?a demo_fibers"
    by (rule new_context [OF _ _ e]) (simp_all add: createFiberSG_def fibers_start_def Let_def)
  ultimately show ?thesis by (meson converse_rtranclp_into_rtranclp r_into_rtranclp)
qed

theorem guards_counted_witness:
  "fiber_step\<^sup>*\<^sup>* fibers_start demo_fibers \<and> contexts demo_fibers 5 = Some (Some (Made 1)) \<and> 1 \<in> set (made demo_fibers) \<and>
    (\<exists>c. tls demo_fibers = Some c \<and> guards demo_fibers > 0 \<and> quote c = int (guards demo_fibers))"
proof (intro conjI)
  have five: "contexts demo_fibers 5 = Some (Some (Made 1))" and tls: "tls demo_fibers = Some \<lparr>native = Some NativeFiber, quote = 1\<rparr>"
    by (simp_all add: demo_fibers_def)
  note counted = guards_counted [OF demo_fibers_reachable]
  show "1 \<in> set (made demo_fibers)" using counted five by blast
  show "\<exists>c. tls demo_fibers = Some c \<and> guards demo_fibers > 0 \<and> quote c = int (guards demo_fibers)" using counted tls by simp
  show "contexts demo_fibers 5 = Some (Some (Made 1))" by (rule five)
qed (rule demo_fibers_reachable)

section \<open>The fibers of the scheduler model\<close>

text \<open>
  \<open>ctx t\<close> is the member \<open>context\<close> of thread \<open>t\<close>. The scheduler model knows which context is current, which fiber runs, and whether the process thread is
  a fiber; the running fiber matters only then.
\<close>

definition models :: "(tid \<Rightarrow> ctxp option) \<Rightarrow> fibers \<Rightarrow> st \<Rightarrow> bool" where
  "models ctx w s \<longleftrightarrow>
    fiber_native s = (cpu w \<noteq> None) \<and>
    (case cur_context s of None \<Rightarrow> current w = None | Some t \<Rightarrow> ctx t \<noteq> None \<and> current w = ctx t) \<and>
    (cpu w \<noteq> None \<longrightarrow> (case running s of None \<Rightarrow> cpu w = Some NativeFiber | Some t \<Rightarrow> \<exists>p. ctx t = Some p \<and> contexts w p = Some (cpu w))) \<and>
    (\<forall>t. has_context (thr s t) = (ctx t \<noteq> None)) \<and> (\<forall>t p. ctx t = Some p \<longrightarrow> contexts w p \<noteq> None)"

lemma switch_models:
  assumes g: "guards_ok w" and c: "contexts_ok w" and m: "models ctx w s"
  shows "\<exists>w'. swap_fiber (ctx t) w = Some w' \<and> models ctx w' (ST_SWITCH_CONTEXT t s)"
proof (cases "ctx t")
  case None
  then show ?thesis using m by (auto simp: swap_fiber_def ST_SWITCH_CONTEXT_def models_def)
next
  case (Some p)
  obtain x where x: "contexts w p = Some x" using m Some unfolding models_def by blast
  then obtain n where n: "x = Some (Made n)" using contexts_okD(2) [OF c] by blast
  let ?w = "(if current w \<noteq> Some p then w\<lparr>current := Some p\<rparr> else w)"
  have "swap_fiber (ctx t) w = Some (if cpu w \<noteq> None then ?w\<lparr>cpu := x\<rparr> else ?w)"
    using g Some x n by (cases "tls w") (auto simp: swap_fiber_def SwapIn_def guards_ok_def Let_def)
  moreover have "models ctx (if cpu w \<noteq> None then ?w\<lparr>cpu := x\<rparr> else ?w) (ST_SWITCH_CONTEXT t s)"
    using m Some x n by (auto simp: models_def ST_SWITCH_CONTEXT_def swapFiber_def Let_def)
  ultimately show ?thesis by blast
qed

lemma swap_out_models:
  assumes g: "guards_ok w" and m: "models ctx w s"
  shows "models ctx (SwapOut w) (swapOutFiber s)"
proof -
  have cur: "cur_context s = None \<longleftrightarrow> current w = None" using m by (cases "cur_context s") (auto simp: models_def)
  show ?thesis
  proof (cases "current w = None")
    case True
    then show ?thesis using m cur by (simp add: SwapOut_def swapOutFiber_def)
  next
    case False
    then show ?thesis
      using m g cur by (cases "tls w") (auto simp: SwapOut_def swapOutFiber_def models_def guards_ok_def Let_def)
  qed
qed

text \<open>
  C39: The scheduler's view of the fibers is right. From every reachable state of the fiber objects that corresponds to a state of the scheduler model,
  switching to any thread and swapping out succeed and lead to corresponding states: the context that is current, the fiber that runs, and
  whether switching has an effect at all are those of the model.
\<close>

theorem fibers_refine:
  assumes "fiber_step\<^sup>*\<^sup>* fibers_start w" and "models ctx w s"
  shows "(\<exists>w'. swap_fiber (ctx t) w = Some w' \<and> models ctx w' (ST_SWITCH_CONTEXT t s)) \<and> models ctx (SwapOut w) (swapOutFiber s)"
  using switch_models swap_out_models fibers_reachable [OF assms(1)] assms(2) by blast

definition demo_ctx :: "tid \<Rightarrow> ctxp option" where
  "demo_ctx t = (if t = 5 then Some 5 else None)"

definition demo_fiber_st :: st where
  "demo_fiber_st = demo_vp\<lparr>thr := (\<lambda>t. (thr demo_vp t)\<lparr>has_context := t = 5\<rparr>), cur_context := None, running := None\<rparr>"

theorem fibers_refine_witness:
  "\<exists>w'. swap_fiber (demo_ctx 5) demo_fibers = Some w' \<and> models demo_ctx w' (ST_SWITCH_CONTEXT 5 demo_fiber_st) \<and> cpu w' = Some (Made 1)"
proof -
  have "models demo_ctx demo_fibers demo_fiber_st"
    by (simp add: models_def demo_fibers_def demo_fiber_st_def demo_ctx_def demo_fields)
  then obtain w' where w': "swap_fiber (demo_ctx 5) demo_fibers = Some w'" "models demo_ctx w' (ST_SWITCH_CONTEXT 5 demo_fiber_st)"
    using fibers_refine [OF demo_fibers_reachable, of demo_ctx demo_fiber_st 5] by blast
  moreover have "cpu w' = Some (Made 1)" using w'(1) by (auto simp: swap_fiber_def demo_ctx_def SwapIn_def demo_fibers_def Let_def)
  ultimately show ?thesis by blast
qed

end
