(* ===== verification/Cstdlib.thy ===== *)
theory Cstdlib
  imports Prelude
begin

text \<open>
  The parts of the C library that the example programs use: \<open>strtol\<close> with base 10, \<open>atoi\<close> and \<open>strchr\<close> to read numbers and addresses,
  the conversions of \<open>sprintf\<close> for integers, and the bytes of an integer in memory. Numbers are unbounded; the code has no defined result for those that do not fit an \<open>int\<close>.
\<close>

unbundle bit_operations_syntax

definition is_space :: "char \<Rightarrow> bool" where
  "is_space c \<longleftrightarrow> of_char c \<in> {9, 10, 11, 12, 13, 32 :: nat}"

definition is_digit :: "char \<Rightarrow> bool" where
  "is_digit c \<longleftrightarrow> 48 \<le> (of_char c :: nat) \<and> (of_char c :: nat) \<le> 57"

definition digit_val :: "char \<Rightarrow> int" where
  "digit_val c = of_char c - 48"

definition digits_val :: "string \<Rightarrow> int" where
  "digits_val s = foldl (\<lambda>n c. n * 10 + digit_val c) 0 s"

text \<open>The value and the rest of the string, all of it if there is no number.\<close>

definition strtol :: "string \<Rightarrow> int \<times> string" where
  "strtol s =
    (let t = dropWhile is_space s;
         neg = (t \<noteq> [] \<and> hd t = CHR ''-'');
         t = (if t \<noteq> [] \<and> (hd t = CHR ''-'' \<or> hd t = CHR ''+'') then tl t else t);
         ds = takeWhile is_digit t
     in if ds = [] then (0, s)
        else (if neg then - digits_val ds else digits_val ds, dropWhile is_digit t))"

definition atoi :: "string \<Rightarrow> int" where
  "atoi s = fst (strtol s)"

text \<open>\<open>strchr\<close> with the code that cuts the string there: what is before the character and what is behind it.\<close>

definition split_at :: "char \<Rightarrow> string \<Rightarrow> (string \<times> string) option" where
  "split_at c s = (if c \<in> set s then Some (takeWhile (\<lambda>x. x \<noteq> c) s, tl (dropWhile (\<lambda>x. x \<noteq> c) s)) else None)"

lemma split_at_append: "c \<notin> set a \<Longrightarrow> split_at c (a @ c # b) = Some (a, b)"
  by (simp add: split_at_def takeWhile_append dropWhile_append)

text \<open>Decimal notation, and that it is read back.\<close>

definition digit_char :: "nat \<Rightarrow> char" where
  "digit_char d = char_of (48 + d)"

fun show_nat :: "nat \<Rightarrow> string" where
  "show_nat n = (if n < 10 then [digit_char n] else show_nat (n div 10) @ [digit_char (n mod 10)])"

declare show_nat.simps [simp del]

lemma digit_char_props:
  assumes "d < 10"
  shows "is_digit (digit_char d)" "digit_val (digit_char d) = int d" "\<not> is_space (digit_char d)"
    "digit_char d \<noteq> CHR ''-''" "digit_char d \<noteq> CHR ''+''"
proof -
  have c: "of_char (digit_char d) = (48 + d :: nat)" using assms by (simp add: digit_char_def)
  have "of_char (digit_char d) = (48 + int d :: int)"
    using of_nat_of_char [of "digit_char d", where 'a = int] c by simp
  then show "digit_val (digit_char d) = int d" by (simp add: digit_val_def)
  show "is_digit (digit_char d)" "\<not> is_space (digit_char d)" using c assms by (auto simp: is_digit_def is_space_def)
  have "of_char (CHR ''-'') = (45 :: nat)" "of_char (CHR ''+'') = (43 :: nat)" by simp_all
  then show "digit_char d \<noteq> CHR ''-''" "digit_char d \<noteq> CHR ''+''" using c by force+
qed

lemma show_nat_digits: "list_all is_digit (show_nat n)" "show_nat n \<noteq> []" "digits_val (show_nat n) = int n"
proof (induction n rule: show_nat.induct)
  case (1 n)
  note d = digit_char_props [of "n mod 10"] digit_char_props [of n]
  show "list_all is_digit (show_nat n)" using 1 d by (subst show_nat.simps) auto
  show "show_nat n \<noteq> []" by (subst show_nat.simps) auto
  show "digits_val (show_nat n) = int n"
  proof (cases "n < 10")
    case True
    then show ?thesis using d by (subst show_nat.simps) (simp add: digits_val_def)
  next
    case False
    have "digits_val (show_nat n) = digits_val (show_nat (n div 10)) * 10 + digit_val (digit_char (n mod 10))"
      using False by (subst show_nat.simps) (simp add: digits_val_def)
    also have "\<dots> = int (n div 10) * 10 + int (n mod 10)" using 1(3) False d by simp
    also have "\<dots> = int n" by (metis div_mult_mod_eq of_nat_add of_nat_mult of_nat_numeral)
    finally show ?thesis .
  qed
qed

lemma show_nat_hd:
  obtains d ds where "show_nat n = digit_char d # ds" and "d < 10"
proof -
  have "\<exists>d ds. show_nat n = digit_char d # ds \<and> d < 10"
  proof (induction n rule: show_nat.induct)
    case (1 n)
    then show ?case by (cases "n < 10") (auto simp: show_nat.simps [of n])
  qed
  then show thesis using that by blast
qed

lemma strtol_show_nat:
  assumes "rest = [] \<or> \<not> is_digit (hd rest)"
  shows "strtol (show_nat n @ rest) = (int n, rest)"
proof -
  obtain d ds where s: "show_nat n = digit_char d # ds" "d < 10" by (rule show_nat_hd)
  note d = digit_char_props [OF s(2)]
  have all: "\<forall>c \<in> set (show_nat n). is_digit c" using show_nat_digits(1) [of n] by (simp add: list_all_iff)
  have tw: "takeWhile is_digit (show_nat n @ rest) = show_nat n" "dropWhile is_digit (show_nat n @ rest) = rest"
    using all assms by (cases rest; simp add: takeWhile_append dropWhile_append)+
  have t: "dropWhile is_space (show_nat n @ rest) = show_nat n @ rest" "hd (show_nat n @ rest) \<noteq> CHR ''-''" "hd (show_nat n @ rest) \<noteq> CHR ''+''"
    using d by (simp_all add: s(1))
  show ?thesis using t tw show_nat_digits(2,3) [of n] by (simp add: strtol_def Let_def)
qed

lemma atoi_show_nat: "rest = [] \<or> \<not> is_digit (hd rest) \<Longrightarrow> atoi (show_nat n @ rest) = int n"
  by (simp add: atoi_def strtol_show_nat)


lemma show_nat_length: "n < 10 ^ k \<Longrightarrow> k > 0 \<Longrightarrow> length (show_nat n) \<le> k"
proof (induction n arbitrary: k rule: show_nat.induct)
  case (1 n)
  show ?case
  proof (cases "n < 10")
    case False
    obtain m where m: "k = Suc (Suc m)"
      using False 1(2,3) by (cases k; cases "k - 1") auto
    have "n div 10 < 10 ^ Suc m" using 1(2) m by (simp add: less_mult_imp_div_less mult.commute)
    then show ?thesis using 1(1) [of "Suc m"] False m by (subst show_nat.simps) simp
  qed (use 1 in \<open>subst show_nat.simps, simp\<close>)
qed

text \<open>The conversions \<open>%d\<close> and \<open>%02d\<close> of \<open>sprintf\<close>.\<close>

definition show_int :: "int \<Rightarrow> string" where
  "show_int i = (if i < 0 then CHR ''-'' # show_nat (nat (- i)) else show_nat (nat i))"

definition show_02d :: "int \<Rightarrow> string" where
  "show_02d i = (if 0 \<le> i \<and> i < 10 then CHR ''0'' # show_int i else show_int i)"

lemma show_int_length:
  assumes "- (10 ^ k) < i" and "i < 10 ^ Suc k" and "k > 0"
  shows "length (show_int i) \<le> Suc k"
proof (cases "i < 0")
  case True
  have "nat (- i) < 10 ^ k" using assms(1) True by (simp add: nat_less_iff)
  then show ?thesis using True show_nat_length [of "nat (- i)" k] assms(3) by (simp add: show_int_def)
next
  case False
  have "nat i < 10 ^ Suc k" using assms(2) False by (simp add: nat_less_iff)
  then show ?thesis using False show_nat_length [of "nat i" "Suc k"] by (simp add: show_int_def)
qed

lemma show_02d_length: "0 \<le> i \<Longrightarrow> i < 100 \<Longrightarrow> length (show_02d i) = 2"
proof (cases "i < 10")
  case False
  moreover assume "0 \<le> i" "i < 100"
  ultimately show ?thesis
    by (simp add: show_02d_def show_int_def show_nat.simps [of "nat i"] show_nat.simps [of "nat i div 10"] nat_less_iff less_mult_imp_div_less)
qed (simp add: show_02d_def show_int_def show_nat.simps [of "nat i"] nat_less_iff)

text \<open>The bytes of an integer in memory, least significant first, and the integer that is read from bytes.\<close>

definition le_bytes :: "nat \<Rightarrow> 'a::len word \<Rightarrow> 8 word list" where
  "le_bytes n w = map (\<lambda>i. ucast (drop_bit (8 * i) w)) [0..<n]"

primrec of_le :: "8 word list \<Rightarrow> 'a::len word" where
  "of_le [] = 0"
| "of_le (b # bs) = ucast b OR push_bit 8 (of_le bs)"

lemma length_le_bytes [simp]: "length (le_bytes n w) = n"
  by (simp add: le_bytes_def)

lemma bit_of_le:
  "bit (of_le bs :: 'a::len word) k \<longleftrightarrow> k < LENGTH('a) \<and> k div 8 < length bs \<and> bit (bs ! (k div 8)) (k mod 8)"
proof (induction bs arbitrary: k)
  case (Cons b bs)
  show ?case
  proof (cases "k < 8")
    case True
    then show ?thesis by (auto simp: bit_simps)
  next
    case False
    then have "k div 8 = Suc ((k - 8) div 8)" "k mod 8 = (k - 8) mod 8" by (simp_all add: le_div_geq le_mod_geq)
    moreover have "\<not> bit b k" using False bit_imp_le_length [of b k] by auto
    ultimately show ?thesis using False Cons.IH [of "k - 8"] by (auto simp: bit_simps)
  qed
qed simp

lemma of_le_bytes: "LENGTH('a) = 8 * n \<Longrightarrow> of_le (le_bytes n w) = (w :: 'a::len word)"
proof (rule bit_word_eqI)
  fix k
  assume n: "LENGTH('a) = 8 * n" and k: "k < LENGTH('a)"
  have d: "k div 8 < n" using n k by (simp add: less_mult_imp_div_less mult.commute)
  then show "bit (of_le (le_bytes n w) :: 'a word) k = bit w k"
    using k by (simp add: bit_of_le le_bytes_def bit_simps)
qed

end
