(* ===== verification/Process.thy ===== *)
theory Process
  imports Netio Cstdlib
begin

text \<open>
  The process a server of the examples runs in, as far as its start changes it: examples/server.c (\<open>start_daemon\<close>, \<open>change_user\<close>,
  \<open>open_log_files\<close>, \<open>install_sighandlers\<close>, \<open>Signal\<close>) and examples/proxy.c (\<open>start_daemon\<close>). The system calls are written out as POSIX has them: a
  forked process inherits everything but its number and is not a session leader, \<open>setgid\<close> and \<open>setuid\<close> need the super-user
  or the present number.
\<close>

section \<open>Processes\<close>

text \<open>Signal numbers of Linux.\<close>

definition SIGHUP :: int where "SIGHUP = 1"
definition SIGUSR1 :: int where "SIGUSR1 = 10"
definition SIGTERM :: int where "SIGTERM = 15"

datatype handler = DefaultHandler | WdogHandler | ChildHandler

record proc =
  p_pid :: int
  p_leader :: bool
  p_uid :: int
  p_gid :: int
  p_groups :: "int list"
  p_umask :: nat
  p_cwd :: string
  p_blocked :: "int set"
  p_handler :: "int \<Rightarrow> handler"

text \<open>A step of the start ends the process with a status, writes behind an array, or goes on.\<close>

datatype 'a outcome = Quits int | Crashes | Goes 'a

definition fork_child :: "int \<Rightarrow> proc \<Rightarrow> proc" where
  "fork_child pid p = p\<lparr>p_pid := pid, p_leader := False\<rparr>"

definition setgid :: "int \<Rightarrow> proc \<Rightarrow> proc option" where
  "setgid g p = (if p_uid p = 0 \<or> g = p_gid p then Some (p\<lparr>p_gid := g\<rparr>) else None)"

definition setuid :: "int \<Rightarrow> proc \<Rightarrow> proc option" where
  "setuid u p = (if p_uid p = 0 \<or> u = p_uid p then Some (p\<lparr>p_uid := u\<rparr>) else None)"

section \<open>Daemons\<close>

text \<open>
  \<open>f1\<close> and \<open>f2\<close> are what the two calls of \<open>fork\<close> return in the process that is followed, \<open>pid1\<close> and \<open>pid2\<close> the numbers of the children.
\<close>

record forks =
  f1 :: int
  pid1 :: int
  f2 :: int
  pid2 :: int

definition start_daemon :: "forks \<Rightarrow> bool \<Rightarrow> string option \<Rightarrow> proc \<Rightarrow> proc outcome" where
  "start_daemon f chdir_ok logdir p =
    (if f1 f < 0 then Quits 1
     else if f1 f > 0 then Quits 0
     else (let p = fork_child (pid1 f) p; p = p\<lparr>p_leader := True\<rparr>
           in if f2 f < 0 then Quits 1
              else if f2 f > 0 then Quits 0
              else (let p = fork_child (pid2 f) p; p = p\<lparr>p_umask := 18\<rparr>
                    in (case logdir of None \<Rightarrow> Quits 1
                        | Some d \<Rightarrow> if chdir_ok then Goes (p\<lparr>p_cwd := d\<rparr>) else Quits 1))))"

definition proxy_start_daemon :: "forks \<Rightarrow> bool \<Rightarrow> proc \<Rightarrow> proc outcome" where
  "proxy_start_daemon f chdir_ok p =
    (if f1 f < 0 then Quits 1
     else if f1 f > 0 then Quits 0
     else (let p = fork_child (pid1 f) p; p = p\<lparr>p_leader := True\<rparr>
           in if f2 f < 0 then Quits 1
              else if f2 f > 0 then Quits 0
              else (let p = fork_child (pid2 f) p; p = (if chdir_ok then p\<lparr>p_cwd := ''/''\<rparr> else p)
                    in Goes (p\<lparr>p_umask := 18\<rparr>))))"

section \<open>The user\<close>

text \<open>\<open>getpw\<close> is \<open>getpwnam\<close>: the user and the group of a name.\<close>

definition change_user :: "(string \<Rightarrow> (int \<times> int) option) \<Rightarrow> string \<Rightarrow> proc \<Rightarrow> proc outcome" where
  "change_user getpw username p =
    (case getpw username of None \<Rightarrow> Quits 1
     | Some (uid, gid) \<Rightarrow>
        (case setgid gid p of None \<Rightarrow> Quits 1
         | Some p \<Rightarrow> (case setuid uid p of None \<Rightarrow> Quits 1 | Some p \<Rightarrow> Goes p)))"

section \<open>Log files and signals\<close>

text \<open>The text of the pid file; the booleans are the results of opening and writing it and of opening the error log.\<close>

definition open_log_files :: "bool \<Rightarrow> bool \<Rightarrow> bool \<Rightarrow> bool \<Rightarrow> proc \<Rightarrow> string option outcome" where
  "open_log_files interactive pid_open pid_write err_open p =
    (if interactive then Goes None
     else if \<not> pid_open then Quits 1
     else (let str = show_int (p_pid p) @ [CHR 0x0A]
           in if length str \<ge> 32 then Crashes
              else if \<not> pid_write then Quits 1
              else if \<not> err_open then Quits 1
              else Goes (Some str)))"

definition Signal :: "int \<Rightarrow> handler \<Rightarrow> proc \<Rightarrow> proc" where
  "Signal sig h p = p\<lparr>p_handler := (p_handler p)(sig := h)\<rparr>"

definition handle_signals :: "handler \<Rightarrow> proc \<Rightarrow> proc" where
  "handle_signals h p = Signal SIGUSR1 h (Signal SIGHUP h (Signal SIGTERM h p))"

text \<open>The two ends of the signal pipe, as descriptor objects; \<open>pipe\<close> is the result of \<open>pipe\<close>, \<open>a0\<close> and \<open>a1\<close> are the new objects.\<close>

definition install_sighandlers :: "(int \<times> int) option \<Rightarrow> nid option \<Rightarrow> nid option \<Rightarrow> ('m, 'z) netw_scheme \<Rightarrow> proc
    \<Rightarrow> ((nid \<times> nid) \<times> ('m, 'z) netw_scheme \<times> proc) outcome" where
  "install_sighandlers pipe a0 a1 w p =
    (case pipe of None \<Rightarrow> Quits 1
     | Some (p0, p1) \<Rightarrow>
        (case st_netfd_open p0 a0 w of (None, w) \<Rightarrow> Quits 1
         | (Some n0, w) \<Rightarrow>
            (case st_netfd_open p1 a1 w of (None, w) \<Rightarrow> Quits 1
             | (Some n1, w) \<Rightarrow>
                (let p = handle_signals ChildHandler p
                 in Goes ((n0, n1), w, p\<lparr>p_blocked := p_blocked p - {SIGTERM, SIGHUP, SIGUSR1}\<rparr>)))))"

section \<open>What the steps do\<close>

lemma start_daemon_goes:
  assumes "start_daemon f ok logdir p = Goes p'"
  shows "\<not> p_leader p' \<and> logdir = Some (p_cwd p') \<and> p_pid p' = pid2 f \<and> p_uid p' = p_uid p \<and> p_gid p' = p_gid p \<and> p_groups p' = p_groups p \<and>
    p_blocked p' = p_blocked p \<and> p_handler p' = p_handler p"
  using assms by (auto simp: start_daemon_def fork_child_def Let_def split: if_splits option.splits)

text \<open>The order of the two calls is right: the group is set while the process is still the super-user.\<close>

lemma change_user_root:
  assumes "getpw u = Some (uid, gid)" and "p_uid p = 0"
  shows "change_user getpw u p = Goes (p\<lparr>p_gid := gid, p_uid := uid\<rparr>)"
  using assms by (simp add: change_user_def setgid_def setuid_def)

lemma change_user_goes:
  assumes "change_user getpw u p = Goes p'"
  shows "getpw u = Some (p_uid p', p_gid p') \<and> p_groups p' = p_groups p \<and> p_pid p' = p_pid p \<and> p_leader p' = p_leader p \<and> p_cwd p' = p_cwd p \<and>
    p_blocked p' = p_blocked p \<and> p_handler p' = p_handler p"
  using assms by (auto simp: change_user_def setgid_def setuid_def split: option.splits if_splits)

lemma open_log_files_fits: "- (2 ^ 31) \<le> p_pid p \<Longrightarrow> p_pid p < 2 ^ 31 \<Longrightarrow> open_log_files i a b c p \<noteq> Crashes"
  using show_int_length [of 10 "p_pid p"] by (auto simp: open_log_files_def Let_def)

lemma install_sighandlers_goes:
  assumes "install_sighandlers pipe a0 a1 w p = Goes (ns, w', p')"
  shows "p_blocked p' = p_blocked p - {SIGTERM, SIGHUP, SIGUSR1} \<and>
    (\<forall>sig \<in> {SIGTERM, SIGHUP, SIGUSR1}. p_handler p' sig = ChildHandler) \<and> p_uid p' = p_uid p \<and> p_gid p' = p_gid p \<and>
    p_leader p' = p_leader p \<and> p_cwd p' = p_cwd p"
  using assms by (auto simp: install_sighandlers_def handle_signals_def Signal_def Let_def split: option.splits prod.splits)

end
