(* ===== verification/Proxy.thy ===== *)
theory Proxy
  imports Netio Cstdlib "HOL-Library.Sublist"
begin

text \<open>
  examples/proxy.c: the relay of one connection (\<open>pass\<close> and \<open>handle_request\<close>, in the version without \<open>DEBUG\<close>), the parsing of addresses and
  options, and the parts of \<open>main\<close>. The bytes a session reads and sends are kept in a log. Error messages are left out; the exits of the program
  are values.
\<close>

unbundle bit_operations_syntax

section \<open>The relay\<close>

definition IOBUFSIZE :: nat where "IOBUFSIZE = 16 * 1024"

type_synonym ('m, 'z) oth = "('m, 'z) netw_scheme \<Rightarrow> ('m, 'z) netw_scheme option"
type_synonym ('m, 'z) rscript = "(byte list osres \<times> ('m, 'z) oth) list"
type_synonym ('m, 'z) wscript = "(nat osres \<times> ('m, 'z) oth) list"

text \<open>The result, the bytes that were read and the bytes that were sent. \<open>recv\<close> returns no more than the buffer holds.\<close>

definition pass :: "'m cmap \<Rightarrow> pqid \<Rightarrow> nid option \<Rightarrow> nid option \<Rightarrow> ('m, 'z) rscript \<Rightarrow> ('m, 'z) wscript \<Rightarrow> ('m, 'z) netw_scheme
    \<Rightarrow> (bool \<times> byte list \<times> byte list \<times> ('m, 'z) netw_scheme) option" where
  "pass ops p inn out rd wr w =
    (case st_read ops p inn ST_UTIME_NO_TIMEOUT rd w of None \<Rightarrow> None
     | Some (Inl e, w) \<Rightarrow> Some (False, [], [], w)
     | Some (Inr bs, w) \<Rightarrow>
        (if length bs > IOBUFSIZE then None
         else if bs = [] then Some (False, [], [], w)
         else (case st_write ops p out bs ST_UTIME_NO_TIMEOUT wr w of None \<Rightarrow> None
               | Some (Inl e, sent, w) \<Rightarrow> Some (False, bs, sent, w)
               | Some (Inr nw, sent, w) \<Rightarrow> Some (nw = length bs, bs, sent, w))))"

text \<open>What one round of the loop meets: the wait in \<open>st_poll\<close> and the scripts of the two directions.\<close>

record ('m, 'z) round =
  rd_poll :: "('m, 'z) oth"
  rd_up :: "('m, 'z) rscript \<times> ('m, 'z) wscript"
  rd_down :: "('m, 'z) rscript \<times> ('m, 'z) wscript"

text \<open>The bytes read from the client and sent to the remote host, and the other way round.\<close>

record relay =
  up_in :: "byte list"
  up_out :: "byte list"
  down_in :: "byte list"
  down_out :: "byte list"

definition log_up :: "byte list \<Rightarrow> byte list \<Rightarrow> relay \<Rightarrow> relay" where
  "log_up bs sent l = l\<lparr>up_in := up_in l @ bs, up_out := up_out l @ sent\<rparr>"

definition log_down :: "byte list \<Rightarrow> byte list \<Rightarrow> relay \<Rightarrow> relay" where
  "log_down bs sent l = l\<lparr>down_in := down_in l @ bs, down_out := down_out l @ sent\<rparr>"

definition pd_in :: "int \<Rightarrow> pollfd" where
  "pd_in f = \<lparr>fd = f, events = POLLIN, revents = 0\<rparr>"

definition readable :: "pollfd list \<Rightarrow> nat \<Rightarrow> bool" where
  "readable ps k \<longleftrightarrow> k < length ps \<and> revents (ps ! k) AND POLLIN \<noteq> 0"

text \<open>
  The loop of \<open>handle_request\<close>; the flag tells that it has ended, and is \<open>False\<close> if it is still running after the rounds of the script.
\<close>

fun pump :: "'m cmap \<Rightarrow> pqid \<Rightarrow> nid option \<Rightarrow> nid option \<Rightarrow> int \<Rightarrow> int \<Rightarrow> ('m, 'z) round list \<Rightarrow> relay \<Rightarrow> ('m, 'z) netw_scheme
    \<Rightarrow> (bool \<times> relay \<times> ('m, 'z) netw_scheme) option" where
  "pump ops p cli rmt fd0 fd1 [] l w = Some (False, l, w)"
| "pump ops p cli rmt fd0 fd1 (r # rs) l w =
    (case st_poll ops p [pd_in fd0, pd_in fd1] ST_UTIME_NO_TIMEOUT (rd_poll r) w of None \<Rightarrow> None
     | Some (Inl e, w) \<Rightarrow> Some (True, l, w)
     | Some (Inr n, w) \<Rightarrow>
        (if n \<le> 0 then Some (True, l, w)
         else (let ps = pds (pq w p)
           in (case (if readable ps 0 then pass ops p cli rmt (fst (rd_up r)) (snd (rd_up r)) w else Some (True, [], [], w)) of None \<Rightarrow> None
               | Some (ok, bs, sent, w) \<Rightarrow>
                  (let l = log_up bs sent l
                   in if \<not> ok then Some (True, l, w)
                      else (case (if readable ps 1 then pass ops p rmt cli (fst (rd_down r)) (snd (rd_down r)) w else Some (True, [], [], w)) of None \<Rightarrow> None
                            | Some (ok, bs, sent, w) \<Rightarrow>
                               (let l = log_down bs sent l
                                in if \<not> ok then Some (True, l, w) else pump ops p cli rmt fd0 fd1 rs l w)))))))"

text \<open>
  What a session meets: the result of \<open>socket\<close>, the object for its descriptor, the script of \<open>connect\<close>, the rounds, and \<open>GetLastError()\<close> when
  a descriptor is closed.
\<close>

record ('m, 'z) session =
  s_socket :: "int osres"
  s_alloc :: "nid option"
  s_connect :: "(unit osres \<times> ('m, 'z) oth \<times> int osres) list"
  s_rounds :: "('m, 'z) round list"
  s_close :: int

definition empty_log :: relay where
  "empty_log = \<lparr>up_in = [], up_out = [], down_in = [], down_out = []\<rparr>"

definition handle_request :: "'m cmap \<Rightarrow> pqid \<Rightarrow> nid \<Rightarrow> ('m, 'z) session \<Rightarrow> ('m, 'z) netw_scheme
    \<Rightarrow> (bool \<times> relay \<times> ('m, 'z) netw_scheme) option" where
  "handle_request ops p cli ses w =
    (let fd0 = st_netfd_fileno (Some cli) w;
         close = (\<lambda>i w. snd (st_netfd_close ops (Some i) (s_close ses) w))
     in (case s_socket ses of OsErr e \<Rightarrow> Some (True, empty_log, close cli w)
         | OsOk sock \<Rightarrow>
            (case st_netfd_open_socket sock (s_alloc ses) w of
               (None, w) \<Rightarrow> Some (True, empty_log, close cli w)
             | (Some rmt, w) \<Rightarrow>
                (case st_connect ops p (Some rmt) ST_UTIME_NO_TIMEOUT 0 (s_connect ses) w of None \<Rightarrow> None
                 | Some (Inl e, w) \<Rightarrow> Some (True, empty_log, close cli (close rmt w))
                 | Some (Inr _, w) \<Rightarrow>
                    (case pump ops p (Some cli) (Some rmt) fd0 sock (s_rounds ses) empty_log w of None \<Rightarrow> None
                     | Some (False, l, w) \<Rightarrow> Some (False, l, w)
                     | Some (True, l, w) \<Rightarrow> Some (True, l, close cli (close rmt w)))))))"

section \<open>Addresses and options\<close>

text \<open>
  \<open>read_address\<close>: the port and the address, both in host order here; \<open>Inl\<close> is an exit of the program. \<open>inet_addr\<close> and
  \<open>gethostbyname\<close> are arguments. The argument is copied into an array of 128 characters without a check.
\<close>

datatype exit_reason = BadAddress | BadPort | NoHost | BadRemote | BadProcs | Usage | NoLocal | NoRemote

definition INADDR_NONE :: "32 word" where "INADDR_NONE = 0xffffffff"
definition INADDR_ANY :: "32 word" where "INADDR_ANY = 0"

definition read_address :: "(string \<Rightarrow> 32 word) \<Rightarrow> (string \<Rightarrow> 32 word option) \<Rightarrow> string \<Rightarrow> (exit_reason + 16 word \<times> 32 word) option" where
  "read_address inet_addr gethost str =
    (if length str \<ge> 128 then None
     else (case split_at CHR '':'' str of None \<Rightarrow> Some (Inl BadAddress)
           | Some (host, rest) \<Rightarrow>
              (let port = word_of_int (atoi rest) :: 16 word
               in if port < 1 then Some (Inl BadPort)
                  else if host = [] then Some (Inr (port, INADDR_ANY))
                  else if inet_addr host \<noteq> INADDR_NONE then Some (Inr (port, inet_addr host))
                  else (case gethost host of None \<Rightarrow> Some (Inl NoHost) | Some a \<Rightarrow> Some (Inr (port, a))))))"

text \<open>
  The options of \<open>main\<close>, as \<open>getopt\<close> returns them. The testing mask, which only the \<open>DEBUG\<close> version reads, is kept as the text
  that \<open>strtoul\<close> gets.
\<close>

record proxy_opts =
  o_local :: "(16 word \<times> 32 word) option"
  o_remote :: "(16 word \<times> 32 word) option"
  o_procs :: int
  o_serialize :: bool
  o_alt :: bool
  o_testing :: "string option"
  o_one :: bool

fun proxy_options :: "(string \<Rightarrow> 32 word) \<Rightarrow> (string \<Rightarrow> 32 word option) \<Rightarrow> (char \<times> string) list \<Rightarrow> proxy_opts \<Rightarrow> (exit_reason + proxy_opts) option" where
  "proxy_options ia gh [] os =
    (if o_local os = None then Some (Inl NoLocal)
     else if o_remote os = None then Some (Inl NoRemote)
     else Some (Inr os))"
| "proxy_options ia gh ((opt, optarg) # args) os =
    (if opt = CHR ''a'' then proxy_options ia gh args (os\<lparr>o_alt := True\<rparr>)
     else if opt = CHR ''l''
     then (case read_address ia gh optarg of None \<Rightarrow> None | Some (Inl e) \<Rightarrow> Some (Inl e)
           | Some (Inr a) \<Rightarrow> proxy_options ia gh args (os\<lparr>o_local := Some a\<rparr>))
     else if opt = CHR ''r''
     then (case read_address ia gh optarg of None \<Rightarrow> None | Some (Inl e) \<Rightarrow> Some (Inl e)
           | Some (Inr a) \<Rightarrow> if snd a = INADDR_ANY then Some (Inl BadRemote) else proxy_options ia gh args (os\<lparr>o_remote := Some a\<rparr>))
     else if opt = CHR ''p''
     then (if atoi optarg < 1 then Some (Inl BadProcs) else proxy_options ia gh args (os\<lparr>o_procs := atoi optarg\<rparr>))
     else if opt = CHR ''S'' then proxy_options ia gh args (os\<lparr>o_serialize := True\<rparr>)
     else if opt = CHR ''t'' then proxy_options ia gh args (os\<lparr>o_testing := Some optarg\<rparr>)
     else if opt = CHR ''X'' then proxy_options ia gh args (os\<lparr>o_one := True\<rparr>)
     else if opt = CHR ''h'' \<or> opt = CHR ''?'' then Some (Inl Usage)
     else proxy_options ia gh args os)"

section \<open>The main program\<close>

text \<open>The number of processes; \<open>cpus\<close> is the result of \<open>cpu_count\<close>.\<close>

definition num_procs :: "int \<Rightarrow> proxy_opts \<Rightarrow> int" where
  "num_procs cpus os = (if o_one os then 1 else if o_procs os = 0 then cpus else o_procs os)"

text \<open>\<open>set_concurrency\<close>: the list gives the results of \<open>fork\<close>; \<open>Some True\<close> is a child that returns, \<open>Some False\<close> the end of the parent, \<open>None\<close> a failure.\<close>

fun fork_loop :: "nat \<Rightarrow> int list \<Rightarrow> bool option" where
  "fork_loop 0 pids = Some False"
| "fork_loop (Suc n) [] = None"
| "fork_loop (Suc n) (pid # pids) = (if pid < 0 then None else if pid = 0 then Some True else fork_loop n pids)"

definition set_concurrency :: "int \<Rightarrow> int list \<Rightarrow> bool option" where
  "set_concurrency nproc pids = fork_loop (nat (if nproc < 1 then 1 else nproc)) pids"

text \<open>The listening socket: the results of \<open>socket\<close>, \<open>setsockopt\<close> and \<open>bind\<close>; that of \<open>listen\<close> is not looked at.\<close>

definition proxy_listen :: "bool \<Rightarrow> int osres \<Rightarrow> bool \<Rightarrow> bool \<Rightarrow> nid option \<Rightarrow> ('m, 'z) netw_scheme \<Rightarrow> nid option \<times> ('m, 'z) netw_scheme" where
  "proxy_listen serialize sock opt_ok bind_ok alloc w =
    (case sock of OsErr e \<Rightarrow> (None, w)
     | OsOk sk \<Rightarrow>
        (if \<not> opt_ok \<or> \<not> bind_ok then (None, w)
         else (case st_netfd_open_socket sk alloc w of (None, w) \<Rightarrow> (None, w)
               | (Some srv, w) \<Rightarrow> (Some srv, if serialize then st_netfd_serialize_accept (Some srv) w else w))))"

text \<open>
  The loop that accepts connections: every turn has the attempts of \<open>accept\<close>, the new object and the success of \<open>st_thread_create\<close>. The result is
  the descriptors for which a thread runs \<open>handle_request\<close>, and whether the program still runs.
\<close>

fun proxy_accept :: "nid \<Rightarrow> (int osres list \<times> nid option \<times> bool) list \<Rightarrow> ('m, 'z) netw_scheme \<Rightarrow> (nid list \<times> bool \<times> ('m, 'z) netw_scheme) option" where
  "proxy_accept srv [] w = Some ([], True, w)"
| "proxy_accept srv ((ins, alloc, created) # rest) w =
    (case st_accept (Some srv) ins alloc w of None \<Rightarrow> None
     | Some (None, _, w) \<Rightarrow> Some ([], False, w)
     | Some (Some cli, _, w) \<Rightarrow>
        (if \<not> created then Some ([], False, w)
         else (case proxy_accept srv rest w of None \<Rightarrow> None | Some (cs, run, w) \<Rightarrow> Some (cli # cs, run, w))))"

text \<open>As \<open>st_accept\<close> of this port does not wait, the proxy exits as soon as no connection is pending.\<close>

lemma proxy_exits_when_idle: "proxy_accept srv ((OsErr 10035 # ins, alloc, created) # rest) w = Some ([], False, w)"
  by (simp add: st_accept_def st_GetError_def WSABASEERR_def wsa_table_def IO_NOT_READY_ERROR_def)

section \<open>The relay forwards what it reads\<close>

text \<open>Scripts with which one direction makes progress: the read is answered, and the other side takes what was read.\<close>

definition dir_ok :: "'m cmap \<Rightarrow> pqid \<Rightarrow> tid \<Rightarrow> ('m, 'z) rscript \<times> ('m, 'z) wscript \<Rightarrow> bool" where
  "dir_ok ops p me d \<longleftrightarrow> (\<forall>x \<in> set (fst d). others_ok ops p me (snd x)) \<and> (\<forall>x \<in> set (snd d). others_ok ops p me (snd x)) \<and>
     decisive (fst d) \<noteq> None \<and> (\<forall>bs. decisive (fst d) = Some (OsOk bs) \<longrightarrow> length bs \<le> IOBUFSIZE \<and> accepts (snd d) (length bs))"

definition round_ok :: "'m cmap \<Rightarrow> pqid \<Rightarrow> tid \<Rightarrow> ('m, 'z) round \<Rightarrow> bool" where
  "round_ok ops p me r \<longleftrightarrow> others_ok ops p me (rd_poll r) \<and> dir_ok ops p me (rd_up r) \<and> dir_ok ops p me (rd_down r)"

lemma pass_ok:
  assumes w: "caller_ready ops p me w" and d: "dir_ok ops p me (rd, wr)"
  shows "\<exists>ok bs sent w'. pass ops p (Some i) (Some j) rd wr w = Some (ok, bs, sent, w') \<and> caller_ready ops p me w' \<and>
    prefix sent bs \<and> (ok \<longrightarrow> sent = bs)"
proof -
  have g: "\<forall>x \<in> set rd. others_ok ops p me (snd x)" "\<forall>x \<in> set wr. others_ok ops p me (snd x)" "decisive rd \<noteq> None"
      "\<And>bs. decisive rd = Some (OsOk bs) \<Longrightarrow> length bs \<le> IOBUFSIZE \<and> accepts wr (length bs)"
    using d by (auto simp: dir_ok_def)
  obtain r w1 where r: "st_read ops p (Some i) ST_UTIME_NO_TIMEOUT rd w = Some (r, w1)" "caller_ready ops p me w1"
    using np.retry_ok [OF w g(1), of "Some i" POLLIN ST_UTIME_NO_TIMEOUT] g(3) unfolding decisive_None by (auto simp: st_read_def)
  show ?thesis
  proof (cases r)
    case (Inl e)
    then show ?thesis using r by (auto simp: pass_def)
  next
    case (Inr bs)
    have bs: "length bs \<le> IOBUFSIZE" "accepts wr (length bs)"
      using g(4) io_retry_decides [of _ rd w bs w1] r(1) Inr by (simp_all add: st_read_def)
    obtain r2 out w2 where s: "st_write ops p (Some j) bs ST_UTIME_NO_TIMEOUT wr w1 = Some (r2, out, w2)" "caller_ready ops p me w2"
        "case r2 of Inr n \<Rightarrow> n = length bs \<and> out = bs | Inl e \<Rightarrow> \<exists>k. out = take k bs"
      using np.write_ok [OF r(2) g(2) bs(2), of "Some j" POLLOUT ST_UTIME_NO_TIMEOUT "length bs" "[]", unfolded append_Nil]
      by (auto simp: st_write_def)
    have "prefix out bs" "\<And>n. r2 = Inr n \<Longrightarrow> n = length bs \<and> out = bs" using s(3) by (auto simp: take_is_prefix split: sum.splits)
    then show ?thesis using r Inr bs(1) s(1,2) by (cases r2) (auto simp: pass_def)
  qed
qed

text \<open>The log of a session: nothing is changed, added, left out or reordered on the way.\<close>

definition relayed :: "bool \<Rightarrow> relay \<Rightarrow> bool" where
  "relayed fin l \<longleftrightarrow> prefix (up_out l) (up_in l) \<and> prefix (down_out l) (down_in l) \<and>
     (\<not> fin \<longrightarrow> up_out l = up_in l \<and> down_out l = down_in l)"

lemma relayed_up:
  assumes "relayed False l" and "prefix sent bs" and "ok \<longrightarrow> sent = bs"
  shows "relayed (\<not> ok) (log_up bs sent l)"
  using assms by (auto simp: relayed_def log_up_def)

lemma relayed_down:
  assumes "relayed False l" and "prefix sent bs" and "ok \<longrightarrow> sent = bs"
  shows "relayed (\<not> ok) (log_down bs sent l)"
  using assms by (auto simp: relayed_def log_down_def)

lemma relayed_fin: "relayed False l \<Longrightarrow> relayed True l"
  by (auto simp: relayed_def)

text \<open>One direction of a round, also if its descriptor is not readable.\<close>

lemma dir_step:
  assumes "caller_ready ops p me w" and "dir_ok ops p me d"
  obtains ok bs sent w' where
    "(if b then pass ops p (Some i) (Some j) (fst d) (snd d) w else Some (True, [], [], w)) = Some (ok, bs, sent, w')"
    and "caller_ready ops p me w'" and "prefix sent bs" and "ok \<longrightarrow> sent = bs"
proof (cases b)
  case True
  obtain ok bs sent w' where "pass ops p (Some i) (Some j) (fst d) (snd d) w = Some (ok, bs, sent, w')" "caller_ready ops p me w'"
      "prefix sent bs" "ok \<longrightarrow> sent = bs"
    using pass_ok [OF assms(1), of "fst d" "snd d" i j] assms(2) by auto
  then show thesis using True that [of ok bs sent w'] by simp
qed (use assms(1) that [of True "[]" "[]" w] in simp)

lemma pump_ok:
  "caller_ready ops p me w \<Longrightarrow> \<forall>r \<in> set rs. round_ok ops p me r \<Longrightarrow> relayed False l \<Longrightarrow>
    \<exists>fin l' w'. pump ops p (Some i) (Some j) fd0 fd1 rs l w = Some (fin, l', w') \<and> caller_ready ops p me w' \<and> relayed fin l'"
proof (induction rs arbitrary: l w)
  case Nil
  then show ?case by auto
next
  case (Cons r rs)
  have r: "others_ok ops p me (rd_poll r)" "dir_ok ops p me (rd_up r)" "dir_ok ops p me (rd_down r)"
    using Cons.prems(2) by (auto simp: round_ok_def)
  obtain res w1 where p: "st_poll ops p [pd_in fd0, pd_in fd1] ST_UTIME_NO_TIMEOUT (rd_poll r) w = Some (res, w1)" "caller_ready ops p me w1"
    using st_poll_total [OF Cons.prems(1) r(1)] by blast
  show ?case
  proof (cases "\<exists>n. res = Inr n \<and> n > 0")
    case False
    then show ?thesis using p relayed_fin [OF Cons.prems(3)] by (cases res) auto
  next
    case True
    then obtain n where n: "res = Inr n" "n > 0" by blast
    obtain ok bs sent w2 where u: "(if readable (pds (pq w1 p)) 0 then pass ops p (Some i) (Some j) (fst (rd_up r)) (snd (rd_up r)) w1
        else Some (True, [], [], w1)) = Some (ok, bs, sent, w2)" "caller_ready ops p me w2" "prefix sent bs" "ok \<longrightarrow> sent = bs"
      by (rule dir_step [OF p(2) r(2)])
    note l1 = relayed_up [OF Cons.prems(3) u(3,4)]
    show ?thesis
    proof (cases ok)
      case False
      then show ?thesis using p(1) n u(1,2) l1 by (auto simp: Let_def)
    next
      case up: True
      obtain ok' bs' sent' w3 where d: "(if readable (pds (pq w1 p)) 1 then pass ops p (Some j) (Some i) (fst (rd_down r)) (snd (rd_down r)) w2
          else Some (True, [], [], w2)) = Some (ok', bs', sent', w3)" "caller_ready ops p me w3" "prefix sent' bs'" "ok' \<longrightarrow> sent' = bs'"
        by (rule dir_step [OF u(2) r(3)])
      have l2: "relayed (\<not> ok') (log_down bs' sent' (log_up bs sent l))" by (rule relayed_down [OF _ d(3,4)]) (use l1 up in simp)
      have step: "pump ops p (Some i) (Some j) fd0 fd1 (r # rs) l w =
          (if \<not> ok' then Some (True, log_down bs' sent' (log_up bs sent l), w3)
           else pump ops p (Some i) (Some j) fd0 fd1 rs (log_down bs' sent' (log_up bs sent l)) w3)"
        using p(1) n u(1) d(1) up by (simp add: Let_def)
      show ?thesis using Cons.IH [OF d(2), of "log_down bs' sent' (log_up bs sent l)"] Cons.prems(2) l2 d(2) unfolding step by (cases ok') auto
    qed
  qed
qed

text \<open>The script of \<open>connect\<close> has an attempt that is not repeated.\<close>

definition connects :: "(unit osres \<times> 'o \<times> int osres) list \<Rightarrow> bool" where
  "connects ins \<longleftrightarrow> (\<exists>x \<in> set ins. case fst x of OsOk _ \<Rightarrow> True | OsErr c \<Rightarrow> st_GetError 0 c 0 \<notin> {errno_num EAGAIN, errno_num EINTR})"

lemma connect_loop_total: "connects ins \<Longrightarrow> \<exists>r. connect_loop poll junk ins w = Some (r, w)"
proof (induction ins)
  case Nil
  then show ?case by (simp add: connects_def)
next
  case (Cons x ins)
  obtain r oth se where x: "x = (r, oth, se)" by (cases x)
  show ?case using Cons by (cases r) (auto simp: connects_def x Let_def)
qed

lemma handle_request_ok:
  assumes w: "caller_ready ops p me w" and c: "connects (s_connect ses)" and r: "\<forall>r \<in> set (s_rounds ses). round_ok ops p me r"
  shows "\<exists>fin l w'. handle_request ops p cli ses w = Some (fin, l, w') \<and> caller_ready ops p me w' \<and> relayed fin l"
proof -
  have e: "relayed fin empty_log" for fin by (simp add: relayed_def empty_log_def)
  note cl = caller_ready_close
  show ?thesis
  proof (cases "\<exists>sock rmt w1. s_socket ses = OsOk sock \<and> st_netfd_open_socket sock (s_alloc ses) w = (Some rmt, w1)")
    case False
    have "caller_ready ops p me w1" if "st_netfd_open_socket sock (s_alloc ses) w = (x, w1)" for sock x w1
      using caller_ready_open [of ops p me sock "s_alloc ses" w] w that by simp
    then show ?thesis using False w e unfolding handle_request_def Let_def
      by (auto split: osres.splits prod.splits option.splits intro!: caller_ready_close)
  next
    case True
    then obtain sock rmt w1 where s: "s_socket ses = OsOk sock" "st_netfd_open_socket sock (s_alloc ses) w = (Some rmt, w1)" by blast
    have w1: "caller_ready ops p me w1" using caller_ready_open [of ops p me sock "s_alloc ses" w] w s(2) by simp
    obtain x where x: "st_connect ops p (Some rmt) ST_UTIME_NO_TIMEOUT 0 (s_connect ses) w1 = Some (x, w1)"
      using connect_loop_total [OF c, of "st_netfd_poll ops p (Some rmt) POLLOUT ST_UTIME_NO_TIMEOUT" 0 w1] by (auto simp: st_connect_def)
    obtain fin l w2 where m: "pump ops p (Some cli) (Some rmt) (st_netfd_fileno (Some cli) w) sock (s_rounds ses) empty_log w1 = Some (fin, l, w2)"
        "caller_ready ops p me w2" "relayed fin l"
      using pump_ok [OF w1 r e] by blast
    show ?thesis
      using s x m e cl [OF cl [OF w1]] cl [OF cl [OF m(2)]] by (cases x; cases fin) (simp_all add: handle_request_def Let_def, blast+)
  qed
qed

section \<open>Properties\<close>


definition demo_round :: "(int \<Rightarrow> int option, unit) round" where
  "demo_round = \<lparr>rd_poll = time_out 5, rd_up = ([(OsErr 10035, time_out 5), (OsOk [1, 2, 3], time_out 5)], [(OsOk 1, time_out 5), (OsOk 2, time_out 5)]),
     rd_down = ([(OsOk [9], time_out 5)], [(OsOk 1, time_out 5)])\<rparr>"

definition demo_session :: "(int \<Rightarrow> int option, unit) session" where
  "demo_session = \<lparr>s_socket = OsOk 44, s_alloc = Some 3, s_connect = [(OsErr 10035, time_out 5, OsOk 0), (OsOk (), time_out 5, OsOk 0)],
     s_rounds = [demo_round, demo_round], s_close = 0\<rparr>"


text \<open>
  A session whose two sides are silent is dropped at once: \<open>st_poll\<close> without a timeout waits for a microsecond only, and its result 0 ends
  the loop.
\<close>

lemma idle_session_dropped:
  assumes "calm ops p me w"
  shows "\<exists>w'. pump ops p cli rmt fd0 fd1 (\<lparr>rd_poll = idle_out p me, rd_up = u, rd_down = d\<rparr> # rs) l w = Some (True, l, w')"
proof -
  have r: "caller_ready ops p me w" "\<not> has_flag (vpst w) me ST_FL_INTERRUPT" using assms by (auto simp: calm_def)
  obtain res w' w1 w2 where s: "st_poll ops p [pd_in fd0, pd_in fd1] ST_UTIME_NO_TIMEOUT (idle_out p me) w = Some (res, w')"
      "idle_out p me w1 = Some w2" "\<not> has_flag (vpst w2) me ST_FL_INTERRUPT \<longrightarrow>
        \<not> has_flag (vpst w') me ST_FL_INTERRUPT \<and> (if on_ioq (pq w2 p) then res = Inr 0
           else res = Inr (int (length (filter (\<lambda>pd. revents pd \<noteq> 0) (pds (pq w2 p))))) \<and> w' = w2)"
    using st_poll_total [OF r(1) idle_out_others, of "[pd_in fd0, pd_in fd1]" ST_UTIME_NO_TIMEOUT] r(2) by blast
  have "\<not> has_flag (vpst w2) me ST_FL_INTERRUPT" using idle_out_quiet s(2) unfolding quiet_def by blast
  moreover have "filter (\<lambda>pd. revents pd \<noteq> 0) (pds (pq w2 p)) = []"
    using s(2) by (auto simp: idle_out_def filter_empty_conv set_pds_def split: option.splits)
  ultimately have "res = Inr 0" using s(3) by (simp split: if_splits)
  then show ?thesis using s(1) by simp
qed

text \<open>
  Addresses are read as they are written. For every host and every port from 1 to 65535 in decimal notation, \<open>read_address\<close> of
  \<open>host:port\<close> yields the port with the address of the host: any address if the host is empty, the dotted notation if it is one, what
  the name service says otherwise; it exits if the name is unknown.
\<close>

theorem read_address_roundtrip:
  assumes "CHR '':'' \<notin> set host" and "0 < port" and "port < 65536" and "length (host @ '':'' @ show_nat port) < 128"
  shows "read_address ia gh (host @ '':'' @ show_nat port) =
    (if host = [] then Some (Inr (word_of_nat port, INADDR_ANY))
     else if ia host \<noteq> INADDR_NONE then Some (Inr (word_of_nat port, ia host))
     else (case gh host of None \<Rightarrow> Some (Inl NoHost) | Some a \<Rightarrow> Some (Inr (word_of_nat port, a))))"
proof -
  have s: "split_at CHR '':'' (host @ '':'' @ show_nat port) = Some (host, show_nat port)"
    using split_at_append [OF assms(1), of "show_nat port"] by simp
  have a: "atoi (show_nat port) = int port" using atoi_show_nat [of "[]" port] by simp
  have "(word_of_nat port :: 16 word) \<noteq> 0" using assms(2,3) by (simp add: word_of_nat_eq_0_iff nat_dvd_not_less)
  then have "\<not> (word_of_int (int port) :: 16 word) < 1" by (simp add: word_less_1)
  then show ?thesis using assms(4) s a by (cases "gh host") (simp_all add: read_address_def Let_def)
qed

theorem read_address_roundtrip_witness:
  "read_address (\<lambda>_. INADDR_NONE) (\<lambda>h. if h = ''db'' then Some 7 else None) ''db:8080'' = Some (Inr (8080, 7))"
proof -
  have "show_nat 8080 = ''8080''" by (simp add: show_nat.simps digit_char_def char_of_def bit_Suc_0_iff)
  then show ?thesis
    using read_address_roundtrip [of "''db''" 8080 "\<lambda>_. INADDR_NONE" "\<lambda>h. if h = ''db'' then Some 7 else None"] by simp
qed

end
