(* ===== verification/Server.thy ===== *)
theory Server
  imports Netio Cstdlib
begin

text \<open>
  examples/server.c: the options and limits of the server, its listening sockets, the pool of threads that serve a socket as a state machine
  whose steps are the pieces of \<open>handle_connections\<close> between two points where a thread may be switched, a client session, and the
  watchdog with its table of server processes. Log output is left out, and the exits of the program are values.
\<close>

section \<open>Options\<close>

definition MAX_BIND_ADDRS :: nat where "MAX_BIND_ADDRS = 16"
definition MAX_WAIT_THREADS_DEFAULT :: int where "MAX_WAIT_THREADS_DEFAULT = 8"
definition FD_PER_THREAD :: int where "FD_PER_THREAD = 2"
definition SERV_PORT_DEFAULT :: int where "SERV_PORT_DEFAULT = 8000"

datatype srv_exit = TooManyBinds | NoStrdup | BadProcCount | BadThreads | BadBacklog | SrvUsage | NoLogdir | SockFailed | CantResolve | NoThreads | NoProcess

record srv_conf =
  c_addrs :: "string list"
  vp_count :: int
  logdir :: "string option"
  max_wait_threads :: int
  min_wait_threads :: int
  max_threads :: int
  username :: "string option"
  listenq_size :: int
  log_access :: bool
  interactive_mode :: bool
  serialize_accept :: bool

definition default_conf :: srv_conf where
  "default_conf = \<lparr>c_addrs = [], vp_count = 0, logdir = None, max_wait_threads = 0, min_wait_threads = 2, max_threads = 0, username = None,
     listenq_size = 256, log_access = False, interactive_mode = False, serialize_accept = False\<rparr>"

text \<open>
  One option, the loop over the options, and \<open>parse_arguments\<close>; \<open>dup\<close> tells for which arguments \<open>strdup\<close> finds memory, and \<open>cpus\<close> is the result of
  \<open>cpu_count\<close>.
\<close>

definition read_option :: "(string \<Rightarrow> bool) \<Rightarrow> char \<Rightarrow> string \<Rightarrow> srv_conf \<Rightarrow> srv_exit + srv_conf" where
  "read_option dup opt optarg c =
    (if opt = CHR ''b''
     then (if length (c_addrs c) \<ge> MAX_BIND_ADDRS then Inl TooManyBinds
           else if \<not> dup optarg then Inl NoStrdup else Inr (c\<lparr>c_addrs := c_addrs c @ [optarg]\<rparr>))
     else if opt = CHR ''p'' then (if atoi optarg < 1 then Inl BadProcCount else Inr (c\<lparr>vp_count := atoi optarg\<rparr>))
     else if opt = CHR ''l'' then Inr (c\<lparr>logdir := Some optarg\<rparr>)
     else if opt = CHR ''t''
     then (let (n, rest) = strtol optarg;
               c = c\<lparr>max_wait_threads := n\<rparr>;
               c = (if rest \<noteq> [] \<and> hd rest = CHR '':'' then c\<lparr>max_threads := atoi (tl rest)\<rparr> else c)
           in if max_wait_threads c < 0 \<or> max_threads c < 0 then Inl BadThreads else Inr c)
     else if opt = CHR ''u'' then Inr (c\<lparr>username := Some optarg\<rparr>)
     else if opt = CHR ''q'' then (if atoi optarg < 1 then Inl BadBacklog else Inr (c\<lparr>listenq_size := atoi optarg\<rparr>))
     else if opt = CHR ''a'' then Inr (c\<lparr>log_access := True\<rparr>)
     else if opt = CHR ''i'' then Inr (c\<lparr>interactive_mode := True\<rparr>)
     else if opt = CHR ''S'' then Inr (c\<lparr>serialize_accept := True\<rparr>)
     else if opt = CHR ''h'' \<or> opt = CHR ''?'' then Inl SrvUsage
     else Inr c)"

fun read_options :: "(string \<Rightarrow> bool) \<Rightarrow> (char \<times> string) list \<Rightarrow> srv_conf \<Rightarrow> srv_exit + srv_conf" where
  "read_options dup [] c = Inr c"
| "read_options dup ((opt, optarg) # args) c =
    (case read_option dup opt optarg c of Inl e \<Rightarrow> Inl e | Inr c \<Rightarrow> read_options dup args c)"

definition parse_arguments :: "(string \<Rightarrow> bool) \<Rightarrow> (char \<times> string) list \<Rightarrow> int \<Rightarrow> srv_exit + srv_conf" where
  "parse_arguments dup args cpus =
    (case read_options dup args default_conf of Inl e \<Rightarrow> Inl e
     | Inr c \<Rightarrow>
        (if logdir c = None \<and> \<not> interactive_mode c then Inl NoLogdir
         else (let c = (if vp_count c = 0 then c\<lparr>vp_count := (if cpus < 1 then 1 else cpus)\<rparr> else c);
                   c = (if c_addrs c = [] then c\<lparr>c_addrs := [''0.0.0.0'']\<rparr> else c)
               in Inr c)))"

section \<open>Thread limits\<close>

text \<open>\<open>fdlimit\<close> is the result of \<open>st_getfdlimit\<close>, which this port does not have; all numbers here are not negative.\<close>

definition per_process :: "int \<Rightarrow> int \<Rightarrow> int" where
  "per_process n vps = (if n mod vps \<noteq> 0 then n div vps + 1 else n div vps)"

definition set_thread_throttling :: "int \<Rightarrow> srv_conf \<Rightarrow> srv_conf" where
  "set_thread_throttling fdlimit c =
    (let mw = (if max_wait_threads c = 0 then MAX_WAIT_THREADS_DEFAULT * vp_count c else max_wait_threads c);
         mt = (if max_threads c = 0 then (fdlimit * vp_count c) div FD_PER_THREAD div int (length (c_addrs c)) else max_threads c);
         mw = (if mw > mt then mt else mw);
         mw = per_process mw (vp_count c);
         mt = per_process mt (vp_count c);
         mn = (if min_wait_threads c > mw then mw else min_wait_threads c)
     in c\<lparr>max_wait_threads := mw, max_threads := mt, min_wait_threads := mn\<rparr>)"

section \<open>Listening sockets\<close>

record listener =
  l_nfd :: "nid option"
  l_addr :: string
  l_port :: "16 word"

text \<open>What \<open>create_listeners\<close> meets for one socket: the results of \<open>socket\<close>, \<open>setsockopt\<close>, \<open>bind\<close> and \<open>listen\<close>, and the new descriptor object.\<close>

record lscript =
  k_socket :: "int osres"
  k_opt :: bool
  k_bind :: bool
  k_listen :: bool
  k_alloc :: "nid option"

definition listen_addr :: "string \<Rightarrow> string \<times> 16 word" where
  "listen_addr a =
    (let (host, port) = (case split_at CHR '':'' a of None \<Rightarrow> (a, 0) | Some (h, rest) \<Rightarrow> (h, word_of_int (atoi rest)));
         host = (if host = [] then ''0.0.0.0'' else host);
         port = (if port = 0 then word_of_int SERV_PORT_DEFAULT else port)
     in (host, port))"

text \<open>\<open>resolves\<close> tells that \<open>inet_addr\<close> or \<open>gethostbyname\<close> knows the host.\<close>

fun create_listeners :: "(string \<Rightarrow> bool) \<Rightarrow> bool \<Rightarrow> (string \<times> lscript) list \<Rightarrow> ('m, 'z) netw_scheme \<Rightarrow> srv_exit + listener list \<times> ('m, 'z) netw_scheme" where
  "create_listeners resolves serialize [] w = Inr ([], w)"
| "create_listeners resolves serialize ((a, k) # ks) w =
    (let (host, port) = listen_addr a
     in (case k_socket k of OsErr e \<Rightarrow> Inl SockFailed
         | OsOk sock \<Rightarrow>
            (if \<not> k_opt k then Inl SockFailed
             else if \<not> resolves host then Inl CantResolve
             else if \<not> k_bind k \<or> \<not> k_listen k then Inl SockFailed
             else (case st_netfd_open_socket sock (k_alloc k) w of
                     (None, w) \<Rightarrow> Inl SockFailed
                   | (Some nf, w) \<Rightarrow>
                      (let w = (if serialize then st_netfd_serialize_accept (Some nf) w else w)
                       in (case create_listeners resolves serialize ks w of Inl e \<Rightarrow> Inl e
                           | Inr (ls, w) \<Rightarrow> Inr (\<lparr>l_nfd = Some nf, l_addr = host, l_port = port\<rparr> # ls, w)))))))"

section \<open>The thread pool of a socket\<close>

text \<open>
  Where a thread of \<open>handle_connections\<close> is: created and not yet run, in \<open>st_accept\<close>, in \<open>handle_session\<close>, or returned. The counters are the
  macros \<open>WAIT_THREADS\<close>, \<open>BUSY_THREADS\<close> and \<open>RQST_COUNT\<close>.
\<close>

datatype phase = Starting | Accepting | Serving | Gone

record pool =
  wait_threads :: int
  busy_threads :: int
  rqst_count :: int
  threads :: "phase list"

text \<open>The condition of the loop, and what follows it when the loop ends.\<close>

definition loop_head :: "srv_conf \<Rightarrow> nat \<Rightarrow> pool \<Rightarrow> pool" where
  "loop_head c t s =
    (if wait_threads s \<le> max_wait_threads c then s\<lparr>threads := (threads s)[t := Accepting]\<rparr>
     else s\<lparr>wait_threads := wait_threads s - 1, threads := (threads s)[t := Gone]\<rparr>)"

text \<open>A connection was accepted; \<open>created\<close> is the success of \<open>st_thread_create\<close>.\<close>

definition accepted :: "srv_conf \<Rightarrow> bool \<Rightarrow> nat \<Rightarrow> pool \<Rightarrow> pool" where
  "accepted c created t s =
    (let s = s\<lparr>wait_threads := wait_threads s - 1, threads := (threads s)[t := Serving]\<rparr>;
         s = s\<lparr>busy_threads := busy_threads s + 1\<rparr>
     in if wait_threads s < min_wait_threads c \<and> wait_threads s + busy_threads s < max_threads c \<and> created
        then s\<lparr>threads := threads s @ [Starting], wait_threads := wait_threads s + 1\<rparr>
        else s)"

text \<open>The session is over; \<open>ok\<close> tells that \<open>handle_session\<close> has counted the request.\<close>

definition served :: "srv_conf \<Rightarrow> bool \<Rightarrow> nat \<Rightarrow> pool \<Rightarrow> pool" where
  "served c ok t s =
    (let s = (if ok then s\<lparr>rqst_count := rqst_count s + 1\<rparr> else s);
         s = s\<lparr>wait_threads := wait_threads s + 1\<rparr>;
         s = s\<lparr>busy_threads := busy_threads s - 1\<rparr>
     in loop_head c t s)"

text \<open>The interleavings of the threads of a socket; \<open>B\<close> are the possible results of creating a thread.\<close>

inductive pool_step :: "srv_conf \<Rightarrow> bool set \<Rightarrow> pool \<Rightarrow> pool \<Rightarrow> bool" for c B where
  started: "t < length (threads s) \<Longrightarrow> threads s ! t = Starting \<Longrightarrow> pool_step c B s (loop_head c t s)"
| accept_failed: "t < length (threads s) \<Longrightarrow> threads s ! t = Accepting \<Longrightarrow> pool_step c B s (loop_head c t s)"
| accept_ok: "t < length (threads s) \<Longrightarrow> threads s ! t = Accepting \<Longrightarrow> created \<in> B \<Longrightarrow> pool_step c B s (accepted c created t s)"
| session_end: "t < length (threads s) \<Longrightarrow> threads s ! t = Serving \<Longrightarrow> pool_step c B s (served c ok t s)"

text \<open>\<open>start_threads\<close>: the list gives the results of creating the \<open>max_wait_threads\<close> threads of a socket.\<close>

fun spawn :: "bool list \<Rightarrow> pool \<Rightarrow> pool" where
  "spawn [] s = s"
| "spawn (created # cs) s = spawn cs (if created then s\<lparr>threads := threads s @ [Starting], wait_threads := wait_threads s + 1\<rparr> else s)"

definition start_pool :: "srv_conf \<Rightarrow> bool list \<Rightarrow> srv_exit + pool" where
  "start_pool c cs =
    (let s = spawn (take (nat (max_wait_threads c)) cs) \<lparr>wait_threads = 0, busy_threads = 0, rqst_count = 0, threads = []\<rparr>
     in if wait_threads s = 0 then Inl NoThreads else Inr s)"

fun start_pools :: "srv_conf \<Rightarrow> bool list list \<Rightarrow> srv_exit + pool list" where
  "start_pools c [] = Inr []"
| "start_pools c (cs # css) =
    (case start_pool c cs of Inl e \<Rightarrow> Inl e
     | Inr s \<Rightarrow> (case start_pools c css of Inl e \<Rightarrow> Inl e | Inr ss \<Rightarrow> Inr (s # ss)))"

text \<open>\<open>flusher\<close> is the success of creating the thread that flushes the log.\<close>

definition start_threads :: "srv_conf \<Rightarrow> bool \<Rightarrow> bool list list \<Rightarrow> srv_exit + pool list" where
  "start_threads c flusher css = (if log_access c \<and> \<not> flusher then Inl NoThreads else start_pools c css)"

section \<open>A session\<close>

definition REQUEST_TIMEOUT :: utime where "REQUEST_TIMEOUT = 30 * 1000000"

definition crlf :: string where "crlf = [CHR 0x0D, CHR 0x0A]"

definition http_resp :: "byte list" where
  "http_resp = map (\<lambda>ch. of_char ch) (''HTTP/1.0 200 OK'' @ crlf @ ''Content-type: text/html'' @ crlf @ ''Connection: close'' @ crlf @ crlf @
     ''<H2>It worked!</H2>'' @ [CHR 0x0A])"

text \<open>Whether the request is counted, and the bytes that were sent. The buffer for the request has 512 bytes.\<close>

definition handle_session :: "'m cmap \<Rightarrow> pqid \<Rightarrow> nid option \<Rightarrow> (byte list osres \<times> (('m, 'z) netw_scheme \<Rightarrow> ('m, 'z) netw_scheme option)) list
    \<Rightarrow> (nat osres \<times> (('m, 'z) netw_scheme \<Rightarrow> ('m, 'z) netw_scheme option)) list \<Rightarrow> ('m, 'z) netw_scheme
    \<Rightarrow> (bool \<times> byte list \<times> ('m, 'z) netw_scheme) option" where
  "handle_session ops p cli rd wr w =
    (case st_read ops p cli REQUEST_TIMEOUT rd w of None \<Rightarrow> None
     | Some (Inl e, w) \<Rightarrow> Some (False, [], w)
     | Some (Inr bs, w) \<Rightarrow>
        (if length bs > 512 then None
         else (case st_write ops p cli http_resp ST_UTIME_NO_TIMEOUT wr w of None \<Rightarrow> None
               | Some (Inl e, sent, w) \<Rightarrow> Some (False, sent, w)
               | Some (Inr n, sent, w) \<Rightarrow> Some (n = length http_resp, sent, w))))"

section \<open>The watchdog\<close>

text \<open>The table of the server processes; entries that are not positive belong to no process.\<close>

record wdog =
  vp_pids :: "int list"
  vps :: nat

text \<open>What a process is after \<open>fork\<close>: a server with its index, or the watchdog.\<close>

datatype role = Child nat | Watchdog wdog

text \<open>\<open>start_processes\<close> up to the loop of the watchdog: the list gives the results of \<open>fork\<close>, 0 in the new process.\<close>

fun fork_vps :: "int list \<Rightarrow> nat \<Rightarrow> wdog \<Rightarrow> srv_exit + role" where
  "fork_vps [] i s = Inr (Watchdog s)"
| "fork_vps (pid # pids) i s =
    (if i \<ge> vps s then Inr (Watchdog s)
     else if pid < 0 then (if i = 0 then Inl NoProcess else Inr (Watchdog (s\<lparr>vps := i\<rparr>)))
     else if pid = 0 then Inr (Child i)
     else fork_vps pids (i + 1) (s\<lparr>vp_pids := (vp_pids s)[i := pid]\<rparr>))"

definition start_processes :: "bool \<Rightarrow> nat \<Rightarrow> int list \<Rightarrow> srv_exit + role" where
  "start_processes interactive n forks =
    (if interactive then Inr (Child 0) else fork_vps forks 0 \<lparr>vp_pids = replicate n 0, vps = n\<rparr>)"

text \<open>The index of a process, the number of processes if it has none.\<close>

definition vp_index :: "int \<Rightarrow> wdog \<Rightarrow> nat" where
  "vp_index pid s = length (takeWhile (\<lambda>x. x \<noteq> pid) (take (vps s) (vp_pids s)))"

text \<open>One round of the watchdog: child \<open>pid\<close> has died and \<open>fork\<close> returns \<open>f\<close>. A write behind the table yields \<open>None\<close>.\<close>

definition watchdog_round :: "int \<Rightarrow> int \<Rightarrow> wdog \<Rightarrow> role option" where
  "watchdog_round pid f s =
    (let i = vp_index pid s
     in if f = 0 then Some (Child i)
        else if i < length (vp_pids s) then Some (Watchdog (s\<lparr>vp_pids := (vp_pids s)[i := f]\<rparr>)) else None)"

text \<open>The processes that \<open>wdog_sighandler\<close> forwards a signal to, in order.\<close>

definition wdog_sighandler :: "wdog \<Rightarrow> int list" where
  "wdog_sighandler s = filter (\<lambda>pid. pid > 0) (take (vps s) (vp_pids s))"

text \<open>The watchdog and the processes that are alive: one of them dies, and \<open>fork\<close> fails or creates a process with an unused number.\<close>

inductive wd_step :: "wdog \<times> int set \<Rightarrow> role option \<times> int set \<Rightarrow> bool" where
  replaced: "pid \<in> live \<Longrightarrow> f > 0 \<Longrightarrow> f \<notin> live - {pid} \<Longrightarrow> wd_step (s, live) (watchdog_round pid f s, insert f (live - {pid}))"
| not_replaced: "pid \<in> live \<Longrightarrow> f < 0 \<Longrightarrow> wd_step (s, live) (watchdog_round pid f s, live - {pid})"

inductive watching :: "wdog \<times> int set \<Rightarrow> role option \<times> int set \<Rightarrow> bool" where
  none_died: "watching (s, live) (Some (Watchdog s), live)"
| one_died: "watching x (Some (Watchdog s), live) \<Longrightarrow> wd_step (s, live) y \<Longrightarrow> watching x y"

section \<open>Limits\<close>

lemma per_process_bounds:
  assumes "0 \<le> n" and "1 \<le> k"
  shows "0 \<le> per_process n k" "n \<le> per_process n k * k" "per_process n k * k < n + k" "1 \<le> n \<Longrightarrow> 1 \<le> per_process n k"
proof -
  define q r where "q = n div k" and "r = n mod k"
  have m: "n = q * k + r" "0 \<le> r" "r < k" "0 \<le> q" using assms by (auto simp: q_def r_def pos_imp_zdiv_nonneg_iff)
  have p: "per_process n k = (if r \<noteq> 0 then q + 1 else q)" by (simp add: per_process_def q_def r_def)
  show "0 \<le> per_process n k" using m(4) by (simp add: p)
  show le: "n \<le> per_process n k * k" and "per_process n k * k < n + k"
    using m(1-3) assms(2) unfolding p by (auto simp: algebra_simps)
  show "1 \<le> per_process n k" if "1 \<le> n"
    using le that assms(2) \<open>0 \<le> per_process n k\<close> by (cases "per_process n k = 0") auto
qed

lemma per_process_mono:
  assumes "0 \<le> a" and "a \<le> b" and "1 \<le> k"
  shows "per_process a k \<le> per_process b k"
proof (rule ccontr)
  assume "\<not> ?thesis"
  then have "per_process b k + 1 \<le> per_process a k" by simp
  then have "(per_process b k + 1) * k \<le> per_process a k * k" using assms(3) by (intro mult_right_mono) auto
  then show False
    using per_process_bounds(2) [of b k] per_process_bounds(3) [of a k] assms by (simp add: algebra_simps)
qed

text \<open>What the options leave for the limits.\<close>

definition conf_ok :: "srv_conf \<Rightarrow> bool" where
  "conf_ok c \<longleftrightarrow> 1 \<le> vp_count c \<and> 0 \<le> max_wait_threads c \<and> 0 \<le> max_threads c \<and> 0 \<le> min_wait_threads c \<and> c_addrs c \<noteq> [] \<and>
     length (c_addrs c) \<le> MAX_BIND_ADDRS"

definition opts_ok :: "int \<Rightarrow> srv_conf \<Rightarrow> bool" where
  "opts_ok m c \<longleftrightarrow> 0 \<le> vp_count c \<and> 0 \<le> max_wait_threads c \<and> 0 \<le> max_threads c \<and> length (c_addrs c) \<le> MAX_BIND_ADDRS \<and> min_wait_threads c = m"

lemma read_option_keeps: "read_option dup opt optarg c = Inr c' \<Longrightarrow> opts_ok m c \<Longrightarrow> opts_ok m c'"
  by (cases "strtol optarg") (auto simp: read_option_def opts_ok_def Let_def split: if_splits)

lemma read_options_keeps: "read_options dup args c = Inr c' \<Longrightarrow> opts_ok m c \<Longrightarrow> opts_ok m c'"
  by (induction dup args c rule: read_options.induct) (auto split: sum.splits dest: read_option_keeps)

lemma parse_arguments_ok: "parse_arguments dup args cpus = Inr c \<Longrightarrow> conf_ok c"
proof -
  assume p: "parse_arguments dup args cpus = Inr c"
  obtain c' where r: "read_options dup args default_conf = Inr c'" using p by (auto simp: parse_arguments_def split: sum.splits)
  have "opts_ok 2 c'" by (rule read_options_keeps [OF r]) (simp add: opts_ok_def default_conf_def)
  then show ?thesis using p r by (auto simp: parse_arguments_def Let_def conf_ok_def opts_ok_def MAX_BIND_ADDRS_def split: if_splits)
qed

definition limits_ok :: "srv_conf \<Rightarrow> bool" where
  "limits_ok c \<longleftrightarrow> 0 \<le> min_wait_threads c \<and> min_wait_threads c \<le> max_wait_threads c \<and> 1 \<le> max_wait_threads c \<and>
     max_wait_threads c \<le> max_threads c"

lemma throttling_ok:
  assumes c: "conf_ok c" and fd: "fdlimit \<ge> 32"
  shows "limits_ok (set_thread_throttling fdlimit c)"
proof -
  define vp where "vp = vp_count c"
  define mw where "mw = (if max_wait_threads c = 0 then MAX_WAIT_THREADS_DEFAULT * vp else max_wait_threads c)"
  define mt where "mt = (if max_threads c = 0 then (fdlimit * vp) div FD_PER_THREAD div int (length (c_addrs c)) else max_threads c)"
  have vp: "1 \<le> vp" using c by (simp add: conf_ok_def vp_def)
  have mw: "1 \<le> mw" using c vp by (auto simp: mw_def conf_ok_def MAX_WAIT_THREADS_DEFAULT_def)
  have mt: "1 \<le> mt"
  proof (cases "max_threads c = 0")
    case True
    have "32 * 1 \<le> fdlimit * vp" using fd vp by (intro mult_mono) auto
    then have "16 \<le> (fdlimit * vp) div FD_PER_THREAD" by (simp add: FD_PER_THREAD_def)
    moreover have "0 < int (length (c_addrs c))" "int (length (c_addrs c)) \<le> 16" using c by (auto simp: conf_ok_def MAX_BIND_ADDRS_def)
    ultimately show ?thesis
      using zdiv_mono1 [of "int (length (c_addrs c))" "(fdlimit * vp) div FD_PER_THREAD" "int (length (c_addrs c))"] True by (simp add: mt_def)
  qed (use c in \<open>auto simp: mt_def conf_ok_def\<close>)
  let ?mw = "if mw > mt then mt else mw"
  have "1 \<le> ?mw" "?mw \<le> mt" using mw mt by auto
  then have b: "1 \<le> per_process ?mw vp" "per_process ?mw vp \<le> per_process mt vp"
    using per_process_bounds(4) [of ?mw vp] per_process_mono [of ?mw mt vp] vp by auto
  have e: "set_thread_throttling fdlimit c = c\<lparr>max_wait_threads := per_process ?mw vp, max_threads := per_process mt vp,
      min_wait_threads := (if min_wait_threads c > per_process ?mw vp then per_process ?mw vp else min_wait_threads c)\<rparr>"
    by (simp add: set_thread_throttling_def Let_def mw_def mt_def vp_def)
  show ?thesis unfolding e limits_ok_def using b c by (auto simp: conf_ok_def)
qed


lemma throttling_totals:
  assumes c: "conf_ok c" and fd: "fdlimit \<ge> 32"
  defines "c' \<equiv> set_thread_throttling fdlimit c"
  shows "max_threads c > 0 \<Longrightarrow> max_threads c \<le> vp_count c * max_threads c' \<and> vp_count c * max_threads c' < max_threads c + vp_count c"
    and "max_threads c = 0 \<Longrightarrow> FD_PER_THREAD * int (length (c_addrs c)) * (max_threads c' - 1) < fdlimit"
proof -
  have vp: "1 \<le> vp_count c" using c by (simp add: conf_ok_def)
  show "max_threads c \<le> vp_count c * max_threads c' \<and> vp_count c * max_threads c' < max_threads c + vp_count c" if "max_threads c > 0"
    using that per_process_bounds(2,3) [of "max_threads c" "vp_count c"] vp by (simp add: c'_def set_thread_throttling_def Let_def mult.commute)
  show "FD_PER_THREAD * int (length (c_addrs c)) * (max_threads c' - 1) < fdlimit" if "max_threads c = 0"
  proof -
    define n mt p where "n = int (length (c_addrs c))" and "mt = (fdlimit * vp_count c) div FD_PER_THREAD div n" and "p = per_process mt (vp_count c)"
    have n: "1 \<le> n" using c by (cases "c_addrs c") (auto simp: conf_ok_def n_def)
    have p: "max_threads c' = p" using that by (simp add: c'_def set_thread_throttling_def Let_def p_def mt_def n_def)
    have e: "mt = (fdlimit * vp_count c) div (2 * n)" using n by (simp add: mt_def FD_PER_THREAD_def zdiv_zmult2_eq)
    have pos: "0 \<le> fdlimit * vp_count c" using fd vp by (intro mult_nonneg_nonneg) auto
    then have mt: "0 \<le> mt" "mt * (2 * n) \<le> fdlimit * vp_count c" 
      using n unfolding e by (simp_all add: pos_imp_zdiv_nonneg_iff) (metis mult.commute div_mult_mod_eq le_add_same_cancel1 pos_mod_sign n mult_pos_pos zero_less_numeral zero_less_one order_less_le_trans)
    have "(p - 1) * vp_count c < mt" using per_process_bounds(3) [OF mt(1) vp] by (simp add: p_def algebra_simps)
    then have "(p - 1) * vp_count c * (2 * n) < mt * (2 * n)" using n by (intro mult_strict_right_mono) auto
    then have "(2 * n * (p - 1)) * vp_count c < fdlimit * vp_count c" using mt(2) by (simp add: mult_ac)
    then show ?thesis using vp by (simp add: p FD_PER_THREAD_def n_def)
  qed
qed

text \<open>
  Whatever options the server accepts, and with a limit of at least 32 descriptors (and a total that is an \<open>int\<close>), the limits that
  \<open>set_thread_throttling\<close> gives to one process fit together: at least one thread waits on a socket, the threshold for creating a spare thread
  is not above the number of waiting threads, and that is not above the number of all threads. A limit from the options is divided among the
  processes so that they have together at least that many threads and fewer than one more for each process; a limit from the number of
  descriptors leaves \<open>FD_PER_THREAD\<close> descriptors for all but one of the threads of every socket.
\<close>

theorem thread_limits:
  assumes "parse_arguments dup args cpus = Inr c" and "fdlimit \<ge> 32" and "fdlimit * vp_count c < 2 ^ 31"
    and "c' = set_thread_throttling fdlimit c"
  shows "limits_ok c' \<and>
    (if max_threads c > 0 then max_threads c \<le> vp_count c * max_threads c' \<and> vp_count c * max_threads c' < max_threads c + vp_count c
     else FD_PER_THREAD * int (length (c_addrs c)) * (max_threads c' - 1) < fdlimit)"
proof -
  note c = parse_arguments_ok [OF assms(1)]
  have "max_threads c = 0" if "\<not> max_threads c > 0" using that c by (simp add: conf_ok_def)
  then show ?thesis using throttling_ok [OF c assms(2)] throttling_totals [OF c assms(2)] unfolding assms(4) by auto
qed

definition demo_conf :: srv_conf where
  "demo_conf = default_conf\<lparr>c_addrs := [''0.0.0.0''], vp_count := 3, max_wait_threads := 4, max_threads := 10, interactive_mode := True\<rparr>"

lemma demo_parse: "parse_arguments (\<lambda>_. True) [(CHR ''i'', []), (CHR ''t'', ''4:10'')] 3 = Inr demo_conf"
  by code_simp

lemma demo_limits: "set_thread_throttling 64 demo_conf = demo_conf\<lparr>max_wait_threads := 2, max_threads := 4, min_wait_threads := 2\<rparr>"
  by code_simp

theorem thread_limits_witness:
  "limits_ok (demo_conf\<lparr>max_wait_threads := 2, max_threads := 4, min_wait_threads := 2\<rparr>) \<and> (10 :: int) \<le> 3 * 4 \<and> 3 * 4 < (10 + 3 :: int)"
  using thread_limits [OF demo_parse, of 64, OF _ _ demo_limits [symmetric]] by (simp add: demo_conf_def)

section \<open>The pool\<close>

lemma count_update:
  "t < length xs \<Longrightarrow> int (length (filter P (xs[t := x]))) =
     int (length (filter P xs)) + (if P x then 1 else 0) - (if P (xs ! t) then 1 else 0)"
proof (induction xs arbitrary: t)
  case (Cons y xs)
  show ?case
  proof (cases t)
    case (Suc k)
    then show ?thesis using Cons.IH [of k] Cons.prems by (auto split: if_splits)
  qed simp
qed simp

lemma count_pos: "t < length xs \<Longrightarrow> P (xs ! t) \<Longrightarrow> 1 \<le> int (length (filter P xs))"
  by (auto simp: Suc_le_eq filter_empty_conv intro: nth_mem)

abbreviation threads_in :: "phase set \<Rightarrow> pool \<Rightarrow> int" where
  "threads_in S s \<equiv> int (length (filter (\<lambda>x. x \<in> S) (threads s)))"

definition pool_inv :: "srv_conf \<Rightarrow> pool \<Rightarrow> bool" where
  "pool_inv c s \<longleftrightarrow> wait_threads s = threads_in {Starting, Accepting} s \<and> busy_threads s = threads_in {Serving} s \<and>
     wait_threads s \<le> max_wait_threads c \<and> wait_threads s + busy_threads s \<le> max_threads c \<and> 1 \<le> wait_threads s + busy_threads s"

definition pool_spare :: "srv_conf \<Rightarrow> pool \<Rightarrow> bool" where
  "pool_spare c s \<longleftrightarrow> min_wait_threads c \<le> wait_threads s \<or> max_threads c \<le> wait_threads s + busy_threads s"

lemma pool_step_inv:
  assumes "pool_step c B s s'" and "limits_ok c" and "pool_inv c s"
  shows "pool_inv c s'"
  using assms
proof cases
  case (accept_ok t created)
  then show ?thesis using assms(2,3) by (auto simp: pool_inv_def accepted_def Let_def limits_ok_def count_update)
next
  case (session_end t ok)
  then have "1 \<le> threads_in {Serving} s" by (intro count_pos [of t]) auto
  then show ?thesis
    using session_end assms(2,3) by (auto simp: pool_inv_def loop_head_def served_def Let_def limits_ok_def count_update)
qed (use assms(2,3) in \<open>auto simp: pool_inv_def loop_head_def served_def Let_def limits_ok_def count_update\<close>)

lemma pool_step_spare:
  assumes "pool_step c {True} s s'" and "limits_ok c" and "pool_inv c s" and "pool_spare c s"
  shows "pool_spare c s'"
  using assms
proof cases
  case (accept_ok t created)
  then show ?thesis using assms(2-4) by (auto simp: pool_spare_def pool_inv_def accepted_def Let_def limits_ok_def)
qed (use assms(2-4) in \<open>auto simp: pool_spare_def pool_inv_def loop_head_def served_def Let_def limits_ok_def\<close>)

lemma spawn_counts:
  "wait_threads (spawn cs s) = wait_threads s + int (length (filter id cs)) \<and> busy_threads (spawn cs s) = busy_threads s \<and>
   rqst_count (spawn cs s) = rqst_count s \<and> threads (spawn cs s) = threads s @ replicate (length (filter id cs)) Starting"
  by (induction cs arbitrary: s) (simp_all add: replicate_append_same)

lemma start_pool_inv:
  assumes "start_pool c cs = Inr s" and "limits_ok c"
  shows "pool_inv c s"
proof -
  let ?cs = "take (nat (max_wait_threads c)) cs"
  have "length (filter id ?cs) \<le> length ?cs" by (rule length_filter_le)
  also have "\<dots> \<le> nat (max_wait_threads c)" by simp
  finally have le: "int (length (filter id ?cs)) \<le> max_wait_threads c" using assms(2) by (simp add: limits_ok_def le_nat_iff)
  then show ?thesis
    using assms by (auto simp: start_pool_def Let_def pool_inv_def limits_ok_def spawn_counts Suc_le_eq split: if_splits)
qed

lemma start_pool_full:
  assumes "limits_ok c" and "length cs \<ge> nat (max_wait_threads c)" and "list_all id cs"
  shows "\<exists>s. start_pool c cs = Inr s \<and> wait_threads s = max_wait_threads c"
proof -
  let ?cs = "take (nat (max_wait_threads c)) cs"
  have "filter id ?cs = ?cs" using assms(3) by (auto simp: filter_id_conv list_all_iff dest: in_set_takeD)
  then have "int (length (filter id ?cs)) = max_wait_threads c" using assms(1,2) by (simp add: limits_ok_def)
  then show ?thesis using assms(1) by (auto simp: start_pool_def Let_def spawn_counts limits_ok_def)
qed


lemma pool_reach_inv: "(pool_step c B)\<^sup>*\<^sup>* s0 s \<Longrightarrow> limits_ok c \<Longrightarrow> pool_inv c s0 \<Longrightarrow> pool_inv c s"
  by (induction rule: rtranclp_induct) (auto intro: pool_step_inv)

lemma pool_reach_spare:
  "(pool_step c {True})\<^sup>*\<^sup>* s0 s \<Longrightarrow> limits_ok c \<Longrightarrow> pool_inv c s0 \<Longrightarrow> pool_spare c s0 \<Longrightarrow> pool_spare c s"
  by (induction rule: rtranclp_induct) (auto intro: pool_step_spare pool_reach_inv)

text \<open>
  The bounds of a pool, with the limits from the accepted options, for every interleaving of its threads and every outcome of accepting
  connections, creating threads and serving clients.
\<close>

theorem pool_bounds:
  assumes "parse_arguments dup args cpus = Inr c0" and "fdlimit \<ge> 32" and c: "c = set_thread_throttling fdlimit c0"
    and "start_pool c cs = Inr s0" and "(pool_step c B)\<^sup>*\<^sup>* s0 s"
  shows "wait_threads s = threads_in {Starting, Accepting} s \<and> busy_threads s = threads_in {Serving} s \<and>
    wait_threads s \<le> max_wait_threads c \<and> wait_threads s + busy_threads s \<le> max_threads c \<and> 1 \<le> wait_threads s + busy_threads s"
proof -
  have l: "limits_ok c" unfolding c by (rule throttling_ok [OF parse_arguments_ok [OF assms(1)] assms(2)])
  show ?thesis using pool_reach_inv [OF assms(5) l start_pool_inv [OF assms(4) l]] unfolding pool_inv_def .
qed

text \<open>If every thread can be created, a client finds a spare thread: fewer than \<open>min_wait_threads\<close> threads wait only when the pool is at its limit.\<close>

theorem pool_keeps_spares:
  assumes "limits_ok c" and "length cs \<ge> nat (max_wait_threads c)" and "list_all id cs"
  shows "\<exists>s0. start_pool c cs = Inr s0 \<and>
    (\<forall>s. (pool_step c {True})\<^sup>*\<^sup>* s0 s \<longrightarrow> min_wait_threads c \<le> wait_threads s \<or> wait_threads s + busy_threads s = max_threads c)"
proof -
  obtain s0 where s0: "start_pool c cs = Inr s0" "wait_threads s0 = max_wait_threads c" using start_pool_full [OF assms] by blast
  have i: "pool_inv c s0" by (rule start_pool_inv [OF s0(1) assms(1)])
  have sp: "pool_spare c s0" using assms(1) s0(2) by (simp add: pool_spare_def limits_ok_def)
  have "min_wait_threads c \<le> wait_threads s \<or> wait_threads s + busy_threads s = max_threads c" if "(pool_step c {True})\<^sup>*\<^sup>* s0 s" for s
    using pool_reach_spare [OF that assms(1) i sp] pool_reach_inv [OF that assms(1) i] by (auto simp: pool_spare_def pool_inv_def)
  then show ?thesis using s0(1) by blast
qed

section \<open>The watchdog's table\<close>

lemma fork_vps_table:
  assumes "fork_vps forks i s = Inr (Watchdog s')" and "length (vp_pids s) = vps s" and "i \<le> vps s"
    and "\<forall>x \<in> set (drop i (vp_pids s)). x = 0"
  shows "wdog_sighandler s' = filter (\<lambda>x. x > 0) (take i (vp_pids s)) @ takeWhile (\<lambda>x. x > 0) (take (vps s - i) forks) \<and>
    vps s' \<le> length (vp_pids s')"
  using assms
proof (induction forks i s rule: fork_vps.induct)
  case (1 i s)
  have "filter (\<lambda>x. x > 0) (vp_pids s) = filter (\<lambda>x. x > 0) (take i (vp_pids s) @ drop i (vp_pids s))" by simp
  also have "\<dots> = filter (\<lambda>x. x > 0) (take i (vp_pids s))" using 1 by (auto simp: filter_empty_conv simp del: append_take_drop_id)
  finally show ?case using 1 by (simp add: wdog_sighandler_def)
next
  case (2 pid pids i s)
  consider "i \<ge> vps s" | "i < vps s" "pid < 0" | "i < vps s" "pid > 0" | "i < vps s" "pid = 0" by linarith
  then show ?case
  proof cases
    case 3
    let ?s = "s\<lparr>vp_pids := (vp_pids s)[i := pid]\<rparr>"
    have "wdog_sighandler s' = filter (\<lambda>x. x > 0) (take (i + 1) (vp_pids ?s)) @ takeWhile (\<lambda>x. x > 0) (take (vps ?s - (i + 1)) pids) \<and>
      vps s' \<le> length (vp_pids s')"
    proof (rule 2(1))
      show "fork_vps pids (i + 1) ?s = Inr (Watchdog s')" using 2(2) 3 by simp
      show "\<forall>x \<in> set (drop (i + 1) (vp_pids ?s)). x = 0" using 2(5) set_drop_subset_set_drop [of i "i + 1" "vp_pids s"] by auto
    qed (use 2(3,4) 3 in auto)
    moreover have "take (i + 1) ((vp_pids s)[i := pid]) = take i (vp_pids s) @ [pid]" using 3 2(3) by (simp add: take_Suc_conv_app_nth)
    moreover have "take (vps s - i) (pid # pids) = pid # take (vps s - (i + 1)) pids" using 3 by (simp add: take_Cons')
    ultimately show ?thesis using 3 by simp
  qed (use 2 in \<open>auto simp: wdog_sighandler_def take_Cons' split: if_splits\<close>)
qed

definition wd_inv :: "wdog \<Rightarrow> int set \<Rightarrow> bool" where
  "wd_inv s live \<longleftrightarrow> distinct (wdog_sighandler s) \<and> set (wdog_sighandler s) = live \<and> vps s \<le> length (vp_pids s)"

lemma watchdog_round_table:
  assumes "pid > 0" and "pid \<in> set (take (vps s) (vp_pids s))" and "f \<noteq> 0"
  obtains as bs s' where "take (vps s) (vp_pids s) = as @ pid # bs" "watchdog_round pid f s = Some (Watchdog s')" "vps s' = vps s"
    "length (vp_pids s') = length (vp_pids s)" "take (vps s) (vp_pids s') = as @ f # bs"
proof -
  let ?xs = "take (vps s) (vp_pids s)"
  obtain as bs where x: "?xs = as @ pid # bs" "pid \<notin> set as" using split_list_first [OF assms(2)] by blast
  have i: "vp_index pid s = length as"
  proof -
    have "takeWhile (\<lambda>x. x \<noteq> pid) (as @ pid # bs) = as" using x(2) by (induction as) auto
    then show ?thesis by (simp add: vp_index_def x(1))
  qed
  have len: "length as < length (vp_pids s)" "length as < vps s" using arg_cong [OF x(1), of length] by auto
  show ?thesis
  proof (rule that [OF x(1)])
    show "watchdog_round pid f s = Some (Watchdog (s\<lparr>vp_pids := (vp_pids s)[length as := f]\<rparr>))" using len assms(3) by (simp add: watchdog_round_def i)
    show "take (vps s) (vp_pids (s\<lparr>vp_pids := (vp_pids s)[length as := f]\<rparr>)) = as @ f # bs"
      using x(1) len by (simp add: take_update_swap)
  qed simp_all
qed


lemma wd_step_inv:
  assumes "wd_step (s, live) y" and "wd_inv s live"
  shows "\<exists>s' live'. y = (Some (Watchdog s'), live') \<and> wd_inv s' live' \<and> card live' \<le> card live"
proof -
  have fin: "finite live" using assms(2) by (auto simp: wd_inv_def)
  have round: "\<exists>s'. watchdog_round pid f s = Some (Watchdog s') \<and> wd_inv s' ((if f > 0 then {f} else {}) \<union> (live - {pid}))"
    if p: "pid \<in> live" "f \<notin> live - {pid}" "f \<noteq> 0" for pid f
  proof -
    have o: "pid > 0" "pid \<in> set (take (vps s) (vp_pids s))" using p(1) assms(2) by (auto simp: wd_inv_def wdog_sighandler_def)
    obtain as bs s' where t: "take (vps s) (vp_pids s) = as @ pid # bs" "watchdog_round pid f s = Some (Watchdog s')" "vps s' = vps s"
      "length (vp_pids s') = length (vp_pids s)" "take (vps s) (vp_pids s') = as @ f # bs"
      using watchdog_round_table [OF o p(3)] by blast
    have "wd_inv s' ((if f > 0 then {f} else {}) \<union> (live - {pid}))" using assms(2) p(2) t o(1) by (auto simp: wd_inv_def wdog_sighandler_def)
    then show ?thesis using t(2) by blast
  qed
  show ?thesis
    using assms(1)
  proof cases
    case (replaced pid f)
    moreover have "card (insert f (live - {pid})) \<le> card live"
      using fin replaced(2) card_Suc_Diff1 [of live pid] by (simp add: card_insert_if)
    ultimately show ?thesis using round [of pid f] by auto
  next
    case (not_replaced pid f)
    moreover have "f \<notin> live" using not_replaced assms(2) by (auto simp: wd_inv_def wdog_sighandler_def)
    ultimately show ?thesis using round [of pid f] fin by (auto simp: card_Diff1_le)
  qed
qed

lemma watching_inv:
  "watching x y \<Longrightarrow> x = (s0, live0) \<Longrightarrow> wd_inv s0 live0 \<Longrightarrow>
    \<exists>s live. y = (Some (Watchdog s), live) \<and> wd_inv s live \<and> card live \<le> card live0"
proof (induction rule: watching.induct)
  case (one_died x s live y)
  then show ?case using wd_step_inv [of s live y] by fastforce
qed auto

lemma start_processes_inv:
  assumes "start_processes False n forks = Inr (Watchdog s0)" and "distinct forks"
  shows "wd_inv s0 (set (takeWhile (\<lambda>pid. pid > 0) (take n forks)))"
proof -
  have "wdog_sighandler s0 = takeWhile (\<lambda>pid. pid > 0) (take n forks) \<and> vps s0 \<le> length (vp_pids s0)"
    using fork_vps_table [of forks 0 "\<lparr>vp_pids = replicate n 0, vps = n\<rparr>" s0] assms(1) by (simp add: start_processes_def)
  then show ?thesis using assms(2) by (simp add: wd_inv_def distinct_takeWhile)
qed




section \<open>Sessions\<close>

lemma handle_session_ok:
  assumes w: "caller_ready ops p me w" and rd: "\<forall>x \<in> set rd. others_ok ops p me (snd x)" and wr: "\<forall>x \<in> set wr. others_ok ops p me (snd x)"
    and d: "decisive rd \<noteq> None" "\<And>bs. decisive rd = Some (OsOk bs) \<Longrightarrow> length bs \<le> 512" and a: "accepts wr (length http_resp)"
  shows "\<exists>ok sent w'. handle_session ops p (Some i) rd wr w = Some (ok, sent, w') \<and> caller_ready ops p me w' \<and>
    (\<exists>k. sent = take k http_resp) \<and> (ok \<longrightarrow> sent = http_resp)"
proof -
  obtain r w1 where r: "st_read ops p (Some i) REQUEST_TIMEOUT rd w = Some (r, w1)" "caller_ready ops p me w1"
    using np.retry_ok [OF w rd, of "Some i" POLLIN REQUEST_TIMEOUT] d(1) unfolding decisive_None by (auto simp: st_read_def)
  show ?thesis
  proof (cases r)
    case (Inl e)
    then show ?thesis using r by (auto simp: handle_session_def intro: exI [of _ 0])
  next
    case (Inr bs)
    have bs: "length bs \<le> 512" using d(2) io_retry_decides [of _ rd w bs w1] r(1) Inr by (simp add: st_read_def)
    obtain r2 out w2 where s: "st_write ops p (Some i) http_resp ST_UTIME_NO_TIMEOUT wr w1 = Some (r2, out, w2)" "caller_ready ops p me w2"
        "case r2 of Inr n \<Rightarrow> n = length http_resp \<and> out = http_resp | Inl e \<Rightarrow> \<exists>k. out = take k http_resp"
      using np.write_ok [OF r(2) wr a, of "Some i" POLLOUT ST_UTIME_NO_TIMEOUT "length http_resp" "[]", unfolded append_Nil]
      by (auto simp: st_write_def)
    show ?thesis
      using r Inr bs s by (cases r2) (auto simp: handle_session_def intro: exI [of _ "length http_resp"])
  qed
qed


end
