(* ===== verification/Server_Main.thy ===== *)
theory Server_Main
  imports Server Process
begin

text \<open>
  examples/server.c: the start of the server in \<open>main\<close>, the signals of a server process and of the watchdog, and the report about the state of
  a server. The signal numbers are those of Linux. What a signal does to log files, configuration and the process is a list of actions.
\<close>

section \<open>Start\<close>

text \<open>What \<open>main\<close> meets: the results of the system calls, in the order of the calls.\<close>

record boot =
  b_dup :: "string \<Rightarrow> bool"
  b_cpus :: int
  b_calloc :: bool
  b_daemon :: forks
  b_chdir :: bool
  b_init :: bool
  b_fdlimit :: int
  b_resolves :: "string \<Rightarrow> bool"
  b_listen :: "lscript list"
  b_getpw :: "string \<Rightarrow> (int \<times> int) option"
  b_pid_open :: bool
  b_pid_write :: bool
  b_err_open :: bool
  b_forks :: "int list"
  b_pid :: int
  b_pipe :: "(int \<times> int) option"
  b_nfd0 :: "nid option"
  b_nfd1 :: "nid option"
  b_flusher :: bool
  b_created :: "bool list list"

datatype boot_exit = BadArgs srv_exit | NoMemory | NoInit | NoListener srv_exit | NoServer srv_exit | Ended int | Overrun

text \<open>A server process has its index, limits, sockets, pools and signal pipe; the watchdog has its table. What was written to the pid file is not kept.\<close>

datatype server = Watching wdog | Running nat srv_conf "listener list" "pool list" "nid \<times> nid"

definition andthen :: "'e + 'a \<Rightarrow> ('a \<Rightarrow> 'e + 'b) \<Rightarrow> 'e + 'b" where
  "andthen r f = (case r of Inl e \<Rightarrow> Inl e | Inr a \<Rightarrow> f a)"

definition of_outcome :: "'a outcome \<Rightarrow> boot_exit + 'a" where
  "of_outcome r = (case r of Quits n \<Rightarrow> Inl (Ended n) | Crashes \<Rightarrow> Inl Overrun | Goes a \<Rightarrow> Inr a)"

lemma andthen_Inr: "andthen r f = Inr y \<longleftrightarrow> (\<exists>a. r = Inr a \<and> f a = Inr y)"
  by (auto simp: andthen_def split: sum.splits)

lemma of_outcome_Inr: "of_outcome r = Inr a \<longleftrightarrow> r = Goes a"
  by (auto simp: of_outcome_def split: outcome.splits)

lemma if_Inl: "(if q then Inl e else y) = Inr r \<longleftrightarrow> \<not> q \<and> y = Inr r"
  by simp

lemma map_sum_Inr: "map_sum f id r = Inr a \<longleftrightarrow> r = Inr a"
  by (cases r) auto

text \<open>\<open>main\<close> in a server process, behind \<open>start_processes\<close>. Turning on time caching and loading the configuration, which does nothing, are left out.\<close>

definition server_child :: "nat \<Rightarrow> srv_conf \<Rightarrow> listener list \<Rightarrow> boot \<Rightarrow> ('m, 'z) netw_scheme \<Rightarrow> proc
    \<Rightarrow> boot_exit + server \<times> ('m, 'z) netw_scheme \<times> proc" where
  "server_child i c ls b w p =
    andthen (of_outcome (install_sighandlers (b_pipe b) (b_nfd0 b) (b_nfd1 b) w p)) (\<lambda>(ns, w, p).
    andthen (map_sum NoServer id (start_threads c (b_flusher b) (b_created b))) (\<lambda>ps.
    Inr (Running i c ls ps ns, w, p)))"

definition server_main :: "(char \<times> string) list \<Rightarrow> boot \<Rightarrow> ('m, 'z) netw_scheme \<Rightarrow> proc \<Rightarrow> boot_exit + server \<times> ('m, 'z) netw_scheme \<times> proc" where
  "server_main args b w p =
    andthen (map_sum BadArgs id (parse_arguments (b_dup b) args (b_cpus b))) (\<lambda>c.
    if \<not> b_calloc b then Inl NoMemory
    else andthen (if interactive_mode c then Inr p else of_outcome (start_daemon (b_daemon b) (b_chdir b) (logdir c) p)) (\<lambda>p.
    if \<not> b_init b then Inl NoInit
    else (let c = set_thread_throttling (b_fdlimit b) c
      in andthen (map_sum NoListener id (create_listeners (b_resolves b) (serialize_accept c) (zip (c_addrs c) (b_listen b)) w)) (\<lambda>(ls, w).
      andthen (case username c of None \<Rightarrow> Inr p | Some u \<Rightarrow> of_outcome (change_user (b_getpw b) u p)) (\<lambda>p.
      andthen (of_outcome (open_log_files (interactive_mode c) (b_pid_open b) (b_pid_write b) (b_err_open b) p)) (\<lambda>pidfile.
      andthen (map_sum NoServer id (start_processes (interactive_mode c) (nat (vp_count c)) (b_forks b))) (\<lambda>r.
      case r of
        Watchdog s \<Rightarrow> Inr (Watching s, w, handle_signals WdogHandler p)
      | Child i \<Rightarrow> server_child i c ls b w (if interactive_mode c then p else fork_child (b_pid b) p))))))))"

text \<open>A process that the watchdog forks in place of one that has died: signals are blocked at that time.\<close>

definition replacement :: "int \<Rightarrow> proc \<Rightarrow> proc" where
  "replacement pid p = fork_child pid (p\<lparr>p_blocked := p_blocked p \<union> {SIGTERM, SIGHUP, SIGUSR1}\<rparr>)"

section \<open>Signals\<close>

datatype srv_act = Reload | LogFlush | LogClose | LogOpen | ErrReopen | DumpInfo | UnlinkPid | Terminate | QuitError | Forward int int

text \<open>The watchdog: what it does, and whether it goes on; \<open>ok\<close> is the success of opening the error log again.\<close>

definition wdog_on_signal :: "srv_conf \<Rightarrow> wdog \<Rightarrow> bool \<Rightarrow> int \<Rightarrow> srv_act list \<times> bool" where
  "wdog_on_signal c s ok signo =
    (let fw = map (\<lambda>pid. Forward pid signo) (wdog_sighandler s)
     in if signo = SIGHUP
        then (let as = fw @ (if log_access c then [LogClose, LogOpen] else []) @ [ErrReopen] in if ok then (as, True) else (as @ [QuitError], False))
        else if signo = SIGTERM then (fw @ [UnlinkPid, Terminate], False)
        else (fw, True))"

text \<open>A server process: the handler puts the number into the pipe, the signal thread takes it out.\<close>

definition child_sighandler :: "int \<Rightarrow> byte list \<Rightarrow> byte list" where
  "child_sighandler signo pipe = pipe @ le_bytes 4 (word_of_int signo :: 32 word)"

definition on_signal :: "srv_conf \<Rightarrow> bool \<Rightarrow> int \<Rightarrow> srv_act list \<times> bool" where
  "on_signal c ok signo =
    (if signo = SIGHUP
     then (if interactive_mode c then ([Reload], True)
           else (let as = (if log_access c then [LogFlush, LogClose, LogOpen] else []) @ [ErrReopen]
                 in if ok then (as @ [Reload], True) else (as @ [QuitError], False)))
     else if signo = SIGTERM then ((if log_access c then [LogFlush] else []) @ [Terminate], False)
     else if signo = SIGUSR1 then ([DumpInfo], True)
     else ([], True))"

text \<open>The loop of the signal thread: each turn has the attempts of its read and the result of opening the log; the flag tells whether it still runs.\<close>

fun process_signals :: "'m cmap \<Rightarrow> pqid \<Rightarrow> nid \<Rightarrow> srv_conf \<Rightarrow> ((byte list osres \<times> ('m, 'z) net_others) list \<times> bool) list \<Rightarrow> ('m, 'z) netw_scheme
    \<Rightarrow> (srv_act list \<times> bool \<times> ('m, 'z) netw_scheme) option" where
  "process_signals ops p nf c [] w = Some ([], True, w)"
| "process_signals ops p nf c ((ins, ok) # turns) w =
    (case st_read ops p (Some nf) ST_UTIME_NO_TIMEOUT ins w of None \<Rightarrow> None
     | Some (Inl e, w) \<Rightarrow> Some ([QuitError], False, w)
     | Some (Inr bs, w) \<Rightarrow>
        (if length bs > 4 then None
         else if length bs \<noteq> 4 then Some ([QuitError], False, w)
         else (let (as, more) = on_signal c ok (sint (of_le bs :: 32 word))
               in if more then (case process_signals ops p nf c turns w of None \<Rightarrow> None | Some (as', r, w) \<Rightarrow> Some (as @ as', r, w))
                  else Some (as, False, w))))"

section \<open>The report\<close>

definition socket_text :: "nat \<Rightarrow> srv_conf \<Rightarrow> listener \<Rightarrow> pool \<Rightarrow> string" where
  "socket_text i c l s =
    [CHR 0x0A] @ ''Listening Socket #'' @ show_nat i @ '':'' @ [CHR 0x0A] @
    ''-------------------------'' @ [CHR 0x0A] @
    ''Address                    '' @ l_addr l @ '':'' @ show_nat (unat (l_port l)) @ [CHR 0x0A] @
    ''Thread limits (min/max)    '' @ show_int (max_wait_threads c) @ ''/'' @ show_int (max_threads c) @ [CHR 0x0A] @
    ''Waiting threads            '' @ show_int (wait_threads s) @ [CHR 0x0A] @
    ''Busy threads               '' @ show_int (busy_threads s) @ [CHR 0x0A] @
    ''Requests served            '' @ show_int (rqst_count s) @ [CHR 0x0A]"

definition dump_text :: "nat \<Rightarrow> int \<Rightarrow> srv_conf \<Rightarrow> (listener \<times> pool) list \<Rightarrow> string" where
  "dump_text my_index my_pid c sks =
    [CHR 0x0A, CHR 0x0A] @ ''Process #'' @ show_nat my_index @ '' (pid '' @ show_int my_pid @ ''):'' @ [CHR 0x0A] @
    concat (map (\<lambda>(i, l, s). socket_text i c l s) (zip [0..<length sks] sks))"

text \<open>The text that is written; \<open>None\<close> if it and its end do not fit the buffer of 512 bytes for each socket.\<close>

definition dump_server_info :: "nat \<Rightarrow> int \<Rightarrow> srv_conf \<Rightarrow> (listener \<times> pool) list \<Rightarrow> string option" where
  "dump_server_info my_index my_pid c sks =
    (let t = dump_text my_index my_pid c sks in if length t \<ge> length sks * 512 then None else Some t)"

section \<open>A server that runs\<close>

lemma start_pools_nth: "start_pools c css = Inr ps \<Longrightarrow> length ps = length css \<and> (\<forall>k < length ps. start_pool c (css ! k) = Inr (ps ! k))"
proof (induction css arbitrary: ps)
  case (Cons cs css)
  then obtain s ss where "start_pool c cs = Inr s" "start_pools c css = Inr ss" "ps = s # ss" by (auto split: sum.splits)
  then show ?case using Cons.IH [of ss] by (auto simp: nth_Cons split: nat.splits)
qed simp

lemma throttling_keeps [simp]:
  "username (set_thread_throttling n c) = username c" "interactive_mode (set_thread_throttling n c) = interactive_mode c"
  "logdir (set_thread_throttling n c) = logdir c" "vp_count (set_thread_throttling n c) = vp_count c"
  by (simp_all add: set_thread_throttling_def Let_def)

text \<open>The steps of a start that succeeds.\<close>

lemma server_mainE:
  assumes "server_main args b w p = Inr r"
  obtains c p1 ls w1 p2 ro where "parse_arguments (b_dup b) args (b_cpus b) = Inr c"
    and "if interactive_mode c then p1 = p else start_daemon (b_daemon b) (b_chdir b) (logdir c) p = Goes p1"
    and "case username c of None \<Rightarrow> p2 = p1 | Some u \<Rightarrow> change_user (b_getpw b) u p1 = Goes p2"
    and "case ro of Watchdog s \<Rightarrow> r = (Watching s, w1, handle_signals WdogHandler p2)
       | Child i \<Rightarrow> server_child i (set_thread_throttling (b_fdlimit b) c) ls b w1 (if interactive_mode c then p2 else fork_child (b_pid b) p2) = Inr r"
proof -
  obtain c p1 ls w1 p2 ro where c: "parse_arguments (b_dup b) args (b_cpus b) = Inr c"
      "(if interactive_mode c then Inr p else of_outcome (start_daemon (b_daemon b) (b_chdir b) (logdir c) p)) = Inr p1"
      "(case username c of None \<Rightarrow> Inr p1 | Some u \<Rightarrow> of_outcome (change_user (b_getpw b) u p1)) = Inr p2"
      "(case ro of Watchdog s \<Rightarrow> Inr (Watching s, w1, handle_signals WdogHandler p2)
       | Child i \<Rightarrow> server_child i (set_thread_throttling (b_fdlimit b) c) ls b w1 (if interactive_mode c then p2 else fork_child (b_pid b) p2)) = Inr r"
    using assms unfolding server_main_def andthen_Inr map_sum_Inr Let_def if_Inl split_paired_Ex prod.case throttling_keeps by blast
  show thesis
  proof (rule that [OF c(1)])
    show "if interactive_mode c then p1 = p else start_daemon (b_daemon b) (b_chdir b) (logdir c) p = Goes p1"
      using c(2) by (simp add: of_outcome_Inr split: if_splits)
    show "case username c of None \<Rightarrow> p2 = p1 | Some u \<Rightarrow> change_user (b_getpw b) u p1 = Goes p2"
      using c(3) by (simp add: of_outcome_Inr split: option.splits)
    show "case ro of Watchdog s \<Rightarrow> r = (Watching s, w1, handle_signals WdogHandler p2)
       | Child i \<Rightarrow> server_child i (set_thread_throttling (b_fdlimit b) c) ls b w1 (if interactive_mode c then p2 else fork_child (b_pid b) p2) = Inr r"
      using c(4) by (cases ro) auto
  qed
qed

lemma server_main_running:
  assumes "server_main args b w p = Inr (Running i c ls ps ns, w', p')"
  obtains c0 where "parse_arguments (b_dup b) args (b_cpus b) = Inr c0" and "c = set_thread_throttling (b_fdlimit b) c0" and "start_pools c (b_created b) = Inr ps"
  using assms
  by (rule server_mainE) (auto simp: server_child_def andthen_Inr map_sum_Inr start_threads_def intro: that split: role.splits if_splits)

text \<open>
  C31: A server that \<open>main\<close> has started keeps its limits. Whatever the arguments, if a process reaches the point where it serves clients, then
  for each of its sockets and every interleaving of the threads, with any outcome of accepting connections, creating threads and serving
  clients: the counter of waiting threads is the number of threads that wait for a connection (or were just created), that of busy threads
  the number of threads in a session, at most \<open>max_wait_threads\<close> threads wait, at most \<open>max_threads\<close> exist, and the pool never dies out.
\<close>

theorem server_pools_bounded:
  assumes "server_main args b w p = Inr (Running i c ls ps ns, w', p')" and "b_fdlimit b \<ge> 32" and "k < length ps" and "(pool_step c B)\<^sup>*\<^sup>* (ps ! k) s"
  shows "wait_threads s = threads_in {Starting, Accepting} s \<and> busy_threads s = threads_in {Serving} s \<and>
    wait_threads s \<le> max_wait_threads c \<and> wait_threads s + busy_threads s \<le> max_threads c \<and> 1 \<le> wait_threads s + busy_threads s"
proof -
  obtain c0 where c: "parse_arguments (b_dup b) args (b_cpus b) = Inr c0" "c = set_thread_throttling (b_fdlimit b) c0" "start_pools c (b_created b) = Inr ps"
    by (rule server_main_running [OF assms(1)])
  have "start_pool c (b_created b ! k) = Inr (ps ! k)" using start_pools_nth [OF c(3)] assms(3) by blast
  then show ?thesis by (rule pool_bounds [OF c(1) assms(2) c(2) _ assms(4)])
qed

definition demo_boot :: boot where
  "demo_boot = \<lparr>b_dup = (\<lambda>_. True), b_cpus = 3, b_calloc = True, b_daemon = \<lparr>f1 = 0, pid1 = 51, f2 = 0, pid2 = 52\<rparr>, b_chdir = True, b_init = True,
     b_fdlimit = 64, b_resolves = (\<lambda>_. True),
     b_listen = [\<lparr>k_socket = OsOk 40, k_opt = True, k_bind = True, k_listen = True, k_alloc = Some 4\<rparr>],
     b_getpw = (\<lambda>u. if u = ''www'' then Some (33, 34) else None), b_pid_open = True, b_pid_write = True, b_err_open = True,
     b_forks = [60, 61, 62], b_pid = 60, b_pipe = Some (41, 42), b_nfd0 = Some 6, b_nfd1 = Some 7, b_flusher = False, b_created = [[True, True]]\<rparr>"

definition root_proc :: proc where
  "root_proc = \<lparr>p_pid = 50, p_leader = True, p_uid = 0, p_gid = 0, p_groups = [0], p_umask = 0, p_cwd = ''/root'', p_blocked = {}, p_handler = (\<lambda>_. DefaultHandler)\<rparr>"

definition demo_pool :: pool where
  "demo_pool = \<lparr>wait_threads = 2, busy_threads = 0, rqst_count = 0, threads = [Starting, Starting]\<rparr>"

lemma demo_listeners:
  obtains ls w' where "create_listeners (b_resolves demo_boot) False (zip [''0.0.0.0''] (b_listen demo_boot)) demo_netw = Inr (ls, w')"
    and "netfd_freelist w' = None"
  by (simp add: demo_boot_def listen_addr_def split_at_def st_netfd_open_socket_def st_netfd_new_def st_select_fd_new_def demo_netw_def Let_def upd_nf_def)

lemma demo_server:
  "\<exists>ls ns w' p'. server_main [(CHR ''i'', []), (CHR ''t'', ''4:10'')] demo_boot demo_netw root_proc =
     Inr (Running 0 (set_thread_throttling 64 demo_conf) ls [demo_pool] ns, w', p')"
proof -
  let ?c = "set_thread_throttling 64 demo_conf"
  have f: "c_addrs ?c = [''0.0.0.0'']" "serialize_accept ?c = False" "log_access ?c = False" "interactive_mode demo_conf" "username demo_conf = None"
    unfolding demo_limits by (simp_all add: demo_conf_def default_conf_def)
  obtain ls w' where l: "create_listeners (b_resolves demo_boot) False (zip [''0.0.0.0''] (b_listen demo_boot)) demo_netw = Inr (ls, w')"
    "netfd_freelist w' = None" by (rule demo_listeners)
  obtain ns w2 p2 where i: "install_sighandlers (b_pipe demo_boot) (b_nfd0 demo_boot) (b_nfd1 demo_boot) w' root_proc = Goes (ns, w2, p2)"
    using l(2) by (simp add: install_sighandlers_def demo_boot_def st_netfd_open_def st_netfd_new_def st_select_fd_new_def upd_nf_def Let_def)
  have "start_pool ?c [True, True] = Inr demo_pool" unfolding demo_limits by (simp add: start_pool_def Let_def numeral_2_eq_2 demo_pool_def)
  then have t: "start_threads ?c (b_flusher demo_boot) (b_created demo_boot) = Inr [demo_pool]" by (simp add: start_threads_def f demo_boot_def)
  have e: "b_cpus demo_boot = 3" "b_dup demo_boot = (\<lambda>_. True)" "b_fdlimit demo_boot = 64" "b_calloc demo_boot" "b_init demo_boot" by (simp_all add: demo_boot_def)
  have "server_main [(CHR ''i'', []), (CHR ''t'', ''4:10'')] demo_boot demo_netw root_proc = server_child 0 ?c ls demo_boot w' root_proc"
    using f l(1) by (simp add: server_main_def e demo_parse andthen_def of_outcome_def open_log_files_def start_processes_def Let_def)
  then show ?thesis using i t by (simp add: server_child_def andthen_def of_outcome_def)
qed

theorem server_pools_bounded_witness:
  "\<exists>s. (pool_step (set_thread_throttling 64 demo_conf) {True})\<^sup>*\<^sup>* demo_pool s \<and>
    threads s = [Serving, Starting, Starting] \<and> wait_threads s = 2 \<and> busy_threads s = 1 \<and> wait_threads s + busy_threads s \<le> 4"
proof -
  let ?c = "set_thread_throttling 64 demo_conf"
  let ?a = "loop_head ?c 0 demo_pool"
  let ?b = "accepted ?c True 0 ?a"
  have "pool_step ?c {True} demo_pool ?a" by (rule started) (simp_all add: demo_pool_def)
  moreover have "pool_step ?c {True} ?a ?b" by (rule accept_ok) (simp_all add: demo_pool_def loop_head_def demo_limits)
  ultimately have r: "(pool_step ?c {True})\<^sup>*\<^sup>* demo_pool ?b" by (meson converse_rtranclp_into_rtranclp r_into_rtranclp)
  obtain ls ns w' p' where m: "server_main [(CHR ''i'', []), (CHR ''t'', ''4:10'')] demo_boot demo_netw root_proc = Inr (Running 0 ?c ls [demo_pool] ns, w', p')"
    using demo_server by blast
  have "wait_threads ?b + busy_threads ?b \<le> max_threads ?c"
    using server_pools_bounded [OF m, of 0 "{True}" ?b] r by (simp add: demo_boot_def)
  then show ?thesis using r by (intro exI [of _ ?b]) (simp add: demo_limits accepted_def loop_head_def Let_def demo_pool_def)
qed

section \<open>The process of a server\<close>

abbreviation server_signals :: "int set" where "server_signals \<equiv> {SIGTERM, SIGHUP, SIGUSR1}"

text \<open>What the rest of \<open>main\<close> leaves of a process: its signals are handled and not blocked.\<close>

lemma server_child_proc:
  assumes "server_child i c ls b w p = Inr (sv, w', p')"
  shows "\<exists>ps ns. sv = Running i c ls ps ns \<and> p_uid p' = p_uid p \<and> p_gid p' = p_gid p \<and> p_leader p' = p_leader p \<and> p_cwd p' = p_cwd p \<and>
    (\<forall>sig \<in> server_signals. sig \<notin> p_blocked p' \<and> p_handler p' sig = ChildHandler)"
proof -
  obtain ns w1 p1 where i: "install_sighandlers (b_pipe b) (b_nfd0 b) (b_nfd1 b) w p = Goes (ns, w1, p1)" "p' = p1" "\<exists>ps. sv = Running i c ls ps ns"
    using assms by (auto simp: server_child_def andthen_Inr of_outcome_Inr map_sum_Inr)
  then show ?thesis using install_sighandlers_goes [OF i(1)] by auto
qed

lemma handle_signals_fields [simp]:
  "p_uid (handle_signals h p) = p_uid p" "p_gid (handle_signals h p) = p_gid p" "p_leader (handle_signals h p) = p_leader p"
  "p_cwd (handle_signals h p) = p_cwd p" "sig \<in> server_signals \<Longrightarrow> p_handler (handle_signals h p) sig = h"
  by (auto simp: handle_signals_def Signal_def)

lemma fork_child_fields [simp]:
  "p_uid (fork_child n p) = p_uid p" "p_gid (fork_child n p) = p_gid p" "\<not> p_leader (fork_child n p)" "p_cwd (fork_child n p) = p_cwd p"
  by (simp_all add: fork_child_def)

text \<open>
  C38: A server that has been started runs as it was asked to. If \<open>main\<close> gets as far as serving clients or watching the servers, the process has the
  user and the group of the name given with \<open>-u\<close> (without it, those it was started with), a daemon works in the log directory and leads no
  session, and the three signals have the handlers of a server, which does not block them, or of the watchdog. The same holds for every
  process that the watchdog forks later, although it forks while the signals are blocked.
\<close>

theorem server_process_safe:
  assumes "server_main args b w p = Inr (sv, w', p')" and "parse_arguments (b_dup b) args (b_cpus b) = Inr c"
  shows "(case username c of None \<Rightarrow> p_uid p' = p_uid p \<and> p_gid p' = p_gid p | Some u \<Rightarrow> b_getpw b u = Some (p_uid p', p_gid p')) \<and>
    (\<not> interactive_mode c \<longrightarrow> \<not> p_leader p' \<and> logdir c = Some (p_cwd p')) \<and>
    (case sv of
       Running i c ls ps ns \<Rightarrow> \<forall>sig \<in> server_signals. sig \<notin> p_blocked p' \<and> p_handler p' sig = ChildHandler
     | Watching s \<Rightarrow> (\<forall>sig \<in> server_signals. p_handler p' sig = WdogHandler) \<and>
        (\<forall>n i c ls b w2 sv2 w3 q. server_child i c ls b w2 (replacement n p') = Inr (sv2, w3, q) \<longrightarrow>
          p_uid q = p_uid p' \<and> p_gid q = p_gid p' \<and> \<not> p_leader q \<and> p_cwd q = p_cwd p' \<and>
          (\<forall>sig \<in> server_signals. sig \<notin> p_blocked q \<and> p_handler q sig = ChildHandler)))"
proof -
  obtain c' p1 ls w1 p2 ro where c': "parse_arguments (b_dup b) args (b_cpus b) = Inr c'"
      and st': "if interactive_mode c' then p1 = p else start_daemon (b_daemon b) (b_chdir b) (logdir c') p = Goes p1"
      "case username c' of None \<Rightarrow> p2 = p1 | Some u \<Rightarrow> change_user (b_getpw b) u p1 = Goes p2"
      "case ro of Watchdog s \<Rightarrow> (sv, w', p') = (Watching s, w1, handle_signals WdogHandler p2)
       | Child i \<Rightarrow> server_child i (set_thread_throttling (b_fdlimit b) c') ls b w1 (if interactive_mode c' then p2 else fork_child (b_pid b) p2) = Inr (sv, w', p')"
    by (rule server_mainE [OF assms(1)])
  have "c' = c" using c' assms(2) by simp
  note st = st' [unfolded this]
  have d: "p_uid p1 = p_uid p" "p_gid p1 = p_gid p" "\<not> interactive_mode c \<Longrightarrow> \<not> p_leader p1 \<and> logdir c = Some (p_cwd p1)"
    using st(1) start_daemon_goes [of "b_daemon b" "b_chdir b" "logdir c" p p1] by (auto split: if_splits)
  have u: "p_leader p2 = p_leader p1" "p_cwd p2 = p_cwd p1"
      "case username c of None \<Rightarrow> p_uid p2 = p_uid p1 \<and> p_gid p2 = p_gid p1 | Some u \<Rightarrow> b_getpw b u = Some (p_uid p2, p_gid p2)"
    using st(2) change_user_goes [of "b_getpw b" _ p1 p2] by (auto split: option.splits)
  have keep: "p_uid p' = p_uid p2 \<and> p_gid p' = p_gid p2 \<and> p_cwd p' = p_cwd p2 \<and> (\<not> interactive_mode c \<longrightarrow> \<not> p_leader p2 \<longrightarrow> \<not> p_leader p')"
    using st(3) by (cases ro) (auto dest: server_child_proc split: if_splits)
  have sig: "case sv of Running i c ls ps ns \<Rightarrow> \<forall>sig \<in> server_signals. sig \<notin> p_blocked p' \<and> p_handler p' sig = ChildHandler
      | Watching s \<Rightarrow> \<forall>sig \<in> server_signals. p_handler p' sig = WdogHandler"
    using st(3) by (cases ro) (auto dest: server_child_proc split: if_splits)
  have rep: "p_uid q = p_uid p' \<and> p_gid q = p_gid p' \<and> \<not> p_leader q \<and> p_cwd q = p_cwd p' \<and>
      (\<forall>sig \<in> server_signals. sig \<notin> p_blocked q \<and> p_handler q sig = ChildHandler)"
    if r: "server_child i c ls b w2 (replacement n p') = Inr (sv2, w3, q)" for n i c ls b w2 sv2 w3 q
    using server_child_proc [OF r] by (auto simp: replacement_def)
  show ?thesis
  proof (intro conjI)
    show "case username c of None \<Rightarrow> p_uid p' = p_uid p \<and> p_gid p' = p_gid p | Some u \<Rightarrow> b_getpw b u = Some (p_uid p', p_gid p')"
      using u(3) keep d(1,2) by (auto split: option.splits)
    show "\<not> interactive_mode c \<longrightarrow> \<not> p_leader p' \<and> logdir c = Some (p_cwd p')" using d(3) u(1,2) keep by auto
  qed (use sig rep in \<open>cases sv; simp; blast\<close>)
qed

text \<open>Started by the super-user with a log directory and a user, the first process becomes the watchdog of three servers.\<close>

definition daemon_args :: "(char \<times> string) list" where
  "daemon_args = [(CHR ''l'', ''/log''), (CHR ''u'', ''www''), (CHR ''t'', ''4:10'')]"

definition daemon_conf :: srv_conf where
  "daemon_conf = default_conf\<lparr>c_addrs := [''0.0.0.0''], vp_count := 3, logdir := Some ''/log'', username := Some ''www'', max_wait_threads := 4, max_threads := 10\<rparr>"

lemma daemon_parse: "parse_arguments (b_dup demo_boot) daemon_args (b_cpus demo_boot) = Inr daemon_conf"
  unfolding demo_boot_def daemon_args_def daemon_conf_def by code_simp

lemma daemon_server:
  "\<exists>w' p'. server_main daemon_args demo_boot demo_netw root_proc = Inr (Watching \<lparr>vp_pids = [60, 61, 62], vps = 3\<rparr>, w', p')"
proof -
  have f: "c_addrs (set_thread_throttling n daemon_conf) = [''0.0.0.0'']" "serialize_accept (set_thread_throttling n daemon_conf) = False" for n
    by (simp_all add: set_thread_throttling_def Let_def daemon_conf_def default_conf_def)
  have g: "\<not> interactive_mode daemon_conf" "username daemon_conf = Some ''www''" "logdir daemon_conf = Some ''/log''" "vp_count daemon_conf = 3"
    by (simp_all add: daemon_conf_def default_conf_def)
  obtain p1 where p1: "start_daemon (b_daemon demo_boot) (b_chdir demo_boot) (Some ''/log'') root_proc = Goes p1" "p_uid p1 = 0" "p_pid p1 = 52"
    by (simp add: start_daemon_def demo_boot_def fork_child_def root_proc_def Let_def)
  obtain p2 where p2: "change_user (b_getpw demo_boot) ''www'' p1 = Goes p2" "p_pid p2 = 52"
    using change_user_root [of "b_getpw demo_boot" "''www''" 33 34 p1] p1(2,3) by (simp add: demo_boot_def)
  have o: "open_log_files False (b_pid_open demo_boot) (b_pid_write demo_boot) (b_err_open demo_boot) p2 = Goes (Some (show_int 52 @ [CHR 0x0A]))"
    using show_int_length [of 2 52] by (simp add: open_log_files_def demo_boot_def p2(2) Let_def)
  have s: "start_processes False (nat 3) (b_forks demo_boot) = Inr (Watchdog \<lparr>vp_pids = [60, 61, 62], vps = 3\<rparr>)"
    by (simp add: start_processes_def demo_boot_def numeral_3_eq_3)
  obtain ls w' where l: "create_listeners (b_resolves demo_boot) False (zip [''0.0.0.0''] (b_listen demo_boot)) demo_netw = Inr (ls, w')"
    by (rule demo_listeners)
  have e: "b_calloc demo_boot" "b_init demo_boot" by (simp_all add: demo_boot_def)
  show ?thesis using l p1 p2 o s by (simp add: server_main_def daemon_parse andthen_def of_outcome_def f g e Let_def)
qed

theorem server_process_safe_witness:
  "\<exists>w' p'. server_main daemon_args demo_boot demo_netw root_proc = Inr (Watching \<lparr>vp_pids = [60, 61, 62], vps = 3\<rparr>, w', p') \<and>
     p_uid p' = 33 \<and> p_gid p' = 34 \<and> p_cwd p' = ''/log''"
proof -
  obtain w' p' where m: "server_main daemon_args demo_boot demo_netw root_proc = Inr (Watching \<lparr>vp_pids = [60, 61, 62], vps = 3\<rparr>, w', p')"
    using daemon_server by blast
  have g: "username daemon_conf = Some ''www''" "logdir daemon_conf = Some ''/log''" "\<not> interactive_mode daemon_conf"
    "b_getpw demo_boot ''www'' = Some (33, 34)"
    by (simp_all add: daemon_conf_def default_conf_def demo_boot_def)
  show ?thesis using server_process_safe [OF m daemon_parse] m g by auto
qed

text \<open>The supplementary groups of the process that starts the server stay.\<close>

lemma groups_kept: "change_user getpw u p = Goes p' \<Longrightarrow> p_groups p' = p_groups p"
  by (simp add: change_user_goes)

section \<open>Signals are handled in order\<close>

lemma sigs_pipe: "fold child_sighandler sigs pipe = pipe @ concat (map (\<lambda>n. le_bytes 4 (word_of_int n :: 32 word)) sigs)"
  by (induction sigs arbitrary: pipe) (simp_all add: child_sighandler_def)

text \<open>The signals up to the first one that ends the process.\<close>

fun until_term :: "int list \<Rightarrow> int list" where
  "until_term [] = []"
| "until_term (n # ns) = (if n = SIGTERM then [n] else n # until_term ns)"

text \<open>The turns of the signal thread: each read gets the next bytes of the pipe, after some attempts.\<close>

fun turns :: "(int \<times> 'o) list list \<Rightarrow> 'o \<Rightarrow> byte list \<Rightarrow> ((byte list osres \<times> 'o) list \<times> bool) list" where
  "turns [] oth pipe = []"
| "turns (cs # css) oth pipe = (attempts cs @ [(OsOk (take 4 pipe), oth)], True) # turns css oth (drop 4 pipe)"

lemma sint_signo: "0 \<le> n \<Longrightarrow> n < 2 ^ 31 \<Longrightarrow> sint (word_of_int n :: 32 word) = n"
proof -
  assume n: "0 \<le> n" "n < 2 ^ 31"
  have "signed_take_bit 31 n = n" using n by (intro signed_take_bit_int_eq_self) auto
  then show ?thesis by (simp add: signed_of_int)
qed

lemma process_signals_ok:
  "calm ops p me w \<Longrightarrow> length css = length sigs \<Longrightarrow> \<forall>cs \<in> set css. attempts_ok ops p me cs \<Longrightarrow> \<forall>n \<in> set sigs. 0 \<le> n \<and> n < 2 ^ 31 \<Longrightarrow>
    pipe = concat (map (\<lambda>n. le_bytes 4 (word_of_int n :: 32 word)) sigs) \<Longrightarrow>
    \<exists>w'. process_signals ops p nf c (turns css oth pipe) w =
      Some (concat (map (\<lambda>n. fst (on_signal c True n)) (until_term sigs)), SIGTERM \<notin> set sigs, w') \<and> calm ops p me w'"
proof (induction sigs arbitrary: css pipe w)
  case Nil
  then show ?case by simp
next
  case (Cons n sigs)
  obtain cs css' where css: "css = cs # css'" using Cons.prems(2) by (cases css) auto
  let ?b = "le_bytes 4 (word_of_int n :: 32 word)"
  obtain w1 where w1: "st_read ops p (Some nf) ST_UTIME_NO_TIMEOUT (attempts cs @ [(OsOk ?b, oth)]) w = Some (Inr ?b, w1)" "calm ops p me w1"
    using read_answer [OF Cons.prems(1)] Cons.prems(3) css by fastforce
  have n: "sint (of_le ?b :: 32 word) = n" using sint_signo Cons.prems(4) by (simp add: of_le_bytes)
  obtain w' where w': "process_signals ops p nf c (turns css' oth (concat (map (\<lambda>n. le_bytes 4 (word_of_int n :: 32 word)) sigs))) w1 =
      Some (concat (map (\<lambda>n. fst (on_signal c True n)) (until_term sigs)), SIGTERM \<notin> set sigs, w')" "calm ops p me w'"
    using Cons.IH [OF w1(2), of css'] Cons.prems(2-4) css by auto
  have more: "snd (on_signal c True n) \<longleftrightarrow> n \<noteq> SIGTERM" by (simp add: on_signal_def Let_def SIGHUP_def SIGTERM_def)
  have t: "turns css oth pipe = (attempts cs @ [(OsOk ?b, oth)], True) # turns css' oth (concat (map (\<lambda>n. le_bytes 4 (word_of_int n :: 32 word)) sigs))"
    by (simp add: css Cons.prems(5))
  show ?case
    using w1 w' n more unfolding t by (cases "n = SIGTERM") (auto simp: Let_def case_prod_beta')
qed



section \<open>The size of the report\<close>

lemma show_nat_int: "n < 2 ^ 31 \<Longrightarrow> length (show_nat n) \<le> 10"
  by (rule show_nat_length) simp_all

lemma show_int_int: "- (2 ^ 31) \<le> i \<Longrightarrow> i < 2 ^ 31 \<Longrightarrow> length (show_int i) \<le> 11"
  using show_int_length [of 10 i] by simp

definition is_int :: "int \<Rightarrow> bool" where "is_int i \<longleftrightarrow> - (2 ^ 31) \<le> i \<and> i < 2 ^ 31"

lemma socket_text_length:
  assumes "i < 2 ^ 31" and "length (l_addr l) \<le> 190"
    and "is_int (max_wait_threads c)" "is_int (max_threads c)" "is_int (wait_threads s)" "is_int (busy_threads s)" "is_int (rqst_count s)"
  shows "length (socket_text i c l s) \<le> 460"
proof -
  have "unat (l_port l) < 2 ^ 16" using unsigned_less [of "l_port l", where 'a = nat] by simp
  then have "length (show_nat (unat (l_port l))) \<le> 10" by (intro show_nat_int) simp
  moreover have "length (show_nat i) \<le> 10" by (rule show_nat_int [OF assms(1)])
  ultimately show ?thesis
    using assms(2-) show_int_int [of "max_wait_threads c"] show_int_int [of "max_threads c"] show_int_int [of "wait_threads s"]
      show_int_int [of "busy_threads s"] show_int_int [of "rqst_count s"]
    by (simp add: socket_text_def is_int_def)
qed

text \<open>The report fits its buffer if the addresses are not long: with addresses of more than 500 characters, which the option \<open>-b\<close> takes, it does not.\<close>

lemma dump_server_info_fits:
  assumes "sks \<noteq> []" and "length sks \<le> MAX_BIND_ADDRS" and "my_index < 2 ^ 31" and "is_int my_pid"
    and "\<forall>(l, s) \<in> set sks. length (l_addr l) \<le> 190 \<and> is_int (wait_threads s) \<and> is_int (busy_threads s) \<and> is_int (rqst_count s)"
    and "is_int (max_wait_threads c)" and "is_int (max_threads c)"
  shows "dump_server_info my_index my_pid c sks = Some (dump_text my_index my_pid c sks)"
proof -
  let ?f = "\<lambda>(i, l, s). socket_text i c l s"
  let ?xs = "zip [0..<length sks] sks"
  have "length (?f x) \<le> 460" if x: "x \<in> set ?xs" for x
  proof -
    obtain i l s where e: "x = (i, l, s)" by (cases x)
    have "i < length sks" "(l, s) \<in> set sks" using set_zip_leftD [of i "(l, s)" "[0..<length sks]" sks] set_zip_rightD [of i "(l, s)" "[0..<length sks]" sks] x e by auto
    then have "i < 2 ^ 31" using assms(2) by (simp add: MAX_BIND_ADDRS_def)
    then show ?thesis using socket_text_length [of i l c s] assms(5-7) \<open>(l, s) \<in> set sks\<close> e by fastforce
  qed
  then have "sum_list (map (length \<circ> ?f) ?xs) \<le> length ?xs * 460" using sum_list_mono [of ?xs "length \<circ> ?f" "\<lambda>_. 460"] by (simp add: sum_list_triv o_def)
  then have body: "length (concat (map ?f ?xs)) \<le> length sks * 460" by (simp add: length_concat)
  have "length (dump_text my_index my_pid c sks) \<le> 51 + length (concat (map ?f ?xs))"
    using show_nat_int [OF assms(3)] show_int_int [of my_pid] assms(4) by (simp add: dump_text_def is_int_def)
  also have "\<dots> < length sks * 512" using body assms(1) by (cases sks) auto
  finally show ?thesis by (simp add: dump_server_info_def Let_def)
qed

lemma long_address_overflows:
  assumes "length (l_addr l) \<ge> 512"
  shows "dump_server_info my_index my_pid c [(l, s)] = None"
  using assms by (simp add: dump_server_info_def dump_text_def socket_text_def Let_def)

end
