(* ===== verification/Testdns.thy ===== *)
theory Testdns
  imports Dnscache Cstdlib
begin

text \<open>
  extensions/testdns.c: the command loop around the DNS cache. The text on \<open>stdin\<close> has no \<open>NUL\<close>; what the program prints is a list of
  replies. A step that would use the cache through a null pointer, or write behind an array, yields \<open>None\<close>.
\<close>

section \<open>Input\<close>

text \<open>\<open>fgets\<close> with a buffer of \<open>n\<close> characters: at most \<open>n - 1\<close> characters, up to and with the end of the line; what it returns until the end of the input.\<close>

definition LINE_SIZE :: nat where "LINE_SIZE = 256"

fun fgets_line :: "nat \<Rightarrow> string \<Rightarrow> string \<times> string" where
  "fgets_line n [] = ([], [])"
| "fgets_line n (c # cs) =
    (if n \<le> 1 then ([], c # cs)
     else if c = CHR 0x0A then ([c], cs)
     else (let (l, rest) = fgets_line (n - 1) cs in (c # l, rest)))"

lemma fgets_line_split: "fgets_line n s = (l, rest) \<Longrightarrow> s = l @ rest \<and> length l \<le> n - 1 \<and> (s \<noteq> [] \<and> n > 1 \<longrightarrow> l \<noteq> [])"
  by (induction n s arbitrary: l rest rule: fgets_line.induct) (auto simp: Let_def split: if_splits prod.splits)

function fgets_all :: "string \<Rightarrow> string list" where
  "fgets_all s = (if s = [] then [] else (let (l, rest) = fgets_line LINE_SIZE s in l # fgets_all rest))"
  by auto
termination
proof (relation "measure length")
  fix s l rest x
  assume a: "s \<noteq> []" "x = fgets_line LINE_SIZE s" "(l, rest) = x"
  have "s = l @ rest" "l \<noteq> []" using fgets_line_split [of LINE_SIZE s l rest] a by (simp_all add: LINE_SIZE_def)
  then show "(rest, s) \<in> measure length" by (cases l) auto
qed simp

declare fgets_all.simps [simp del]

text \<open>\<open>sscanf\<close> with \<open>%s\<close>: the first word, if there is one.\<close>

definition scan_word :: "string \<Rightarrow> string option" where
  "scan_word line = (let s = dropWhile is_space line in if s = [] then None else Some (takeWhile (\<lambda>c. \<not> is_space c) s))"

section \<open>Commands\<close>

definition MAX_ADDRS :: nat where "MAX_ADDRS = 128"

datatype reply = Resolved string "addr list" | Unresolved string | Info cache_info | LruHosts "string option list"
  | MruHosts "string option list" | Emptied

text \<open>What a command meets: the resolver, the clock before and after it, and the results of the allocator.\<close>

record env =
  e_res :: resolver
  e_now1 :: int
  e_now2 :: int
  e_al :: "dns_state \<Rightarrow> allocs"

definition do_resolve :: "env \<Rightarrow> string \<Rightarrow> dns_state \<Rightarrow> (reply \<times> dns_state) option" where
  "do_resolve v host s =
    (case stx_dns_getaddrlist (e_res v) host MAX_ADDRS (e_now1 v) (e_now2 v) (e_al v s) s of None \<Rightarrow> None
     | Some (None, s) \<Rightarrow> Some (Unresolved host, s)
     | Some (Some addrs, s) \<Rightarrow> if length addrs > MAX_ADDRS then None else Some (Resolved host addrs, s))"

definition show_info :: "dns_state \<Rightarrow> reply" where
  "show_info s = Info (stx_dns_cache_getinfo s)"

definition show_lru :: "dns_state \<Rightarrow> reply option" where
  "show_lru s = (case dns_cache s of None \<Rightarrow> None | Some c \<Rightarrow> map_option (\<lambda>es. LruHosts (map fst es)) (stx_cache_traverse_lru c 10))"

definition show_mru :: "dns_state \<Rightarrow> reply option" where
  "show_mru s = (case dns_cache s of None \<Rightarrow> None | Some c \<Rightarrow> map_option (\<lambda>es. MruHosts (map fst es)) (stx_cache_traverse_mru c 10))"

definition flush_cache :: "dns_state \<Rightarrow> (reply \<times> dns_state) option" where
  "flush_cache s = (case dns_cache s of None \<Rightarrow> None
     | Some c \<Rightarrow> (case stx_cache_empty c of None \<Rightarrow> None | Some c \<Rightarrow> Some (Emptied, s\<lparr>dns_cache := Some c\<rparr>)))"

text \<open>The part of the loop below the scan of the line, for a word that does not end the loop.\<close>

definition run_command :: "env \<Rightarrow> string \<Rightarrow> dns_state \<Rightarrow> (reply \<times> dns_state) option" where
  "run_command v str s =
    (if str = ''info'' then Some (show_info s, s)
     else if str = ''lru'' then map_option (\<lambda>r. (r, s)) (show_lru s)
     else if str = ''mru'' then map_option (\<lambda>r. (r, s)) (show_mru s)
     else if str = ''flush'' then flush_cache s
     else do_resolve v str s)"

text \<open>The loop: every line comes with what its command meets.\<close>

fun command_loop :: "(string \<times> env) list \<Rightarrow> dns_state \<Rightarrow> (reply list \<times> dns_state) option" where
  "command_loop [] s = Some ([], s)"
| "command_loop ((line, v) # ls) s =
    (case scan_word line of
       None \<Rightarrow> command_loop ls s
     | Some str \<Rightarrow>
        (if length str \<ge> LINE_SIZE then None
         else if str = ''exit'' \<or> str = ''quit'' then Some ([], s)
         else (case run_command v str s of None \<Rightarrow> None
               | Some (r, s) \<Rightarrow> (case command_loop ls s of None \<Rightarrow> None | Some (rs, s) \<Rightarrow> Some (r # rs, s)))))"

text \<open>\<open>main\<close> after \<open>st_init\<close>: \<open>ok1\<close> and \<open>ok2\<close> are the two allocations of the cache, whose success is not checked.\<close>

definition testdns_main :: "bool \<Rightarrow> bool \<Rightarrow> lnode links \<Rightarrow> string \<Rightarrow> (nat \<Rightarrow> env) \<Rightarrow> (reply list \<times> dns_state) option" where
  "testdns_main ok1 ok2 h input envs =
    (let s = snd (stx_dns_cache_init 100 10000 101 ok1 ok2 h \<lparr>dns_cache = None, dns_ttl = 0\<rparr>);
         lines = fgets_all input
     in command_loop (zip lines (map envs [0..<length lines])) s)"

section \<open>The session\<close>

lemma fgets_all_lines: "concat (fgets_all s) = s \<and> (\<forall>l \<in> set (fgets_all s). l \<noteq> [] \<and> length l < LINE_SIZE)"
proof (induction s rule: fgets_all.induct)
  case (1 s)
  show ?case
  proof (cases "s = []")
    case False
    obtain l rest where l: "fgets_line LINE_SIZE s = (l, rest)" by (cases "fgets_line LINE_SIZE s")
    have "s = l @ rest" "length l < LINE_SIZE" "l \<noteq> []" using fgets_line_split [OF l] False by (auto simp: LINE_SIZE_def)
    then show ?thesis using 1 [OF False l [symmetric] refl] False l by (subst (1 2) fgets_all.simps) auto
  qed (simp add: fgets_all.simps)
qed

lemma scan_word_fits: "scan_word l = Some w \<Longrightarrow> length w \<le> length l"
  using length_dropWhile_le [of is_space l] length_takeWhile_le [of "\<lambda>c. \<not> is_space c" "dropWhile is_space l"]
  by (auto simp: scan_word_def Let_def split: if_splits)

text \<open>The resolver and the allocator keep their contracts in every good state.\<close>

definition env_ok :: "env \<Rightarrow> bool" where
  "env_ok v \<longleftrightarrow> (\<forall>s host num. dns_ok s \<longrightarrow> fresh_entry (e_al v s) s \<and> resolver_ok (e_res v) host num (e_al v s) s)"

text \<open>The cache exists and is good.\<close>

definition shell_ok :: "dns_state \<Rightarrow> bool" where
  "shell_ok s \<longleftrightarrow> dns_ok s \<and> dns_cache s \<noteq> None"

definition reply_ok :: "reply \<Rightarrow> bool" where
  "reply_ok r = (case r of Resolved host addrs \<Rightarrow> length addrs \<le> MAX_ADDRS | LruHosts hs \<Rightarrow> length hs \<le> 10 | MruHosts hs \<Rightarrow> length hs \<le> 10 | _ \<Rightarrow> True)"

lemma do_resolve_ok:
  assumes "shell_ok s" and "env_ok v"
  shows "\<exists>r s'. do_resolve v host s = Some (r, s') \<and> shell_ok s' \<and> reply_ok r"
proof -
  have ok: "dns_ok s" "dns_cache s \<noteq> None" using assms(1) by (auto simp: shell_ok_def)
  have v: "fresh_entry (e_al v s) s" "\<And>h n. resolver_ok (e_res v) h n (e_al v s) s" using assms(2) ok(1) by (auto simp: env_ok_def)
  obtain r s' where r: "stx_dns_cache_getaddrlist (e_res v) host MAX_ADDRS False (e_now1 v) (e_now2 v) (e_al v s) s = Some (r, s')" "dns_ok s'"
      "dns_conf s' = dns_conf s" "\<forall>out. r = Some out \<longrightarrow> length out \<le> MAX_ADDRS"
    using getaddrlist_ok [OF ok(1) v(1) v(2)] by blast
  have "dns_cache s' \<noteq> None" using r(3) ok(2) by (auto simp: dns_conf_def)
  then show ?thesis using r(1,2,4) by (cases r) (auto simp: do_resolve_def stx_dns_getaddrlist_def shell_ok_def reply_ok_def)
qed

lemma flush_cache_ok:
  assumes "shell_ok s"
  shows "\<exists>s'. flush_cache s = Some (Emptied, s') \<and> shell_ok s'"
proof -
  obtain c bs us where c: "dns_cache s = Some c" "dns_inv c bs us" "unat (max_weight c) + 4312 < 2 ^ 64"
    using assms by (auto simp: shell_ok_def dns_ok_def)
  obtain c' where c': "stx_cache_empty c = Some c'" "cache_inv c' (without (idle_of c (set (concat bs))) bs) []" "emptied (set (concat bs)) c c'"
    by (rule empty_ok [OF dns_invD(1) [OF c(2)]])
  have cfg: "config c' = config c" using c'(3) by (simp add: emptied_def)
  have "dns_inv c' (without (idle_of c (set (concat bs))) bs) []"
  proof (rule dns_invI [OF c(2) c'(2) cfg])
    fix e
    assume e: "e \<in> set (concat (without (idle_of c (set (concat bs))) bs))"
    then have "e \<in> set (concat bs)" "ce_ref (cr c e) \<noteq> 0" by (auto simp: without_def idle_of_def)
    then have "ce_data (cr c' e) = ce_data (cr c e)" using c'(3) by (simp add: emptied_def kill_def cr_def)
    then show "\<exists>d. ce_data (cr c' e) = Some d \<and> data_ok_for d" using dns_invD(3) [OF c(2)] \<open>e \<in> set (concat bs)\<close> by simp
  qed
  then show ?thesis using c c'(1) dns_okI [OF _ cfg c(3)] by (auto simp: flush_cache_def shell_ok_def)
qed

lemma run_command_ok:
  assumes "shell_ok s" and "env_ok v"
  shows "\<exists>r s'. run_command v str s = Some (r, s') \<and> shell_ok s' \<and> reply_ok r"
proof -
  obtain c bs us where i: "dns_cache s = Some c" "dns_inv c bs us" using assms(1) by (auto simp: shell_ok_def dns_ok_def)
  note c = i(1) dns_invD(1) [OF i(2)]
  have "\<exists>r. show_lru s = Some r \<and> reply_ok r" "\<exists>r. show_mru s = Some r \<and> reply_ok r"
    using traverse_lru_ok [OF c(2), of 10] c(1) by (auto simp: show_lru_def show_mru_def reply_ok_def)
  moreover have "reply_ok (show_info s)" "reply_ok Emptied" by (simp_all add: show_info_def reply_ok_def)
  ultimately show ?thesis
    using do_resolve_ok [OF assms, of str] flush_cache_ok [OF assms(1)] assms(1) by (auto simp: run_command_def)
qed

lemma command_loop_ok:
  "shell_ok s \<Longrightarrow> \<forall>(l, v) \<in> set ls. length l < LINE_SIZE \<and> env_ok v \<Longrightarrow>
    \<exists>rs s'. command_loop ls s = Some (rs, s') \<and> shell_ok s' \<and> (\<forall>r \<in> set rs. reply_ok r)"
proof (induction ls s rule: command_loop.induct)
  case (2 line v ls s)
  show ?case
  proof (cases "scan_word line")
    case None
    then show ?thesis using 2(1) 2(3,4) by simp
  next
    case (Some str)
    have len: "length str < LINE_SIZE" using scan_word_fits [OF Some] 2(4) by simp
    obtain r s1 where r: "run_command v str s = Some (r, s1)" "shell_ok s1" "reply_ok r" using run_command_ok [OF 2(3), of v str] 2(4) by auto
    show ?thesis
    proof (cases "str = ''exit'' \<or> str = ''quit''")
      case False
      obtain rs s' where "command_loop ls s1 = Some (rs, s')" "shell_ok s'" "\<forall>r \<in> set rs. reply_ok r"
        using 2(2) [OF Some _ False r(1) refl] len 2(4) r(2) by auto
      then show ?thesis using Some len False r(1,3) by simp
    qed (use Some len 2(3) in auto)
  qed
qed simp

lemma init_shell_ok:
  "shell_ok (snd (stx_dns_cache_init 100 10000 101 True True h \<lparr>dns_cache = None, dns_ttl = 0\<rparr>))"
proof -
  obtain c :: dns_cache where c: "stx_cache_create 100 10000 101 hash_hostname key_strcmp True True True (\<lambda>_. None) h = Some c"
    by (simp add: stx_cache_create_def)
  have "cache_inv c (replicate (unat (101 :: size_t)) []) []" by (rule create_inv [OF c]) (simp_all add: fresh_memory_def)
  moreover have "key_hash_fn c = hash_hostname" "key_cmp_fn c = key_strcmp" "max_weight c = 10000" using c by (auto simp: stx_cache_create_def)
  ultimately have "dns_inv c (replicate (unat (101 :: size_t)) []) []" "unat (max_weight c) + 4312 < 2 ^ 64" by (simp_all add: dns_inv_def set_concat)
  then show ?thesis using c by (auto simp: stx_dns_cache_init_def shell_ok_def dns_ok_def)
qed


definition demo_env :: env where
  "demo_env = \<lparr>e_res = demo_resolver, e_now1 = 100, e_now2 = 101,
     e_al = (\<lambda>s. demo_allocs\<lparr>entry_at := (case dns_cache s of Some c \<Rightarrow> if ent c 7 = None then Some 7 else None | None \<Rightarrow> None)\<rparr>)\<rparr>"

lemma demo_env_ok: "env_ok demo_env"
  unfolding env_ok_def resolver_ok_def by (auto simp: demo_env_def demo_resolver_def fresh_entry_def dns_ok_def dns_conf_def split: option.splits if_splits)


text \<open>If the cache could not be allocated, the commands that use it directly go through a null pointer.\<close>

lemma no_cache_crash:
  "command_loop ((''lru'', v) # ls) \<lparr>dns_cache = None, dns_ttl = 0\<rparr> = None"
  by (simp add: scan_word_def is_space_def LINE_SIZE_def run_command_def show_lru_def)

end
