(* ===== verification/Fileio.thy ===== *)
theory Fileio
  imports Netio Cstdlib
begin

text \<open>
  extensions/stx_fileio.c: reading a file through a forked process, so that other threads are not blocked. The commands and the
  answers are the bytes of 64-bit integers on the two pipes. The child is a function from a command to the bytes it
  writes; the results of \<open>pipe\<close>, \<open>fork\<close> and \<open>calloc\<close> and the attempts of the transfers are arguments. Writing
  behind the buffer of the child, or using a null pointer, yields \<open>None\<close>.
\<close>

section \<open>Commands\<close>

type_synonym off64 = "64 word"

record file_reader_cb =
  cb_offset :: off64
  cb_nbytes :: off64

definition FILEREADER_MAX_READ :: nat where "FILEREADER_MAX_READ = 1024"

definition cb_bytes :: "file_reader_cb \<Rightarrow> byte list" where
  "cb_bytes cb = le_bytes 8 (cb_offset cb) @ le_bytes 8 (cb_nbytes cb)"

definition cb_of :: "byte list \<Rightarrow> file_reader_cb" where
  "cb_of bs = \<lparr>cb_offset = of_le (take 8 bs), cb_nbytes = of_le (drop 8 bs)\<rparr>"

lemma length_cb_bytes [simp]: "length (cb_bytes cb) = 16"
  by (simp add: cb_bytes_def)

lemma cb_of_bytes [simp]: "cb_of (cb_bytes cb) = cb"
  by (simp add: cb_of_def cb_bytes_def of_le_bytes)

section \<open>The child\<close>

text \<open>
  The variable \<open>pos\<close> of the child, the position of the open file in the kernel (which the parent may have moved before the fork), and the bytes in the output pipe.
\<close>

record reader =
  r_pos :: off64
  r_kernel :: off64
  r_pipe :: "byte list"

definition reader_start :: "off64 \<Rightarrow> reader" where
  "reader_start k = \<lparr>r_pos = 0, r_kernel = k, r_pipe = []\<rparr>"

text \<open>
  One turn of the loop: \<open>bs\<close> is what \<open>read\<close> returns from the control pipe, \<open>ok\<close> the success of reading the file; the flag tells
  whether the loop goes on.
\<close>

definition reader_step :: "byte list \<Rightarrow> bool \<Rightarrow> byte list \<Rightarrow> reader \<Rightarrow> (bool \<times> reader) option" where
  "reader_step file ok bs r =
    (if length bs \<noteq> 16 then Some (False, r)
     else (let cb = cb_of bs
           in if sint (cb_nbytes cb) \<le> 0 then Some (False, r)
              else (let r = (if r_pos r \<noteq> cb_offset cb
                             then (if sint (cb_offset cb) < 0 then r\<lparr>r_pos := - 1\<rparr> else r\<lparr>r_pos := cb_offset cb, r_kernel := cb_offset cb\<rparr>)
                             else r)
                    in if r_pos r = - 1 then Some (False, r)
                       else if \<not> ok then Some (False, r)
                       else (let data = take (unat (cb_nbytes cb)) (drop (unat (r_kernel r)) file); nb = word_of_nat (length data)
                             in if length data > FILEREADER_MAX_READ then None
                                else Some (True, \<lparr>r_pos = r_pos r + nb, r_kernel = r_kernel r + nb,
                                                  r_pipe = r_pipe r @ le_bytes 8 nb @ data\<rparr>)))))"

text \<open>What \<open>file_reader\<close> returns in the parent: the process, the descriptors of the control and the output pipe, and the descriptors it has closed.\<close>

definition file_reader :: "(int \<times> int) option \<Rightarrow> (int \<times> int) option \<Rightarrow> int \<Rightarrow> int \<times> (int \<times> int) option \<times> int list" where
  "file_reader pipe1 pipe2 pid =
    (case pipe1 of None \<Rightarrow> (- 1, None, [])
     | Some (c0, c1) \<Rightarrow>
        (case pipe2 of None \<Rightarrow> (- 1, None, [])
         | Some (o0, o1) \<Rightarrow> if pid = - 1 then (- 1, None, [c0, c1, o0, o1]) else (pid, Some (c1, o0), [o1, c0])))"

section \<open>The parent\<close>

record fileio_data =
  data_fd :: "nid option"
  control_fd :: "nid option"
  fd_pid :: int

text \<open>The network state with the \<open>fileio_data_t\<close> objects and the processes that have been waited for; the destructor is a fixed pointer.\<close>

record 'm fiow = "'m netw" +
  fdat :: "ptr \<Rightarrow> fileio_data option"
  reaped :: "int list"

definition fileio_data_destructor_ptr :: ptr where "fileio_data_destructor_ptr = 900"

record fscript =
  f_pipe1 :: "(int \<times> int) option"
  f_pipe2 :: "(int \<times> int) option"
  f_fork :: int
  f_calloc :: ptr
  f_nfd1 :: "nid option"
  f_nfd2 :: "nid option"

definition get_fileio_data :: "nid \<Rightarrow> fscript \<Rightarrow> ('m, 'z) fiow_scheme \<Rightarrow> (ptr \<times> ('m, 'z) fiow_scheme) option" where
  "get_fileio_data nf fs w =
    (let dat = st_netfd_getspecific (Some nf) w
     in if dat \<noteq> 0 then Some (dat, w)
        else (case file_reader (f_pipe1 fs) (f_pipe2 fs) (f_fork fs) of
                (_, None, _) \<Rightarrow> Some (0, w)
              | (pid, Some (fd_control, fd_out), _) \<Rightarrow>
                 (if f_calloc fs = 0 then None
                  else (let (ctl, w) = st_netfd_open fd_control (f_nfd1 fs) w;
                            (dt, w) = st_netfd_open fd_out (f_nfd2 fs) w;
                            w = w\<lparr>fdat := (fdat w)(f_calloc fs \<mapsto> \<lparr>data_fd = dt, control_fd = ctl, fd_pid = pid\<rparr>)\<rparr>
                        in Some (f_calloc fs, st_netfd_setspecific (Some nf) (f_calloc fs) fileio_data_destructor_ptr w)))))"

text \<open>
  The request itself: the attempts of the two reads may depend on the bytes that were sent. Reading fewer than 8 bytes overwrites
  the first bytes of the \<open>-1\<close> in \<open>ret\<close>. The result, the bytes in the caller's buffer, and the bytes that went to the control pipe.
\<close>

definition read_section :: "'m cmap \<Rightarrow> pqid \<Rightarrow> fileio_data \<Rightarrow> off64 \<Rightarrow> off64 \<Rightarrow> utime \<Rightarrow> (nat osres \<times> ('m, 'z) net_others) list
    \<Rightarrow> (byte list \<Rightarrow> (byte list osres \<times> ('m, 'z) net_others) list) \<Rightarrow> (byte list \<Rightarrow> nat \<Rightarrow> (byte list osres \<times> ('m, 'z) net_others) list)
    \<Rightarrow> ('m, 'z) netw_scheme \<Rightarrow> (off64 \<times> byte list \<times> byte list \<times> ('m, 'z) netw_scheme) option" where
  "read_section ops p dat offset nbytes timeout wr rd1 rd2 w =
    (let cb = \<lparr>cb_offset = offset, cb_nbytes = nbytes\<rparr>
     in (case st_write ops p (control_fd dat) (cb_bytes cb) timeout wr w of None \<Rightarrow> None
         | Some (_, sent, w) \<Rightarrow>
            (case st_read ops p (data_fd dat) timeout (rd1 sent) w of None \<Rightarrow> None
             | Some (Inl e, w) \<Rightarrow> Some (- 1, [], sent, w)
             | Some (Inr bs, w) \<Rightarrow>
                (if length bs > 8 then None
                 else (let ret = of_le (bs @ drop (length bs) (le_bytes 8 (- 1 :: off64))) :: off64
                       in if length bs = 8 \<and> 0 < sint ret \<and> ret \<le> nbytes
                          then (case st_read ops p (data_fd dat) timeout (rd2 sent (unat ret)) w of None \<Rightarrow> None
                                | Some (Inl e, w) \<Rightarrow> Some (- 1, [], sent, w)
                                | Some (Inr data, w) \<Rightarrow>
                                   if length data > unat ret then None else Some (word_of_nat (length data), data, sent, w))
                          else Some (ret, [], sent, w))))))"



definition stx_file_read :: "'m cmap \<Rightarrow> pqid \<Rightarrow> nid \<Rightarrow> fscript \<Rightarrow> off64 \<Rightarrow> off64 \<Rightarrow> utime
    \<Rightarrow> (nat osres \<times> (('m, 'z) fiow_scheme \<Rightarrow> ('m, 'z) fiow_scheme option)) list
    \<Rightarrow> (byte list \<Rightarrow> (byte list osres \<times> (('m, 'z) fiow_scheme \<Rightarrow> ('m, 'z) fiow_scheme option)) list)
    \<Rightarrow> (byte list \<Rightarrow> nat \<Rightarrow> (byte list osres \<times> (('m, 'z) fiow_scheme \<Rightarrow> ('m, 'z) fiow_scheme option)) list)
    \<Rightarrow> ('m, 'z) fiow_scheme \<Rightarrow> (off64 \<times> byte list \<times> byte list \<times> ('m, 'z) fiow_scheme) option" where
  "stx_file_read ops p nf fs offset nbytes timeout wr rd1 rd2 w =
    (case get_fileio_data nf fs w of None \<Rightarrow> None
     | Some (dp, w) \<Rightarrow>
        (if dp = 0 then Some (- 1, [], [], w)
         else (case fdat w dp of None \<Rightarrow> None
               | Some dat \<Rightarrow> read_section ops p dat offset nbytes timeout wr rd1 rd2 w)))"

text \<open>The destructor: the bytes that tell the child to stop are returned too.\<close>

definition fileio_data_destructor :: "'m cmap \<Rightarrow> pqid \<Rightarrow> ptr \<Rightarrow> int \<Rightarrow> (nat osres \<times> (('m, 'z) fiow_scheme \<Rightarrow> ('m, 'z) fiow_scheme option)) list
    \<Rightarrow> ('m, 'z) fiow_scheme \<Rightarrow> (byte list \<times> ('m, 'z) fiow_scheme) option" where
  "fileio_data_destructor ops p dp last_err wr w =
    (if dp = 0 then Some ([], w)
     else (case fdat w dp of None \<Rightarrow> None
           | Some dat \<Rightarrow>
              (case st_write ops p (control_fd dat) (cb_bytes \<lparr>cb_offset = 0, cb_nbytes = 0\<rparr>) ST_UTIME_NO_TIMEOUT wr w of None \<Rightarrow> None
               | Some (_, sent, w) \<Rightarrow>
                  (let w = w\<lparr>reaped := reaped w @ [fd_pid dat]\<rparr>;
                       w = snd (st_netfd_close ops (control_fd dat) last_err w);
                       w = snd (st_netfd_close ops (data_fd dat) last_err w)
                   in Some (sent, w\<lparr>fdat := (fdat w)(dp := None)\<rparr>)))))"

section \<open>Requests and answers\<close>

text \<open>
  A session of requests with one child: the command is written in one piece, as a pipe takes 16 bytes, after some attempts; each read
  gets the first bytes of the output pipe, as many as it asks for.
\<close>

record ('m, 'z) request =
  rq_off :: off64
  rq_len :: off64
  rq_wr :: "(int \<times> ('m, 'z) net_others) list"
  rq_rd1 :: "(int \<times> ('m, 'z) net_others) list"
  rq_rd2 :: "(int \<times> ('m, 'z) net_others) list"

definition answer :: "byte list \<Rightarrow> byte list \<Rightarrow> reader \<Rightarrow> byte list" where
  "answer file sent r = (case reader_step file True sent r of None \<Rightarrow> [] | Some (_, r) \<Rightarrow> r_pipe r)"

fun file_session :: "'m cmap \<Rightarrow> pqid \<Rightarrow> fileio_data \<Rightarrow> byte list \<Rightarrow> utime \<Rightarrow> ('m, 'z) request list \<Rightarrow> ('m, 'z) netw_scheme \<Rightarrow> reader
    \<Rightarrow> ((off64 \<times> byte list) list \<times> ('m, 'z) netw_scheme \<times> reader) option" where
  "file_session ops p dat file timeout [] w r = Some ([], w, r)"
| "file_session ops p dat file timeout (q # qs) w r =
    (case read_section ops p dat (rq_off q) (rq_len q) timeout (attempts (rq_wr q) @ [(OsOk 16, Some)])
        (\<lambda>sent. attempts (rq_rd1 q) @ [(OsOk (take 8 (answer file sent r)), Some)])
        (\<lambda>sent n. attempts (rq_rd2 q) @ [(OsOk (take n (drop 8 (answer file sent r))), Some)]) w of None \<Rightarrow> None
     | Some (ret, data, sent, w) \<Rightarrow>
        (case reader_step file True sent r of None \<Rightarrow> None
         | Some (_, r) \<Rightarrow>
            (case file_session ops p dat file timeout qs w (r\<lparr>r_pipe := drop (8 + length data) (r_pipe r)\<rparr>) of None \<Rightarrow> None
             | Some (rs, w, r) \<Rightarrow> Some ((ret, data) # rs, w, r))))"

text \<open>The child in step with the kernel, and a request that fits its buffer.\<close>

definition in_step :: "reader \<Rightarrow> bool" where
  "in_step r \<longleftrightarrow> r_pos r = r_kernel r \<and> r_pipe r = []"

definition request_fits :: "('m, 'z) request \<Rightarrow> bool" where
  "request_fits q \<longleftrightarrow> 0 < unat (rq_len q) \<and> unat (rq_len q) \<le> FILEREADER_MAX_READ \<and> unat (rq_off q) < 2 ^ 62"

definition section_of :: "byte list \<Rightarrow> ('m, 'z) request \<Rightarrow> byte list" where
  "section_of file q = take (unat (rq_len q)) (drop (unat (rq_off q)) file)"

lemma sint_small: "unat w < 2 ^ 63 \<Longrightarrow> sint (w :: off64) = int (unat w)"
proof -
  assume "unat w < 2 ^ 63"
  then have "uint w < 2 ^ 63" by (metis of_nat_less_iff of_nat_numeral of_nat_power uint_nat)
  moreover have "- (2 ^ 63) \<le> uint w" by (rule order_trans [of _ 0]) simp_all
  ultimately have "signed_take_bit 63 (uint w) = uint w" by (intro signed_take_bit_int_eq_self)
  then show ?thesis by (simp add: sint_uint uint_nat [symmetric])
qed

lemma sint_pos: "0 < unat w \<Longrightarrow> unat w < 2 ^ 63 \<Longrightarrow> 0 < sint (w :: off64)"
  by (simp only: sint_small of_nat_0_less_iff)

lemma reader_step_ok:
  assumes "in_step r" and "request_fits q" and "d = section_of file q"
  obtains r' where "reader_step file True (cb_bytes \<lparr>cb_offset = rq_off q, cb_nbytes = rq_len q\<rparr>) r = Some (True, r')"
    and "r_pipe r' = le_bytes 8 (word_of_nat (length d) :: off64) @ d" and "r_pos r' = r_kernel r'"
proof -
  have f: "0 < unat (rq_len q)" "unat (rq_len q) \<le> 1024" "unat (rq_off q) < 2 ^ 62" using assms(2) by (auto simp: request_fits_def FILEREADER_MAX_READ_def)
  have s: "sint (rq_len q) > 0" "\<not> sint (rq_off q) < 0" "rq_off q \<noteq> - 1"
  proof -
    show "sint (rq_len q) > 0" by (rule sint_pos) (use f(1,2) in simp_all)
    have "sint (rq_off q) = int (unat (rq_off q))" by (rule sint_small) (use f(3) in simp)
    then show o: "\<not> sint (rq_off q) < 0" by linarith
    then show "rq_off q \<noteq> - 1" by auto
  qed
  have d: "take (unat (rq_len q)) (drop (unat (rq_off q)) file) = d" "\<not> length d > FILEREADER_MAX_READ"
    using f(2) by (simp_all add: assms(3) section_of_def FILEREADER_MAX_READ_def)
  have r: "r_kernel r = r_pos r" "r_pipe r = []" using assms(1) by (auto simp: in_step_def)
  have "reader_step file True (cb_bytes \<lparr>cb_offset = rq_off q, cb_nbytes = rq_len q\<rparr>) r =
      Some (True, \<lparr>r_pos = rq_off q + word_of_nat (length d), r_kernel = rq_off q + word_of_nat (length d),
        r_pipe = le_bytes 8 (word_of_nat (length d) :: off64) @ d\<rparr>)"
    unfolding reader_step_def cb_of_bytes length_cb_bytes Let_def using s d r by (cases "r_pos r = rq_off q") (simp_all add: not_le)
  then show thesis by (rule that) simp_all
qed

lemma request_ok:
  assumes w: "calm ops p me w" and nf: "control_fd dat = Some i" "data_fd dat = Some j" and r: "in_step r" and q: "request_fits q"
    and at: "attempts_ok ops p me (rq_wr q)" "attempts_ok ops p me (rq_rd1 q)" "attempts_ok ops p me (rq_rd2 q)" and d_def: "d = section_of file q"
  shows "\<exists>w' r'. calm ops p me w' \<and> in_step r' \<and>
    file_session ops p dat file timeout (q # qs) w r =
      (case file_session ops p dat file timeout qs w' r' of None \<Rightarrow> None
       | Some (rs, w, r) \<Rightarrow> Some ((word_of_nat (length d), d) # rs, w, r))"
proof -
  let ?cb = "cb_bytes \<lparr>cb_offset = rq_off q, cb_nbytes = rq_len q\<rparr>"
  let ?nb = "word_of_nat (length d) :: off64"
  obtain r1 where r1: "reader_step file True ?cb r = Some (True, r1)" "r_pipe r1 = le_bytes 8 ?nb @ d" "r_pos r1 = r_kernel r1"
    by (rule reader_step_ok [OF r q d_def])
  have len: "length d \<le> unat (rq_len q)" "length d \<le> 1024" using q by (auto simp: d_def section_of_def request_fits_def FILEREADER_MAX_READ_def)
  have nb: "unat ?nb = length d" using len(2) by (simp add: unat_of_nat)
  have snb: "sint ?nb = int (length d)" using sint_small [of ?nb] nb len(2) by simp
  have le: "?nb \<le> rq_len q" using len(1) nb by (simp add: word_le_nat_alt)
  have an: "answer file ?cb r = le_bytes 8 ?nb @ d" by (simp add: answer_def r1)
  obtain w1 where w1: "st_write ops p (Some i) ?cb timeout (attempts (rq_wr q) @ [(OsOk 16, Some)]) w = Some (Inr 16, ?cb, w1)" "calm ops p me w1"
    using send_command [OF w at(1), of ?cb 16 i timeout Some] by auto
  obtain w2 where w2: "st_read ops p (Some j) timeout (attempts (rq_rd1 q) @ [(OsOk (le_bytes 8 ?nb), Some)]) w1 = Some (Inr (le_bytes 8 ?nb), w2)"
      "calm ops p me w2" using read_answer [OF w1(2) at(2)] by blast
  obtain w3 where w3: "st_read ops p (Some j) timeout (attempts (rq_rd2 q) @ [(OsOk d, Some)]) w2 = Some (Inr d, w3)" "calm ops p me w3"
    using read_answer [OF w2(2) at(3)] by blast
  have ret: "of_le (le_bytes 8 ?nb @ drop (length (le_bytes 8 ?nb)) (le_bytes 8 (- 1 :: off64))) = ?nb" by (simp add: of_le_bytes)
  let ?w = "if d = [] then w2 else w3"
  have "read_section ops p dat (rq_off q) (rq_len q) timeout (attempts (rq_wr q) @ [(OsOk 16, Some)])
        (\<lambda>sent. attempts (rq_rd1 q) @ [(OsOk (take 8 (answer file sent r)), Some)])
        (\<lambda>sent n. attempts (rq_rd2 q) @ [(OsOk (take n (drop 8 (answer file sent r))), Some)]) w = Some (?nb, d, ?cb, ?w)"
    using w1(1) w2(1) w3(1) le nb snb ret unfolding read_section_def nf Let_def by (cases "d = []") (simp_all add: an)
  moreover have "calm ops p me ?w" using w2(2) w3(2) by simp
  moreover have "in_step (r1\<lparr>r_pipe := drop (8 + length d) (r_pipe r1)\<rparr>)" by (simp add: in_step_def r1)
  ultimately show ?thesis
    by (intro exI [of _ ?w] exI [of _ "r1\<lparr>r_pipe := drop (8 + length d) (r_pipe r1)\<rparr>"]) (simp add: r1(1))
qed


lemma file_session_ok:
  "calm ops p me w \<Longrightarrow> control_fd dat = Some i \<Longrightarrow> data_fd dat = Some j \<Longrightarrow> in_step r \<Longrightarrow>
    \<forall>q \<in> set qs. request_fits q \<and> attempts_ok ops p me (rq_wr q) \<and> attempts_ok ops p me (rq_rd1 q) \<and> attempts_ok ops p me (rq_rd2 q) \<Longrightarrow>
    \<exists>w' r'. file_session ops p dat file timeout qs w r = Some (map (\<lambda>q. (word_of_nat (length (section_of file q)), section_of file q)) qs, w', r') \<and>
      calm ops p me w' \<and> in_step r'"
proof (induction qs arbitrary: w r)
  case (Cons q qs)
  have q: "request_fits q" "attempts_ok ops p me (rq_wr q)" "attempts_ok ops p me (rq_rd1 q)" "attempts_ok ops p me (rq_rd2 q)" using Cons.prems(5) by auto
  obtain w1 r1 where 1: "calm ops p me w1" "in_step r1" "file_session ops p dat file timeout (q # qs) w r =
      (case file_session ops p dat file timeout qs w1 r1 of None \<Rightarrow> None
       | Some (rs, w, r) \<Rightarrow> Some ((word_of_nat (length (section_of file q)), section_of file q) # rs, w, r))"
    using request_ok [OF Cons.prems(1-4) q refl] by blast
  obtain w' r' where "file_session ops p dat file timeout qs w1 r1 = Some (map (\<lambda>q. (word_of_nat (length (section_of file q)), section_of file q)) qs, w', r')"
      "calm ops p me w'" "in_step r'"
    using Cons.IH [OF 1(1) Cons.prems(2,3) 1(2)] Cons.prems(5) by auto
  then show ?case using 1(3) by simp
qed simp


definition demo_dat :: fileio_data where
  "demo_dat = \<lparr>data_fd = Some 3, control_fd = Some 2, fd_pid = 7\<rparr>"

definition demo_request :: "off64 \<Rightarrow> (int \<Rightarrow> int option, unit) request" where
  "demo_request off = \<lparr>rq_off = off, rq_len = 3, rq_wr = [(10004, idle_out 8 5)], rq_rd1 = [(10035, idle_out 8 5)], rq_rd2 = []\<rparr>"


text \<open>A request for more bytes than the buffer of the child has, in a file that has them, writes behind the buffer.\<close>

lemma large_request_overflows:
  assumes "unat (rq_len q) > FILEREADER_MAX_READ" and "unat (rq_len q) < 2 ^ 62" and "length file > FILEREADER_MAX_READ" and "rq_off q = 0"
  shows "reader_step file ok (cb_bytes \<lparr>cb_offset = rq_off q, cb_nbytes = rq_len q\<rparr>) (reader_start 0) = (if ok then None else Some (False, reader_start 0))"
proof -
  have "sint (rq_len q) > 0" by (rule sint_pos) (use assms(1,2) in simp_all)
  then show ?thesis using assms by (simp add: reader_step_def Let_def reader_start_def)
qed

text \<open>If the parent has moved the file before the fork, a first request at offset 0 is read at the wrong place.\<close>

lemma moved_file_misread:
  "reader_step [1, 2, 3] True (cb_bytes \<lparr>cb_offset = 0, cb_nbytes = 1\<rparr>) (reader_start 2) =
     Some (True, \<lparr>r_pos = 1, r_kernel = 3, r_pipe = le_bytes 8 (1 :: off64) @ [3]\<rparr>)"
  by (simp add: reader_step_def Let_def reader_start_def FILEREADER_MAX_READ_def)

text \<open>The first call for a descriptor starts a child, later calls find it.\<close>

lemma get_fileio_data_once:
  assumes "get_fileio_data nf fs w = Some (dp, w')" and "dp \<noteq> 0" and "f_nfd1 fs \<noteq> Some nf" and "f_nfd2 fs \<noteq> Some nf"
  shows "get_fileio_data nf fs' w' = Some (dp, w')"
  using assms
  by (auto simp: get_fileio_data_def st_netfd_getspecific_def st_netfd_setspecific_def Let_def upd_nf_def split: prod.splits option.splits if_splits)

end
