(* ===== verification/Errlog.thy ===== *)
theory Errlog
  imports Cstdlib
begin

text \<open>
  examples/error.c: the error reports of the server, with the time stamp that is computed once a second. What \<open>vsprintf\<close> makes of a
  format and its arguments and the texts of \<open>strerror\<close> are arguments, as are \<open>localtime\<close> and the clock (\<open>st_time\<close>). Writing behind one of the two buffers yields
  \<open>None\<close>.
\<close>

section \<open>Time stamps\<close>

record tm =
  tm_mday :: int
  tm_mon :: int
  tm_year :: int
  tm_hour :: int
  tm_min :: int
  tm_sec :: int

definition months :: "string list" where
  "months = [''Jan'', ''Feb'', ''Mar'', ''Apr'', ''May'', ''Jun'', ''Jul'', ''Aug'', ''Sep'', ''Oct'', ''Nov'', ''Dec'']"

definition stamp_text :: "tm \<Rightarrow> string" where
  "stamp_text t = ''['' @ show_02d (tm_mday t) @ ''/'' @ months ! nat (tm_mon t) @ ''/'' @ show_int (1900 + tm_year t) @ '':'' @
     show_02d (tm_hour t) @ '':'' @ show_02d (tm_min t) @ '':'' @ show_02d (tm_sec t) @ ''] ''"

text \<open>The static variables of \<open>err_tstamp\<close>, at first empty and 0.\<close>

record errst =
  ts_str :: string
  lastt :: int

definition err_start :: errst where "err_start = \<lparr>ts_str = [], lastt = 0\<rparr>"

definition err_tstamp :: "(int \<Rightarrow> tm) \<Rightarrow> int \<Rightarrow> errst \<Rightarrow> (string \<times> errst) option" where
  "err_tstamp localtime currt s =
    (if currt = lastt s then Some (ts_str s, s)
     else (let t = localtime currt
           in if tm_mon t < 0 \<or> nat (tm_mon t) \<ge> length months then None
              else (let str = stamp_text t
                    in if length str \<ge> 32 then None else Some (str, \<lparr>ts_str = str, lastt = currt\<rparr>))))"

section \<open>Reports\<close>

definition MAXLINE :: nat where "MAXLINE = 4096"

text \<open>The line that is written: \<open>msg\<close> is the result of \<open>vsprintf\<close>, \<open>errtext\<close> that of \<open>strerror\<close>.\<close>

definition err_doit :: "(int \<Rightarrow> tm) \<Rightarrow> int \<Rightarrow> bool \<Rightarrow> string \<Rightarrow> string \<Rightarrow> errst \<Rightarrow> (string \<times> errst) option" where
  "err_doit localtime currt errnoflag msg errtext s =
    (case err_tstamp localtime currt s of None \<Rightarrow> None
     | Some (stamp, s) \<Rightarrow>
        (let buf = stamp @ msg @ (if errnoflag then '': '' @ errtext @ [CHR 0x0A] else [CHR 0x0A])
         in if length buf \<ge> MAXLINE then None else Some (buf, s)))"

text \<open>How a report goes on: it returns, or the program exits with 1 or aborts.\<close>

datatype err_end = Returns | Exits | Aborts

definition report :: "err_end \<Rightarrow> (string \<times> errst) option \<Rightarrow> (string \<times> err_end \<times> errst) option" where
  "report e r = map_option (\<lambda>(line, s). (line, e, s)) r"

definition err_sys_report :: "(int \<Rightarrow> tm) \<Rightarrow> int \<Rightarrow> string \<Rightarrow> string \<Rightarrow> errst \<Rightarrow> (string \<times> err_end \<times> errst) option" where
  "err_sys_report localtime currt msg errtext s = report Returns (err_doit localtime currt True msg errtext s)"

definition err_sys_quit :: "(int \<Rightarrow> tm) \<Rightarrow> int \<Rightarrow> string \<Rightarrow> string \<Rightarrow> errst \<Rightarrow> (string \<times> err_end \<times> errst) option" where
  "err_sys_quit localtime currt msg errtext s = report Exits (err_doit localtime currt True msg errtext s)"

definition err_sys_dump :: "(int \<Rightarrow> tm) \<Rightarrow> int \<Rightarrow> string \<Rightarrow> string \<Rightarrow> errst \<Rightarrow> (string \<times> err_end \<times> errst) option" where
  "err_sys_dump localtime currt msg errtext s = report Aborts (err_doit localtime currt True msg errtext s)"

definition err_report :: "(int \<Rightarrow> tm) \<Rightarrow> int \<Rightarrow> string \<Rightarrow> string \<Rightarrow> errst \<Rightarrow> (string \<times> err_end \<times> errst) option" where
  "err_report localtime currt msg errtext s = report Returns (err_doit localtime currt False msg errtext s)"

definition err_quit :: "(int \<Rightarrow> tm) \<Rightarrow> int \<Rightarrow> string \<Rightarrow> string \<Rightarrow> errst \<Rightarrow> (string \<times> err_end \<times> errst) option" where
  "err_quit localtime currt msg errtext s = report Exits (err_doit localtime currt False msg errtext s)"

text \<open>A sequence of reports that return, each with the clock, the flag, the message and the text of the error.\<close>

fun err_reports :: "(int \<Rightarrow> tm) \<Rightarrow> (int \<times> bool \<times> string \<times> string) list \<Rightarrow> errst \<Rightarrow> (string list \<times> errst) option" where
  "err_reports localtime [] s = Some ([], s)"
| "err_reports localtime ((t, sys, msg, e) # rs) s =
    (case (if sys then err_sys_report localtime t msg e s else err_report localtime t msg e s) of None \<Rightarrow> None
     | Some (line, _, s) \<Rightarrow>
        (case err_reports localtime rs s of None \<Rightarrow> None | Some (ls, s) \<Rightarrow> Some (line # ls, s)))"

section \<open>The cached time stamp\<close>

text \<open>What the C library says about the fields; years have at most four digits.\<close>

definition tm_ok :: "tm \<Rightarrow> bool" where
  "tm_ok t \<longleftrightarrow> 1 \<le> tm_mday t \<and> tm_mday t \<le> 31 \<and> 0 \<le> tm_mon t \<and> tm_mon t \<le> 11 \<and> - 1900 \<le> tm_year t \<and> tm_year t < 8100 \<and>
     0 \<le> tm_hour t \<and> tm_hour t \<le> 23 \<and> 0 \<le> tm_min t \<and> tm_min t \<le> 59 \<and> 0 \<le> tm_sec t \<and> tm_sec t \<le> 60"

lemma months_length: "0 \<le> m \<Longrightarrow> m \<le> 11 \<Longrightarrow> length (months ! nat m) = 3"
proof -
  assume "0 \<le> m" "m \<le> 11"
  then have "nat m < length months" by (simp add: months_def nat_less_iff)
  then have "months ! nat m \<in> set months" by (rule nth_mem)
  then show ?thesis by (auto simp: months_def)
qed

lemma stamp_text_length: "tm_ok t \<Longrightarrow> length (stamp_text t) \<le> 23"
  using show_int_length [of 3 "1900 + tm_year t"]
  by (simp add: tm_ok_def stamp_text_def show_02d_length months_length)

definition stamp_ok :: "(int \<Rightarrow> tm) \<Rightarrow> errst \<Rightarrow> bool" where
  "stamp_ok localtime s \<longleftrightarrow> lastt s \<noteq> 0 \<longrightarrow> ts_str s = stamp_text (localtime (lastt s))"

lemma err_tstamp_ok:
  assumes "tm_ok (localtime t)" and "t \<noteq> 0" and "stamp_ok localtime s"
  obtains s' where "err_tstamp localtime t s = Some (stamp_text (localtime t), s')" and "stamp_ok localtime s'"
proof -
  have "tm_mon (localtime t) \<ge> 0" "nat (tm_mon (localtime t)) < length months" using assms(1) by (auto simp: tm_ok_def months_def nat_less_iff)
  then show thesis
    using that assms stamp_text_length [OF assms(1)] by (cases "t = lastt s") (auto simp: err_tstamp_def stamp_ok_def Let_def)
qed

text \<open>The reference: every line carries the stamp of its own time.\<close>

definition log_line :: "(int \<Rightarrow> tm) \<Rightarrow> int \<times> bool \<times> string \<times> string \<Rightarrow> string" where
  "log_line localtime = (\<lambda>(t, sys, msg, e). stamp_text (localtime t) @ msg @ (if sys then '': '' @ e else []) @ [CHR 0x0A])"

definition line_fits :: "(int \<Rightarrow> tm) \<Rightarrow> int \<times> bool \<times> string \<times> string \<Rightarrow> bool" where
  "line_fits localtime = (\<lambda>(t, sys, msg, e). t \<noteq> 0 \<and> tm_ok (localtime t) \<and> length msg + (if sys then length e + 2 else 0) < MAXLINE - 24)"

lemma err_doit_ok:
  assumes "line_fits localtime (t, sys, msg, e)" and "stamp_ok localtime s"
  obtains s' where "err_doit localtime t sys msg e s = Some (log_line localtime (t, sys, msg, e), s')" and "stamp_ok localtime s'"
proof -
  have f: "tm_ok (localtime t)" "t \<noteq> 0" "length msg + (if sys then length e + 2 else 0) < MAXLINE - 24" using assms(1) by (auto simp: line_fits_def)
  obtain s' where "err_tstamp localtime t s = Some (stamp_text (localtime t), s')" "stamp_ok localtime s'"
    using err_tstamp_ok [OF f(1,2) assms(2)] .
  then have "err_doit localtime t sys msg e s = Some (log_line localtime (t, sys, msg, e), s')"
    using f(3) stamp_text_length [OF f(1)] by (cases sys) (simp_all add: err_doit_def log_line_def Let_def)
  then show thesis using that \<open>stamp_ok localtime s'\<close> by blast
qed

lemma err_reports_ok:
  "\<forall>r \<in> set rs. line_fits localtime r \<Longrightarrow> stamp_ok localtime s \<Longrightarrow>
    \<exists>s'. err_reports localtime rs s = Some (map (log_line localtime) rs, s')"
proof (induction rs arbitrary: s)
  case (Cons r rs)
  obtain t sys msg e where r: "r = (t, sys, msg, e)" by (cases r)
  obtain s1 where s1: "err_doit localtime t sys msg e s = Some (log_line localtime r, s1)" "stamp_ok localtime s1"
    using err_doit_ok [of localtime t sys msg e s] Cons.prems by (auto simp: r)
  obtain s2 where "err_reports localtime rs s1 = Some (map (log_line localtime) rs, s2)" using Cons.IH [OF _ s1(2)] Cons.prems(1) by auto
  then show ?case using s1(1) by (cases sys) (simp_all add: r err_sys_report_def err_report_def report_def)
qed simp


definition demo_time :: "int \<Rightarrow> tm" where
  "demo_time t = \<lparr>tm_mday = 7, tm_mon = 2, tm_year = 124, tm_hour = 9, tm_min = t mod 3600 div 60, tm_sec = t mod 60\<rparr>"


text \<open>A message that does not fit writes behind the line buffer.\<close>

lemma long_message_overflows:
  assumes "tm_ok (localtime t)" and "t \<noteq> 0" and "stamp_ok localtime s" and "length msg \<ge> MAXLINE"
  shows "err_doit localtime t sys msg e s = None"
proof -
  obtain s' where "err_tstamp localtime t s = Some (stamp_text (localtime t), s')" using err_tstamp_ok [OF assms(1-3)] by blast
  then show ?thesis using assms(4) by (simp add: err_doit_def Let_def)
qed

end
