(* ===== verification/Spec2Isabelle.thy ===== *)
theory Spec2Isabelle
  imports Prelude Clist Timeout_Heap Sched_State Sched Sync Sync_Machine Keys Stacks Threads Event Poll Netio
    Lrucache Lrucache_Inv Lrucache_Spec Dnscache Dnsres Dnsres_Spec Fiber Cstdlib Process Proxy Server Server_Main Testdns Fileio Errlog
begin

text \<open>
  A verification development of the State Threads library in its port to Windows fibers, with its extensions (an LRU cache, a DNS cache and
  resolver, a file reader) and its example programs (proxy, server, error reports). This root theory imports all parts and holds
  this overview; the properties stand in the theories of the components they are about.

  \<^bold>\<open>The program.\<close> The library multiplexes many threads on one \<^emph>\<open>virtual processor\<close> (VP): a process thread whose fibers are switched by
  hand. A thread runs until it blocks. \<^verbatim>\<open>_st_vp_schedule\<close> then takes the first thread of the run queue, or the idle thread if
  there is none; the idle thread waits in \<^verbatim>\<open>select\<close> for descriptors, moves the threads whose descriptors are ready to the run
  queue, and wakes the sleepers whose time has come. Sleepers are kept in a binary heap. Condition variables, mutexes, joins and I/O
  waits are built from these queues. The blocking I/O functions try a non-blocking system call and wait in \<^verbatim>\<open>st_poll\<close> when it cannot
  proceed. The extensions and examples are clients of this interface.

  \<^bold>\<open>The theories.\<close> Paths are relative to \<^verbatim>\<open>src/\<close>.
  \<^item> \<open>Prelude\<close>: machine types, \<open>errno\<close> values, thread states and flags (\<^verbatim>\<open>common.h\<close>, \<^verbatim>\<open>st.h\<close>, \<^verbatim>\<open>md.h\<close>), and shared lemmas.
  \<^item> \<open>Clist\<close>: the intrusive circular lists of \<^verbatim>\<open>common.h\<close> and \<^verbatim>\<open>extensions/common.h\<close>, assignment by assignment over a memory of
    links. \<open>is_clist\<close> relates the links to a list; the locale \<open>link_queue\<close> states what a queue promises.
  \<^item> \<open>Timeout_Heap\<close>: \<^verbatim>\<open>heap_insert\<close>, \<^verbatim>\<open>heap_delete\<close>, \<^verbatim>\<open>_st_add_sleep_q\<close> and \<^verbatim>\<open>_st_del_sleep_q\<close> of \<^verbatim>\<open>sched.c\<close> on the
    \<open>left\<close>/\<open>right\<close> pointers. Insertion and deletion terminate, keep shape, order and indices, and change the set of sleepers by one thread;
    the least due time is at the root. The locale \<open>timer_queue\<close> is what the scheduler uses of this.
  \<^item> \<open>Sched_State\<close>, \<open>Sched\<close>: the thread record and the VP record (\<^verbatim>\<open>_st_thread\<close>, \<^verbatim>\<open>_st_vp\<close>), the scheduler invariant, the clock check,
    dispatcher and interrupt of \<^verbatim>\<open>sched.c\<close>. The dispatcher implements the FIFO policy \<open>sched_pick\<close>, and waiting on the run queue is bounded.
  \<^item> \<open>Sync\<close>: \<^verbatim>\<open>sync.c\<close>, with each blocking function split at the point where the thread is switched away.
    \<open>Sync_Machine\<close>: the threads of a VP as a step relation over these pieces; invariants of all interleavings, ownership after a lock, no
    lost wake-up.
  \<^item> \<open>Keys\<close>: \<^verbatim>\<open>key.c\<close>. \<open>Stacks\<close>: \<^verbatim>\<open>stk.c\<close>. \<open>Threads\<close>: creation, start, exit, join, initialisation and the idle loops of \<^verbatim>\<open>sched.c\<close>, over
    stacks, keys and the scheduler.
  \<^item> \<open>Event\<close>, \<open>Poll\<close>: the select event system of \<^verbatim>\<open>event.c\<close> with its counts and descriptor groups, its dispatcher, and \<^verbatim>\<open>st_poll\<close>.
  \<^item> \<open>Netio\<close>: \<^verbatim>\<open>io_win.c\<close>: descriptor objects, error translation, and the blocking I/O functions with what they deliver.
  \<^item> \<open>Lrucache\<close>, \<open>Lrucache_Inv\<close>, \<open>Lrucache_Spec\<close>: \<^verbatim>\<open>extensions/lrucache.c\<close>: operations, invariant, sequences of operations, the eviction
    policy \<open>make_room\<close>. The locale \<open>key_fns\<close> states what the cache needs of hash and comparison.
  \<^item> \<open>Dnscache\<close>: \<^verbatim>\<open>extensions/dnscache.c\<close>, the cache instance for host names. \<open>Dnsres\<close>, \<open>Dnsres_Spec\<close>: \<^verbatim>\<open>extensions/dnsres.c\<close> and
    \<^verbatim>\<open>examples/res.c\<close>: the answer parsers on packet offsets, the query loop over the I/O functions, the search; and the DNS cache over the network
    resolver. The locale \<open>answer_parser\<close> is what the query loop needs of a parser.
  \<^item> \<open>Fiber\<close>: \<^verbatim>\<open>fiber/context.h\<close> and \<^verbatim>\<open>fiber/fiber.cpp\<close>: the guards, contexts and the switch, and that they implement the view of fibers that
    \<open>Sched_State\<close> has.
  \<^item> \<open>Cstdlib\<close>: what the programs use of the C library. \<open>Process\<close>: user, session, directory, descriptors and signal state of a
    process, and the functions of \<^verbatim>\<open>examples/server.c\<close> and \<^verbatim>\<open>examples/proxy.c\<close> that change them.
  \<^item> \<open>Proxy\<close>: \<^verbatim>\<open>examples/proxy.c\<close>. \<open>Server\<close>, \<open>Server_Main\<close>: \<^verbatim>\<open>examples/server.c\<close>: options, thread pools as a state machine, sessions,
    watchdog, and the start of the server in \<^verbatim>\<open>main\<close>. \<open>Testdns\<close>: \<^verbatim>\<open>extensions/testdns.c\<close>. \<open>Fileio\<close>: \<^verbatim>\<open>extensions/stx_fileio.c\<close>.
    \<open>Errlog\<close>: \<^verbatim>\<open>examples/error.c\<close>.

  \<^bold>\<open>How code is modelled.\<close> A structure is a record, with a field per member the code uses; memory that is shared or freed is a map from addresses, in
  which a freed object is absent, so that a use of freed memory, a read outside a buffer or a division by zero is the result \<open>None\<close>. Times, flags and
  counters that may wrap are words of the width they have in the 64-bit build. An error is a result with its \<open>errno\<close>.

  \<^bold>\<open>The system and the other threads.\<close> A function that calls the operating system takes the results of the calls as an argument: for the I/O loops
  a \<^emph>\<open>script\<close>, one item for each attempt, with what the other threads do to the state if the attempt waits. A loop over a script yields \<open>None\<close>
  only when the script ends before the loop returns. The theorems that such a function returns show it for a script that contains an attempt
  which ends the loop, and the theorems on results cover every script. What other threads do is a function on states or a step relation, restricted to what the
  invariants allow; the machines of \<open>Sync_Machine\<close>, \<open>Server\<close> and \<open>Lrucache_Spec\<close> quantify over all interleavings.

  \<^bold>\<open>Loops.\<close> No definition uses fuel. Loops along pointers (sifting in the heap, the clock check, walks along a circular list, a hash chain
  or the LRU list) are \<open>partial_function\<close>s with result \<open>None\<close> for a loop that does not return, and the lemmas show that on well-formed states the
  result is \<open>Some\<close>. All other loops are recursions on lists, numbers or scripts.

  \<^bold>\<open>Interfaces.\<close> Each locale is interpreted on the definitions of the component that provides it: \<open>link_queue\<close> as \<open>stq\<close> on the \<open>ST_\<close> list
  macros, \<open>timer_queue\<close> as \<open>tq\<close> on the timeout heap, \<open>waiting_poll\<close> as \<open>np\<close> and \<open>dp\<close> on \<open>st_netfd_poll\<close> with the state of a caller alone and with that of
  all threads, \<open>key_fns\<close> as \<open>dns\<close> on host names, \<open>answer_parser\<close> as \<open>ap\<close> on \<open>parse_answer\<close>.

  \<^bold>\<open>Parameters.\<close> Code outside the repository is an argument: \<^verbatim>\<open>select\<close> and the socket calls, allocation, the clock, the cstl maps of
  \<^verbatim>\<open>event.c\<close>, the functions of the resolver library (\<^verbatim>\<open>res_mkquery\<close>, \<^verbatim>\<open>dn_skipname\<close>, \<^verbatim>\<open>dn_expand\<close>), \<^verbatim>\<open>fork\<close>, \<^verbatim>\<open>pipe\<close>,
  \<^verbatim>\<open>strdup\<close>, \<^verbatim>\<open>vsprintf\<close>, \<^verbatim>\<open>strerror\<close>, \<^verbatim>\<open>localtime\<close>; and the callbacks of an application (destructors, start routines, cleanup
  functions, switch hooks). The fiber functions of Windows are written out in \<open>Fiber\<close> from their documentation.

  \<^bold>\<open>Not modelled.\<close>
  \<^item> \<^verbatim>\<open>st_writev_resid\<close> and \<^verbatim>\<open>st_write_resid\<close> (\<^verbatim>\<open>io_win.c\<close>): they pass \<^verbatim>\<open>struct iovec **\<close> and \<^verbatim>\<open>int *\<close> to a function that takes
    \<^verbatim>\<open>struct iovec *\<close> and \<^verbatim>\<open>int\<close>, so they have no defined behaviour.
  \<^item> The \<^verbatim>\<open>DEBUG\<close> version of \<^verbatim>\<open>pass\<close> in \<^verbatim>\<open>proxy.c\<close>: it calls functions this port does not have.
  \<^item> Conditional code that the Windows build leaves out: stack segments from \<^verbatim>\<open>mmap\<close>, and the test for a bad descriptor in
    \<^verbatim>\<open>_st_select_find_bad_fd\<close> (\<^verbatim>\<open>event.c\<close>) with the wake-up that follows it; the rest of that function is modelled.
  \<^item> \<^verbatim>\<open>cleanup_entry\<close> of \<^verbatim>\<open>dnscache.c\<close> only frees memory; the cache model logs its call.
  \<^item> In \<^verbatim>\<open>server.c\<close> the empty stubs of the access log and the thread that flushes it, the wording of messages, and \<^verbatim>\<open>cpu_count\<close>, whose result is an
    argument here and in \<^verbatim>\<open>proxy.c\<close>.
  \<^item> The C++ programs under \<^verbatim>\<open>examples/\<close>, which print and call the library, and the headers \<^verbatim>\<open>st.h\<close> and \<^verbatim>\<open>stx.h\<close>, which only declare what is modelled
    with its source.
\<close>

end
